(* ===== verification/Prelude.thy ===== *)
theory Prelude
  imports Main "HOL-Library.Word" "HOL-Library.Multiset"
begin

unbundle bit_operations_syntax

text \<open>
  Shared vocabulary of the development.

  The C code mixes 16-bit and 32-bit integers freely, so a C value is an \<^typ>\<open>int\<close> and
  every place where the code stores into, casts to, or computes in a fixed width applies
  the conversion of that width: \<open>s16\<close>, \<open>s32\<close> (two's complement), \<open>u16\<close>, \<open>u32\<close> (modulo).
  The sum of two \<open>int16_t\<close> is an \<open>int\<close> expression in C and is written without conversion
  where it cannot leave 32 bits; a 32-bit operation that may leave its range is written
  \<open>s32 (a + b)\<close>, the wrap-around of the project's targets.  \<open>x >> n\<close> on a signed value is
  the arithmetic shift, \<open>shr x n\<close> below.

  The locale \<open>c_int\<close> states what all conversions have in common; it is interpreted for
  each of them, and its lemmas are the ones that loops over wrapped sums need.
  Further sections hold the list lemmas (\<open>memcpy\<close>, windows of a list, even and odd
  samples), and the locales \<open>filter_section\<close> and \<open>block_filter\<close> for loops that carry a filter state
  through a block of samples.
\<close>

section \<open>Named collections\<close>

named_theorems c_ranges \<open>ranges of values computed by the model\<close>
named_theorems c_shape \<open>lengths of the arrays the model returns\<close>

section \<open>Fixed-width integers\<close>

type_synonym int16 = int
type_synonym int32 = int
type_synonym uint32 = int

definition s16 :: "int \<Rightarrow> int" where
  "s16 x = (x + 32768) mod 65536 - 32768"

definition s32 :: "int \<Rightarrow> int" where
  "s32 x = (x + 2147483648) mod 4294967296 - 2147483648"

definition u16 :: "int \<Rightarrow> int" where
  "u16 x = x mod 65536"

definition u32 :: "int \<Rightarrow> int" where
  "u32 x = x mod 4294967296"

text \<open>The definitions agree with the bit-level view of the conversions.\<close>

lemma s16_signed_take_bit: "s16 x = signed_take_bit 15 x"
  by (simp add: s16_def signed_take_bit_eq_take_bit_shift take_bit_eq_mod)

lemma s32_signed_take_bit: "s32 x = signed_take_bit 31 x"
  by (simp add: s32_def signed_take_bit_eq_take_bit_shift take_bit_eq_mod)

lemma s32_sint_word: "s32 x = sint (word_of_int x :: 32 word)"
  by (simp add: s32_signed_take_bit signed_of_int)

abbreviation shr :: "int \<Rightarrow> nat \<Rightarrow> int" where
  "shr x n \<equiv> x div 2 ^ n"

abbreviation shl32 :: "int \<Rightarrow> nat \<Rightarrow> int" where
  "shl32 x n \<equiv> s32 (x * 2 ^ n)"

text \<open>C division truncates towards zero.\<close>

definition cdiv :: "int \<Rightarrow> int \<Rightarrow> int" where
  "cdiv a b = sgn a * sgn b * (\<bar>a\<bar> div \<bar>b\<bar>)"

locale c_int =
  fixes conv :: "int \<Rightarrow> int" and lo hi :: int
  assumes conv_range: "lo \<le> conv x \<and> conv x \<le> hi"
    and conv_id: "lo \<le> x \<Longrightarrow> x \<le> hi \<Longrightarrow> conv x = x"
    and conv_dvd: "hi - lo + 1 dvd conv x - x"
begin

lemma conv_lo: "lo \<le> conv x"
  using conv_range by blast

lemma conv_hi: "conv x \<le> hi"
  using conv_range by blast

lemma conv_conv: "conv (conv x) = conv x"
  using conv_range conv_id by blast

lemma conv_eqI:
  assumes "hi - lo + 1 dvd x - y"
  shows "conv x = conv y"
proof -
  have "hi - lo + 1 dvd (conv x - x) + (x - y) - (conv y - y)"
    by (intro dvd_add dvd_diff conv_dvd assms)
  then have dv: "hi - lo + 1 dvd conv x - conv y" by simp
  have "\<bar>conv x - conv y\<bar> < hi - lo + 1"
    using conv_range [of x] conv_range [of y] by linarith
  with dv have "conv x - conv y = 0"
    by (metis abs_of_pos dvd_imp_le_int linorder_not_le order_le_less_trans abs_ge_zero)
  then show ?thesis by simp
qed

lemma conv_add_left: "conv (conv x + y) = conv (x + y)"
  by (rule conv_eqI) (use conv_dvd [of x] in simp)

lemma conv_add_right: "conv (x + conv y) = conv (x + y)"
  by (rule conv_eqI) (use conv_dvd [of y] in simp)

lemma conv_diff_left: "conv (conv x - y) = conv (x - y)"
  by (rule conv_eqI) (use conv_dvd [of x] in simp)

lemma conv_diff_right: "conv (x - conv y) = conv (x - y)"
proof (rule conv_eqI)
  have "hi - lo + 1 dvd - (conv y - y)"
    using conv_dvd [of y] by (simp only: dvd_minus_iff)
  then show "hi - lo + 1 dvd x - conv y - (x - y)" by simp
qed

lemma conv_mult_left: "conv (conv x * y) = conv (x * y)"
proof (rule conv_eqI)
  have "hi - lo + 1 dvd (conv x - x) * y" using conv_dvd [of x] by simp
  then show "hi - lo + 1 dvd conv x * y - x * y" by (simp add: algebra_simps)
qed

lemma conv_fixed_iff: "conv x = x \<longleftrightarrow> lo \<le> x \<and> x \<le> hi"
  using conv_id conv_range [of x] by force

text \<open>A loop that accumulates with a conversion at each step computes the converted sum.\<close>

lemma conv_fold_sum:
  "fold (\<lambda>x acc. conv (acc + f x)) xs (conv a) = conv (a + (\<Sum>x\<leftarrow>xs. f x))"
  by (induction xs arbitrary: a) (simp_all add: conv_add_left add.assoc)

end

lemma mod_shift_dvd: "m dvd (x + c) mod m - c - (x::int)"
proof -
  have "m dvd (x + c) mod m - (x + c)"
    by (metis dvd_minus_iff minus_diff_eq dvd_minus_mod)
  then show ?thesis by (simp add: algebra_simps)
qed

interpretation i16: c_int s16 "-32768" 32767
  by unfold_locales (use mod_shift_dvd [of 65536 _ 32768] in \<open>auto simp: s16_def\<close>)

interpretation i32: c_int s32 "-2147483648" 2147483647
  by unfold_locales (use mod_shift_dvd [of 4294967296 _ 2147483648] in \<open>auto simp: s32_def\<close>)

interpretation n16: c_int u16 0 65535
  by unfold_locales (use mod_shift_dvd [of 65536 _ 0] in \<open>auto simp: u16_def\<close>)

interpretation n32: c_int u32 0 4294967295
  by unfold_locales (use mod_shift_dvd [of 4294967296 _ 0] in \<open>auto simp: u32_def\<close>)

lemma s16_id [simp]: "-32768 \<le> x \<Longrightarrow> x \<le> 32767 \<Longrightarrow> s16 x = x"
  by (rule i16.conv_id)

lemma s32_id [simp]: "-2147483648 \<le> x \<Longrightarrow> x \<le> 2147483647 \<Longrightarrow> s32 x = x"
  by (rule i32.conv_id)

lemma u32_id [simp]: "0 \<le> x \<Longrightarrow> x \<le> 4294967295 \<Longrightarrow> u32 x = x"
  by (rule n32.conv_id)

lemmas conv_ranges = i16.conv_lo i16.conv_hi i32.conv_lo i32.conv_hi
  n16.conv_lo n16.conv_hi n32.conv_lo n32.conv_hi

definition is_s16 :: "int \<Rightarrow> bool" where
  "is_s16 x \<longleftrightarrow> -32768 \<le> x \<and> x \<le> 32767"

definition is_s32 :: "int \<Rightarrow> bool" where
  "is_s32 x \<longleftrightarrow> -2147483648 \<le> x \<and> x \<le> 2147483647"

lemma is_s16_abs: "is_s16 x \<Longrightarrow> \<bar>x\<bar> \<le> 32768"
  by (auto simp: is_s16_def)

lemma is_s16_s16 [simp]: "is_s16 (s16 x)"
  using i16.conv_range by (simp add: is_s16_def)

lemma is_s32_s32 [simp]: "is_s32 (s32 x)"
  using i32.conv_range by (simp add: is_s32_def)

section \<open>The multiplication macros of the signal processing library\<close>

text \<open>
  \<open>WEBRTC_SPL_MUL_16_16\<close> and \<open>WEBRTC_SPL_MUL_16_16_RSFT\<close> of
  \<open>signal_processing_library.h\<close>: the operands are cast to \<open>int16_t\<close>, so the product
  always fits \<open>int32_t\<close>.
\<close>

definition MUL_16_16 :: "int \<Rightarrow> int \<Rightarrow> int" where
  "MUL_16_16 a b = s16 a * s16 b"

definition MUL_16_16_RSFT :: "int \<Rightarrow> int \<Rightarrow> nat \<Rightarrow> int" where
  "MUL_16_16_RSFT a b c = shr (MUL_16_16 a b) c"

definition ABS_W16 :: "int \<Rightarrow> int" where
  "ABS_W16 a = (if s16 a \<ge> 0 then s16 a else - s16 a)"

definition ABS_W32 :: "int \<Rightarrow> int" where
  "ABS_W32 a = (if s32 a \<ge> 0 then s32 a else s32 (- s32 a))"

lemma abs_mult_le:
  fixes a b :: int
  assumes "\<bar>a\<bar> \<le> m" "\<bar>b\<bar> \<le> n"
  shows "\<bar>a * b\<bar> \<le> m * n"
  using assms by (simp add: abs_mult mult_mono')

lemma MUL_16_16_range [c_ranges]: "\<bar>MUL_16_16 a b\<bar> \<le> 1073741824"
proof -
  have "\<bar>s16 a\<bar> \<le> 32768" "\<bar>s16 b\<bar> \<le> 32768"
    using i16.conv_range [of a] i16.conv_range [of b] by auto
  then have "\<bar>s16 a * s16 b\<bar> \<le> 32768 * 32768" by (rule abs_mult_le)
  then show ?thesis by (simp add: MUL_16_16_def)
qed

lemma shr_mono: "a \<le> b \<Longrightarrow> shr a n \<le> shr b n"
  by (rule zdiv_mono1) simp_all

lemma div_less_iff:
  fixes a b c :: int
  assumes "0 < c"
  shows "a div c < b \<longleftrightarrow> a < b * c"
proof
  assume "a div c < b"
  then have "(a div c + 1) * c \<le> b * c" using assms by (intro mult_right_mono) simp_all
  moreover have "a < (a div c + 1) * c"
    using pos_mod_bound [OF assms, of a] div_mult_mod_eq [of a c] unfolding distrib_right by linarith
  ultimately show "a < b * c" by linarith
next
  assume less: "a < b * c"
  have "a div c * c \<le> a" using pos_mod_sign [OF assms, of a] div_mult_mod_eq [of a c] by linarith
  with less have "a div c * c < b * c" by linarith
  then show "a div c < b" using assms by (simp add: mult_less_cancel_right)
qed

lemma le_div_iff: "0 < c \<Longrightarrow> b \<le> a div c \<longleftrightarrow> b * c \<le> (a::int)"
  using div_less_iff [of c a b] by linarith

lemma shr_less_iff: "shr a n < b \<longleftrightarrow> a < b * 2 ^ n"
  by (rule div_less_iff) simp

lemma le_shr_iff: "b \<le> shr a n \<longleftrightarrow> b * 2 ^ n \<le> a"
  by (rule le_div_iff) simp

lemma shr_abs:
  assumes "\<bar>a\<bar> \<le> m * 2 ^ n"
  shows "\<bar>shr a n\<bar> \<le> m"
proof -
  have "- m \<le> shr a n" unfolding le_shr_iff using assms by (simp add: abs_le_iff)
  moreover have "m * 2 ^ n < (m + 1) * 2 ^ n" by (simp add: distrib_right)
  then have "shr a n < m + 1" unfolding shr_less_iff using assms by linarith
  ultimately show ?thesis by simp
qed

lemma MUL_RSFT_abs:
  assumes "\<bar>a\<bar> \<le> k" "\<bar>b\<bar> \<le> l" "is_s16 a" "is_s16 b" "k * l \<le> m * 2 ^ n"
  shows "\<bar>MUL_16_16_RSFT a b n\<bar> \<le> m"
proof -
  have "MUL_16_16 a b = a * b" using assms(3,4) by (simp add: MUL_16_16_def is_s16_def)
  moreover have "\<bar>a * b\<bar> \<le> m * 2 ^ n" using abs_mult_le [OF assms(1,2)] assms(5) by linarith
  ultimately show ?thesis by (simp add: MUL_16_16_RSFT_def shr_abs)
qed

lemma shr_le_self: "0 \<le> a \<Longrightarrow> shr a n \<le> a"
  by (metis div_by_1 zdiv_mono2 zero_less_one one_le_power one_le_numeral zero_less_power zero_less_numeral int_one_le_iff_zero_less)

lemma cdiv_pos: "0 \<le> a \<Longrightarrow> 0 < b \<Longrightarrow> cdiv a b = a div b"
  by (cases "a = 0") (simp_all add: cdiv_def)

lemma abs_cdiv_le: "\<bar>cdiv a b\<bar> \<le> \<bar>a\<bar>"
proof (cases "b = 0")
  case False
  then have "\<bar>a\<bar> div \<bar>b\<bar> \<le> \<bar>a\<bar>"
    by (metis abs_ge_zero div_by_1 zero_less_abs_iff zdiv_mono2 int_one_le_iff_zero_less zero_less_one)
  then show ?thesis
    by (auto simp: cdiv_def abs_mult sgn_if pos_imp_zdiv_nonneg_iff)
qed (simp add: cdiv_def)

section \<open>Arrays\<close>

text \<open>\<open>memcpy(dst + off, src, n)\<close> for a whole source list.\<close>

definition blit :: "'a list \<Rightarrow> nat \<Rightarrow> 'a list \<Rightarrow> 'a list" where
  "blit dst off src = take off dst @ src @ drop (off + length src) dst"

lemma length_blit [simp]:
  "off + length src \<le> length dst \<Longrightarrow> length (blit dst off src) = length dst"
  by (simp add: blit_def)

lemma blit_Nil [simp]: "blit dst off [] = dst"
  by (simp add: blit_def)

lemma nth_blit:
  assumes "off + length src \<le> length dst" "i < length dst"
  shows "blit dst off src ! i =
    (if i < off then dst ! i else if i < off + length src then src ! (i - off) else dst ! i)"
  using assms by (auto simp: blit_def nth_append min_def)

lemma take_blit_before: "k \<le> off \<Longrightarrow> off \<le> length dst \<Longrightarrow> take k (blit dst off src) = take k dst"
  by (simp add: blit_def min_def)

lemma take_blit_full:
  "off \<le> length dst \<Longrightarrow> take (off + length src) (blit dst off src) = take off dst @ src"
  by (simp add: blit_def)

lemma drop_blit_after:
  "off + length src \<le> k \<Longrightarrow> off \<le> length dst \<Longrightarrow> drop k (blit dst off src) = drop k dst"
  by (simp add: blit_def add.commute)

lemma blit_Cons:
  assumes "off + length src < length dst"
  shows "blit dst off (x # src) = blit (dst[off := x]) (Suc off) src"
proof -
  have "take (Suc off) (dst[off := x]) = take off dst @ [x]"
    using assms by (simp add: take_Suc_conv_app_nth)
  moreover have "drop (Suc off + length src) (dst[off := x]) = drop (Suc off + length src) dst"
    by simp
  ultimately show ?thesis by (simp add: blit_def)
qed

lemma take_drop_blit: "off \<le> length dst \<Longrightarrow> n = length src \<Longrightarrow> take n (drop off (blit dst off src)) = src"
  by (simp add: blit_def)

lemma list_all_update [simp]: "list_all P xs \<Longrightarrow> P y \<Longrightarrow> list_all P (xs[i := y])"
  using set_update_subset_insert [of xs i y] by (auto simp: list_all_iff)

lemma list_all_nthD: "list_all P xs \<Longrightarrow> i < length xs \<Longrightarrow> P (xs ! i)"
  by (simp add: list_all_length)

lemma list_all_blit: "list_all P xs \<Longrightarrow> list_all P ys \<Longrightarrow> list_all P (blit xs off ys)"
  by (auto simp: blit_def list_all_iff dest: in_set_takeD in_set_dropD)

text \<open>Even- and odd-indexed samples, as the by-two filters read them.\<close>

fun evens :: "'a list \<Rightarrow> 'a list" where
  "evens [] = []"
| "evens [x] = [x]"
| "evens (x # y # xs) = x # evens xs"

fun odds :: "'a list \<Rightarrow> 'a list" where
  "odds [] = []"
| "odds [x] = []"
| "odds (x # y # xs) = y # odds xs"

fun interleave :: "'a list \<Rightarrow> 'a list \<Rightarrow> 'a list" where
  "interleave (x # xs) (y # ys) = x # y # interleave xs ys"
| "interleave _ _ = []"

lemma length_evens [simp]: "length (evens xs) = (length xs + 1) div 2"
  by (induction xs rule: evens.induct) simp_all

lemma length_odds [simp]: "length (odds xs) = length xs div 2"
  by (induction xs rule: odds.induct) simp_all

lemma length_interleave [simp]:
  "length (interleave xs ys) = 2 * min (length xs) (length ys)"
  by (induction xs ys rule: interleave.induct) simp_all

lemma evens_interleave: "length xs = length ys \<Longrightarrow> evens (interleave xs ys) = xs"
  by (induction xs ys rule: interleave.induct) auto

lemma odds_interleave: "length xs = length ys \<Longrightarrow> odds (interleave xs ys) = ys"
  by (induction xs ys rule: interleave.induct) auto

lemma map_evens: "map f (evens xs) = evens (map f xs)"
  by (induction xs rule: evens.induct) simp_all

lemma map_odds: "map f (odds xs) = odds (map f xs)"
  by (induction xs rule: odds.induct) simp_all

lemma map_interleave: "map f (interleave xs ys) = interleave (map f xs) (map f ys)"
  by (induction xs ys rule: interleave.induct) simp_all

lemma set_evens: "set (evens xs) \<subseteq> set xs"
  by (induction xs rule: evens.induct) auto

lemma set_odds: "set (odds xs) \<subseteq> set xs"
  by (induction xs rule: odds.induct) auto

section \<open>Loops that carry a filter state\<close>

text \<open>
  The filters of the library are loops \<open>for (i = 0; i < n; i++)\<close> whose body reads one
  input sample, updates the filter state and writes one output sample.
\<close>

fun run :: "('s \<Rightarrow> 'a \<Rightarrow> 's \<times> 'b) \<Rightarrow> 's \<Rightarrow> 'a list \<Rightarrow> 's \<times> 'b list" where
  "run f s [] = (s, [])"
| "run f s (x # xs) = (let (s1, y) = f s x; (s2, ys) = run f s1 xs in (s2, y # ys))"

lemma length_run [simp]: "length (snd (run f s xs)) = length xs"
  by (induction xs arbitrary: s) (simp_all add: Let_def case_prod_beta)

lemma fst_run_Cons: "fst (run f s (x # xs)) = fst (run f (fst (f s x)) xs)"
  by (simp add: Let_def case_prod_beta)

lemma snd_run_Cons: "snd (run f s (x # xs)) = snd (f s x) # snd (run f (fst (f s x)) xs)"
  by (simp add: Let_def case_prod_beta)

lemma run_append:
  "run f s (xs @ ys) =
     (let (s1, us) = run f s xs; (s2, vs) = run f s1 ys in (s2, us @ vs))"
  by (induction xs arbitrary: s) (auto simp: Let_def split: prod.splits)

lemma run_map_in: "run f s (map g xs) = run (\<lambda>s x. f s (g x)) s xs"
  by (induction xs arbitrary: s) (auto simp: Let_def split: prod.splits)

lemma run_map_out:
  "run (\<lambda>s x. let (s', y) = f s x in (s', g y)) s xs =
     (let (s', ys) = run f s xs in (s', map g ys))"
  by (induction xs arbitrary: s) (auto simp: Let_def split: prod.splits)

text \<open>
  The contract of a filter section: the state stays in \<open>st\<close> and the outputs in \<open>out\<close>
  as long as the inputs are in \<open>inp\<close>.
\<close>

locale filter_section =
  fixes step :: "'s \<Rightarrow> 'a \<Rightarrow> 's \<times> 'b"
    and st :: "'s \<Rightarrow> bool" and inp :: "'a \<Rightarrow> bool" and out :: "'b \<Rightarrow> bool"
  assumes step_st: "st s \<Longrightarrow> inp x \<Longrightarrow> st (fst (step s x))"
    and step_out: "st s \<Longrightarrow> inp x \<Longrightarrow> out (snd (step s x))"
begin

lemma run_st: "st s \<Longrightarrow> \<forall>x\<in>set xs. inp x \<Longrightarrow> st (fst (run step s xs))"
  by (induction xs arbitrary: s) (simp_all add: Let_def case_prod_beta step_st)

lemma run_out: "st s \<Longrightarrow> \<forall>x\<in>set xs. inp x \<Longrightarrow> \<forall>y\<in>set (snd (run step s xs)). out y"
proof (induction xs arbitrary: s)
  case (Cons x xs)
  from Cons.prems have "st (fst (step s x))" "out (snd (step s x))"
    by (auto intro: step_st step_out)
  with Cons.prems Cons.IH [of "fst (step s x)"] show ?case
    by (auto simp: Let_def split: prod.splits)
qed simp

end

text \<open>
  A filter over blocks of samples streams if filtering two blocks one after the other,
  with the state carried over, is filtering their concatenation.
\<close>

definition streams_at :: "('a list \<Rightarrow> 's \<Rightarrow> 'b list \<times> 's) \<Rightarrow> 'a list \<Rightarrow> 'a list \<Rightarrow> 's \<Rightarrow> bool" where
  "streams_at f xs ys s \<longleftrightarrow>
     f (xs @ ys) s = (let (out1, s1) = f xs s; (out2, s2) = f ys s1 in (out1 @ out2, s2))"

fun run_blocks :: "('a list \<Rightarrow> 's \<Rightarrow> 'b list \<times> 's) \<Rightarrow> 'a list list \<Rightarrow> 's \<Rightarrow> 'b list \<times> 's" where
  "run_blocks f [] s = ([], s)"
| "run_blocks f (b # bs) s =
     (let (out1, s1) = f b s; (out2, s2) = run_blocks f bs s1 in (out1 @ out2, s2))"

locale block_filter =
  fixes f :: "'a list \<Rightarrow> 's \<Rightarrow> 'b list \<times> 's"
    and ok_st :: "'s \<Rightarrow> bool" and ok_blk :: "'a list \<Rightarrow> bool"
  assumes f_append: "ok_blk xs \<Longrightarrow> ok_st s \<Longrightarrow> streams_at f xs ys s"
    and f_st: "ok_st s \<Longrightarrow> ok_st (snd (f xs s))"
    and f_Nil: "ok_st s \<Longrightarrow> f [] s = ([], s)"
begin

lemma run_blocks_concat:
  "\<forall>b\<in>set bs. ok_blk b \<Longrightarrow> ok_st s \<Longrightarrow> run_blocks f bs s = f (concat bs) s"
proof (induction bs arbitrary: s)
  case Nil
  then show ?case by (simp add: f_Nil)
next
  case (Cons b bs)
  then have "f (b @ concat bs) s =
      (let (out1, s1) = f b s; (out2, s2) = f (concat bs) s1 in (out1 @ out2, s2))"
    using f_append [of b s "concat bs"] by (simp add: streams_at_def)
  then show ?case using Cons f_st [of s b] by (simp add: Let_def case_prod_unfold)
qed

end

end
