(* ===== verification/SplArith.thy ===== *)
theory SplArith
  imports Prelude
begin

text \<open>
  The scalar functions of the fixed-point signal processing library: the saturating
  operations and normalisation counts of \<open>spl_inl.h\<close> (C versions),
  \<open>division_operations.c\<close>, \<open>get_scaling_square.c\<close>, \<open>energy.c\<close>, \<open>spl_sqrt_floor.c\<close> and
  \<open>spl_sqrt.c\<close>.  The lemmas give each its mathematical meaning: saturation is clamping,
  a normalisation count is the number of redundant sign bits, \<open>WebRtcSpl_SqrtFloor\<close> is the
  integer square root, the scaled energy is an exact sum.
\<close>

section \<open>Saturating operations\<close>

definition WebRtcSpl_SatW32ToW16 :: "int32 \<Rightarrow> int16" where
  "WebRtcSpl_SatW32ToW16 value32 =
     (if value32 > 32767 then 32767 else if value32 < -32768 then -32768 else s16 value32)"

definition WebRtcSpl_AddSatW32 :: "int32 \<Rightarrow> int32 \<Rightarrow> int32" where
  "WebRtcSpl_AddSatW32 l_var1 l_var2 =
     (let l_sum = s32 (l_var1 + l_var2) in
      if l_var1 < 0
      then (if l_var2 < 0 \<and> l_sum \<ge> 0 then -2147483648 else l_sum)
      else (if l_var2 > 0 \<and> l_sum < 0 then 2147483647 else l_sum))"

definition WebRtcSpl_SubSatW32 :: "int32 \<Rightarrow> int32 \<Rightarrow> int32" where
  "WebRtcSpl_SubSatW32 l_var1 l_var2 =
     (let l_diff = s32 (l_var1 - l_var2) in
      if l_var1 < 0
      then (if l_var2 > 0 \<and> l_diff > 0 then -2147483648 else l_diff)
      else (if l_var2 < 0 \<and> l_diff < 0 then 2147483647 else l_diff))"

definition WebRtcSpl_AddSatW16 :: "int16 \<Rightarrow> int16 \<Rightarrow> int16" where
  "WebRtcSpl_AddSatW16 a b = WebRtcSpl_SatW32ToW16 (a + b)"

definition WebRtcSpl_SubSatW16 :: "int16 \<Rightarrow> int16 \<Rightarrow> int16" where
  "WebRtcSpl_SubSatW16 var1 var2 = WebRtcSpl_SatW32ToW16 (var1 - var2)"

section \<open>Normalisation counts\<close>

definition WebRtcSpl_GetSizeInBits :: "uint32 \<Rightarrow> int" where
  "WebRtcSpl_GetSizeInBits n =
     (let bits = (if 0xFFFF0000 AND n \<noteq> 0 then 16 else (0::nat));
          bits = (if 0x0000FF00 AND shr n bits \<noteq> 0 then bits + 8 else bits);
          bits = (if 0x000000F0 AND shr n bits \<noteq> 0 then bits + 4 else bits);
          bits = (if 0x0000000C AND shr n bits \<noteq> 0 then bits + 2 else bits);
          bits = (if 0x00000002 AND shr n bits \<noteq> 0 then bits + 1 else bits);
          bits = (if 0x00000001 AND shr n bits \<noteq> 0 then bits + 1 else bits)
      in int bits)"

definition WebRtcSpl_NormW32 :: "int32 \<Rightarrow> int" where
  "WebRtcSpl_NormW32 a0 =
     (if a0 = 0 then 0
      else let a = (if a0 < 0 then NOT a0 else a0);
               zeros = (if 0xFFFF8000 AND u32 a = 0 then 16 else (0::nat));
               zeros = (if 0xFF800000 AND u32 (a * 2 ^ zeros) = 0 then zeros + 8 else zeros);
               zeros = (if 0xF8000000 AND u32 (a * 2 ^ zeros) = 0 then zeros + 4 else zeros);
               zeros = (if 0xE0000000 AND u32 (a * 2 ^ zeros) = 0 then zeros + 2 else zeros);
               zeros = (if 0xC0000000 AND u32 (a * 2 ^ zeros) = 0 then zeros + 1 else zeros)
           in int zeros)"

definition WebRtcSpl_NormU32 :: "uint32 \<Rightarrow> int" where
  "WebRtcSpl_NormU32 a =
     (if a = 0 then 0
      else let zeros = (if 0xFFFF0000 AND a = 0 then 16 else (0::nat));
               zeros = (if 0xFF000000 AND u32 (a * 2 ^ zeros) = 0 then zeros + 8 else zeros);
               zeros = (if 0xF0000000 AND u32 (a * 2 ^ zeros) = 0 then zeros + 4 else zeros);
               zeros = (if 0xC0000000 AND u32 (a * 2 ^ zeros) = 0 then zeros + 2 else zeros);
               zeros = (if 0x80000000 AND u32 (a * 2 ^ zeros) = 0 then zeros + 1 else zeros)
           in int zeros)"

definition WebRtcSpl_NormW16 :: "int16 \<Rightarrow> int" where
  "WebRtcSpl_NormW16 a0 =
     (if a0 = 0 then 0
      else let a = (if a0 < 0 then NOT a0 else a0);
               zeros = (if 0xFF80 AND a = 0 then 8 else (0::nat));
               zeros = (if 0xF800 AND (a * 2 ^ zeros) = 0 then zeros + 4 else zeros);
               zeros = (if 0xE000 AND (a * 2 ^ zeros) = 0 then zeros + 2 else zeros);
               zeros = (if 0xC000 AND (a * 2 ^ zeros) = 0 then zeros + 1 else zeros)
           in int zeros)"

section \<open>Divisions\<close>

definition WebRtcSpl_DivU32U16 :: "uint32 \<Rightarrow> int \<Rightarrow> uint32" where
  "WebRtcSpl_DivU32U16 num den = (if den \<noteq> 0 then num div den else 0xFFFFFFFF)"

definition WebRtcSpl_DivW32W16 :: "int32 \<Rightarrow> int16 \<Rightarrow> int32" where
  "WebRtcSpl_DivW32W16 num den = (if den \<noteq> 0 then s32 (cdiv num den) else 0x7FFFFFFF)"

definition WebRtcSpl_DivW32W16ResW16 :: "int32 \<Rightarrow> int16 \<Rightarrow> int16" where
  "WebRtcSpl_DivW32W16ResW16 num den = (if den \<noteq> 0 then s16 (cdiv num den) else 0x7FFF)"

fun DivResultInQ31_loop :: "nat \<Rightarrow> int32 \<Rightarrow> int32 \<Rightarrow> int32 \<Rightarrow> int32" where
  "DivResultInQ31_loop 0 L_num L_den dv = dv"
| "DivResultInQ31_loop (Suc k) L_num L_den dv =
     (let dv = shl32 dv 1;
          L_num = shl32 L_num 1
      in if L_num \<ge> L_den
         then DivResultInQ31_loop k (s32 (L_num - L_den)) L_den (s32 (dv + 1))
         else DivResultInQ31_loop k L_num L_den dv)"

definition WebRtcSpl_DivResultInQ31 :: "int32 \<Rightarrow> int32 \<Rightarrow> int32" where
  "WebRtcSpl_DivResultInQ31 num den =
     (if num = 0 then 0
      else let change_sign = (if num < 0 then 1 else 0::nat);
               L_num = (if num < 0 then s32 (- num) else num);
               change_sign = (if den < 0 then change_sign + 1 else change_sign);
               L_den = (if den < 0 then s32 (- den) else den);
               dv = DivResultInQ31_loop 31 L_num L_den 0
           in if change_sign = 1 then s32 (- dv) else dv)"

definition WebRtcSpl_DivW32HiLow :: "int32 \<Rightarrow> int16 \<Rightarrow> int16 \<Rightarrow> int32" where
  "WebRtcSpl_DivW32HiLow num den_hi den_low =
     (let approx = s16 (WebRtcSpl_DivW32W16 0x1FFFFFFF den_hi);
          tmpW32 = s32 (shl32 (MUL_16_16 den_hi approx) 1
                        + shl32 (shr (MUL_16_16 den_low approx) 15) 1);
          tmpW32 = s32 (0x7fffffff - tmpW32);
          tmp_hi = s16 (shr tmpW32 16);
          tmp_low = s16 (shr (s32 (tmpW32 - shl32 tmp_hi 16)) 1);
          tmpW32 = shl32 (s32 (MUL_16_16 tmp_hi approx + shr (MUL_16_16 tmp_low approx) 15)) 1;
          tmp_hi = s16 (shr tmpW32 16);
          tmp_low = s16 (shr (s32 (tmpW32 - shl32 tmp_hi 16)) 1);
          num_hi = s16 (shr num 16);
          num_low = s16 (shr (s32 (num - shl32 num_hi 16)) 1);
          tmpW32 = s32 (s32 (MUL_16_16 num_hi tmp_hi + shr (MUL_16_16 num_hi tmp_low) 15)
                        + shr (MUL_16_16 num_low tmp_hi) 15)
      in shl32 tmpW32 3)"

section \<open>Scaling and energy\<close>

fun scaling_smax :: "int16 \<Rightarrow> int16 list \<Rightarrow> int16" where
  "scaling_smax smax [] = smax"
| "scaling_smax smax (x # xs) =
     (let sabs = s16 (if x > 0 then x else - x)
      in scaling_smax (if sabs > smax then sabs else smax) xs)"

definition WebRtcSpl_GetScalingSquare :: "int16 list \<Rightarrow> int \<Rightarrow> int" where
  "WebRtcSpl_GetScalingSquare in_vector n_times =
     (let nbits = WebRtcSpl_GetSizeInBits (u32 n_times);
          smax = scaling_smax (-1) in_vector;
          t = WebRtcSpl_NormW32 (s32 (smax * smax))
      in if smax = 0 then 0 else if t > nbits then 0 else nbits - t)"

fun energy_loop :: "nat \<Rightarrow> int16 list \<Rightarrow> int32 \<Rightarrow> int32" where
  "energy_loop scaling [] en = en"
| "energy_loop scaling (x # xs) en =
     energy_loop scaling xs (s32 (en + MUL_16_16_RSFT x x scaling))"

definition WebRtcSpl_Energy :: "int16 list \<Rightarrow> int32 \<times> int" where
  "WebRtcSpl_Energy vec =
     (let scaling = WebRtcSpl_GetScalingSquare vec (int (length vec))
      in (energy_loop (nat scaling) vec 0, scaling))"

section \<open>Square roots\<close>

definition SQRT_ITER :: "nat \<Rightarrow> int32 \<times> int32 \<Rightarrow> int32 \<times> int32" where
  "SQRT_ITER N vr =
     (let (value, root) = vr;
          try1 = s32 (root + 2 ^ N)
      in if value \<ge> shl32 try1 N
         then (s32 (value - shl32 try1 N), root OR 2 * 2 ^ N)
         else (value, root))"

fun sqrt_iters :: "nat \<Rightarrow> int32 \<times> int32 \<Rightarrow> int32 \<times> int32" where
  "sqrt_iters 0 vr = SQRT_ITER 0 vr"
| "sqrt_iters (Suc N) vr = sqrt_iters N (SQRT_ITER (Suc N) vr)"

definition WebRtcSpl_SqrtFloor :: "int32 \<Rightarrow> int32" where
  "WebRtcSpl_SqrtFloor value = shr (snd (sqrt_iters 15 (value, 0))) 1"

definition WebRtcSpl_SqrtLocal :: "int32 \<Rightarrow> int32" where
  "WebRtcSpl_SqrtLocal in0 =
     (let B = cdiv in0 2;
          B = s32 (B - 0x40000000);
          x_half = s16 (shr B 16);
          B = s32 (B + 0x40000000);
          B = s32 (B + 0x40000000);
          x2 = s32 (s32 (x_half * x_half) * 2);
          A = s32 (- x2);
          B = s32 (B + shr A 1);
          A = shr A 16;
          A = s32 (s32 (A * A) * 2);
          t16 = s16 (shr A 16);
          B = s32 (B + s32 (MUL_16_16 (-20480) t16 * 2));
          A = s32 (MUL_16_16 x_half t16 * 2);
          t16 = s16 (shr A 16);
          B = s32 (B + s32 (MUL_16_16 28672 t16 * 2));
          t16 = s16 (shr x2 16);
          A = s32 (MUL_16_16 x_half t16 * 2);
          B = s32 (B + shr A 1)
      in s32 (B + 32768))"

definition WebRtcSpl_Sqrt :: "int32 \<Rightarrow> int32" where
  "WebRtcSpl_Sqrt value =
     (if value = 0 then 0
      else let sh = WebRtcSpl_NormW32 value;
               A = shl32 value (nat sh);
               A = (if A < 0x7fffffff - 32767 then s32 (A + 32768) else 0x7fffffff);
               x_norm = s16 (shr A 16);
               nshift = cdiv sh 2;
               A = shl32 x_norm 16;
               A = ABS_W32 A;
               A = WebRtcSpl_SqrtLocal A;
               A = (if 2 * nshift = sh
                    then let t16 = s16 (shr A 16);
                             A = s32 (MUL_16_16 23170 t16 * 2);
                             A = s32 (A + 32768);
                             A = A AND 0x7fff0000
                         in shr A 15
                    else shr A 16);
               A = A AND 0x0000ffff
           in shr A (nat nshift))"

section \<open>Saturation is clamping\<close>

definition clamp :: "int \<Rightarrow> int \<Rightarrow> int \<Rightarrow> int" where
  "clamp lo hi x = max lo (min hi x)"

lemma SatW32ToW16_clamp: "WebRtcSpl_SatW32ToW16 x = clamp (-32768) 32767 x"
  by (auto simp: WebRtcSpl_SatW32ToW16_def clamp_def)

lemma SatW32ToW16_range [c_ranges]: "is_s16 (WebRtcSpl_SatW32ToW16 x)"
  by (simp add: SatW32ToW16_clamp clamp_def is_s16_def)

lemma s32_above: "2147483647 < x \<Longrightarrow> x \<le> 4294967294 \<Longrightarrow> s32 x = x - 4294967296"
  using i32.conv_eqI [of x "x - 4294967296"] by simp

lemma s32_below: "x < -2147483648 \<Longrightarrow> -4294967296 \<le> x \<Longrightarrow> s32 x = x + 4294967296"
  using i32.conv_eqI [of x "x + 4294967296"] by simp

lemma s32_cases:
  assumes "-4294967296 \<le> x" "x \<le> 4294967294"
  obtains "x < -2147483648" "s32 x = x + 4294967296"
  | "-2147483648 \<le> x" "x \<le> 2147483647" "s32 x = x"
  | "2147483647 < x" "s32 x = x - 4294967296"
  using assms s32_above s32_below s32_id by (metis linorder_not_less)

lemma AddSatW32_clamp:
  assumes "is_s32 a" "is_s32 b"
  shows "WebRtcSpl_AddSatW32 a b = clamp (-2147483648) 2147483647 (a + b)"
proof -
  have "-4294967296 \<le> a + b" "a + b \<le> 4294967294"
    using assms by (auto simp: is_s32_def)
  then show ?thesis
    by (cases rule: s32_cases)
      (use assms in \<open>auto simp: WebRtcSpl_AddSatW32_def clamp_def is_s32_def Let_def\<close>)
qed

lemma SubSatW32_clamp:
  assumes "is_s32 a" "is_s32 b"
  shows "WebRtcSpl_SubSatW32 a b = clamp (-2147483648) 2147483647 (a - b)"
proof (cases "a - b = 4294967295")
  case True
  with assms have "a = 2147483647" "b = -2147483648" by (auto simp: is_s32_def)
  then show ?thesis by (simp add: WebRtcSpl_SubSatW32_def clamp_def s32_def)
next
  case False
  then have "-4294967296 \<le> a - b" "a - b \<le> 4294967294"
    using assms by (auto simp: is_s32_def)
  then show ?thesis
    by (cases rule: s32_cases)
      (use assms in \<open>auto simp: WebRtcSpl_SubSatW32_def clamp_def is_s32_def Let_def\<close>)
qed

section \<open>Normalisation counts are leading-bit counts\<close>

text \<open>A test against a mask of high bits is a comparison with a power of two.\<close>

lemma high_mask_and:
  fixes a :: int
  assumes "0 \<le> a" "a < 2 ^ (k + m)"
  shows "push_bit k (mask m) AND a = 0 \<longleftrightarrow> a < 2 ^ k"
proof -
  have "push_bit k (mask m) AND a = push_bit k (mask m AND drop_bit k a)"
    by (rule bit_eqI) (auto simp: bit_simps)
  also have "mask m AND drop_bit k a = take_bit m (drop_bit k a)"
    by (simp add: take_bit_eq_mask and.commute)
  also have "\<dots> = drop_bit k a"
  proof (rule take_bit_int_eq_self)
    show "drop_bit k a < 2 ^ m"
      using assms by (simp add: drop_bit_eq_div shr_less_iff power_add mult.commute)
  qed (use assms in simp)
  finally show ?thesis
    using assms by (auto simp: push_bit_eq_mult drop_bit_eq_div zdiv_eq_0_iff)
qed

lemma mask_W32_tests:
  fixes b :: int
  assumes "0 \<le> b" "b < 2147483648"
  shows "0xFFFF8000 AND b = 0 \<longleftrightarrow> b < 2 ^ 15"
    and "0xFF800000 AND b = 0 \<longleftrightarrow> b < 2 ^ 23"
    and "0xF8000000 AND b = 0 \<longleftrightarrow> b < 2 ^ 27"
    and "0xE0000000 AND b = 0 \<longleftrightarrow> b < 2 ^ 29"
    and "0xC0000000 AND b = 0 \<longleftrightarrow> b < 2 ^ 30"
  using assms high_mask_and [of b 15 17] high_mask_and [of b 23 9] high_mask_and [of b 27 5]
    high_mask_and [of b 29 3] high_mask_and [of b 30 2]
  by (simp_all add: push_bit_eq_mult mask_eq_exp_minus_1)

lemma mask_U32_tests:
  fixes b :: int
  assumes "0 \<le> b" "b < 4294967296"
  shows "0xFFFF0000 AND b = 0 \<longleftrightarrow> b < 2 ^ 16"
    and "0xFF000000 AND b = 0 \<longleftrightarrow> b < 2 ^ 24"
    and "0xF0000000 AND b = 0 \<longleftrightarrow> b < 2 ^ 28"
    and "0xC0000000 AND b = 0 \<longleftrightarrow> b < 2 ^ 30"
    and "0x80000000 AND b = 0 \<longleftrightarrow> b < 2 ^ 31"
  using assms high_mask_and [of b 16 16] high_mask_and [of b 24 8] high_mask_and [of b 28 4]
    high_mask_and [of b 30 2] high_mask_and [of b 31 1]
  by (simp_all add: push_bit_eq_mult mask_eq_exp_minus_1)

lemma mask_W16_tests:
  fixes b :: int
  assumes "0 \<le> b" "b < 32768"
  shows "0xFF80 AND b = 0 \<longleftrightarrow> b < 2 ^ 7"
    and "0xF800 AND b = 0 \<longleftrightarrow> b < 2 ^ 11"
    and "0xE000 AND b = 0 \<longleftrightarrow> b < 2 ^ 13"
    and "0xC000 AND b = 0 \<longleftrightarrow> b < 2 ^ 14"
  using assms high_mask_and [of b 7 9] high_mask_and [of b 11 5] high_mask_and [of b 13 3]
    high_mask_and [of b 14 2]
  by (simp_all add: push_bit_eq_mult mask_eq_exp_minus_1)

text \<open>One step of the binary search for the leading bit.\<close>

lemma norm_step:
  fixes a :: int
  assumes "z' = (if test then z + d else z)" "test \<longleftrightarrow> a * 2 ^ z < 2 ^ k"
    "2 ^ l \<le> a * 2 ^ z" "a * 2 ^ z < 2 ^ h" "k + d = h" "k \<le> l + d"
  shows "2 ^ k \<le> a * 2 ^ z' \<and> a * 2 ^ z' < 2 ^ h"
proof (cases test)
  case True
  have "(2::int) ^ k \<le> 2 ^ (l + d)" using assms(6) by simp
  also have "\<dots> \<le> a * 2 ^ (z + d)"
    using assms(3) by (simp add: power_add)
  finally have "2 ^ k \<le> a * 2 ^ (z + d)" .
  moreover have "a * 2 ^ (z + d) < 2 ^ h"
    using True assms(2) by (simp add: power_add flip: assms(5))
  ultimately show ?thesis using True assms(1) by simp
qed (use assms in auto)

definition norm_u31 :: "int \<Rightarrow> nat" where
  "norm_u31 a =
     (let zeros = (if 0xFFFF8000 AND u32 a = 0 then 16 else (0::nat));
          zeros = (if 0xFF800000 AND u32 (a * 2 ^ zeros) = 0 then zeros + 8 else zeros);
          zeros = (if 0xF8000000 AND u32 (a * 2 ^ zeros) = 0 then zeros + 4 else zeros);
          zeros = (if 0xE0000000 AND u32 (a * 2 ^ zeros) = 0 then zeros + 2 else zeros)
      in (if 0xC0000000 AND u32 (a * 2 ^ zeros) = 0 then zeros + 1 else zeros))"

lemma NormW32_norm_u31:
  "WebRtcSpl_NormW32 a = (if a = 0 then 0 else int (norm_u31 (if a < 0 then NOT a else a)))"
  by (cases "a = 0"; cases "a < 0")
    (simp_all only: WebRtcSpl_NormW32_def norm_u31_def Let_def if_True if_False refl)

lemma norm_u31_correct:
  assumes "0 < a" "a < 2147483648"
  shows "2 ^ 30 \<le> a * 2 ^ norm_u31 a \<and> a * 2 ^ norm_u31 a < 2 ^ 31"
proof -
  define z1 where "z1 = (if 0xFFFF8000 AND u32 a = 0 then 16 else (0::nat))"
  define z2 where "z2 = (if 0xFF800000 AND u32 (a * 2 ^ z1) = 0 then z1 + 8 else z1)"
  define z3 where "z3 = (if 0xF8000000 AND u32 (a * 2 ^ z2) = 0 then z2 + 4 else z2)"
  define z4 where "z4 = (if 0xE0000000 AND u32 (a * 2 ^ z3) = 0 then z3 + 2 else z3)"
  define z5 where "z5 = (if 0xC0000000 AND u32 (a * 2 ^ z4) = 0 then z4 + 1 else z4)"
  have z5: "norm_u31 a = z5"
    by (simp only: norm_u31_def Let_def z1_def z2_def z3_def z4_def z5_def)
  have "2 ^ 15 \<le> a * 2 ^ z1 \<and> a * 2 ^ z1 < 2 ^ 31"
    using assms mask_W32_tests(1) [of a] by (simp add: z1_def)
  then have "2 ^ 23 \<le> a * 2 ^ z2 \<and> a * 2 ^ z2 < 2 ^ 31"
    by (intro norm_step [OF z2_def, where l = 15]) (simp_all add: mask_W32_tests)
  then have "2 ^ 27 \<le> a * 2 ^ z3 \<and> a * 2 ^ z3 < 2 ^ 31"
    by (intro norm_step [OF z3_def, where l = 23]) (simp_all add: mask_W32_tests)
  then have "2 ^ 29 \<le> a * 2 ^ z4 \<and> a * 2 ^ z4 < 2 ^ 31"
    by (intro norm_step [OF z4_def, where l = 27]) (simp_all add: mask_W32_tests)
  then have "2 ^ 30 \<le> a * 2 ^ z5 \<and> a * 2 ^ z5 < 2 ^ 31"
    by (intro norm_step [OF z5_def, where l = 29]) (simp_all add: mask_W32_tests)
  with z5 show ?thesis by simp
qed

lemma NormW32_pos:
  assumes "0 < a" "a < 2147483648"
  shows "2 ^ 30 \<le> a * 2 ^ nat (WebRtcSpl_NormW32 a) \<and> a * 2 ^ nat (WebRtcSpl_NormW32 a) < 2 ^ 31"
  using norm_u31_correct [OF assms] assms by (simp add: NormW32_norm_u31)

lemma norm_exponent_bound:
  fixes a :: int
  assumes "0 < a" "a * 2 ^ n < 2 ^ h"
  shows "n < h"
proof -
  have "(2::int) ^ n \<le> a * 2 ^ n" using assms(1) by simp
  with assms(2) have "(2::int) ^ n < 2 ^ h" by linarith
  then show ?thesis by simp
qed

lemma NormW32_neg:
  assumes "-2147483648 \<le> a" "a < -1"
  defines "n \<equiv> nat (WebRtcSpl_NormW32 a)"
  shows "-(2 ^ 31) \<le> a * 2 ^ n \<and> a * 2 ^ n < -(2 ^ 30) \<and> n < 31"
proof -
  define b where "b = - a - 1"
  have b: "0 < b" "b < 2147483648" using assms by (auto simp: b_def)
  have n: "n = norm_u31 b"
    using assms(2) by (simp add: n_def NormW32_norm_u31 b_def not_int_def)
  have bn: "2 ^ 30 \<le> b * 2 ^ n" "b * 2 ^ n < 2 ^ 31"
    using norm_u31_correct [OF b] by (auto simp: n)
  have n31: "n < 31" using b(1) bn(2) by (rule norm_exponent_bound)
  then have "b * 2 ^ n < 2 ^ (31 - n) * 2 ^ n"
    using bn(2) by (simp flip: power_add)
  then have "b + 1 \<le> 2 ^ (31 - n)" by simp
  then have "(b + 1) * 2 ^ n \<le> 2 ^ (31 - n) * 2 ^ n" by (rule mult_right_mono) simp
  then have "(b + 1) * 2 ^ n \<le> 2 ^ 31" using n31 by (simp flip: power_add)
  moreover have "a * 2 ^ n = - ((b + 1) * 2 ^ n)" by (simp add: b_def)
  moreover have "b * 2 ^ n < (b + 1) * 2 ^ n" by simp
  ultimately show ?thesis using bn n31 by linarith
qed

lemma NormW32_range: "0 \<le> WebRtcSpl_NormW32 a"
  by (simp add: NormW32_norm_u31)

lemma norm_u31_0: "norm_u31 0 = 31"
  by (simp add: norm_u31_def)

lemma NormU32_correct:
  assumes "0 < a" "a < 4294967296"
  defines "n \<equiv> nat (WebRtcSpl_NormU32 a)"
  shows "2 ^ 31 \<le> a * 2 ^ n \<and> a * 2 ^ n < 2 ^ 32 \<and> WebRtcSpl_NormU32 a = int n"
proof -
  define z1 where "z1 = (if 0xFFFF0000 AND a = 0 then 16 else (0::nat))"
  define z2 where "z2 = (if 0xFF000000 AND u32 (a * 2 ^ z1) = 0 then z1 + 8 else z1)"
  define z3 where "z3 = (if 0xF0000000 AND u32 (a * 2 ^ z2) = 0 then z2 + 4 else z2)"
  define z4 where "z4 = (if 0xC0000000 AND u32 (a * 2 ^ z3) = 0 then z3 + 2 else z3)"
  define z5 where "z5 = (if 0x80000000 AND u32 (a * 2 ^ z4) = 0 then z4 + 1 else z4)"
  have "\<not> a = 0" using assms(1) by simp
  then have z5: "WebRtcSpl_NormU32 a = int z5"
    by (simp only: WebRtcSpl_NormU32_def Let_def z1_def z2_def z3_def z4_def z5_def if_False)
  have "2 ^ 16 \<le> a * 2 ^ z1 \<and> a * 2 ^ z1 < 2 ^ 32"
    using assms mask_U32_tests(1) [of a] by (simp add: z1_def)
  then have "2 ^ 24 \<le> a * 2 ^ z2 \<and> a * 2 ^ z2 < 2 ^ 32"
    by (intro norm_step [OF z2_def, where l = 16]) (simp_all add: mask_U32_tests)
  then have "2 ^ 28 \<le> a * 2 ^ z3 \<and> a * 2 ^ z3 < 2 ^ 32"
    by (intro norm_step [OF z3_def, where l = 24]) (simp_all add: mask_U32_tests)
  then have "2 ^ 30 \<le> a * 2 ^ z4 \<and> a * 2 ^ z4 < 2 ^ 32"
    by (intro norm_step [OF z4_def, where l = 28]) (simp_all add: mask_U32_tests)
  then have "2 ^ 31 \<le> a * 2 ^ z5 \<and> a * 2 ^ z5 < 2 ^ 32"
    by (intro norm_step [OF z5_def, where l = 30]) (simp_all add: mask_U32_tests)
  with z5 show ?thesis by (simp add: n_def)
qed

text \<open>One step of the search for the highest bit that is set.\<close>

lemma size_step:
  fixes n :: int
  assumes "b' = (if test then b + d else b)" "test \<longleftrightarrow> 2 ^ d \<le> shr n b"
    "shr n b < 2 ^ (d + d)" "0 < b \<Longrightarrow> 1 \<le> shr n b"
  shows "shr n b' < 2 ^ d \<and> (0 < b' \<longrightarrow> 1 \<le> shr n b')"
proof (cases test)
  case True
  then have "1 \<le> shr n (b + d)"
    using assms(2) by (simp only: le_shr_iff) (simp add: power_add ac_simps)
  moreover have "shr n (b + d) < 2 ^ d"
    using assms(3) by (simp only: shr_less_iff) (simp add: power_add ac_simps)
  ultimately show ?thesis using True assms(1) by simp
qed (use assms in auto)

lemma size_tests:
  fixes m :: int
  assumes "0 \<le> m"
  shows "m < 2 ^ (16 + 16) \<Longrightarrow> 0xFFFF0000 AND m \<noteq> 0 \<longleftrightarrow> 2 ^ 16 \<le> m"
    and "m < 2 ^ (8 + 8) \<Longrightarrow> 0x0000FF00 AND m \<noteq> 0 \<longleftrightarrow> 2 ^ 8 \<le> m"
    and "m < 2 ^ (4 + 4) \<Longrightarrow> 0x000000F0 AND m \<noteq> 0 \<longleftrightarrow> 2 ^ 4 \<le> m"
    and "m < 2 ^ (2 + 2) \<Longrightarrow> 0x0000000C AND m \<noteq> 0 \<longleftrightarrow> 2 ^ 2 \<le> m"
    and "m < 2 ^ (1 + 1) \<Longrightarrow> 0x00000002 AND m \<noteq> 0 \<longleftrightarrow> 2 ^ 1 \<le> m"
  using assms high_mask_and [of m 16 16] high_mask_and [of m 8 8] high_mask_and [of m 4 4]
    high_mask_and [of m 2 2] high_mask_and [of m 1 1]
  by (auto simp: push_bit_eq_mult mask_eq_exp_minus_1)

lemma GetSizeInBits_correct:
  assumes "0 \<le> n" "n < 4294967296"
  defines "bits \<equiv> WebRtcSpl_GetSizeInBits n"
  shows "0 \<le> bits \<and> bits \<le> 32 \<and> n < 2 ^ nat bits \<and> (0 < bits \<longrightarrow> 2 ^ nat (bits - 1) \<le> n)"
proof -
  define b1 where "b1 = (if 0xFFFF0000 AND shr n 0 \<noteq> 0 then 0 + 16 else (0::nat))"
  define b2 where "b2 = (if 0x0000FF00 AND shr n b1 \<noteq> 0 then b1 + 8 else b1)"
  define b3 where "b3 = (if 0x000000F0 AND shr n b2 \<noteq> 0 then b2 + 4 else b2)"
  define b4 where "b4 = (if 0x0000000C AND shr n b3 \<noteq> 0 then b3 + 2 else b3)"
  define b5 where "b5 = (if 0x00000002 AND shr n b4 \<noteq> 0 then b4 + 1 else b4)"
  define b6 where "b6 = (if 0x00000001 AND shr n b5 \<noteq> 0 then b5 + 1 else b5)"
  have bits: "bits = int b6"
    by (simp only: bits_def WebRtcSpl_GetSizeInBits_def Let_def b1_def b2_def b3_def b4_def
        b5_def b6_def power_0 div_by_1 add_0)
  have nonneg: "0 \<le> shr n k" for k
    using assms(1) by (simp add: pos_imp_zdiv_nonneg_iff)
  have "shr n b1 < 2 ^ 16 \<and> (0 < b1 \<longrightarrow> 1 \<le> shr n b1)"
    by (rule size_step [OF b1_def]) (use assms size_tests(1) [OF nonneg, of 0] in simp_all)
  then have "shr n b2 < 2 ^ 8 \<and> (0 < b2 \<longrightarrow> 1 \<le> shr n b2)"
    by (intro size_step [OF b2_def]) (use size_tests(2) [OF nonneg, of b1] in simp_all)
  then have "shr n b3 < 2 ^ 4 \<and> (0 < b3 \<longrightarrow> 1 \<le> shr n b3)"
    by (intro size_step [OF b3_def]) (use size_tests(3) [OF nonneg, of b2] in simp_all)
  then have "shr n b4 < 2 ^ 2 \<and> (0 < b4 \<longrightarrow> 1 \<le> shr n b4)"
    by (intro size_step [OF b4_def]) (use size_tests(4) [OF nonneg, of b3] in simp_all)
  then have b5: "shr n b5 < 2 ^ 1 \<and> (0 < b5 \<longrightarrow> 1 \<le> shr n b5)"
    by (intro size_step [OF b5_def]) (use size_tests(5) [OF nonneg, of b4] in simp_all)
  have b6: "n < 2 ^ b6 \<and> (0 < b6 \<longrightarrow> 2 ^ (b6 - 1) \<le> n)"
  proof (cases "shr n b5 = 1")
    case True
    then have "b6 = b5 + 1" by (simp add: b6_def)
    moreover have "shr n b5 < 2" "1 \<le> shr n b5" using True by simp_all
    ultimately show ?thesis by (simp only: shr_less_iff le_shr_iff) simp
  next
    case False
    with b5 nonneg [of b5] have "b5 = 0" "shr n b5 = 0" by auto
    then show ?thesis by (simp add: b6_def)
  qed
  moreover have "b6 \<le> 32"
  proof (rule ccontr)
    assume "\<not> b6 \<le> 32"
    then have "(2::int) ^ 32 \<le> 2 ^ (b6 - 1)" by (intro power_increasing) simp_all
    with b6 \<open>\<not> b6 \<le> 32\<close> assms(2) show False by simp
  qed
  moreover have "nat (int b6 - 1) = b6 - 1" by simp
  ultimately show ?thesis by (simp add: bits)
qed

section \<open>The scaled energy does not overflow\<close>

lemma scaling_smax_ge: "smax \<le> scaling_smax smax xs"
proof (induction xs arbitrary: smax)
  case (Cons x xs)
  define m where "m = (let sabs = s16 (if x > 0 then x else - x) in if sabs > smax then sabs else smax)"
  have "smax \<le> m" by (simp add: m_def Let_def)
  also have "m \<le> scaling_smax m xs" by (rule Cons.IH)
  finally show ?case by (simp add: m_def Let_def)
qed simp

lemma scaling_smax_bound:
  assumes "\<forall>x\<in>set xs. -32768 < x \<and> x \<le> 32767"
  shows "\<forall>x\<in>set xs. \<bar>x\<bar> \<le> scaling_smax smax xs"
  using assms
proof (induction xs arbitrary: smax)
  case (Cons x xs)
  define sabs where "sabs = s16 (if x > 0 then x else - x)"
  define m where "m = (if sabs > smax then sabs else smax)"
  have sabs: "sabs = \<bar>x\<bar>" using Cons.prems by (auto simp: sabs_def)
  have "scaling_smax smax (x # xs) = scaling_smax m xs"
    by (simp add: m_def sabs_def Let_def)
  moreover have "\<bar>x\<bar> \<le> m" by (simp add: m_def sabs)
  ultimately show ?case
    using Cons.IH [of m] Cons.prems scaling_smax_ge [of m xs] by auto
qed simp

lemma scaling_smax_le:
  assumes "\<forall>x\<in>set xs. -32768 < x \<and> x \<le> 32767" "smax \<le> 32767"
  shows "scaling_smax smax xs \<le> 32767"
  using assms
proof (induction xs arbitrary: smax)
  case (Cons x xs)
  then show ?case by (auto simp: Let_def)
qed simp

lemma energy_loop_sum:
  "energy_loop sc xs (s32 en) = s32 (en + (\<Sum>x\<leftarrow>xs. MUL_16_16_RSFT x x sc))"
  by (induction xs arbitrary: en) (simp_all add: i32.conv_add_left add.assoc)

lemma sum_list_le_const:
  fixes f :: "'a \<Rightarrow> int"
  assumes "\<forall>x\<in>set xs. f x \<le> q"
  shows "(\<Sum>x\<leftarrow>xs. f x) \<le> int (length xs) * q"
  using assms by (induction xs) (auto simp: algebra_simps)

lemma sum_list_nonneg_map:
  fixes f :: "'a \<Rightarrow> int"
  assumes "\<forall>x\<in>set xs. 0 \<le> f x"
  shows "0 \<le> (\<Sum>x\<leftarrow>xs. f x)"
  using assms by (induction xs) auto

definition energy_ok :: "int16 list \<Rightarrow> bool" where
  "energy_ok xs \<longleftrightarrow> (\<forall>x\<in>set xs. -32768 < x \<and> x \<le> 32767) \<and> length xs < 2147483648"

text \<open>
  The scaling leaves exactly enough head room: \<open>q\<close> is the largest scaled square, and
  \<open>q * 2 ^ nbits < 2 ^ 31\<close> for the size \<open>nbits\<close> of the number of terms.
\<close>

lemma scaling_headroom:
  assumes "0 < m" "m \<le> 32767" "t = WebRtcSpl_NormW32 (s32 (m * m))"
    "sc = (if t > nbits then 0 else nbits - t)" "0 \<le> nbits"
  shows "shr (m * m) (nat sc) * 2 ^ nat nbits < 2 ^ 31"
proof -
  have mm: "m * m \<le> 32767 * 32767" "0 < m * m"
  proof -
    have "m * m \<le> 32767 * 32767" by (rule mult_mono) (use assms(1,2) in simp_all)
    then show "m * m \<le> 32767 * 32767" .
  qed (use assms(1) in simp)
  then have t: "m * m * 2 ^ nat t < 2 ^ 31"
    using NormW32_pos [of "m * m"] by (simp add: assms(3))
  define q where "q = shr (m * m) (nat sc)"
  have "nat nbits \<le> nat sc + nat t"
    using assms(4,5) by (auto simp: nat_add_distrib [symmetric])
  then have "(2::int) ^ nat nbits \<le> 2 ^ nat sc * 2 ^ nat t"
    by (simp flip: power_add)
  moreover have "0 \<le> q" using mm by (simp add: q_def pos_imp_zdiv_nonneg_iff)
  ultimately have "q * 2 ^ nat nbits \<le> q * (2 ^ nat sc * 2 ^ nat t)"
    by (rule mult_left_mono)
  also have "\<dots> = (q * 2 ^ nat sc) * 2 ^ nat t" by simp
  also have "\<dots> \<le> (m * m) * 2 ^ nat t"
    using le_shr_iff [of q "m * m" "nat sc"] by (intro mult_right_mono) (simp_all add: q_def)
  finally show ?thesis using t by (simp add: q_def)
qed

lemma GetScalingSquare_nonneg: "0 \<le> WebRtcSpl_GetScalingSquare xs n"
  by (simp add: WebRtcSpl_GetScalingSquare_def Let_def)

lemma Energy_exact:
  assumes ok: "energy_ok xs"
  defines "sc \<equiv> WebRtcSpl_GetScalingSquare xs (int (length xs))"
  shows "WebRtcSpl_Energy xs = ((\<Sum>x\<leftarrow>xs. shr (x * x) (nat sc)), sc)
    \<and> (\<Sum>x\<leftarrow>xs. shr (x * x) (nat sc)) < 2 ^ 31"
proof -
  let ?S = "\<Sum>x\<leftarrow>xs. shr (x * x) (nat sc)"
  define m where "m = scaling_smax (-1) xs"
  define nbits where "nbits = WebRtcSpl_GetSizeInBits (u32 (int (length xs)))"
  have bounds: "\<forall>x\<in>set xs. -32768 < x \<and> x \<le> 32767" and len: "length xs < 2147483648"
    using ok by (auto simp: energy_ok_def)
  have m: "\<forall>x\<in>set xs. \<bar>x\<bar> \<le> m" "m \<le> 32767"
    using scaling_smax_bound [OF bounds] scaling_smax_le [OF bounds, of "-1"] by (auto simp: m_def)
  have nb: "0 \<le> nbits" "int (length xs) < 2 ^ nat nbits"
    using GetSizeInBits_correct [of "u32 (int (length xs))"] len by (auto simp: nbits_def)
  have sq: "shr (x * x) k \<le> shr (m * m) k" "0 \<le> shr (x * x) k" if "x \<in> set xs" for x k
  proof -
    have "x * x \<le> m * m"
      using m(1) that by (metis abs_ge_zero abs_mult_self_eq mult_mono')
    then show "shr (x * x) k \<le> shr (m * m) k" by (rule shr_mono)
  qed (simp add: pos_imp_zdiv_nonneg_iff)
  have rsft: "(\<Sum>x\<leftarrow>xs. MUL_16_16_RSFT x x k) = (\<Sum>x\<leftarrow>xs. shr (x * x) k)" for k
    using bounds by (intro arg_cong [where f = sum_list] map_cong)
      (auto simp: MUL_16_16_RSFT_def MUL_16_16_def)
  have nonneg: "0 \<le> ?S"
    using sq(2) by (intro sum_list_nonneg_map) blast
  have small: "?S < 2 ^ 31"
  proof (cases "0 < m")
    case True
    define q where "q = shr (m * m) (nat sc)"
    have q: "q * 2 ^ nat nbits < 2 ^ 31"
      unfolding q_def using True m(2) nb(1)
      by (intro scaling_headroom [OF _ _ refl])
        (simp_all add: sc_def WebRtcSpl_GetScalingSquare_def Let_def m_def nbits_def)
    have "?S \<le> int (length xs) * q"
      using sq(1) by (intro sum_list_le_const) (auto simp: q_def)
    also have "\<dots> \<le> 2 ^ nat nbits * q"
      using nb(2) by (intro mult_right_mono) (simp_all add: q_def pos_imp_zdiv_nonneg_iff)
    finally show ?thesis using q by (simp add: mult.commute)
  next
    case False
    have "?S \<le> int (length xs) * 0"
    proof (intro sum_list_le_const ballI)
      fix x assume "x \<in> set xs"
      with m(1) False have "x = 0" by force
      then show "shr (x * x) (nat sc) \<le> 0" by simp
    qed
    then show ?thesis by simp
  qed
  have "energy_loop (nat sc) xs 0 = s32 ?S"
    using energy_loop_sum [of "nat sc" xs 0] by (simp add: rsft)
  with nonneg small show ?thesis
    by (simp add: WebRtcSpl_Energy_def sc_def Let_def)
qed

section \<open>The integer square root\<close>

lemma or_pow2_add:
  fixes r :: int
  assumes "2 ^ Suc k dvd r"
  shows "r OR 2 ^ k = r + 2 ^ k"
proof -
  obtain q where "r = q * 2 ^ Suc k" using assms by (metis dvd_def mult.commute)
  then have r: "r = push_bit (Suc k) q" by (simp only: push_bit_eq_mult)
  have "r + 2 ^ k = r OR 2 ^ k"
    by (rule disjunctive_add) (auto simp: r bit_simps bit_0)
  then show ?thesis by simp
qed

text \<open>
  After the iterations \<open>15, \<dots>, N\<close> the root so far is \<open>R\<close>, a multiple of \<open>2 ^ N\<close>,
  stored doubled; the remaining value is \<open>V - R\<^sup>2\<close>.
\<close>

definition sqrt_inv :: "int \<Rightarrow> nat \<Rightarrow> int \<times> int \<Rightarrow> bool" where
  "sqrt_inv V N vr \<longleftrightarrow>
     (\<exists>R. vr = (V - R * R, 2 * R) \<and> 0 \<le> R \<and> 2 ^ N dvd R \<and> R * R \<le> V \<and> V < (R + 2 ^ N) * (R + 2 ^ N))"

lemma sqrt_step_range:
  fixes R :: int
  assumes "0 \<le> R" "R * R < 2147483648" "N \<le> 15" "2 ^ Suc N dvd R" "R < 65536"
  shows "(2 * R + 2 ^ N) * 2 ^ N < 2147483648"
proof (cases "N = 15")
  case True
  then have "65536 dvd R" using assms(4) by simp
  then have "R = 0" using zdvd_imp_le [of 65536 R] assms(1,5) by force
  then show ?thesis using True by simp
next
  case False
  then have "N \<le> 14" using assms(3) by simp
  then have p: "(2::int) ^ N \<le> 2 ^ 14" by (intro power_increasing) simp_all
  have "R < 46341"
  proof (rule ccontr)
    assume "\<not> R < 46341"
    then have "46341 * 46341 \<le> R * R" by (intro mult_mono) simp_all
    then show False using assms(2) by simp
  qed
  then have "(2 * R + 2 ^ N) * 2 ^ N \<le> (2 * 46340 + 2 ^ 14) * 2 ^ 14"
    using p assms(1) by (intro mult_mono) simp_all
  then show ?thesis by simp
qed

lemma SQRT_ITER_inv:
  assumes inv: "sqrt_inv V (Suc N) vr" and V: "V < 2147483648" and N: "N \<le> 15"
  shows "sqrt_inv V N (SQRT_ITER N vr)"
proof -
  obtain R where vr: "vr = (V - R * R, 2 * R)" and R: "0 \<le> R" "2 ^ Suc N dvd R" "R * R \<le> V"
    and up: "V < (R + 2 ^ Suc N) * (R + 2 ^ Suc N)"
    using inv by (auto simp: sqrt_inv_def)
  have R16: "R < 65536"
  proof (rule ccontr)
    assume "\<not> R < 65536"
    then have "65536 * 65536 \<le> R * R" by (intro mult_mono) simp_all
    then show False using R(3) V by simp
  qed
  define p where "p = (2::int) ^ N"
  have p: "0 < p" "p \<le> 32768"
    using power_increasing [of N 15 "2::int"] N by (auto simp: p_def)
  define d where "d = (2 * R + p) * p"
  have "d < 2147483648"
    using sqrt_step_range [of R N] R V N R16 by (simp add: d_def p_def)
  moreover have "0 < d"
    unfolding d_def using R(1) p(1) by (intro mult_pos_pos) simp_all
  ultimately have d: "d < 2147483648" "0 < d" by simp_all
  have sh: "shl32 (s32 (2 * R + p)) N = d"
  proof -
    have "s32 (2 * R + p) = 2 * R + p" using R(1) p R16 by simp
    then have "shl32 (s32 (2 * R + p)) N = s32 d" by (simp only: d_def p_def)
    also have "\<dots> = d" using d by simp
    finally show ?thesis .
  qed
  have RR: "0 \<le> R * R" by simp
  have or: "2 * R OR 2 * p = 2 * R + 2 * p"
  proof -
    have "2 * 2 ^ Suc N dvd 2 * R" using R(2) by (intro mult_dvd_mono) simp_all
    then show ?thesis using or_pow2_add [of "Suc N" "2 * R"] by (simp add: p_def)
  qed
  have step: "SQRT_ITER N vr =
      (if V - R * R \<ge> d then (V - R * R - d, 2 * (R + p)) else (V - R * R, 2 * R))"
  proof -
    have "s32 (V - R * R - d) = V - R * R - d" if "d \<le> V - R * R"
      by (rule s32_id) (use that V d RR in linarith)+
    then show ?thesis using sh or by (simp add: SQRT_ITER_def vr Let_def flip: p_def)
  qed
  have dvd: "p dvd R" "p dvd R + p"
    using R(2) by (auto simp: p_def intro: dvd_mult_right)
  have sq: "(R + p) * (R + p) = R * R + d" "(R + 2 * p) * (R + 2 * p) = ((R + p) + p) * ((R + p) + p)"
    by (simp_all add: d_def algebra_simps)
  show ?thesis
  proof (cases "V - R * R \<ge> d")
    case True
    then show ?thesis
      using step R(1) p(1) dvd(2) sq up
      by (auto simp: sqrt_inv_def p_def intro!: exI [of _ "R + 2 ^ N"])
  next
    case False
    then show ?thesis
      using step R dvd(1) sq by (auto simp: sqrt_inv_def p_def intro!: exI [of _ R])
  qed
qed

lemma sqrt_iters_inv:
  assumes "sqrt_inv V (Suc N) vr" "V < 2147483648" "N \<le> 15"
  shows "sqrt_inv V 0 (sqrt_iters N vr)"
  using assms
proof (induction N arbitrary: vr)
  case 0
  then show ?case using SQRT_ITER_inv [of V 0 vr] by simp
next
  case (Suc N)
  then have "sqrt_inv V (Suc N) (SQRT_ITER (Suc N) vr)" by (intro SQRT_ITER_inv) simp_all
  with Suc show ?case by simp
qed

lemma SqrtFloor_nonneg:
  assumes "0 \<le> V" "V < 2147483648"
  defines "r \<equiv> WebRtcSpl_SqrtFloor V"
  shows "0 \<le> r \<and> r * r \<le> V \<and> V < (r + 1) * (r + 1)"
proof -
  have "sqrt_inv V (Suc 15) (V, 0)"
    using assms(1,2) by (simp add: sqrt_inv_def)
  then have "sqrt_inv V 0 (sqrt_iters 15 (V, 0))"
    using assms(2) by (intro sqrt_iters_inv) simp_all
  then show ?thesis by (auto simp: sqrt_inv_def r_def WebRtcSpl_SqrtFloor_def)
qed

lemma SQRT_ITER_negative:
  assumes "V < 0" "N \<le> 15"
  shows "SQRT_ITER N (V, 0) = (V, 0)"
proof -
  define p where "p = (2::int) ^ N"
  have p: "0 < p" "p \<le> 32768"
    using power_increasing [of N 15 "2::int"] assms(2) by (auto simp: p_def)
  then have "p * p \<le> 32768 * 32768" by (intro mult_mono) simp_all
  moreover have "0 < p * p" using p by simp
  ultimately have pp: "s32 (p * p) = p * p" "0 < p * p" by (auto intro: s32_id)
  have sh: "s32 p = p" "s32 (p * p) = p * p" "0 < p * p" using p pp by simp_all
  have "SQRT_ITER N (V, 0) = (if V \<ge> p * p then (s32 (V - p * p), 2 * p) else (V, 0))"
    using sh by (simp add: SQRT_ITER_def flip: p_def)
  with assms(1) sh(3) show ?thesis by auto
qed

lemma sqrt_iters_negative: "V < 0 \<Longrightarrow> N \<le> 15 \<Longrightarrow> sqrt_iters N (V, 0) = (V, 0)"
  by (induction N) (simp_all add: SQRT_ITER_negative)

lemma NormW32_le_31: "WebRtcSpl_NormW32 a \<le> 31"
proof -
  have "norm_u31 b \<le> 31" for b by (simp add: norm_u31_def Let_def)
  then show ?thesis by (simp add: NormW32_norm_u31)
qed

section \<open>The loop of the Q31 division\<close>

text \<open>
  After \<open>j\<close> rounds the quotient is \<open>(num * 2 ^ j) div den\<close> and the partial remainder is the
  remainder of that division.
\<close>

lemma div_double:
  fixes n d :: int
  assumes "0 < d"
  shows "(2 * n) div d = 2 * (n div d) + (if 2 * (n mod d) \<ge> d then 1 else 0) \<and>
    (2 * n) mod d = (if 2 * (n mod d) \<ge> d then 2 * (n mod d) - d else 2 * (n mod d))"
proof -
  define q r where "q = n div d" and "r = n mod d"
  have n: "n = q * d + r" "0 \<le> r" "r < d" using assms by (simp_all add: q_def r_def)
  show ?thesis
  proof (cases "2 * r \<ge> d")
    case True
    have "2 * n = d * (2 * q + 1) + (2 * r - d)" by (simp add: n(1) algebra_simps)
    moreover have "0 \<le> 2 * r - d" "2 * r - d < d" using True n by simp_all
    ultimately have "(2 * n) div d = 2 * q + 1" "(2 * n) mod d = 2 * r - d"
      by (rule int_div_pos_eq, rule int_mod_pos_eq)
    then show ?thesis using True by (simp add: q_def [symmetric] r_def [symmetric])
  next
    case False
    have "2 * n = d * (2 * q) + 2 * r" by (simp add: n(1) algebra_simps)
    moreover have "0 \<le> 2 * r" "2 * r < d" using False n by simp_all
    ultimately have "(2 * n) div d = 2 * q" "(2 * n) mod d = 2 * r"
      by (rule int_div_pos_eq, rule int_mod_pos_eq)
    then show ?thesis using False by (simp add: q_def [symmetric] r_def [symmetric])
  qed
qed

lemma DivResultInQ31_loop_correct:
  assumes "0 \<le> n" "0 < d" "d \<le> 1073741824" "n * 2 ^ k div d < 2147483648"
  shows "DivResultInQ31_loop k (n mod d) d (n div d) = n * 2 ^ k div d"
  using assms
proof (induction k arbitrary: n)
  case (Suc k)
  define r q where "r = n mod d" and "q = n div d"
  have r: "0 \<le> r" "r < d" using Suc.prems by (simp_all add: r_def)
  have le: "2 * n div d \<le> n * 2 ^ Suc k div d"
  proof (rule zdiv_mono1 [OF _ Suc.prems(2)])
    have "2 * n * 1 \<le> 2 * n * 2 ^ k" using Suc.prems(1) by (intro mult_left_mono) simp_all
    then show "2 * n \<le> n * 2 ^ Suc k" by simp
  qed
  have dd: "2 * n div d = 2 * q + (if 2 * r \<ge> d then 1 else 0)"
    "2 * n mod d = (if 2 * r \<ge> d then 2 * r - d else 2 * r)"
    using div_double [OF Suc.prems(2), of n] unfolding r_def q_def by blast+
  have q: "0 \<le> q" using Suc.prems by (simp add: q_def pos_imp_zdiv_nonneg_iff)
  have "2 * q + (if 2 * r \<ge> d then 1 else 0) < 2147483648"
    using le Suc.prems(4) unfolding dd(1) by (rule le_less_trans)
  then have sq: "s32 (q * 2) = 2 * q" "2 * r \<ge> d \<Longrightarrow> s32 (2 * q + 1) = 2 * q + 1"
    using q by (auto simp: mult.commute split: if_splits)
  have sr: "s32 (r * 2) = 2 * r" "2 * r \<ge> d \<Longrightarrow> s32 (2 * r - d) = 2 * r - d"
    using r Suc.prems(3) by simp_all
  have "DivResultInQ31_loop (Suc k) r d q = DivResultInQ31_loop k (2 * n mod d) d (2 * n div d)"
    unfolding dd using sq(2) sr(2) by (simp add: sq(1) sr(1) Let_def)
  also have "\<dots> = 2 * n * 2 ^ k div d"
    using Suc.prems by (intro Suc.IH) (simp_all add: mult.assoc mult.left_commute)
  finally show ?case by (simp add: r_def q_def mult.assoc mult.left_commute)
qed simp

lemma DivResultInQ31_eq:
  assumes "num \<noteq> 0" "\<bar>num\<bar> < \<bar>den\<bar>" "\<bar>den\<bar> \<le> 1073741824"
  shows "WebRtcSpl_DivResultInQ31 num den = sgn num * sgn den * (\<bar>num\<bar> * 2 ^ 31 div \<bar>den\<bar>)"
proof -
  have less: "\<bar>num\<bar> * 2 ^ 31 div \<bar>den\<bar> < 2147483648"
    using assms by (subst div_less_iff) simp_all
  have ge: "0 \<le> \<bar>num\<bar> * 2 ^ 31 div \<bar>den\<bar>" using assms by (simp add: pos_imp_zdiv_nonneg_iff)
  have abs: "s32 (- num) = - num" "s32 (- den) = - den" using assms by auto
  have "DivResultInQ31_loop 31 (\<bar>num\<bar> mod \<bar>den\<bar>) \<bar>den\<bar> (\<bar>num\<bar> div \<bar>den\<bar>) = \<bar>num\<bar> * 2 ^ 31 div \<bar>den\<bar>"
    using assms less by (intro DivResultInQ31_loop_correct) simp_all
  then have loop: "DivResultInQ31_loop 31 \<bar>num\<bar> \<bar>den\<bar> 0 = \<bar>num\<bar> * 2 ^ 31 div \<bar>den\<bar>"
    using assms by simp
  define v where "v = \<bar>num\<bar> * 2 ^ 31 div \<bar>den\<bar>"
  have "s32 (- v) = - v" using less ge by (intro s32_id) (simp_all add: v_def)
  moreover have "(if num < 0 then s32 (- num) else num) = \<bar>num\<bar>" "(if den < 0 then s32 (- den) else den) = \<bar>den\<bar>"
    by (simp_all add: abs)
  ultimately show ?thesis
    using assms(1,2) unfolding WebRtcSpl_DivResultInQ31_def Let_def v_def [symmetric]
    by (auto simp: loop [folded v_def] sgn_if)
qed

section \<open>Properties\<close>

text \<open>
  The saturating 32-bit operations clamp.  The sign tests with which the C code detects an
  overflow of the wrapped sum or difference are right: the results are the exact sum and
  difference clamped to the range of \<open>int32_t\<close>, and the 16-bit saturation clamps too.
\<close>

theorem saturation_clamps:
  assumes "is_s32 a" "is_s32 b"
  shows "WebRtcSpl_AddSatW32 a b = clamp (-2147483648) 2147483647 (a + b) \<and>
    WebRtcSpl_SubSatW32 a b = clamp (-2147483648) 2147483647 (a - b) \<and>
    WebRtcSpl_SatW32ToW16 a = clamp (-32768) 32767 a"
  using AddSatW32_clamp [OF assms] SubSatW32_clamp [OF assms] SatW32ToW16_clamp by simp

theorem saturation_clamps_witness:
  "WebRtcSpl_AddSatW32 2147483647 1 = 2147483647 \<and> WebRtcSpl_SubSatW32 (-2147483648) 1 = -2147483648"
  using saturation_clamps [of 2147483647 1] saturation_clamps [of "-2147483648" 1]
  by (simp add: is_s32_def clamp_def)

text \<open>
  \<open>WebRtcSpl_NormW32\<close> counts the redundant sign bits: shifting a non-zero value left by the
  count keeps it in 32 bits, one more bit would not, and the count is at most 31.
\<close>

theorem NormW32_normalises:
  assumes "is_s32 a" "a \<noteq> 0"
  defines "n \<equiv> nat (WebRtcSpl_NormW32 a)"
  shows "is_s32 (a * 2 ^ n) \<and> \<not> is_s32 (a * 2 ^ Suc n) \<and> n \<le> 31 \<and> WebRtcSpl_NormW32 a = int n"
proof -
  have n: "n \<le> 31" "WebRtcSpl_NormW32 a = int n"
    using NormW32_range [of a] NormW32_le_31 [of a] by (simp_all add: n_def)
  consider "0 < a" | "a = -1" | "a < -1" using assms(2) by linarith
  then show ?thesis
  proof cases
    case 1
    then show ?thesis using NormW32_pos [of a, folded n_def] assms(1) n by (simp add: is_s32_def)
  next
    case 2
    then have "n = 31" by (simp add: n_def NormW32_norm_u31 norm_u31_0)
    then show ?thesis using 2 n by (simp add: is_s32_def)
  next
    case 3
    then show ?thesis using NormW32_neg [of a, folded n_def] assms(1) n by (simp add: is_s32_def)
  qed
qed

theorem NormW32_normalises_witness:
  "is_s32 (-3 * 2 ^ nat (WebRtcSpl_NormW32 (-3))) \<and> \<not> is_s32 (-3 * 2 ^ Suc (nat (WebRtcSpl_NormW32 (-3))))"
  using NormW32_normalises [of "-3"] by (simp add: is_s32_def)

text \<open>
  C27: \<open>WebRtcSpl_SqrtFloor\<close> is the integer square root of every non-negative 32-bit value; the
  sixteen unrolled steps of the code set exactly its bits.  Negative values give 0.
\<close>

theorem SqrtFloor_correct:
  assumes "is_s32 v"
  defines "r \<equiv> WebRtcSpl_SqrtFloor v"
  shows "if v < 0 then r = 0 else 0 \<le> r \<and> r * r \<le> v \<and> v < (r + 1) * (r + 1)"
proof (cases "v < 0")
  case True
  then show ?thesis by (simp add: r_def WebRtcSpl_SqrtFloor_def sqrt_iters_negative)
next
  case False
  then show ?thesis using SqrtFloor_nonneg [of v] assms(1) by (simp add: r_def is_s32_def)
qed

theorem SqrtFloor_correct_witness:
  "WebRtcSpl_SqrtFloor 2147395599 * WebRtcSpl_SqrtFloor 2147395599 \<le> 2147395599"
  using SqrtFloor_correct [of 2147395599] by (simp add: is_s32_def)

text \<open>
  C28: \<open>WebRtcSpl_DivResultInQ31\<close> returns the exact truncated quotient \<open>num * 2 ^ 31 / den\<close>, with
  its sign, for every proper fraction whose denominator is at most \<open>2 ^ 30\<close> in magnitude.
  (Above that bound the doubled remainder overflows, see the next property.)
\<close>

theorem DivResultInQ31_exact:
  assumes "\<bar>num\<bar> < \<bar>den\<bar>" "\<bar>den\<bar> \<le> 2 ^ 30"
  shows "WebRtcSpl_DivResultInQ31 num den = cdiv (num * 2 ^ 31) den"
proof (cases "num = 0")
  case True
  then show ?thesis by (simp add: WebRtcSpl_DivResultInQ31_def cdiv_def)
next
  case False
  then show ?thesis using DivResultInQ31_eq [of num den] assms by (simp add: cdiv_def sgn_mult abs_mult)
qed

theorem DivResultInQ31_exact_witness:
  "WebRtcSpl_DivResultInQ31 (-1) 3 = -715827882"
  using DivResultInQ31_exact [of "-1" 3] by (simp add: cdiv_def)

text \<open>
  For larger denominators the division is wrong: one half, as a fraction with denominator
  \<open>2 ^ 31 - 1\<close>, becomes 0, since the doubled numerator does not fit 32 bits.
\<close>

theorem DivResultInQ31_overflow:
  "WebRtcSpl_DivResultInQ31 (2 ^ 30) (2 ^ 31 - 1) = 0"
  by code_simp

text \<open>
  C32: \<open>WebRtcSpl_Energy\<close> never overflows for vectors without the value -32768: the result is the
  plain sum of the scaled squares, below \<open>2 ^ 31\<close>, with the scaling of \<open>GetScalingSquare\<close>.
\<close>

theorem Energy_correct:
  assumes "\<forall>x\<in>set xs. -32768 < x \<and> x \<le> 32767" "length xs < 2 ^ 31"
  shows "\<exists>sc. WebRtcSpl_Energy xs = (\<Sum>x\<leftarrow>xs. shr (x * x) (nat sc), sc) \<and> 0 \<le> sc \<and>
    0 \<le> (\<Sum>x\<leftarrow>xs. shr (x * x) (nat sc)) \<and> (\<Sum>x\<leftarrow>xs. shr (x * x) (nat sc)) < 2 ^ 31"
proof -
  have "energy_ok xs" using assms by (simp add: energy_ok_def)
  from Energy_exact [OF this] show ?thesis
    by (intro exI [of _ "WebRtcSpl_GetScalingSquare xs (int (length xs))"])
      (simp add: GetScalingSquare_nonneg sum_list_nonneg_map pos_imp_zdiv_nonneg_iff)
qed

theorem Energy_correct_witness:
  "fst (WebRtcSpl_Energy [32767, -32767, 100]) < 2 ^ 31"
  using Energy_correct [of "[32767, -32767, 100]"] by auto

text \<open>
  The value -32768 breaks the scaling: its absolute value wraps to a negative 16-bit number
  that the search for the maximum ignores, so the energy of two such samples comes out
  negative and the energy of four of them as 0.
\<close>

theorem Energy_minimum_overflow:
  "WebRtcSpl_Energy [-32768, -32768] = (-2147483648, 0) \<and>
   WebRtcSpl_Energy [-32768, -32768, -32768, -32768] = (0, 0)"
  by code_simp

end
