(* ===== verification/SplVector.thy ===== *)
theory SplVector
  imports SplArith
begin

text \<open>
  The vector functions of the fixed-point library, C versions: \<open>min_max_operations.c\<close>,
  \<open>copy_set_operations.c\<close>, \<open>vector_scaling_operations.c\<close>, \<open>dot_product_with_scale.c\<close>,
  \<open>cross_correlation.c\<close> and \<open>randomization_functions.c\<close>.

  A \<open>const int16_t*\<close> that the code compares with \<open>NULL\<close> is an \<^typ>\<open>int list option\<close>; an
  array of \<open>length\<close> elements that the code only walks through is a list.  The lemmas say
  which element a search returns (the first one of maximal value), that the unrolled
  dot product is the plain one, and that every random table index is in range.
\<close>

section \<open>Searches for extremes\<close>

text \<open>
  The eleven functions of \<open>min_max_operations.c\<close> run the same loop: keep the best value so
  far and the index where it was met; \<open>better\<close> is the comparison in the \<open>if\<close>.
\<close>

fun scan :: "(int \<Rightarrow> int \<Rightarrow> bool) \<Rightarrow> int list \<Rightarrow> nat \<Rightarrow> int \<Rightarrow> nat \<Rightarrow> int \<times> nat" where
  "scan better [] i best index = (best, index)"
| "scan better (x # xs) i best index =
     (if better x best then scan better xs (Suc i) x i
      else scan better xs (Suc i) best index)"

text \<open>The guard \<open>vector == NULL || length <= 0\<close> and the elements the loop visits.\<close>

definition vec_arg :: "int list option \<Rightarrow> int \<Rightarrow> int list option" where
  "vec_arg vec len =
     (case vec of None \<Rightarrow> None | Some v \<Rightarrow> if len \<le> 0 then None else Some (take (nat len) v))"

definition WebRtcSpl_MaxAbsValueW16C :: "int16 list option \<Rightarrow> int \<Rightarrow> int16" where
  "WebRtcSpl_MaxAbsValueW16C vec len =
     (case vec_arg vec len of
        None \<Rightarrow> -1
      | Some v \<Rightarrow>
          let maximum = fst (scan (>) (map abs v) 0 0 0)
          in s16 (if maximum > 32767 then 32767 else maximum))"

definition WebRtcSpl_MaxAbsValueW32C :: "int32 list option \<Rightarrow> int \<Rightarrow> int32" where
  "WebRtcSpl_MaxAbsValueW32C vec len =
     (case vec_arg vec len of
        None \<Rightarrow> -1
      | Some v \<Rightarrow>
          let maximum = fst (scan (>) (map (\<lambda>x. u32 (s32 \<bar>x\<bar>)) v) 0 0 0)
          in s32 (if maximum < 2147483647 then maximum else 2147483647))"

definition WebRtcSpl_MaxValueW16C :: "int16 list option \<Rightarrow> int \<Rightarrow> int16" where
  "WebRtcSpl_MaxValueW16C vec len =
     (case vec_arg vec len of
        None \<Rightarrow> -32768 | Some v \<Rightarrow> fst (scan (>) v 0 (-32768) 0))"

definition WebRtcSpl_MaxValueW32C :: "int32 list option \<Rightarrow> int \<Rightarrow> int32" where
  "WebRtcSpl_MaxValueW32C vec len =
     (case vec_arg vec len of
        None \<Rightarrow> -2147483648 | Some v \<Rightarrow> fst (scan (>) v 0 (-2147483648) 0))"

definition WebRtcSpl_MinValueW16C :: "int16 list option \<Rightarrow> int \<Rightarrow> int16" where
  "WebRtcSpl_MinValueW16C vec len =
     (case vec_arg vec len of
        None \<Rightarrow> 32767 | Some v \<Rightarrow> fst (scan (<) v 0 32767 0))"

definition WebRtcSpl_MinValueW32C :: "int32 list option \<Rightarrow> int \<Rightarrow> int32" where
  "WebRtcSpl_MinValueW32C vec len =
     (case vec_arg vec len of
        None \<Rightarrow> 2147483647 | Some v \<Rightarrow> fst (scan (<) v 0 2147483647 0))"

definition WebRtcSpl_MaxAbsIndexW16 :: "int16 list option \<Rightarrow> int \<Rightarrow> int" where
  "WebRtcSpl_MaxAbsIndexW16 vec len =
     (case vec_arg vec len of
        None \<Rightarrow> -1 | Some v \<Rightarrow> int (snd (scan (>) (map abs v) 0 0 0)))"

definition WebRtcSpl_MaxIndexW16 :: "int16 list option \<Rightarrow> int \<Rightarrow> int" where
  "WebRtcSpl_MaxIndexW16 vec len =
     (case vec_arg vec len of
        None \<Rightarrow> -1 | Some v \<Rightarrow> int (snd (scan (>) v 0 (-32768) 0)))"

definition WebRtcSpl_MaxIndexW32 :: "int32 list option \<Rightarrow> int \<Rightarrow> int" where
  "WebRtcSpl_MaxIndexW32 vec len =
     (case vec_arg vec len of
        None \<Rightarrow> -1 | Some v \<Rightarrow> int (snd (scan (>) v 0 (-2147483648) 0)))"

definition WebRtcSpl_MinIndexW16 :: "int16 list option \<Rightarrow> int \<Rightarrow> int" where
  "WebRtcSpl_MinIndexW16 vec len =
     (case vec_arg vec len of
        None \<Rightarrow> -1 | Some v \<Rightarrow> int (snd (scan (<) v 0 32767 0)))"

definition WebRtcSpl_MinIndexW32 :: "int32 list option \<Rightarrow> int \<Rightarrow> int" where
  "WebRtcSpl_MinIndexW32 vec len =
     (case vec_arg vec len of
        None \<Rightarrow> -1 | Some v \<Rightarrow> int (snd (scan (<) v 0 2147483647 0)))"

section \<open>Copying and filling\<close>

fun MemSet_loop :: "nat \<Rightarrow> int list \<Rightarrow> int \<Rightarrow> int list" where
  "MemSet_loop 0 p v = p"
| "MemSet_loop (Suc j) [] v = []"
| "MemSet_loop (Suc j) (x # xs) v = v # MemSet_loop j xs v"

definition WebRtcSpl_MemSetW16 :: "int16 list \<Rightarrow> int16 \<Rightarrow> int \<Rightarrow> int16 list" where
  "WebRtcSpl_MemSetW16 ptr set_value len = MemSet_loop (nat len) ptr set_value"

definition WebRtcSpl_MemSetW32 :: "int32 list \<Rightarrow> int32 \<Rightarrow> int \<Rightarrow> int32 list" where
  "WebRtcSpl_MemSetW32 ptr set_value len = MemSet_loop (nat len) ptr set_value"

text \<open>\<open>dest\<close> points at element \<open>d\<close> of the array \<open>mem\<close> and moves down.\<close>

fun MemCpyReversed_loop :: "nat \<Rightarrow> int list \<Rightarrow> nat \<Rightarrow> int list \<Rightarrow> int list" where
  "MemCpyReversed_loop 0 mem d src = mem"
| "MemCpyReversed_loop (Suc n) mem d [] = mem"
| "MemCpyReversed_loop (Suc n) mem d (x # src) =
     MemCpyReversed_loop n (mem[d := x]) (d - 1) src"

definition WebRtcSpl_MemCpyReversedOrder :: "int16 list \<Rightarrow> nat \<Rightarrow> int16 list \<Rightarrow> int \<Rightarrow> int16 list" where
  "WebRtcSpl_MemCpyReversedOrder mem d src len = MemCpyReversed_loop (nat len) mem d src"

definition WebRtcSpl_CopyFromEndW16 :: "int16 list \<Rightarrow> int \<Rightarrow> int \<Rightarrow> int16 list \<Rightarrow> int16 list" where
  "WebRtcSpl_CopyFromEndW16 vector_in len samples vector_out =
     blit vector_out 0 (take (nat samples) (drop (nat (len - samples)) vector_in))"

definition WebRtcSpl_ZerosArrayW16 :: "int16 list \<Rightarrow> int \<Rightarrow> int16 list" where
  "WebRtcSpl_ZerosArrayW16 vec len = WebRtcSpl_MemSetW16 vec 0 len"

definition WebRtcSpl_ZerosArrayW32 :: "int32 list \<Rightarrow> int \<Rightarrow> int32 list" where
  "WebRtcSpl_ZerosArrayW32 vec len = WebRtcSpl_MemSetW32 vec 0 len"

section \<open>Shifting and scaling\<close>

definition WebRtcSpl_VectorBitShiftW16 :: "int16 list \<Rightarrow> int16 \<Rightarrow> int16 list" where
  "WebRtcSpl_VectorBitShiftW16 xs right_shifts =
     (if right_shifts > 0 then map (\<lambda>x. s16 (shr x (nat right_shifts))) xs
      else map (\<lambda>x. s16 (x * 2 ^ nat (- right_shifts))) xs)"

definition WebRtcSpl_VectorBitShiftW32 :: "int32 list \<Rightarrow> int16 \<Rightarrow> int32 list" where
  "WebRtcSpl_VectorBitShiftW32 xs right_shifts =
     (if right_shifts > 0 then map (\<lambda>x. shr x (nat right_shifts)) xs
      else map (\<lambda>x. shl32 x (nat (- right_shifts))) xs)"

definition WebRtcSpl_VectorBitShiftW32ToW16 :: "int32 list \<Rightarrow> int \<Rightarrow> int16 list" where
  "WebRtcSpl_VectorBitShiftW32ToW16 xs right_shifts =
     (if right_shifts \<ge> 0
      then map (\<lambda>x. WebRtcSpl_SatW32ToW16 (shr x (nat right_shifts))) xs
      else map (\<lambda>x. WebRtcSpl_SatW32ToW16 (shl32 x (nat (- right_shifts)))) xs)"

definition WebRtcSpl_ScaleVector :: "int16 list \<Rightarrow> int16 \<Rightarrow> nat \<Rightarrow> int16 list" where
  "WebRtcSpl_ScaleVector xs gain right_shifts =
     map (\<lambda>x. s16 (MUL_16_16_RSFT x gain right_shifts)) xs"

definition WebRtcSpl_ScaleVectorWithSat :: "int16 list \<Rightarrow> int16 \<Rightarrow> nat \<Rightarrow> int16 list" where
  "WebRtcSpl_ScaleVectorWithSat xs gain right_shifts =
     map (\<lambda>x. WebRtcSpl_SatW32ToW16 (MUL_16_16_RSFT x gain right_shifts)) xs"

definition WebRtcSpl_ScaleAndAddVectors ::
    "int16 list \<Rightarrow> int16 \<Rightarrow> nat \<Rightarrow> int16 list \<Rightarrow> int16 \<Rightarrow> nat \<Rightarrow> int16 list" where
  "WebRtcSpl_ScaleAndAddVectors in1 gain1 shift1 in2 gain2 shift2 =
     map2 (\<lambda>x y. s16 (s16 (MUL_16_16_RSFT gain1 x shift1) + s16 (MUL_16_16_RSFT gain2 y shift2)))
       in1 in2"

text \<open>Returns the status and, where the loop ran, the output vector.\<close>

definition WebRtcSpl_ScaleAndAddVectorsWithRoundC ::
    "int16 list option \<Rightarrow> int16 \<Rightarrow> int16 list option \<Rightarrow> int16 \<Rightarrow> int \<Rightarrow> bool \<Rightarrow> int \<Rightarrow> int \<times> int16 list"
where
  "WebRtcSpl_ScaleAndAddVectorsWithRoundC in1 scale1 in2 scale2 right_shifts out_ok len =
     (case (in1, in2) of
        (Some v1, Some v2) \<Rightarrow>
          if \<not> out_ok \<or> len \<le> 0 \<or> right_shifts < 0 then (-1, [])
          else let round_value = shr (shl32 1 (nat right_shifts)) 1
               in (0, map2 (\<lambda>x y. s16 (shr (s32 (MUL_16_16 x scale1 + MUL_16_16 y scale2
                                              + round_value)) (nat right_shifts)))
                     (take (nat len) v1) (take (nat len) v2))
      | _ \<Rightarrow> (-1, []))"

section \<open>Correlations\<close>

fun dot_tail :: "nat \<Rightarrow> int16 list \<Rightarrow> int16 list \<Rightarrow> int32 \<Rightarrow> int32" where
  "dot_tail scaling (a # as) (b # bs) acc = dot_tail scaling as bs (s32 (acc + shr (a * b) scaling))"
| "dot_tail scaling _ _ acc = acc"

fun dot_by_4 :: "nat \<Rightarrow> int16 list \<Rightarrow> int16 list \<Rightarrow> int32 \<Rightarrow> int32" where
  "dot_by_4 scaling (a0 # a1 # a2 # a3 # as) (b0 # b1 # b2 # b3 # bs) acc =
     (let acc = s32 (acc + shr (a0 * b0) scaling);
          acc = s32 (acc + shr (a1 * b1) scaling);
          acc = s32 (acc + shr (a2 * b2) scaling);
          acc = s32 (acc + shr (a3 * b3) scaling)
      in dot_by_4 scaling as bs acc)"
| "dot_by_4 scaling as bs acc = dot_tail scaling as bs acc"

definition WebRtcSpl_DotProductWithScale :: "int16 list \<Rightarrow> int16 list \<Rightarrow> int \<Rightarrow> nat \<Rightarrow> int32" where
  "WebRtcSpl_DotProductWithScale vector1 vector2 len scaling =
     dot_by_4 scaling (take (nat len) vector1) (take (nat len) vector2) 0"

text \<open>\<open>seq2\<close> points at element \<open>base\<close> of the array \<open>mem2\<close>; the step may be negative.\<close>

fun xcorr_loop :: "int16 list \<Rightarrow> int16 list \<Rightarrow> int \<Rightarrow> nat \<Rightarrow> nat \<Rightarrow> int32 \<Rightarrow> int32" where
  "xcorr_loop [] mem2 start right_shifts j acc = acc"
| "xcorr_loop (x # seq1) mem2 start right_shifts j acc =
     xcorr_loop seq1 mem2 start right_shifts (Suc j)
       (s32 (acc + shr (x * mem2 ! nat (start + int j)) right_shifts))"

definition WebRtcSpl_CrossCorrelationC ::
    "int16 list \<Rightarrow> int16 list \<Rightarrow> nat \<Rightarrow> int16 \<Rightarrow> int16 \<Rightarrow> nat \<Rightarrow> int16 \<Rightarrow> int32 list" where
  "WebRtcSpl_CrossCorrelationC seq1 mem2 base dim_seq dim_cross_correlation right_shifts step_seq2 =
     map (\<lambda>i. xcorr_loop (take (nat dim_seq) seq1) mem2 (int base + step_seq2 * int i) right_shifts 0 0)
       [0..<nat dim_cross_correlation]"

section \<open>Random numbers\<close>

definition kRandNTable :: "int16 list" where
  "kRandNTable = [
      9178, -7260, 40, 10189, 4894, -3531, -13779, 14764, -4008, -8884, -8990, 1008,
      7368, 5184, 3251, -5817, -9786, 5963, 1770, 8066, -7135, 10772, -2298, 1361,
      6484, 2241, -8633, 792, 199, -3344, 6553, -10079, -15040, 95, 11608, -12469,
      14161, -4176, 2476, 6403, 13685, -16005, 6646, 2239, 10916, -3004, -602, -3141,
      2142, 14144, -5829, 5305, 8209, 4713, 2697, -5112, 16092, -1210, -2891, -6631,
      -5360, -11878, -6781, -2739, -6392, 536, 10923, 10872, 5059, -4748, -7770, 5477,
      38, -1025, -2892, 1638, 6304, 14375, -11028, 1553, -1565, 10762, -393, 4040,
      5257, 12310, 6554, -4799, 4899, -6354, 1603, -1048, -2220, 8247, -186, -8944,
      -12004, 2332, 4801, -4933, 6371, 131, 8614, -5927, -8287, -22760, 4033, -15162,
      3385, 3246, 3153, -5250, 3766, 784, 6494, -62, 3531, -1582, 15572, 662,
      -3952, -330, -3196, 669, 7236, -2678, -6569, 23319, -8645, -741, 14830, -15976,
      4903, 315, -11342, 10311, 1858, -7777, 2145, 5436, 5677, -113, -10033, 826,
      -1353, 17210, 7768, 986, -1471, 8291, -4982, 8207, -14911, -6255, -2449, -11881,
      -7059, -11703, -4338, 8025, 7538, -2823, -12490, 9470, -1613, -2529, -10092, -7807,
      9480, 6970, -12844, 5123, 3532, 4816, 4803, -8455, -5045, 14032, -4378, -1643,
      5756, -11041, -2732, -16618, -6430, -18375, -3320, 6098, 5131, -4269, -8840, 2482,
      -7048, 1547, -21890, -6505, -7414, -424, -11722, 7955, 1653, -17299, 1823, 473,
      -9232, 3337, 1111, 873, 4018, -8982, 9889, 3531, -11763, -3799, 7373, -4539,
      3231, 7054, -8537, 7616, 6244, 16635, 447, -2915, 13967, 705, -2669, -1520,
      -1771, -16188, 5956, 5117, 6371, -9936, -1448, 2480, 5128, 7550, -8130, 5236,
      8213, -6443, 7707, -1950, -13811, 7218, 7031, -3883, 67, 5731, -2874, 13480,
      -3743, 9298, -3280, 3552, -4425, -18, -3785, -9988, -5357, 5477, -11794, 2117,
      1416, -9935, 3376, 802, -5079, -8243, 12652, 66, 3653, -2368, 6781, -21895,
      -7227, 2487, 7839, -385, 6646, -7016, -4658, 5531, -1705, 834, 129, 3694,
      -1343, 2238, -22640, -6417, -11139, 11301, -2945, -3494, -5626, 185, -3615, -2041,
      -7972, -3106, -60, -23497, -1566, 17064, 3519, 2518, 304, -6805, -10269, 2105,
      1936, -426, -736, -8122, -1467, 4238, -6939, -13309, 360, 7402, -7970, 12576,
      3287, 12194, -6289, -16006, 9171, 4042, -9193, 9123, -2512, 6388, -4734, -8739,
      1028, -5406, -1696, 5889, -666, -4736, 4971, 3565, 9362, -6292, 3876, -3652,
      -19666, 7523, -4061, 391, -11773, 7502, -3763, 4929, -9478, 13278, 2805, 4496,
      7814, 16419, 12455, -14773, 2127, -2746, 3763, 4847, 3698, 6978, 4751, -6957,
      -3581, -45, 6252, 1513, -4797, -7925, 11270, 16188, -2359, -5269, 9376, -10777,
      7262, 20031, -6515, -2208, -5353, 8085, -1341, -1303, 7333, 5576, 3625, 5763,
      -7931, 9833, -3371, -10305, 6534, -13539, -9971, 997, 8464, -4064, -1495, 1857,
      13624, 5458, 9490, -11086, -4524, 12022, -550, -198, 408, -8455, -7068, 10289,
      9712, -3366, 9028, -7621, -5243, 2362, 6909, 4672, -4933, -1799, 4709, -4563,
      -62, -566, 1624, -7010, 14730, -17791, -3697, -2344, -1741, 7099, -9509, -6855,
      -1989, 3495, -2289, 2031, 12784, 891, 14189, -3963, -5683, 421, -12575, 1724,
      -12682, -5970, -8169, 3143, -1824, -5488, -5130, 8536, 12799, 794, 5738, 3459,
      -11689, -258, -3738, -3775, -8742, 2333, 8312, -9383, 10331, 13119, 8398, 10644,
      -19433, -6446, -16277, -11793, 16284, 9345, 15222, 15834, 2009, -7349, 130, -14547,
      338, -5998, 3337, 21492, 2406, 7703, -951, 11196, -564, 3406, 2217, 4806,
      2374, -5797, 11839, 8940, -11874, 18213, 2855, 10492]"

definition IncreaseSeed :: "uint32 \<Rightarrow> uint32" where
  "IncreaseSeed seed = u32 (u32 (seed * 69069) + 1) AND (0x80000000 - 1)"

text \<open>Each returns the number and the new seed.\<close>

definition WebRtcSpl_RandU :: "uint32 \<Rightarrow> int16 \<times> uint32" where
  "WebRtcSpl_RandU seed = (let s = IncreaseSeed seed in (s16 (shr s 16), s))"

definition WebRtcSpl_RandN :: "uint32 \<Rightarrow> int16 \<times> uint32" where
  "WebRtcSpl_RandN seed = (let s = IncreaseSeed seed in (kRandNTable ! nat (shr s 23), s))"

fun RandU_loop :: "nat \<Rightarrow> uint32 \<Rightarrow> int16 list \<times> uint32" where
  "RandU_loop 0 seed = ([], seed)"
| "RandU_loop (Suc n) seed =
     (let (x, s) = WebRtcSpl_RandU seed; (xs, s') = RandU_loop n s in (x # xs, s'))"

definition WebRtcSpl_RandUArray :: "int16 \<Rightarrow> uint32 \<Rightarrow> int16 \<times> int16 list \<times> uint32" where
  "WebRtcSpl_RandUArray vector_length seed = (vector_length, RandU_loop (nat vector_length) seed)"

section \<open>What the searches return\<close>

text \<open>
  The loop over a score: it ends with the entry value if no element beats it, otherwise
  with the first element of maximal score and that element's index.
\<close>

lemma scan_score:
  fixes score :: "int \<Rightarrow> int"
  assumes "\<And>x y. better x y \<longleftrightarrow> score x > score y"
    and "(b', k') = scan better xs i b k"
  shows "(\<forall>x\<in>set xs. score x \<le> score b') \<and> score b \<le> score b' \<and>
    ((b' = b \<and> k' = k \<and> (\<forall>x\<in>set xs. score x \<le> score b)) \<or>
     (score b < score b' \<and>
      (\<exists>j<length xs. k' = i + j \<and> xs ! j = b' \<and> (\<forall>l<j. score (xs ! l) < score b'))))"
  using assms(2)
proof (induction xs arbitrary: i b k)
  case (Cons x xs)
  show ?case
  proof (cases "better x b")
    case True
    then have eq: "(b', k') = scan better xs (Suc i) x i" using Cons.prems by simp
    have xb: "score b < score x" using True assms(1) by simp
    from Cons.IH [OF eq] show ?thesis
    proof (elim conjE disjE exE)
      fix j assume "score x < score b'" "j < length xs" "k' = Suc i + j" "xs ! j = b'"
        "\<forall>l<j. score (xs ! l) < score b'" "\<forall>x\<in>set xs. score x \<le> score b'"
      then show ?thesis
        using xb by (auto intro!: exI [of _ "Suc j"] simp: nth_Cons less_Suc_eq_0_disj split: nat.splits)
    qed (use xb in \<open>auto intro!: exI [of _ 0]\<close>)
  next
    case False
    then have eq: "(b', k') = scan better xs (Suc i) b k" using Cons.prems by simp
    have bx: "score x \<le> score b" using False assms(1) by (simp add: not_less)
    from Cons.IH [OF eq] show ?thesis
    proof (elim conjE disjE exE)
      fix j assume "score b < score b'" "j < length xs" "k' = Suc i + j" "xs ! j = b'"
        "\<forall>l<j. score (xs ! l) < score b'" "\<forall>x\<in>set xs. score x \<le> score b'"
      then show ?thesis
        using bx by (auto intro!: exI [of _ "Suc j"] simp: nth_Cons less_Suc_eq_0_disj split: nat.splits)
    qed (use bx in auto)
  qed
qed simp

lemma scan_first_best:
  fixes score :: "int \<Rightarrow> int"
  assumes better: "\<And>x y. better x y \<longleftrightarrow> score x > score y"
    and xs: "xs \<noteq> []" "\<forall>x\<in>set xs. score b \<le> score x"
    and b: "\<And>x. score x = score b \<Longrightarrow> x = b"
  defines "r \<equiv> scan better xs 0 b 0"
  shows "snd r < length xs \<and> xs ! snd r = fst r \<and> (\<forall>x\<in>set xs. score x \<le> score (fst r))
    \<and> (\<forall>l. l < snd r \<longrightarrow> score (xs ! l) < score (fst r))"
proof -
  have r: "(fst r, snd r) = scan better xs 0 b 0" by (simp add: r_def)
  from scan_score [OF better r] show ?thesis
  proof (elim conjE disjE exE)
    assume eq: "fst r = b" "snd r = 0" and le: "\<forall>x\<in>set xs. score x \<le> score b"
    have "score (xs ! 0) = score b"
      using le xs by (metis length_greater_0_conv nth_mem order_antisym)
    then have "xs ! 0 = b" by (rule b)
    then show ?thesis using eq le xs(1) by simp
  qed auto
qed

text \<open>Extremes as folds, for the functions that return the value.\<close>

lemma scan_max_fold: "fst (scan (>) xs i b k) = fold max xs b"
  by (induction xs arbitrary: i b k) (auto simp: max_def)

lemma scan_min_fold: "fst (scan (<) xs i b k) = fold min xs b"
  by (induction xs arbitrary: i b k) (auto simp: min_def)

lemma fold_max_Max: "fold max xs b = Max (insert b (set xs))" for b :: int
  by (metis List.finite_set Max.set_eq_fold list.simps(15))

lemma fold_min_Min: "fold min xs b = Min (insert b (set xs))" for b :: int
  by (metis List.finite_set Min.set_eq_fold list.simps(15))

lemma vec_arg_Some: "0 < len \<Longrightarrow> vec_arg (Some v) len = Some (take (nat len) v)"
  by (simp add: vec_arg_def)

lemma Max_insert_low:
  fixes b :: int
  assumes "xs \<noteq> []" "\<forall>x\<in>set xs. b \<le> x"
  shows "Max (insert b (set xs)) = Max (set xs)"
  using assms by (simp add: Max_insert max_def)

section \<open>Loops over arrays\<close>

lemma dot_tail_sum:
  "dot_tail sc as bs (s32 acc) = s32 (acc + (\<Sum>(a, b)\<leftarrow>zip as bs. shr (a * b) sc))"
  by (induction as bs arbitrary: acc rule: list_induct2') (simp_all add: i32.conv_add_left add.assoc)

lemma dot_by_4_tail: "dot_by_4 sc as bs acc = dot_tail sc as bs acc"
  by (induction sc as bs acc rule: dot_by_4.induct) (simp_all add: Let_def)

lemma MemSet_loop_replicate:
  "n \<le> length p \<Longrightarrow> MemSet_loop n p v = replicate n v @ drop n p"
  by (induction n p v rule: MemSet_loop.induct) simp_all

lemma MemCpyReversed_loop_rev:
  assumes "n \<le> length src" "n \<le> d + 1" "d < length mem"
  shows "MemCpyReversed_loop n mem d src =
    take (d + 1 - n) mem @ rev (take n src) @ drop (d + 1) mem"
  using assms
proof (induction n mem d src rule: MemCpyReversed_loop.induct)
  case (1 mem d src)
  then show ?case by (metis append_Nil append_take_drop_id diff_zero rev.simps(1) take_0 MemCpyReversed_loop.simps(1))
next
  case (3 n mem d x src)
  show ?case
  proof (cases n)
    case 0
    then show ?thesis using 3 by (simp add: upd_conv_take_nth_drop)
  next
    case (Suc m)
    then have d: "d - 1 + 1 = d" "0 < d" using 3 by auto
    have "MemCpyReversed_loop (Suc n) mem d (x # src) =
        take (d - n) (mem[d := x]) @ rev (take n src) @ drop d (mem[d := x])"
      using 3 d Suc by simp
    then show ?thesis using 3 by (simp add: drop_update_swap Cons_nth_drop_Suc [symmetric])
  qed
qed simp

section \<open>Random numbers\<close>

lemma and_low_31: "x AND 2147483647 = x mod 2147483648" for x :: int
  using take_bit_eq_mask [of 31 x] by (simp add: take_bit_eq_mod mask_eq_exp_minus_1)

lemma IncreaseSeed_eq: "IncreaseSeed seed = (69069 * seed + 1) mod 2147483648"
proof -
  have "u32 (u32 (seed * 69069) + 1) = u32 (seed * 69069 + 1)" by (rule n32.conv_add_left)
  then show ?thesis
    by (simp add: IncreaseSeed_def and_low_31 u32_def mod_mod_cancel mult.commute)
qed

lemma IncreaseSeed_range [c_ranges]: "0 \<le> IncreaseSeed seed" "IncreaseSeed seed < 2147483648"
  by (simp_all add: IncreaseSeed_eq)

lemma length_kRandNTable: "length kRandNTable = 512"
  by (simp add: kRandNTable_def)

lemma RandU_loop_iterates:
  "RandU_loop n seed =
     (map (\<lambda>i. s16 (shr ((IncreaseSeed ^^ Suc i) seed) 16)) [0..<n], (IncreaseSeed ^^ n) seed)"
proof (induction n arbitrary: seed)
  case (Suc n)
  have "map (\<lambda>i. s16 (shr ((IncreaseSeed ^^ Suc i) seed) 16)) [0..<Suc n] =
    s16 (shr (IncreaseSeed seed) 16) #
    map (\<lambda>i. s16 (shr ((IncreaseSeed ^^ Suc i) (IncreaseSeed seed)) 16)) [0..<n]"
    by (simp only: upt_conv_Cons [OF zero_less_Suc] map_Suc_upt [symmetric] list.map map_map o_def
        funpow_swap1 funpow.simps id_apply)
  then show ?case
    by (simp add: Suc.IH WebRtcSpl_RandU_def Let_def funpow_swap1 del: upt_Suc)
qed simp

section \<open>Properties\<close>

text \<open>
  The index searches return the position of the first extreme value: for a non-empty vector
  of 16-bit values the index of \<open>WebRtcSpl_MaxIndexW16\<close> (\<open>WebRtcSpl_MinIndexW16\<close>) is valid,
  no element is larger (smaller), and every element before it is strictly smaller (larger).
\<close>

theorem MaxIndexW16_first:
  assumes "0 < len" "nat len \<le> length v" "\<forall>x\<in>set v. is_s16 x"
  defines "k \<equiv> nat (WebRtcSpl_MaxIndexW16 (Some v) len)" and "l \<equiv> nat (WebRtcSpl_MinIndexW16 (Some v) len)"
  shows "k < nat len \<and> (\<forall>j<nat len. v ! j \<le> v ! k) \<and> (\<forall>j<k. v ! j < v ! k) \<and>
    l < nat len \<and> (\<forall>j<nat len. v ! l \<le> v ! j) \<and> (\<forall>j<l. v ! l < v ! j)"
proof -
  let ?xs = "take (nat len) v"
  have ne: "?xs \<noteq> []" using assms(1,2) by auto
  have s: "\<forall>x\<in>set ?xs. is_s16 x" using assms(3) by (auto dest: in_set_takeD)
  have mx: "snd (scan (>) ?xs 0 (-32768) 0) < length ?xs \<and>
      ?xs ! snd (scan (>) ?xs 0 (-32768) 0) = fst (scan (>) ?xs 0 (-32768) 0) \<and>
      (\<forall>x\<in>set ?xs. x \<le> fst (scan (>) ?xs 0 (-32768) 0)) \<and>
      (\<forall>l. l < snd (scan (>) ?xs 0 (-32768) 0) \<longrightarrow> ?xs ! l < fst (scan (>) ?xs 0 (-32768) 0))"
    by (rule scan_first_best [of "(>)" "\<lambda>x. x" ?xs "-32768"]) (use ne s in \<open>auto simp: is_s16_def\<close>)
  have mn: "snd (scan (<) ?xs 0 32767 0) < length ?xs \<and>
      ?xs ! snd (scan (<) ?xs 0 32767 0) = fst (scan (<) ?xs 0 32767 0) \<and>
      (\<forall>x\<in>set ?xs. fst (scan (<) ?xs 0 32767 0) \<le> x) \<and>
      (\<forall>l. l < snd (scan (<) ?xs 0 32767 0) \<longrightarrow> fst (scan (<) ?xs 0 32767 0) < ?xs ! l)"
    using scan_first_best [of "(<)" uminus ?xs 32767, OF _ ne] s unfolding is_s16_def neg_le_iff_le neg_less_iff_less by auto
  have k: "k = snd (scan (>) ?xs 0 (-32768) 0)" and l: "l = snd (scan (<) ?xs 0 32767 0)"
    using assms(1) by (simp_all add: k_def l_def WebRtcSpl_MaxIndexW16_def WebRtcSpl_MinIndexW16_def vec_arg_Some)
  have len: "length ?xs = nat len" using assms(2) by simp
  have nth: "\<And>j. j < nat len \<Longrightarrow> ?xs ! j = v ! j" "\<And>j. j < nat len \<Longrightarrow> v ! j \<in> set ?xs"
    using len by (simp, metis nth_mem nth_take)
  have kl: "k < nat len" "l < nat len" "v ! k = fst (scan (>) ?xs 0 (-32768) 0)" "v ! l = fst (scan (<) ?xs 0 32767 0)"
    using mx mn len nth(1) unfolding k l by auto
  have "\<forall>j<nat len. v ! j \<le> v ! k" "\<forall>j<nat len. v ! l \<le> v ! j"
    using mx mn nth(2) kl(3,4) by simp_all
  moreover have "\<forall>j<k. v ! j < v ! k" "\<forall>j<l. v ! l < v ! j"
    using mx mn nth(1) kl unfolding k l by auto
  ultimately show ?thesis using kl by blast
qed

theorem MaxIndexW16_first_witness:
  "nat (WebRtcSpl_MaxIndexW16 (Some [3, 9, -4, 9, -32768]) 5) < 5"
  using MaxIndexW16_first [of 5 "[3, 9, -4, 9, -32768]"] by (simp add: is_s16_def)

text \<open>
  The value searches agree with the mathematical extreme: over a non-empty vector the maximum
  absolute value is the largest magnitude, saturated at 32767, and the minimum is the least
  element; NULL or an empty vector gives the documented error value.
\<close>

theorem extreme_values:
  assumes "0 < len" "nat len \<le> length v" "\<forall>x\<in>set v. is_s16 x"
  shows "WebRtcSpl_MaxAbsValueW16C (Some v) len = min 32767 (Max (abs ` set (take (nat len) v))) \<and>
    WebRtcSpl_MaxValueW16C (Some v) len = Max (set (take (nat len) v)) \<and>
    WebRtcSpl_MinValueW16C (Some v) len = Min (set (take (nat len) v)) \<and>
    WebRtcSpl_MaxAbsValueW16C None len = -1"
proof -
  let ?xs = "take (nat len) v"
  have ne: "?xs \<noteq> []" using assms(1,2) by auto
  have s: "\<forall>x\<in>set ?xs. is_s16 x" using assms(3) by (auto dest: in_set_takeD)
  have "Max (insert 0 (set (map abs ?xs))) = Max (set (map abs ?xs))"
    using ne by (intro Max_insert_low) auto
  then have abs: "fst (scan (>) (map abs ?xs) 0 0 0) = Max (abs ` set ?xs)"
    by (simp add: scan_max_fold fold_max_Max)
  have "Max (abs ` set ?xs) \<in> abs ` set ?xs" using ne by (intro Max_in) auto
  then have M: "0 \<le> Max (abs ` set ?xs)" by auto
  have "WebRtcSpl_MaxAbsValueW16C (Some v) len = min 32767 (Max (abs ` set ?xs))"
    using M by (simp add: WebRtcSpl_MaxAbsValueW16C_def vec_arg_Some assms(1) abs Let_def min_def)
  moreover have "WebRtcSpl_MaxValueW16C (Some v) len = Max (set ?xs)"
    using Max_insert_low [OF ne, of "-32768"] s
    by (simp add: WebRtcSpl_MaxValueW16C_def vec_arg_Some assms(1) scan_max_fold fold_max_Max is_s16_def)
  moreover have "WebRtcSpl_MinValueW16C (Some v) len = Min (set ?xs)"
  proof -
    have "Min (insert 32767 (set ?xs)) = Min (set ?xs)"
    proof -
      have "Min (set ?xs) \<in> set ?xs" using ne by (intro Min_in) simp_all
      then have "Min (set ?xs) \<le> 32767" using s by (auto simp: is_s16_def)
      then show ?thesis using ne by simp
    qed
    then show ?thesis
      by (simp add: WebRtcSpl_MinValueW16C_def vec_arg_Some assms(1) scan_min_fold fold_min_Min)
  qed
  moreover have "WebRtcSpl_MaxAbsValueW16C None len = -1" by (simp add: WebRtcSpl_MaxAbsValueW16C_def vec_arg_def)
  ultimately show ?thesis by blast
qed

theorem extreme_values_witness:
  "WebRtcSpl_MaxAbsValueW16C (Some [5, -32768]) 2 = 32767"
  using extreme_values [of 2 "[5, -32768]"] by (simp add: is_s16_def)

text \<open>
  The dot product unrolled by four is the plain sum of the scaled products, wrapped once to
  32 bits, for every length (also those that are not multiples of four).
\<close>

theorem DotProduct_sum:
  "WebRtcSpl_DotProductWithScale as bs len sc =
     s32 (\<Sum>(a, b)\<leftarrow>zip (take (nat len) as) (take (nat len) bs). shr (a * b) sc)"
  using dot_tail_sum [of sc "take (nat len) as" "take (nat len) bs" 0]
  by (simp add: WebRtcSpl_DotProductWithScale_def dot_by_4_tail)

text \<open>
  \<open>WebRtcSpl_MemCpyReversedOrder\<close> writes the reverse of its source to the elements up to and
  including the destination position, and touches nothing else.
\<close>

theorem MemCpyReversed_reverses:
  assumes "0 \<le> len" "nat len \<le> length src" "nat len \<le> d + 1" "d < length mem"
  shows "WebRtcSpl_MemCpyReversedOrder mem d src len = blit mem (d + 1 - nat len) (rev (take (nat len) src))"
  using MemCpyReversed_loop_rev [of "nat len" src d mem] assms
  by (simp add: WebRtcSpl_MemCpyReversedOrder_def blit_def)

theorem MemCpyReversed_reverses_witness:
  "WebRtcSpl_MemCpyReversedOrder [0, 0, 0, 0] 2 [1, 2, 3] 2 = [0, 2, 1, 0]"
  using MemCpyReversed_reverses [of 2 "[1, 2, 3]" 2 "[0, 0, 0, 0]"] by (simp add: blit_def)

text \<open>
  The Gaussian generator only ever reads the first half of its table: the seed keeps 31 bits,
  so the table index is below 256 although the table has 512 entries.
\<close>

theorem RandN_first_half:
  "\<exists>i<256. WebRtcSpl_RandN seed = (kRandNTable ! i, (69069 * seed + 1) mod 2 ^ 31)"
proof -
  have s: "0 \<le> IncreaseSeed seed" "IncreaseSeed seed < 2147483648" by (rule IncreaseSeed_range)+
  have "nat (shr (IncreaseSeed seed) 23) < 256"
    using s shr_less_iff [of "IncreaseSeed seed" 23 256] by simp
  then show ?thesis
    by (intro exI [of _ "nat (shr (IncreaseSeed seed) 23)"])
      (simp add: WebRtcSpl_RandN_def Let_def IncreaseSeed_eq)
qed

end
