(* ===== verification/SplResample.thy ===== *)
theory SplResample
  imports SplArith
begin

text \<open>
  The resamplers: the by-two allpass filters of \<open>resample_by_2_internal.c\<close>, the fractional
  interpolators of \<open>resample_fractional.c\<close> and the 48 kHz conversions of
  \<open>resample_48khz.c\<close> that chain them.

  Every by-two function runs two or four copies of one three-stage allpass section over
  the even or the odd samples; \<open>allpass3\<close> is that section, with the coefficients and the
  four state words it works on.  The state arrays (8 or 16 words) are lists, and each loop
  reads its four words from them and writes them back.
\<close>

section \<open>The allpass section\<close>

definition kResampleAllpass :: "int16 list list" where
  "kResampleAllpass = [[821, 6110, 12382], [3050, 9368, 15063]]"

type_synonym allpass_state = "int32 \<times> int32 \<times> int32 \<times> int32"

text \<open>\<open>diff >> 14\<close>, plus one when the result is negative ("scale down and truncate").\<close>

definition trunc14 :: "int32 \<Rightarrow> int32" where
  "trunc14 diff = (let d = shr diff 14 in if d < 0 then d + 1 else d)"

definition allpass3 :: "nat \<Rightarrow> allpass_state \<Rightarrow> int32 \<Rightarrow> allpass_state \<times> int32" where
  "allpass3 row st x =
     (let (s0, s1, s2, s3) = st;
          c = kResampleAllpass ! row;
          tmp0 = x;
          diff = s32 (tmp0 - s1);
          diff = shr (s32 (diff + 8192)) 14;
          tmp1 = s32 (s0 + s32 (diff * c ! 0));
          s0 = tmp0;
          diff = trunc14 (s32 (tmp1 - s2));
          tmp0 = s32 (s1 + s32 (diff * c ! 1));
          s1 = tmp1;
          diff = trunc14 (s32 (tmp0 - s3));
          s3 = s32 (s2 + s32 (diff * c ! 2));
          s2 = tmp0
      in ((s0, s1, s2, s3), s3))"

text \<open>The four state words at offset \<open>o\<close> of a state array.\<close>

definition get4 :: "nat \<Rightarrow> int32 list \<Rightarrow> allpass_state" where
  "get4 k state = (state ! k, state ! (k + 1), state ! (k + 2), state ! (k + 3))"

definition put4 :: "nat \<Rightarrow> allpass_state \<Rightarrow> int32 list \<Rightarrow> int32 list" where
  "put4 k st state = (case st of (a, b, c, d) \<Rightarrow> state[k := a, k + 1 := b, k + 2 := c, k + 3 := d])"

text \<open>\<open>((int32_t)in[i] << 15) + (1 << 14)\<close>, and the saturation of the 16-bit outputs.\<close>

definition widen15 :: "int16 \<Rightarrow> int32" where
  "widen15 x = s32 (shl32 x 15 + 16384)"

definition sat16 :: "int32 \<Rightarrow> int16" where
  "sat16 x = (let t = (if x > 32767 then 32767 else x);
                  t = (if t < -32768 then -32768 else t)
              in s16 t)"

text \<open>One loop: a section of the state, run over the given samples.\<close>

definition branch :: "nat \<Rightarrow> nat \<Rightarrow> int32 list \<Rightarrow> int32 list \<Rightarrow> int32 list \<times> int32 list" where
  "branch row k state xs =
     (let (st, ys) = run (allpass3 row) (get4 k state) xs in (put4 k st state, ys))"

section \<open>Decimators\<close>

text \<open>
  The input array is overwritten with the halved section outputs; the second component is
  its new content.  The combining loop writes two outputs per turn, so the code needs a
  length that is a multiple of four (all callers pass 160 or 320).
\<close>

definition WebRtcSpl_DownBy2IntToShort ::
    "int32 list \<Rightarrow> int32 list \<Rightarrow> int16 list \<times> int32 list \<times> int32 list" where
  "WebRtcSpl_DownBy2IntToShort in0 state =
     (let n = length in0 div 2;
          (state, low) = branch 1 0 state (take n (evens in0));
          low = map (\<lambda>y. shr y 1) low;
          (state, up) = branch 0 4 state (take n (odds in0));
          up = map (\<lambda>y. shr y 1) up;
          out = map2 (\<lambda>l u. sat16 (shr (s32 (l + u)) 15)) low up
      in (out, interleave low up @ drop (2 * n) in0, state))"

definition WebRtcSpl_DownBy2ShortToInt :: "int16 list \<Rightarrow> int32 list \<Rightarrow> int32 list \<times> int32 list" where
  "WebRtcSpl_DownBy2ShortToInt in0 state =
     (let n = length in0 div 2;
          (state, low) = branch 1 0 state (map widen15 (take n (evens in0)));
          out = map (\<lambda>y. shr y 1) low;
          (state, up) = branch 0 4 state (map widen15 (take n (odds in0)))
      in (map2 (\<lambda>l u. s32 (l + shr u 1)) out up, state))"

section \<open>Interpolators\<close>

definition WebRtcSpl_UpBy2ShortToInt :: "int16 list \<Rightarrow> int32 list \<Rightarrow> int32 list \<times> int32 list" where
  "WebRtcSpl_UpBy2ShortToInt in0 state =
     (let (state, up) = branch 0 4 state (map widen15 in0);
          (state, low) = branch 1 0 state (map widen15 in0)
      in (interleave (map (\<lambda>y. shr y 15) up) (map (\<lambda>y. shr y 15) low), state))"

definition WebRtcSpl_UpBy2IntToInt :: "int32 list \<Rightarrow> int32 list \<Rightarrow> int32 list \<times> int32 list" where
  "WebRtcSpl_UpBy2IntToInt in0 state =
     (let (state, up) = branch 0 4 state in0;
          (state, low) = branch 1 0 state in0
      in (interleave up low, state))"

definition WebRtcSpl_UpBy2IntToShort :: "int32 list \<Rightarrow> int32 list \<Rightarrow> int16 list \<times> int32 list" where
  "WebRtcSpl_UpBy2IntToShort in0 state =
     (let (state, up) = branch 0 4 state in0;
          (state, low) = branch 1 0 state in0
      in (interleave (map (\<lambda>y. sat16 (shr y 15)) up) (map (\<lambda>y. sat16 (shr y 15)) low), state))"

section \<open>Lowpass filters\<close>

text \<open>
  The first loop filters the odd samples delayed by one: it starts from \<open>state[12]\<close>, the
  last odd sample of the previous block, and reads its next input after the section ran,
  so the last odd sample of the block is read but not filtered here.
\<close>

definition WebRtcSpl_LPBy2ShortToInt :: "int16 list \<Rightarrow> int32 list \<Rightarrow> int32 list \<times> int32 list" where
  "WebRtcSpl_LPBy2ShortToInt in0 state =
     (let n = length in0 div 2;
          ev = map widen15 (take n (evens in0));
          od = map widen15 (take n (odds in0));
          (state, e1) = branch 1 0 state (take n (state ! 12 # od));
          (state, e2) = branch 0 4 state ev;
          evs = map2 (\<lambda>l u. shr (s32 (l + shr u 1)) 15) (map (\<lambda>y. shr y 1) e1) e2;
          (state, o1) = branch 1 8 state ev;
          (state, o2) = branch 0 12 state od;
          ods = map2 (\<lambda>l u. shr (s32 (l + shr u 1)) 15) (map (\<lambda>y. shr y 1) o1) o2
      in (interleave evs ods, state))"

definition WebRtcSpl_LPBy2IntToInt :: "int32 list \<Rightarrow> int32 list \<Rightarrow> int32 list \<times> int32 list" where
  "WebRtcSpl_LPBy2IntToInt in0 state =
     (let n = length in0 div 2;
          ev = take n (evens in0);
          od = take n (odds in0);
          (state, e1) = branch 1 0 state (take n (state ! 12 # od));
          (state, e2) = branch 0 4 state ev;
          evs = map2 (\<lambda>l u. shr (s32 (l + shr u 1)) 15) (map (\<lambda>y. shr y 1) e1) e2;
          (state, o1) = branch 1 8 state ev;
          (state, o2) = branch 0 12 state od;
          ods = map2 (\<lambda>l u. shr (s32 (l + shr u 1)) 15) (map (\<lambda>y. shr y 1) o1) o2
      in (interleave evs ods, state))"

section \<open>Fractional interpolation\<close>

definition kCoefficients48To32 :: "int16 list list" where
  "kCoefficients48To32 =
     [[778, -2050, 1087, 23285, 12903, -3783, 441, 222],
      [222, 441, -3783, 12903, 23285, 1087, -2050, 778]]"

definition kCoefficients32To24 :: "int16 list list" where
  "kCoefficients32To24 =
     [[767, -2362, 2434, 24406, 10620, -3838, 721, 90],
      [386, -381, -2646, 19062, 19062, -2646, -381, 386],
      [90, 721, -3838, 10620, 24406, 2434, -2362, 767]]"

definition kCoefficients44To32 :: "int16 list list" where
  "kCoefficients44To32 =
     [[117, -669, 2245, -6183, 26267, 13529, -3245, 845, -138],
      [-101, 612, -2283, 8532, 29790, -5138, 1789, -524, 91],
      [50, -292, 1016, -3064, 32010, 3933, -1147, 315, -53],
      [-156, 974, -3863, 18603, 21691, -6246, 2353, -712, 126]]"

text \<open>\<open>tmp += coef[0] * In[0]; tmp += coef[1] * In[1]; \<dots>\<close>\<close>

fun fir :: "int16 list \<Rightarrow> int32 list \<Rightarrow> int32 \<Rightarrow> int32" where
  "fir (c # cs) (x # xs) tmp = fir cs xs (s32 (tmp + s32 (c * x)))"
| "fir _ _ tmp = tmp"

text \<open>
  \<open>In\<close> and \<open>Out\<close> are pointers into one array in all the callers below, so the loops work on
  the array \<open>mem\<close> with the two positions, in the order of the code's reads and writes.
\<close>

fun WebRtcSpl_Resample48khzTo32khz :: "int32 list \<Rightarrow> nat \<Rightarrow> nat \<Rightarrow> nat \<Rightarrow> int32 list" where
  "WebRtcSpl_Resample48khzTo32khz mem i out 0 = mem"
| "WebRtcSpl_Resample48khzTo32khz mem i out (Suc K) =
     (let mem = mem[out := fir (kCoefficients48To32 ! 0) (drop i mem) 16384];
          mem = mem[out + 1 := fir (kCoefficients48To32 ! 1) (drop (i + 1) mem) 16384]
      in WebRtcSpl_Resample48khzTo32khz mem (i + 3) (out + 2) K)"

fun WebRtcSpl_Resample32khzTo24khz :: "int32 list \<Rightarrow> nat \<Rightarrow> nat \<Rightarrow> nat \<Rightarrow> int32 list" where
  "WebRtcSpl_Resample32khzTo24khz mem i out 0 = mem"
| "WebRtcSpl_Resample32khzTo24khz mem i out (Suc K) =
     (let mem = mem[out := fir (kCoefficients32To24 ! 0) (drop i mem) 16384];
          mem = mem[out + 1 := fir (kCoefficients32To24 ! 1) (drop (i + 1) mem) 16384];
          mem = mem[out + 2 := fir (kCoefficients32To24 ! 2) (drop (i + 2) mem) 16384]
      in WebRtcSpl_Resample32khzTo24khz mem (i + 4) (out + 3) K)"

text \<open>\<open>in2\<close> is read downwards: the second list is the reversed window ending at \<open>in2\<close>.\<close>

definition WebRtcSpl_ResampDotProduct ::
    "int32 list \<Rightarrow> int32 list \<Rightarrow> int16 list \<Rightarrow> int32 \<times> int32" where
  "WebRtcSpl_ResampDotProduct in1 in2_down coef = (fir coef in1 16384, fir coef in2_down 16384)"

text \<open>Here \<open>In\<close> and \<open>Out\<close> are separate arrays; each turn yields eight samples.\<close>

fun WebRtcSpl_Resample44khzTo32khz :: "int32 list \<Rightarrow> nat \<Rightarrow> int32 list" where
  "WebRtcSpl_Resample44khzTo32khz In 0 = []"
| "WebRtcSpl_Resample44khzTo32khz In (Suc K) =
     (let tmp = 16384;
          out0 = s32 (shl32 (In ! 3) 15 + tmp);
          out4 = fir (kCoefficients44To32 ! 3) (drop 5 In) tmp;
          down = (\<lambda>k. rev (take (k + 1) In));
          (out1, out7) = WebRtcSpl_ResampDotProduct In (down 17) (kCoefficients44To32 ! 0);
          (out2, out6) = WebRtcSpl_ResampDotProduct (drop 2 In) (down 15) (kCoefficients44To32 ! 1);
          (out3, out5) = WebRtcSpl_ResampDotProduct (drop 3 In) (down 14) (kCoefficients44To32 ! 2)
      in [out0, out1, out2, out3, out4, out5, out6, out7]
         @ WebRtcSpl_Resample44khzTo32khz (drop 11 In) K)"

section \<open>48 kHz conversions\<close>

record State48khzTo16khz =
  S_48_48 :: "int32 list"
  S_48_32 :: "int32 list"
  S_32_16 :: "int32 list"

record State16khzTo48khz =
  S_16_32 :: "int32 list"
  S_32_24 :: "int32 list"
  S_24_48 :: "int32 list"

record State48khzTo8khz =
  S_48_24 :: "int32 list"
  S_24_24 :: "int32 list"
  S_24_16 :: "int32 list"
  S_16_8 :: "int32 list"

record State8khzTo48khz =
  S_8_16 :: "int32 list"
  S_16_12 :: "int32 list"
  S_12_24 :: "int32 list"
  S_24_48' :: "int32 list"

text \<open>Each conversion returns the output, the new state and the new content of \<open>tmpmem\<close>.\<close>

definition WebRtcSpl_Resample48khzTo16khz ::
    "int16 list \<Rightarrow> State48khzTo16khz \<Rightarrow> int32 list \<Rightarrow> int16 list \<times> State48khzTo16khz \<times> int32 list"
where
  "WebRtcSpl_Resample48khzTo16khz in0 state tmpmem =
     (let (lp, s1) = WebRtcSpl_LPBy2ShortToInt (take 480 in0) (S_48_48 state);
          tmpmem = blit tmpmem 16 lp;
          tmpmem = blit tmpmem 8 (S_48_32 state);
          s2 = take 8 (drop 488 tmpmem);
          tmpmem = WebRtcSpl_Resample48khzTo32khz tmpmem 8 0 160;
          (out, in', s3) = WebRtcSpl_DownBy2IntToShort (take 320 tmpmem) (S_32_16 state);
          tmpmem = blit tmpmem 0 in'
      in (out, \<lparr>S_48_48 = s1, S_48_32 = s2, S_32_16 = s3\<rparr>, tmpmem))"

definition WebRtcSpl_ResetResample48khzTo16khz :: State48khzTo16khz where
  "WebRtcSpl_ResetResample48khzTo16khz =
     \<lparr>S_48_48 = replicate 16 0, S_48_32 = replicate 8 0, S_32_16 = replicate 8 0\<rparr>"

definition WebRtcSpl_Resample16khzTo48khz ::
    "int16 list \<Rightarrow> State16khzTo48khz \<Rightarrow> int32 list \<Rightarrow> int16 list \<times> State16khzTo48khz \<times> int32 list"
where
  "WebRtcSpl_Resample16khzTo48khz in0 state tmpmem =
     (let (u, s1) = WebRtcSpl_UpBy2ShortToInt (take 160 in0) (S_16_32 state);
          tmpmem = blit tmpmem 16 u;
          tmpmem = blit tmpmem 8 (S_32_24 state);
          s2 = take 8 (drop 328 tmpmem);
          tmpmem = WebRtcSpl_Resample32khzTo24khz tmpmem 8 0 80;
          (out, s3) = WebRtcSpl_UpBy2IntToShort (take 240 tmpmem) (S_24_48 state)
      in (out, \<lparr>S_16_32 = s1, S_32_24 = s2, S_24_48 = s3\<rparr>, tmpmem))"

definition WebRtcSpl_ResetResample16khzTo48khz :: State16khzTo48khz where
  "WebRtcSpl_ResetResample16khzTo48khz =
     \<lparr>S_16_32 = replicate 8 0, S_32_24 = replicate 8 0, S_24_48 = replicate 8 0\<rparr>"

definition WebRtcSpl_Resample48khzTo8khz ::
    "int16 list \<Rightarrow> State48khzTo8khz \<Rightarrow> int32 list \<Rightarrow> int16 list \<times> State48khzTo8khz \<times> int32 list"
where
  "WebRtcSpl_Resample48khzTo8khz in0 state tmpmem =
     (let (d24, s1) = WebRtcSpl_DownBy2ShortToInt (take 480 in0) (S_48_24 state);
          tmpmem = blit tmpmem 256 d24;
          (lp, s2) = WebRtcSpl_LPBy2IntToInt (take 240 (drop 256 tmpmem)) (S_24_24 state);
          tmpmem = blit tmpmem 16 lp;
          tmpmem = blit tmpmem 8 (S_24_16 state);
          s3 = take 8 (drop 248 tmpmem);
          tmpmem = WebRtcSpl_Resample48khzTo32khz tmpmem 8 0 80;
          (out, in', s4) = WebRtcSpl_DownBy2IntToShort (take 160 tmpmem) (S_16_8 state);
          tmpmem = blit tmpmem 0 in'
      in (out, \<lparr>S_48_24 = s1, S_24_24 = s2, S_24_16 = s3, S_16_8 = s4\<rparr>, tmpmem))"

definition WebRtcSpl_ResetResample48khzTo8khz :: State48khzTo8khz where
  "WebRtcSpl_ResetResample48khzTo8khz =
     \<lparr>S_48_24 = replicate 8 0, S_24_24 = replicate 16 0, S_24_16 = replicate 8 0,
      S_16_8 = replicate 8 0\<rparr>"

definition WebRtcSpl_Resample8khzTo48khz ::
    "int16 list \<Rightarrow> State8khzTo48khz \<Rightarrow> int32 list \<Rightarrow> int16 list \<times> State8khzTo48khz \<times> int32 list"
where
  "WebRtcSpl_Resample8khzTo48khz in0 state tmpmem =
     (let (u16k, s1) = WebRtcSpl_UpBy2ShortToInt (take 80 in0) (S_8_16 state);
          tmpmem = blit tmpmem 264 u16k;
          tmpmem = blit tmpmem 256 (S_16_12 state);
          s2 = take 8 (drop 416 tmpmem);
          tmpmem = WebRtcSpl_Resample32khzTo24khz tmpmem 256 240 40;
          (u24, s3) = WebRtcSpl_UpBy2IntToInt (take 120 (drop 240 tmpmem)) (S_12_24 state);
          tmpmem = blit tmpmem 0 u24;
          (out, s4) = WebRtcSpl_UpBy2IntToShort (take 240 tmpmem) (S_24_48' state)
      in (out, \<lparr>S_8_16 = s1, S_16_12 = s2, S_12_24 = s3, S_24_48' = s4\<rparr>, tmpmem))"

definition WebRtcSpl_ResetResample8khzTo48khz :: State8khzTo48khz where
  "WebRtcSpl_ResetResample8khzTo48khz =
     \<lparr>S_8_16 = replicate 8 0, S_16_12 = replicate 8 0, S_12_24 = replicate 8 0,
      S_24_48' = replicate 8 0\<rparr>"

section \<open>State words of the sections\<close>

lemma length_put4 [simp]: "length (put4 k st s) = length s"
  by (simp add: put4_def split: prod.splits)

lemma get4_put4_same: "k + 3 < length s \<Longrightarrow> get4 k (put4 k st s) = st"
  by (cases st) (simp add: get4_def put4_def)

lemma get4_put4_other: "k + 3 < j \<or> j + 3 < k \<Longrightarrow> get4 j (put4 k st s) = get4 j s"
  by (cases st) (auto simp: get4_def put4_def)

lemma put4_put4_same: "put4 k st (put4 k st' s) = put4 k st s"
  by (cases st; cases st') (simp add: put4_def list_update_swap)

lemma put4_update: "j < k \<or> k + 3 < j \<Longrightarrow> put4 k st (s[j := x]) = (put4 k st s)[j := x]"
  by (cases st) (auto simp: put4_def list_update_swap)

lemma put4_commute:
  assumes "k + 3 < j \<or> j + 3 < k"
  shows "put4 k st (put4 j st' s) = put4 j st' (put4 k st s)"
proof -
  obtain a b c d where st': "st' = (a, b, c, d)" by (metis prod_cases4)
  have "put4 k st (s[j := a, j + 1 := b, j + 2 := c, j + 3 := d]) =
      (put4 k st s)[j := a, j + 1 := b, j + 2 := c, j + 3 := d]"
    by (rule disjE [OF assms]) (simp_all add: put4_update)
  then show ?thesis by (simp only: st' put4_def [of j] prod.case)
qed

lemma put4_nth_other: "i < k \<or> k + 3 < i \<Longrightarrow> put4 k st s ! i = s ! i"
  by (cases st) (auto simp: put4_def)

lemma put4_nth_first: "k + 3 < length s \<Longrightarrow> put4 k st s ! k = fst st"
  by (cases st) (simp add: put4_def)

lemma branch_unfold:
  "branch row k s xs =
     (put4 k (fst (run (allpass3 row) (get4 k s) xs)) s, snd (run (allpass3 row) (get4 k s) xs))"
  by (simp add: branch_def case_prod_beta)

lemma length_branch [simp]: "length (snd (branch row k s xs)) = length xs"
  by (simp add: branch_unfold)

lemma length_branch_state [simp]: "length (fst (branch row k s xs)) = length s"
  by (simp add: branch_unfold)

lemma run_append_fst: "fst (run f s (xs @ ys)) = fst (run f (fst (run f s xs)) ys)"
  by (simp add: run_append case_prod_beta Let_def)

lemma run_append_snd: "snd (run f s (xs @ ys)) = snd (run f s xs) @ snd (run f (fst (run f s xs)) ys)"
  by (simp add: run_append case_prod_beta Let_def)

lemmas section_simps = branch_unfold get4_put4_same get4_put4_other put4_put4_same
  run_append_fst run_append_snd

text \<open>The first state word of a section is the last input it has seen.\<close>

lemma allpass3_first: "fst (fst (allpass3 row st x)) = x"
  by (cases st) (simp only: allpass3_def Let_def prod.case fst_conv)

lemma run_allpass3_first: "xs \<noteq> [] \<Longrightarrow> fst (fst (run (allpass3 row) st xs)) = last xs"
proof (induction xs arbitrary: st)
  case (Cons x xs)
  then show ?case
    by (cases "xs = []") (simp_all add: fst_run_Cons allpass3_first del: run.simps(2))
qed simp

section \<open>Even and odd samples of a stream\<close>

lemma evens_append: "even (length xs) \<Longrightarrow> evens (xs @ ys) = evens xs @ evens ys"
  by (induction xs rule: evens.induct) simp_all

lemma odds_append: "even (length xs) \<Longrightarrow> odds (xs @ ys) = odds xs @ odds ys"
  by (induction xs rule: odds.induct) simp_all

lemma take_evens: "even (length xs) \<Longrightarrow> take (length xs div 2) (evens xs) = evens xs"
  by (rule take_all) (auto elim: evenE)

lemma take_odds: "take (length xs div 2) (odds xs) = odds xs"
  by simp

lemma interleave_append:
  "length as = length bs \<Longrightarrow> interleave (as @ cs) (bs @ ds) = interleave as bs @ interleave cs ds"
  by (induction as bs rule: list_induct2) simp_all

lemma map2_append:
  "length as = length bs \<Longrightarrow> map2 f (as @ cs) (bs @ ds) = map2 f as bs @ map2 f cs ds"
  by simp

lemma sat16_clamp: "sat16 x = clamp (-32768) 32767 x"
  by (simp add: sat16_def clamp_def Let_def)

lemma sat16_range [c_ranges]: "is_s16 (sat16 x)"
  by (simp add: sat16_clamp clamp_def is_s16_def)

section \<open>Filtering a stream block by block\<close>

lemma half_evens_append:
  "even (length xs) \<Longrightarrow> take (length (xs @ ys) div 2) (evens (xs @ ys)) =
     take (length xs div 2) (evens xs) @ take (length ys div 2) (evens ys)"
  by (auto simp: evens_append elim!: evenE)

lemma half_odds_append:
  "even (length xs) \<Longrightarrow> take (length (xs @ ys) div 2) (odds (xs @ ys)) =
     take (length xs div 2) (odds xs) @ take (length ys div 2) (odds ys)"
  by (auto simp: odds_append elim!: evenE)

lemmas put4_sort = put4_commute [of 0 4] put4_commute [of 0 8] put4_commute [of 0 12]
  put4_commute [of 4 8] put4_commute [of 4 12] put4_commute [of 8 12]

lemmas branch_eqs = Let_def branch_unfold prod.case

text \<open>Closed forms: each section sees the old state only.\<close>

abbreviation sec_out :: "nat \<Rightarrow> allpass_state \<Rightarrow> int32 list \<Rightarrow> int32 list" where
  "sec_out row st xs \<equiv> snd (run (allpass3 row) st xs)"

abbreviation sec_st :: "nat \<Rightarrow> allpass_state \<Rightarrow> int32 list \<Rightarrow> allpass_state" where
  "sec_st row st xs \<equiv> fst (run (allpass3 row) st xs)"

definition down_core :: "int32 list \<Rightarrow> int32 list \<Rightarrow> int32 list \<Rightarrow> int32 list \<times> int32 list" where
  "down_core ev od s =
     (map2 (\<lambda>l u. s32 (shr l 1 + shr u 1)) (sec_out 1 (get4 0 s) ev) (sec_out 0 (get4 4 s) od),
      put4 4 (sec_st 0 (get4 4 s) od) (put4 0 (sec_st 1 (get4 0 s) ev) s))"

definition lp_core :: "int32 list \<Rightarrow> int32 list \<Rightarrow> int32 list \<Rightarrow> int32 list \<times> int32 list" where
  "lp_core ev od s =
     (let od' = take (length od) (s ! 12 # od);
          avg = map2 (\<lambda>l u. shr (s32 (shr l 1 + shr u 1)) 15) in
      (interleave (avg (sec_out 1 (get4 0 s) od') (sec_out 0 (get4 4 s) ev))
                  (avg (sec_out 1 (get4 8 s) ev) (sec_out 0 (get4 12 s) od)),
       put4 12 (sec_st 0 (get4 12 s) od) (put4 8 (sec_st 1 (get4 8 s) ev)
         (put4 4 (sec_st 0 (get4 4 s) ev) (put4 0 (sec_st 1 (get4 0 s) od') s)))))"

lemma DownBy2ShortToInt_core:
  "length s = 8 \<Longrightarrow> WebRtcSpl_DownBy2ShortToInt xs s =
     down_core (map widen15 (take (length xs div 2) (evens xs)))
       (map widen15 (take (length xs div 2) (odds xs))) s"
  by (simp only: WebRtcSpl_DownBy2ShortToInt_def branch_eqs)
    (simp add: down_core_def get4_put4_other zip_map1 case_prod_unfold o_def)

lemma LPBy2IntToInt_core:
  "length s = 16 \<Longrightarrow> WebRtcSpl_LPBy2IntToInt xs s =
     lp_core (take (length xs div 2) (evens xs)) (take (length xs div 2) (odds xs)) s"
  by (simp only: WebRtcSpl_LPBy2IntToInt_def branch_eqs)
    (simp add: lp_core_def get4_put4_other zip_map1 case_prod_unfold o_def Let_def)

lemma down_core_append:
  assumes "length ex = length ox" "length s = 8"
  shows "down_core (ex @ ey) (ox @ oy) s =
    (let (out1, s1) = down_core ex ox s; (out2, s2) = down_core ey oy s1 in (out1 @ out2, s2))"
  using assms by (simp add: down_core_def section_simps put4_sort map2_append Let_def)

lemma DownBy2ShortToInt_streams:
  assumes "even (length xs)" "length s = 8"
  shows "streams_at WebRtcSpl_DownBy2ShortToInt xs ys s"
proof -
  have s1: "length (snd (down_core ev od s)) = 8" for ev od
    using assms(2) by (simp add: down_core_def)
  show ?thesis
    using assms(1) s1
    by (simp only: streams_at_def DownBy2ShortToInt_core [OF assms(2)] half_evens_append half_odds_append
        map_append, subst down_core_append [OF _ assms(2)])
      (auto simp: Let_def case_prod_unfold DownBy2ShortToInt_core elim!: evenE)
qed

lemma UpBy2IntToInt_streams:
  assumes "length s = 8"
  shows "streams_at WebRtcSpl_UpBy2IntToInt xs ys s"
  using assms
  by (simp only: streams_at_def WebRtcSpl_UpBy2IntToInt_def branch_eqs)
    (simp add: section_simps put4_sort interleave_append)

lemma delayed_append:
  assumes "xs \<noteq> []"
  shows "take (length xs + length ys) (z # xs @ ys) = take (length xs) (z # xs) @ take (length ys) (last xs # ys)"
proof -
  have "z # xs = take (length xs) (z # xs) @ [last xs]"
    using assms by (metis append_butlast_last_id butlast_conv_take diff_Suc_1 last_ConsR length_Cons list.distinct(1))
  then have "z # xs @ ys = take (length xs) (z # xs) @ last xs # ys"
    by (metis append_Cons append_Nil append_assoc)
  then show ?thesis by (metis length_Cons length_take min.absorb2 le_SucI order_refl take_append take_all_iff diff_add_inverse le_add1)
qed

lemma lp_core_append:
  assumes "length ex = length ox" "length s = 16" "ox \<noteq> []"
  shows "lp_core (ex @ ey) (ox @ oy) s =
    (let (out1, s1) = lp_core ex ox s; (out2, s2) = lp_core ey oy s1 in (out1 @ out2, s2))"
proof -
  have last: "put4 12 (sec_st 0 st ox) s' ! 12 = last ox" if "length s' = 16" for st s'
    using that assms(3) by (simp add: put4_nth_first run_allpass3_first)
  have del: "take (length (ox @ oy)) (s ! 12 # ox @ oy) = take (length ox) (s ! 12 # ox) @ take (length oy) (last ox # oy)"
    using delayed_append [OF assms(3), of oy] by simp
  show ?thesis
    unfolding lp_core_def [of "ex @ ey"] del
    using assms(1,2)
    by (simp add: lp_core_def last Let_def section_simps put4_sort map2_append interleave_append)
qed

lemma LPBy2IntToInt_streams:
  assumes "even (length xs)" "xs \<noteq> []" "length s = 16"
  shows "streams_at WebRtcSpl_LPBy2IntToInt xs ys s"
proof -
  have s1: "length (snd (lp_core ev od s)) = 16" for ev od
    using assms(3) by (simp add: lp_core_def Let_def)
  have "take (length xs div 2) (odds xs) \<noteq> []"
    using assms(1,2) by (cases xs rule: odds.cases) auto
  then show ?thesis
    using assms(1) s1
    by (simp only: streams_at_def LPBy2IntToInt_core [OF assms(3)] half_evens_append half_odds_append,
        subst lp_core_append [OF _ assms(3)])
      (auto simp: Let_def case_prod_unfold LPBy2IntToInt_core elim!: evenE)
qed

lemma put4_get4 [simp]: "put4 k (get4 k s) s = s"
  by (simp add: put4_def get4_def)

interpretation down: block_filter WebRtcSpl_DownBy2ShortToInt "\<lambda>s. length s = 8" "\<lambda>xs. even (length xs)"
proof
  show "streams_at WebRtcSpl_DownBy2ShortToInt xs ys s"
    if "even (length xs)" "length s = 8" for xs ys :: "int list" and s
    using that by (rule DownBy2ShortToInt_streams)
qed (simp_all add: DownBy2ShortToInt_core down_core_def)

interpretation up: block_filter WebRtcSpl_UpBy2IntToInt "\<lambda>s. length s = 8" "\<lambda>xs. True"
proof
  show "streams_at WebRtcSpl_UpBy2IntToInt xs ys s" if "length s = 8" for xs ys s
    using that by (rule UpBy2IntToInt_streams)
qed (simp_all only: WebRtcSpl_UpBy2IntToInt_def branch_eqs, simp_all)

interpretation lowpass: block_filter WebRtcSpl_LPBy2IntToInt "\<lambda>s. length s = 16"
  "\<lambda>xs. even (length xs) \<and> xs \<noteq> []"
proof
  show "streams_at WebRtcSpl_LPBy2IntToInt xs ys s"
    if "even (length xs) \<and> xs \<noteq> []" "length s = 16" for xs ys s
    using that by (simp add: LPBy2IntToInt_streams)
qed (simp_all add: LPBy2IntToInt_core lp_core_def Let_def)

section \<open>Fractional resampling in place\<close>

text \<open>The same interpolation with separate input and output.\<close>

fun resample_3to2 :: "int32 list \<Rightarrow> nat \<Rightarrow> int32 list" where
  "resample_3to2 xs 0 = []"
| "resample_3to2 xs (Suc K) =
     fir (kCoefficients48To32 ! 0) xs 16384 # fir (kCoefficients48To32 ! 1) (drop 1 xs) 16384
     # resample_3to2 (drop 3 xs) K"

fun resample_4to3 :: "int32 list \<Rightarrow> nat \<Rightarrow> int32 list" where
  "resample_4to3 xs 0 = []"
| "resample_4to3 xs (Suc K) =
     fir (kCoefficients32To24 ! 0) xs 16384 # fir (kCoefficients32To24 ! 1) (drop 1 xs) 16384
     # fir (kCoefficients32To24 ! 2) (drop 2 xs) 16384 # resample_4to3 (drop 4 xs) K"

lemma length_resample_3to2 [simp]: "length (resample_3to2 xs K) = 2 * K"
  by (induction xs K rule: resample_3to2.induct) simp_all

lemma length_resample_4to3 [simp]: "length (resample_4to3 xs K) = 3 * K"
  by (induction xs K rule: resample_4to3.induct) simp_all

lemma Resample48khzTo32khz_in_place:
  assumes "out \<le> i" "out + 2 * K \<le> length mem"
  shows "WebRtcSpl_Resample48khzTo32khz mem i out K = blit mem out (resample_3to2 (drop i mem) K)"
  using assms
proof (induction mem i out K rule: WebRtcSpl_Resample48khzTo32khz.induct)
  case (2 mem i out K)
  define m1 where "m1 = mem[out := fir (kCoefficients48To32 ! 0) (drop i mem) 16384]"
  define m2 where "m2 = m1[out + 1 := fir (kCoefficients48To32 ! 1) (drop (i + 1) m1) 16384]"
  have "WebRtcSpl_Resample48khzTo32khz mem i out (Suc K) = WebRtcSpl_Resample48khzTo32khz m2 (i + 3) (out + 2) K"
    by (simp add: m1_def m2_def Let_def)
  also have "\<dots> = blit m2 (out + 2) (resample_3to2 (drop (i + 3) m2) K)"
    unfolding m2_def m1_def by (rule "2.IH" [OF refl refl]) (use "2.prems" in simp_all)
  also have "drop (i + 3) m2 = drop 3 (drop i mem)"
    using "2.prems" by (simp add: m1_def m2_def add.commute)
  also have "m2 = mem[out := fir (kCoefficients48To32 ! 0) (drop i mem) 16384,
      Suc out := fir (kCoefficients48To32 ! 1) (drop 1 (drop i mem)) 16384]"
    using "2.prems"(1) by (simp add: m1_def m2_def)
  finally show ?case
    using "2.prems"(2) by (simp add: blit_Cons)
qed simp

lemma Resample32khzTo24khz_in_place:
  assumes "out \<le> i" "out + 3 * K \<le> length mem"
  shows "WebRtcSpl_Resample32khzTo24khz mem i out K = blit mem out (resample_4to3 (drop i mem) K)"
  using assms
proof (induction mem i out K rule: WebRtcSpl_Resample32khzTo24khz.induct)
  case (2 mem i out K)
  define m1 where "m1 = mem[out := fir (kCoefficients32To24 ! 0) (drop i mem) 16384]"
  define m2 where "m2 = m1[out + 1 := fir (kCoefficients32To24 ! 1) (drop (i + 1) m1) 16384]"
  define m3 where "m3 = m2[out + 2 := fir (kCoefficients32To24 ! 2) (drop (i + 2) m2) 16384]"
  have "WebRtcSpl_Resample32khzTo24khz mem i out (Suc K) = WebRtcSpl_Resample32khzTo24khz m3 (i + 4) (out + 3) K"
    by (simp add: m1_def m2_def m3_def Let_def)
  also have "\<dots> = blit m3 (out + 3) (resample_4to3 (drop (i + 4) m3) K)"
    unfolding m3_def m2_def m1_def
    by (rule "2.IH" [OF refl refl refl]) (use "2.prems" in simp_all)
  also have "drop (i + 4) m3 = drop 4 (drop i mem)"
    using "2.prems" by (simp add: m1_def m2_def m3_def add.commute)
  also have "m3 = mem[out := fir (kCoefficients32To24 ! 0) (drop i mem) 16384,
      Suc out := fir (kCoefficients32To24 ! 1) (drop 1 (drop i mem)) 16384,
      Suc (Suc out) := fir (kCoefficients32To24 ! 2) (drop 2 (drop i mem)) 16384]"
    using "2.prems"(1) by (simp add: m1_def m2_def m3_def)
  finally show ?case
    using "2.prems"(2) by (simp add: blit_Cons numeral_3_eq_3)
qed simp

lemma fir_append: "length cs \<le> length xs \<Longrightarrow> fir cs (xs @ zs) t = fir cs xs t"
  by (induction cs xs t rule: fir.induct) (auto simp: Suc_le_length_iff)

lemma fir_window: "length cs \<le> n \<Longrightarrow> n \<le> length xs \<Longrightarrow> fir cs xs t = fir cs (take n xs) t"
  by (metis append_take_drop_id fir_append length_take min.absorb2)

lemma length_kCoefficients48To32: "length (kCoefficients48To32 ! 0) = 8" "length (kCoefficients48To32 ! 1) = 8"
  by (simp_all add: kCoefficients48To32_def)

lemma resample_3to2_append:
  "3 * K + 6 \<le> length xs \<Longrightarrow> resample_3to2 (xs @ zs) K = resample_3to2 xs K"
proof (induction xs K rule: resample_3to2.induct)
  case (2 xs K)
  have "fir (kCoefficients48To32 ! 1) (drop 1 xs @ zs) 16384 = fir (kCoefficients48To32 ! 1) (drop 1 xs) 16384"
    using 2 by (intro fir_append) (simp only: length_kCoefficients48To32, simp)
  moreover have "fir (kCoefficients48To32 ! 0) (xs @ zs) 16384 = fir (kCoefficients48To32 ! 0) xs 16384"
    using 2 by (intro fir_append) (simp only: length_kCoefficients48To32, simp)
  ultimately show ?case using 2 by simp
qed simp

section \<open>The 48 kHz to 8 kHz pipeline\<close>

lemma DownBy2ShortToInt_shape [c_shape]:
  "length (fst (WebRtcSpl_DownBy2ShortToInt xs s)) = length xs div 2"
  "length (snd (WebRtcSpl_DownBy2ShortToInt xs s)) = length s"
  by (auto simp: WebRtcSpl_DownBy2ShortToInt_def Let_def case_prod_beta min_def)

lemma LPBy2IntToInt_shape [c_shape]:
  "length (fst (WebRtcSpl_LPBy2IntToInt xs s)) = 2 * (length xs div 2)"
  "length (snd (WebRtcSpl_LPBy2IntToInt xs s)) = length s"
  by (auto simp: WebRtcSpl_LPBy2IntToInt_def Let_def case_prod_beta min_def)

lemma DownBy2IntToShort_shape [c_shape]:
  "length (fst (WebRtcSpl_DownBy2IntToShort xs s)) = length xs div 2"
  "length (snd (snd (WebRtcSpl_DownBy2IntToShort xs s))) = length s"
  by (auto simp: WebRtcSpl_DownBy2IntToShort_def Let_def case_prod_beta min_def)

lemma DownBy2IntToShort_range [c_ranges]:
  "\<forall>y\<in>set (fst (WebRtcSpl_DownBy2IntToShort xs s)). is_s16 y"
  by (auto simp: WebRtcSpl_DownBy2IntToShort_def Let_def case_prod_beta sat16_range)

definition state_48_8_ok :: "State48khzTo8khz \<Rightarrow> bool" where
  "state_48_8_ok st \<longleftrightarrow> length (S_48_24 st) = 8 \<and> length (S_24_24 st) = 16
     \<and> length (S_24_16 st) = 8 \<and> length (S_16_8 st) = 8"

text \<open>The conversion as a composition of the four filters, without scratch memory.\<close>

definition pipeline_48_8 :: "int16 list \<Rightarrow> State48khzTo8khz \<Rightarrow> int16 list \<times> State48khzTo8khz" where
  "pipeline_48_8 xs st =
     (let (d24, s1) = WebRtcSpl_DownBy2ShortToInt xs (S_48_24 st);
          (lp, s2) = WebRtcSpl_LPBy2IntToInt d24 (S_24_24 st);
          buf = S_24_16 st @ lp;
          (out, _, s4) = WebRtcSpl_DownBy2IntToShort (resample_3to2 buf 80) (S_16_8 st)
      in (out, \<lparr>S_48_24 = s1, S_24_24 = s2, S_24_16 = drop 240 buf, S_16_8 = s4\<rparr>))"

lemma Resample48khzTo8khz_pipeline:
  assumes "length xs \<ge> 480" "state_48_8_ok st" "length tmpmem \<ge> 496"
  shows "fst (WebRtcSpl_Resample48khzTo8khz xs st tmpmem) = fst (pipeline_48_8 (take 480 xs) st)
    \<and> fst (snd (WebRtcSpl_Resample48khzTo8khz xs st tmpmem)) = snd (pipeline_48_8 (take 480 xs) st)"
proof -
  define d24 where "d24 = fst (WebRtcSpl_DownBy2ShortToInt (take 480 xs) (S_48_24 st))"
  define lp where "lp = fst (WebRtcSpl_LPBy2IntToInt d24 (S_24_24 st))"
  have d24: "length d24 = 240" using assms(1) by (simp add: d24_def c_shape)
  have lp: "length lp = 240" by (simp add: lp_def c_shape d24)
  have S: "length (S_24_16 st) = 8" using assms(2) by (simp add: state_48_8_ok_def)
  define t1 where "t1 = blit tmpmem 256 d24"
  define t2 where "t2 = blit (blit t1 16 lp) 8 (S_24_16 st)"
  have t1: "take 240 (drop 256 t1) = d24" "length t1 = length tmpmem"
    using assms(3) d24 by (simp_all add: t1_def take_drop_blit)
  have t2: "drop 8 t2 = S_24_16 st @ lp @ drop 256 t1" "length t2 = length tmpmem"
    using assms(3) S lp t1(2) by (simp_all add: t2_def blit_def)
  have s3: "take 8 (drop 248 t2) = drop 240 (S_24_16 st @ lp)"
  proof -
    have "drop 248 t2 = drop 240 (drop 8 t2)" by simp
    then show ?thesis using S lp by (simp only: t2(1)) simp
  qed
  have "WebRtcSpl_Resample48khzTo32khz t2 8 0 80 = blit t2 0 (resample_3to2 (drop 8 t2) 80)"
    using assms(3) t2(2) by (intro Resample48khzTo32khz_in_place) simp_all
  moreover have "resample_3to2 (drop 8 t2) 80 = resample_3to2 (S_24_16 st @ lp) 80"
    using S lp resample_3to2_append [of 80 "S_24_16 st @ lp" "drop 256 t1"] by (simp add: t2(1))
  ultimately have "take 160 (WebRtcSpl_Resample48khzTo32khz t2 8 0 80) = resample_3to2 (S_24_16 st @ lp) 80"
    using take_blit_full [of 0 t2 "resample_3to2 (S_24_16 st @ lp) 80"] by simp
  then show ?thesis
    using s3 t1(1)
    by (simp add: WebRtcSpl_Resample48khzTo8khz_def pipeline_48_8_def Let_def case_prod_beta
        flip: t1_def t2_def lp_def d24_def)
qed

lemma length_Resample48khzTo32khz [simp]:
  "length (WebRtcSpl_Resample48khzTo32khz mem i out K) = length mem"
  by (induction mem i out K rule: WebRtcSpl_Resample48khzTo32khz.induct) (simp_all add: Let_def)

lemma DownBy2IntToShort_in_length:
  "length (fst (snd (WebRtcSpl_DownBy2IntToShort xs s))) \<le> length xs"
  by (auto simp: WebRtcSpl_DownBy2IntToShort_def Let_def case_prod_beta)

lemma length_blit_less: "off + length src \<le> length dst \<Longrightarrow> length (blit dst off src) = length dst"
  by simp

lemma Resample48khzTo8khz_tmpmem:
  assumes "length xs \<ge> 480" "state_48_8_ok st" "length tmpmem \<ge> 496"
  shows "length (snd (snd (WebRtcSpl_Resample48khzTo8khz xs st tmpmem))) = length tmpmem"
proof -
  define d24 where "d24 = fst (WebRtcSpl_DownBy2ShortToInt (take 480 xs) (S_48_24 st))"
  define t1 where "t1 = blit tmpmem 256 d24"
  define lp where "lp = fst (WebRtcSpl_LPBy2IntToInt (take 240 (drop 256 t1)) (S_24_24 st))"
  define t2 where "t2 = blit (blit t1 16 lp) 8 (S_24_16 st)"
  define t3 where "t3 = WebRtcSpl_Resample48khzTo32khz t2 8 0 80"
  define in' where "in' = fst (snd (WebRtcSpl_DownBy2IntToShort (take 160 t3) (S_16_8 st)))"
  have d24: "length d24 = 240" using assms(1) by (simp add: d24_def c_shape)
  then have t1: "length t1 = length tmpmem" using assms(3) by (simp add: t1_def)
  then have lp: "length lp = 240" using assms(3) by (simp add: lp_def c_shape)
  have S: "length (S_24_16 st) = 8" using assms(2) by (simp add: state_48_8_ok_def)
  have t2: "length t2 = length tmpmem" using assms(3) S lp t1 by (simp add: t2_def)
  then have t3: "length t3 = length tmpmem" by (simp add: t3_def)
  have "length in' \<le> length (take 160 t3)" unfolding in'_def by (rule DownBy2IntToShort_in_length)
  then have "length (blit t3 0 in') = length tmpmem" using assms(3) t3 by (intro trans [OF length_blit_less]) simp_all
  moreover have "snd (snd (WebRtcSpl_Resample48khzTo8khz xs st tmpmem)) = blit t3 0 in'"
    by (simp add: WebRtcSpl_Resample48khzTo8khz_def Let_def case_prod_beta
        flip: d24_def t1_def lp_def t2_def t3_def in'_def)
  ultimately show ?thesis by simp
qed

lemma pipeline_48_8_shape [c_shape]:
  assumes "length xs = 480" "state_48_8_ok st"
  shows "length (fst (pipeline_48_8 xs st)) = 80" "state_48_8_ok (snd (pipeline_48_8 xs st))"
  using assms by (simp_all add: pipeline_48_8_def state_48_8_ok_def Let_def case_prod_beta c_shape)

lemma pipeline_48_8_range [c_ranges]: "\<forall>y\<in>set (fst (pipeline_48_8 xs st)). is_s16 y"
  by (simp add: pipeline_48_8_def Let_def case_prod_beta DownBy2IntToShort_range)

section \<open>Properties\<close>

text \<open>
  C39: Block streaming: each by-two filter can be fed in blocks.  For even blocks (any
  blocks, for the interpolator) filtering block after block with the carried state gives the
  output and the final state of filtering the concatenation, for the decimator, the
  interpolator and the low-pass filter.
\<close>

theorem by_2_filters_stream:
  assumes "\<forall>b\<in>set bs. even (length b)" "\<forall>b\<in>set ys. even (length b) \<and> b \<noteq> []"
    "length s = 8" "length s' = 16"
  shows "run_blocks WebRtcSpl_DownBy2ShortToInt bs s = WebRtcSpl_DownBy2ShortToInt (concat bs) s \<and>
    run_blocks WebRtcSpl_UpBy2IntToInt bs s = WebRtcSpl_UpBy2IntToInt (concat bs) s \<and>
    run_blocks WebRtcSpl_LPBy2IntToInt ys s' = WebRtcSpl_LPBy2IntToInt (concat ys) s'"
  using down.run_blocks_concat [of bs s] up.run_blocks_concat [of bs s] lowpass.run_blocks_concat [of ys s'] assms
  by auto

theorem by_2_filters_stream_witness:
  "run_blocks WebRtcSpl_DownBy2ShortToInt [[1, 2], [3, 4, 5, 6]] (replicate 8 0) =
   WebRtcSpl_DownBy2ShortToInt [1, 2, 3, 4, 5, 6] (replicate 8 0)"
  using by_2_filters_stream [of "[[1, 2], [3, 4, 5, 6]]" "[]" "replicate 8 0" "replicate 16 0"] by simp

text \<open>
  The fractional resamplers work in place: although they write their output into the buffer
  they are still reading (the output pointer never overtakes the input pointer), the result
  is that of filtering an untouched copy of the input, three samples to two and four to
  three.
\<close>

theorem fractional_resampling_in_place:
  assumes "out \<le> i"
  shows "(out + 2 * K \<le> length mem \<longrightarrow>
      WebRtcSpl_Resample48khzTo32khz mem i out K = blit mem out (resample_3to2 (drop i mem) K)) \<and>
    (out + 3 * K \<le> length mem \<longrightarrow>
      WebRtcSpl_Resample32khzTo24khz mem i out K = blit mem out (resample_4to3 (drop i mem) K))"
  using Resample48khzTo32khz_in_place [OF assms] Resample32khzTo24khz_in_place [OF assms] by blast

theorem fractional_resampling_in_place_witness:
  "length (WebRtcSpl_Resample48khzTo32khz (replicate 20 5) 8 0 4) = 20"
  using fractional_resampling_in_place [of 0 8 4 "replicate 20 5"] by simp

text \<open>
  C25: The 48 kHz to 8 kHz conversion is the composition of its four filters.  The layout of the
  scratch memory (overlapping input, output and state regions) does not matter: for any
  contents of \<open>tmpmem\<close> the output is 80 samples of \<open>int16_t\<close>, it and the new state are those of
  the pipeline without scratch memory, and only the first 480 input samples count.
\<close>

theorem Resample48khzTo8khz_scratch_independent:
  assumes "480 \<le> length xs" "state_48_8_ok st" "496 \<le> length tmpmem"
  defines "r \<equiv> WebRtcSpl_Resample48khzTo8khz xs st tmpmem"
  shows "fst r = fst (pipeline_48_8 (take 480 xs) st) \<and> fst (snd r) = snd (pipeline_48_8 (take 480 xs) st)
    \<and> length (fst r) = 80 \<and> (\<forall>y\<in>set (fst r). is_s16 y) \<and> state_48_8_ok (fst (snd r))"
  using Resample48khzTo8khz_pipeline [OF assms(1-3)] pipeline_48_8_shape [of "take 480 xs" st]
    pipeline_48_8_range [of "take 480 xs" st] assms(1,2) by (simp add: r_def)

theorem Resample48khzTo8khz_scratch_independent_witness:
  "length (fst (WebRtcSpl_Resample48khzTo8khz (replicate 480 7) WebRtcSpl_ResetResample48khzTo8khz
     (replicate 496 123456))) = 80"
proof -
  have "state_48_8_ok WebRtcSpl_ResetResample48khzTo8khz"
    by (simp add: state_48_8_ok_def WebRtcSpl_ResetResample48khzTo8khz_def)
  moreover have "480 \<le> length (replicate 480 (7::int))" "496 \<le> length (replicate 496 (123456::int))"
    by simp_all
  ultimately show ?thesis using Resample48khzTo8khz_scratch_independent by blast
qed

end
