(* ===== verification/VadInst.thy ===== *)
theory VadInst
  imports SplResample
begin

text \<open>
  The state of the voice activity detector (\<open>vad_core.h\<close>): the structure \<open>VadInstT\<close>, the
  constants of \<open>vad_core.c\<close>, the aggressiveness modes and the initialisation.  Arrays are
  lists of the declared length; \<open>inst_shape\<close> states these lengths.  A pointer argument that
  may be NULL is an option.
\<close>

abbreviation (input) kNumChannels :: nat where "kNumChannels \<equiv> 6"
abbreviation (input) kNumGaussians :: nat where "kNumGaussians \<equiv> 2"
abbreviation (input) kTableSize :: nat where "kTableSize \<equiv> 12"
abbreviation (input) kMinEnergy :: int where "kMinEnergy \<equiv> 10"

record VadInstT =
  vad :: int
  downsampling_filter_states :: "int32 list"
  state_48_to_8 :: State48khzTo8khz
  noise_means :: "int16 list"
  speech_means :: "int16 list"
  noise_stds :: "int16 list"
  speech_stds :: "int16 list"
  frame_counter :: int32
  over_hang :: int16
  num_of_speech :: int16
  index_vector :: "int16 list"
  low_value_vector :: "int16 list"
  mean_value :: "int16 list"
  upper_state :: "int16 list"
  lower_state :: "int16 list"
  hp_filter_state :: "int16 list"
  over_hang_max_1 :: "int16 list"
  over_hang_max_2 :: "int16 list"
  individual :: "int16 list"
  total :: "int16 list"
  init_flag :: int

definition inst_shape :: "VadInstT \<Rightarrow> bool" where
  "inst_shape self \<longleftrightarrow>
     length (downsampling_filter_states self) = 4 \<and> state_48_8_ok (state_48_to_8 self) \<and>
     length (noise_means self) = 12 \<and> length (speech_means self) = 12 \<and>
     length (noise_stds self) = 12 \<and> length (speech_stds self) = 12 \<and>
     length (index_vector self) = 96 \<and> length (low_value_vector self) = 96 \<and>
     length (mean_value self) = 6 \<and> length (upper_state self) = 5 \<and>
     length (lower_state self) = 5 \<and> length (hp_filter_state self) = 4 \<and>
     length (over_hang_max_1 self) = 3 \<and> length (over_hang_max_2 self) = 3 \<and>
     length (individual self) = 3 \<and> length (total self) = 3"

section \<open>Constants of the models\<close>

definition kSpectrumWeight :: "int16 list" where
  "kSpectrumWeight = [6, 8, 10, 12, 14, 16]"

definition kMinimumDifference :: "int16 list" where
  "kMinimumDifference = [544, 544, 576, 576, 576, 576]"

definition kMaximumSpeech :: "int16 list" where
  "kMaximumSpeech = [11392, 11392, 11520, 11520, 11520, 11520]"

definition kMinimumMean :: "int16 list" where
  "kMinimumMean = [640, 768]"

definition kMaximumNoise :: "int16 list" where
  "kMaximumNoise = [9216, 9088, 8960, 8832, 8704, 8576]"

definition kNoiseDataWeights :: "int16 list" where
  "kNoiseDataWeights = [34, 62, 72, 66, 53, 25, 94, 66, 56, 62, 75, 103]"

definition kSpeechDataWeights :: "int16 list" where
  "kSpeechDataWeights = [48, 82, 45, 87, 50, 47, 80, 46, 83, 41, 78, 81]"

definition kNoiseDataMeans :: "int16 list" where
  "kNoiseDataMeans = [6738, 4892, 7065, 6715, 6771, 3369, 7646, 3863, 7820, 7266, 5020, 4362]"

definition kSpeechDataMeans :: "int16 list" where
  "kSpeechDataMeans = [8306, 10085, 10078, 11823, 11843, 6309, 9473, 9571, 10879, 7581, 8180, 7483]"

definition kNoiseDataStds :: "int16 list" where
  "kNoiseDataStds = [378, 1064, 493, 582, 688, 593, 474, 697, 475, 688, 421, 455]"

definition kSpeechDataStds :: "int16 list" where
  "kSpeechDataStds = [555, 505, 567, 524, 585, 1231, 509, 828, 492, 1540, 1079, 850]"

abbreviation (input) kNoiseUpdateConst :: int where "kNoiseUpdateConst \<equiv> 655"
abbreviation (input) kSpeechUpdateConst :: int where "kSpeechUpdateConst \<equiv> 6554"
abbreviation (input) kBackEta :: int where "kBackEta \<equiv> 154"
abbreviation (input) kMaxSpeechFrames :: int where "kMaxSpeechFrames \<equiv> 6"
abbreviation (input) kMinStd :: int where "kMinStd \<equiv> 384"
abbreviation (input) kDefaultMode :: int where "kDefaultMode \<equiv> 0"
abbreviation (input) kInitCheck :: int where "kInitCheck \<equiv> 42"

section \<open>Aggressiveness modes\<close>

definition kOverHangMax1Q :: "int16 list" where "kOverHangMax1Q = [8, 4, 3]"
definition kOverHangMax2Q :: "int16 list" where "kOverHangMax2Q = [14, 7, 5]"
definition kLocalThresholdQ :: "int16 list" where "kLocalThresholdQ = [24, 21, 24]"
definition kGlobalThresholdQ :: "int16 list" where "kGlobalThresholdQ = [57, 48, 57]"

definition kOverHangMax1LBR :: "int16 list" where "kOverHangMax1LBR = [8, 4, 3]"
definition kOverHangMax2LBR :: "int16 list" where "kOverHangMax2LBR = [14, 7, 5]"
definition kLocalThresholdLBR :: "int16 list" where "kLocalThresholdLBR = [37, 32, 37]"
definition kGlobalThresholdLBR :: "int16 list" where "kGlobalThresholdLBR = [100, 80, 100]"

definition kOverHangMax1AGG :: "int16 list" where "kOverHangMax1AGG = [6, 3, 2]"
definition kOverHangMax2AGG :: "int16 list" where "kOverHangMax2AGG = [9, 5, 3]"
definition kLocalThresholdAGG :: "int16 list" where "kLocalThresholdAGG = [82, 78, 82]"
definition kGlobalThresholdAGG :: "int16 list" where "kGlobalThresholdAGG = [285, 260, 285]"

definition kOverHangMax1VAG :: "int16 list" where "kOverHangMax1VAG = [6, 3, 2]"
definition kOverHangMax2VAG :: "int16 list" where "kOverHangMax2VAG = [9, 5, 3]"
definition kLocalThresholdVAG :: "int16 list" where "kLocalThresholdVAG = [94, 94, 94]"
definition kGlobalThresholdVAG :: "int16 list" where "kGlobalThresholdVAG = [1100, 1050, 1100]"

definition WebRtcVad_set_mode_core :: "VadInstT \<Rightarrow> int \<Rightarrow> int \<times> VadInstT" where
  "WebRtcVad_set_mode_core self mode =
     (if mode = 0
      then (0, self\<lparr>over_hang_max_1 := kOverHangMax1Q, over_hang_max_2 := kOverHangMax2Q,
                 individual := kLocalThresholdQ, total := kGlobalThresholdQ\<rparr>)
      else if mode = 1
      then (0, self\<lparr>over_hang_max_1 := kOverHangMax1LBR, over_hang_max_2 := kOverHangMax2LBR,
                 individual := kLocalThresholdLBR, total := kGlobalThresholdLBR\<rparr>)
      else if mode = 2
      then (0, self\<lparr>over_hang_max_1 := kOverHangMax1AGG, over_hang_max_2 := kOverHangMax2AGG,
                 individual := kLocalThresholdAGG, total := kGlobalThresholdAGG\<rparr>)
      else if mode = 3
      then (0, self\<lparr>over_hang_max_1 := kOverHangMax1VAG, over_hang_max_2 := kOverHangMax2VAG,
                 individual := kLocalThresholdVAG, total := kGlobalThresholdVAG\<rparr>)
      else (-1, self))"

section \<open>Initialisation\<close>

definition WebRtcVad_InitCore :: "VadInstT option \<Rightarrow> int \<times> VadInstT option" where
  "WebRtcVad_InitCore handle =
     (case handle of
        None \<Rightarrow> (-1, None)
      | Some self \<Rightarrow>
          let self = self\<lparr>vad := 1, frame_counter := 0, over_hang := 0, num_of_speech := 0\<rparr>;
              self = self\<lparr>downsampling_filter_states := replicate 4 0\<rparr>;
              self = self\<lparr>state_48_to_8 := WebRtcSpl_ResetResample48khzTo8khz\<rparr>;
              self = self\<lparr>noise_means := kNoiseDataMeans, speech_means := kSpeechDataMeans,
                          noise_stds := kNoiseDataStds, speech_stds := kSpeechDataStds\<rparr>;
              self = self\<lparr>low_value_vector := replicate (16 * kNumChannels) 10000,
                          index_vector := replicate (16 * kNumChannels) 0\<rparr>;
              self = self\<lparr>upper_state := replicate 5 0, lower_state := replicate 5 0\<rparr>;
              self = self\<lparr>hp_filter_state := replicate 4 0\<rparr>;
              self = self\<lparr>mean_value := replicate kNumChannels 1600\<rparr>;
              (r, self) = WebRtcVad_set_mode_core self kDefaultMode
          in if r \<noteq> 0 then (-1, Some self)
             else (0, Some (self\<lparr>init_flag := kInitCheck\<rparr>)))"

text \<open>The state after initialisation, whatever the memory held before.\<close>

definition vad_init :: VadInstT where
  "vad_init =
     \<lparr>vad = 1, downsampling_filter_states = replicate 4 0,
      state_48_to_8 = WebRtcSpl_ResetResample48khzTo8khz,
      noise_means = kNoiseDataMeans, speech_means = kSpeechDataMeans,
      noise_stds = kNoiseDataStds, speech_stds = kSpeechDataStds,
      frame_counter = 0, over_hang = 0, num_of_speech = 0,
      index_vector = replicate 96 0, low_value_vector = replicate 96 10000,
      mean_value = replicate 6 1600, upper_state = replicate 5 0, lower_state = replicate 5 0,
      hp_filter_state = replicate 4 0, over_hang_max_1 = kOverHangMax1Q,
      over_hang_max_2 = kOverHangMax2Q, individual = kLocalThresholdQ, total = kGlobalThresholdQ,
      init_flag = kInitCheck\<rparr>"

lemma InitCore_vad_init: "WebRtcVad_InitCore (Some self) = (0, Some vad_init)"
  by (cases self) (simp add: WebRtcVad_InitCore_def WebRtcVad_set_mode_core_def vad_init_def Let_def)

lemmas table_defs = kSpectrumWeight_def kMinimumDifference_def kMaximumSpeech_def kMinimumMean_def
  kMaximumNoise_def kNoiseDataWeights_def kSpeechDataWeights_def kNoiseDataMeans_def
  kSpeechDataMeans_def kNoiseDataStds_def kSpeechDataStds_def

lemmas mode_defs = kOverHangMax1Q_def kOverHangMax2Q_def kLocalThresholdQ_def kGlobalThresholdQ_def
  kOverHangMax1LBR_def kOverHangMax2LBR_def kLocalThresholdLBR_def kGlobalThresholdLBR_def
  kOverHangMax1AGG_def kOverHangMax2AGG_def kLocalThresholdAGG_def kGlobalThresholdAGG_def
  kOverHangMax1VAG_def kOverHangMax2VAG_def kLocalThresholdVAG_def kGlobalThresholdVAG_def

lemma inst_shape_vad_init: "inst_shape vad_init"
  by (simp add: inst_shape_def vad_init_def table_defs mode_defs state_48_8_ok_def
      WebRtcSpl_ResetResample48khzTo8khz_def)

lemma set_mode_core_error:
  "fst (WebRtcVad_set_mode_core self mode) = (if mode \<in> {0, 1, 2, 3} then 0 else -1)"
  "mode \<notin> {0, 1, 2, 3} \<Longrightarrow> snd (WebRtcVad_set_mode_core self mode) = self"
  by (auto simp: WebRtcVad_set_mode_core_def)

lemma set_mode_core_shape:
  "inst_shape self \<Longrightarrow> inst_shape (snd (WebRtcVad_set_mode_core self mode))"
  by (simp add: WebRtcVad_set_mode_core_def inst_shape_def mode_defs)

end
