(* ===== verification/VadSp.thy ===== *)
theory VadSp
  imports VadInst
begin

text \<open>
  Signal processing helpers of the detector (\<open>vad_sp.c\<close>): the by-two downsampling filter
  and \<open>WebRtcVad_FindMinimum\<close>, which keeps, per frequency channel, the sixteen smallest
  feature values of the last 100 frames with their ages.

  \<open>WebRtcVad_FindMinimum\<close> works through pointers into \<open>index_vector\<close> and
  \<open>low_value_vector\<close> and its removal loop reads one element past the channel's window
  (for the last channel, past the array).  The three arrays are adjacent \<open>int16_t\<close> members
  of the structure, so the model runs on their concatenation and reads what the code reads.
  The lemmas show that the window holds a sorted list, that the comparison tree finds the
  insertion point, and that the value read outside the window never matters.
\<close>

section \<open>Downsampling\<close>

definition kAllPassCoefsQ13 :: "int16 list" where
  "kAllPassCoefsQ13 = [5243, 1392]"

definition Downsampling_step :: "int32 \<times> int32 \<Rightarrow> int16 \<times> int16 \<Rightarrow> (int32 \<times> int32) \<times> int16" where
  "Downsampling_step st xs =
     (let (tmp32_1, tmp32_2) = st;
          (x0, x1) = xs;
          tmp16_1 = s16 (shr tmp32_1 1 + MUL_16_16_RSFT (kAllPassCoefsQ13 ! 0) x0 14);
          signal_out = tmp16_1;
          tmp32_1 = x0 - MUL_16_16_RSFT (kAllPassCoefsQ13 ! 0) tmp16_1 12;
          tmp16_2 = s16 (shr tmp32_2 1 + MUL_16_16_RSFT (kAllPassCoefsQ13 ! 1) x1 14);
          signal_out = s16 (signal_out + tmp16_2);
          tmp32_2 = x1 - MUL_16_16_RSFT (kAllPassCoefsQ13 ! 1) tmp16_2 12
      in ((tmp32_1, tmp32_2), signal_out))"

text \<open>\<open>filter_state\<close> points at element \<open>k\<close> of the state array.\<close>

definition WebRtcVad_Downsampling ::
    "int16 list \<Rightarrow> int32 list \<Rightarrow> nat \<Rightarrow> int \<Rightarrow> int16 list \<times> int32 list" where
  "WebRtcVad_Downsampling signal_in filter_states k in_length =
     (let half_length = nat (shr in_length 1);
          ((t1, t2), out) = run Downsampling_step (filter_states ! k, filter_states ! (k + 1))
             (take half_length (zip (evens signal_in) (odds signal_in)))
      in (out, filter_states[k := t1, k + 1 := t2]))"

section \<open>The smallest values of a channel\<close>

text \<open>
  \<open>mem\<close> is \<open>index_vector @ low_value_vector @ mean_value\<close>; \<open>age\<close> and \<open>smallest_values\<close>
  point at \<open>a\<close> and \<open>v\<close>.
\<close>

fun shift_down :: "nat \<Rightarrow> nat \<Rightarrow> nat \<Rightarrow> nat \<Rightarrow> int16 list \<Rightarrow> int16 list" where
  "shift_down a v j 0 mem = mem"
| "shift_down a v j (Suc n) mem =
     (let mem = mem[v + j := mem ! (v + j + 1)];
          mem = mem[a + j := mem ! (a + j + 1)]
      in shift_down a v (Suc j) n mem)"

fun age_loop :: "nat \<Rightarrow> nat \<Rightarrow> nat \<Rightarrow> nat \<Rightarrow> int16 list \<Rightarrow> int16 list" where
  "age_loop a v i 0 mem = mem"
| "age_loop a v i (Suc n) mem =
     (if mem ! (a + i) \<noteq> 100
      then age_loop a v (Suc i) n (mem[a + i := s16 (mem ! (a + i) + 1)])
      else let mem = shift_down a v i (16 - i) mem;
               mem = mem[a + 15 := 101];
               mem = mem[v + 15 := 10000]
           in age_loop a v (Suc i) n mem)"

definition find_position :: "int16 \<Rightarrow> (nat \<Rightarrow> int16) \<Rightarrow> int" where
  "find_position feature_value sv =
     (if feature_value < sv 7 then
        if feature_value < sv 3 then
          if feature_value < sv 1 then
            if feature_value < sv 0 then 0 else 1
          else if feature_value < sv 2 then 2 else 3
        else if feature_value < sv 5 then
          if feature_value < sv 4 then 4 else 5
        else if feature_value < sv 6 then 6 else 7
      else if feature_value < sv 15 then
        if feature_value < sv 11 then
          if feature_value < sv 9 then
            if feature_value < sv 8 then 8 else 9
          else if feature_value < sv 10 then 10 else 11
        else if feature_value < sv 13 then
          if feature_value < sv 12 then 12 else 13
        else if feature_value < sv 14 then 14 else 15
      else -1)"

fun shift_up :: "nat \<Rightarrow> nat \<Rightarrow> nat \<Rightarrow> nat \<Rightarrow> int16 list \<Rightarrow> int16 list" where
  "shift_up a v position 0 mem = mem"
| "shift_up a v position (Suc n) mem =
     (let i = position + Suc n;
          mem = mem[v + i := mem ! (v + i - 1)];
          mem = mem[a + i := mem ! (a + i - 1)]
      in shift_up a v position n mem)"

definition insert_value :: "nat \<Rightarrow> nat \<Rightarrow> int16 \<Rightarrow> int16 list \<Rightarrow> int16 list" where
  "insert_value a v feature_value mem =
     (let position = find_position feature_value (\<lambda>k. mem ! (v + k))
      in if position > -1
         then let p = nat position;
                  mem = shift_up a v p (15 - p) mem;
                  mem = mem[v + p := feature_value]
              in mem[a + p := 1]
         else mem)"

abbreviation (input) kSmoothingDown :: int where "kSmoothingDown \<equiv> 6553"
abbreviation (input) kSmoothingUp :: int where "kSmoothingUp \<equiv> 32439"

definition smooth_median :: "int32 \<Rightarrow> int16 \<Rightarrow> int16 \<Rightarrow> int16 \<Rightarrow> int16" where
  "smooth_median counter sv2 sv0 mean =
     (let current_median = (if counter > 2 then sv2 else if counter > 0 then sv0 else 1600);
          alpha = (if counter > 0
                   then (if current_median < mean then kSmoothingDown else kSmoothingUp) else 0);
          tmp32 = MUL_16_16 (alpha + 1) mean;
          tmp32 = s32 (tmp32 + MUL_16_16 (32767 - alpha) current_median);
          tmp32 = s32 (tmp32 + 16384)
      in s16 (shr tmp32 15))"

definition WebRtcVad_FindMinimum :: "VadInstT \<Rightarrow> int16 \<Rightarrow> nat \<Rightarrow> int16 \<times> VadInstT" where
  "WebRtcVad_FindMinimum self feature_value channel =
     (let offset = channel * 16;
          mem = index_vector self @ low_value_vector self @ mean_value self;
          a = offset;
          v = 96 + offset;
          mem = age_loop a v 0 16 mem;
          mem = insert_value a v feature_value mem;
          mean = smooth_median (frame_counter self) (mem ! (v + 2)) (mem ! v) (mean_value self ! channel)
      in (mean,
          self\<lparr>index_vector := take 96 mem, low_value_vector := take 96 (drop 96 mem),
               mean_value := (drop 192 mem)[channel := mean]\<rparr>))"

section \<open>The downsampling filter\<close>

text \<open>Its 32-bit state cannot overflow.\<close>

abbreviation ds_st :: "int32 \<times> int32 \<Rightarrow> bool" where
  "ds_st s \<equiv> \<bar>fst s\<bar> \<le> 74712 \<and> \<bar>snd s\<bar> \<le> 43904"

interpretation ds: filter_section Downsampling_step ds_st "\<lambda>x. is_s16 (fst x) \<and> is_s16 (snd x)" is_s16
proof
  fix s x assume x: "is_s16 (fst x) \<and> is_s16 (snd x)"
  have "\<bar>MUL_16_16_RSFT 5243 (s16 y) 12\<bar> \<le> 41944" "\<bar>MUL_16_16_RSFT 1392 (s16 y) 12\<bar> \<le> 11136" for y
    by (rule MUL_RSFT_abs [OF order_refl is_s16_abs]; simp add: is_s16_def [of "5243"] is_s16_def [of "1392"])+
  moreover have "\<bar>fst x\<bar> \<le> 32768" "\<bar>snd x\<bar> \<le> 32768" using x by (simp_all add: is_s16_abs)
  ultimately show "ds_st (fst (Downsampling_step s x))"
    by (simp add: Downsampling_step_def Let_def case_prod_beta kAllPassCoefsQ13_def)
      (smt (verit, best))
  show "is_s16 (snd (Downsampling_step s x))"
    by (simp add: Downsampling_step_def Let_def case_prod_beta)
qed

lemma Downsampling_shape [c_shape]:
  "length (fst (WebRtcVad_Downsampling xs fs k n)) = min (nat (n div 2)) (length xs div 2)"
  "length (snd (WebRtcVad_Downsampling xs fs k n)) = length fs"
proof -
  have "min ((length xs + 1) div 2) (length xs div 2) = length xs div 2" by linarith
  then show "length (fst (WebRtcVad_Downsampling xs fs k n)) = min (nat (n div 2)) (length xs div 2)"
    by (simp add: WebRtcVad_Downsampling_def Let_def case_prod_beta min.commute)
qed (simp add: WebRtcVad_Downsampling_def Let_def case_prod_beta)

lemma zip_evens_odds_s16:
  "\<forall>x\<in>set xs. is_s16 x \<Longrightarrow> \<forall>y\<in>set (take n (zip (evens xs) (odds xs))). is_s16 (fst y) \<and> is_s16 (snd y)"
  using set_evens [of xs] set_odds [of xs]
  by (fastforce dest!: in_set_takeD dest: set_zip_leftD set_zip_rightD)

lemma Downsampling_range [c_ranges]:
  assumes "\<forall>x\<in>set xs. is_s16 x" "ds_st (fs ! k, fs ! (k + 1))"
  shows "\<forall>y\<in>set (fst (WebRtcVad_Downsampling xs fs k n)). is_s16 y"
proof -
  let ?in = "take (nat (n div 2)) (zip (evens xs) (odds xs))"
  have "\<forall>y\<in>set (snd (run Downsampling_step (fs ! k, fs ! (k + 1)) ?in)). is_s16 y"
    by (rule ds.run_out [OF assms(2) zip_evens_odds_s16 [OF assms(1)]])
  then show ?thesis by (simp add: WebRtcVad_Downsampling_def Let_def case_prod_beta)
qed

lemma Downsampling_state:
  fixes n :: int
  assumes "\<forall>x\<in>set xs. is_s16 x" "ds_st (fs ! k, fs ! (k + 1))" "k + 1 < length fs"
  defines "fs' \<equiv> snd (WebRtcVad_Downsampling xs fs k n)"
  shows "ds_st (fs' ! k, fs' ! (k + 1)) \<and> (\<forall>j. j \<noteq> k \<longrightarrow> j \<noteq> k + 1 \<longrightarrow> fs' ! j = fs ! j)"
proof -
  let ?in = "take (nat (n div 2)) (zip (evens xs) (odds xs))"
  have "ds_st (fst (run Downsampling_step (fs ! k, fs ! (k + 1)) ?in))"
    by (rule ds.run_st [OF assms(2) zip_evens_odds_s16 [OF assms(1)]])
  then show ?thesis using assms(3)
    by (simp add: fs'_def WebRtcVad_Downsampling_def Let_def case_prod_beta)
qed

section \<open>The windows of one channel\<close>

definition win :: "'a list \<Rightarrow> nat \<Rightarrow> 'a list" where
  "win mem p = take 16 (drop p mem)"

text \<open>The memory with new contents of the two windows at \<open>a\<close> and \<open>a + 96\<close>.\<close>

definition with_win :: "nat \<Rightarrow> 'a list \<Rightarrow> 'a list \<Rightarrow> 'a list \<Rightarrow> 'a list" where
  "with_win a mem A V = blit (blit mem a A) (a + 96) V"

definition remove_at :: "nat \<Rightarrow> 'a list \<Rightarrow> 'a \<Rightarrow> 'a list" where
  "remove_at i xs x = take i xs @ drop (Suc i) xs @ [x]"

definition insert_at :: "nat \<Rightarrow> 'a \<Rightarrow> 'a list \<Rightarrow> 'a list" where
  "insert_at p x xs = take (length xs) (take p xs @ x # drop p xs)"

text \<open>The ageing loop on the ages and values of one channel.\<close>

fun age_win :: "nat \<Rightarrow> nat \<Rightarrow> int16 list \<Rightarrow> int16 list \<Rightarrow> int16 list \<times> int16 list" where
  "age_win i 0 A V = (A, V)"
| "age_win i (Suc n) A V =
     (if A ! i \<noteq> 100 then age_win (Suc i) n (A[i := s16 (A ! i + 1)]) V
      else age_win (Suc i) n (remove_at i A 101) (remove_at i V 10000))"

lemma length_win [simp]: "p + 16 \<le> length mem \<Longrightarrow> length (win mem p) = 16"
  by (simp add: win_def)

lemma nth_win: "i < 16 \<Longrightarrow> p + 16 \<le> length mem \<Longrightarrow> win mem p ! i = mem ! (p + i)"
  by (simp add: win_def)

lemma length_remove_at [simp]: "i < length xs \<Longrightarrow> length (remove_at i xs x) = length xs"
  by (simp add: remove_at_def)

lemma nth_remove_at:
  "i < length xs \<Longrightarrow> k < length xs \<Longrightarrow>
   remove_at i xs x ! k = (if k < i then xs ! k else if Suc k < length xs then xs ! Suc k else x)"
  by (auto simp: remove_at_def nth_append min_def)

lemma length_insert_at [simp]: "p \<le> length xs \<Longrightarrow> length (insert_at p x xs) = length xs"
  by (simp add: insert_at_def)

lemma nth_insert_at:
  assumes "p < length xs" "k < length xs"
  shows "insert_at p x xs ! k = (if k < p then xs ! k else if k = p then x else xs ! (k - 1))"
proof -
  have "k = p \<or> k < p \<or> (\<exists>m. k = Suc (p + m))"
    by (metis add_Suc_right less_iff_Suc_add nat_neq_iff)
  then show ?thesis using assms by (auto simp: insert_at_def nth_append min_def)
qed

lemma length_with_win [simp]:
  "length A = 16 \<Longrightarrow> length V = 16 \<Longrightarrow> a + 112 \<le> length mem \<Longrightarrow> length (with_win a mem A V) = length mem"
  by (simp add: with_win_def)

lemma nth_with_win:
  assumes "length A = 16" "length V = 16" "a + 112 \<le> length mem" "k < length mem"
  shows "with_win a mem A V ! k =
    (if a \<le> k \<and> k < a + 16 then A ! (k - a)
     else if a + 96 \<le> k \<and> k < a + 112 then V ! (k - (a + 96)) else mem ! k)"
  using assms by (auto simp: with_win_def nth_blit)

lemma with_win_eqI:
  assumes "length A = 16" "length V = 16" "a + 112 \<le> length mem" "length mem' = length mem"
    and "\<And>k. k < 16 \<Longrightarrow> mem' ! (a + k) = A ! k"
    and "\<And>k. k < 16 \<Longrightarrow> mem' ! (a + 96 + k) = V ! k"
    and "\<And>k. k < length mem \<Longrightarrow> \<not> (a \<le> k \<and> k < a + 16) \<Longrightarrow> \<not> (a + 96 \<le> k \<and> k < a + 112) \<Longrightarrow>
           mem' ! k = mem ! k"
  shows "mem' = with_win a mem A V"
proof (rule nth_equalityI)
  show "length mem' = length (with_win a mem A V)" using assms(1-4) by simp
  fix k assume k: "k < length mem'"
  show "mem' ! k = with_win a mem A V ! k"
    using assms(5) [of "k - a"] assms(6) [of "k - (a + 96)"] assms(7) [of k] k assms(1-4)
    by (auto simp: nth_with_win)
qed

lemma win_with_win:
  assumes "length A = 16" "length V = 16" "a + 112 \<le> length mem"
  shows "win (with_win a mem A V) a = A" "win (with_win a mem A V) (a + 96) = V"
  using assms by (auto simp: nth_win nth_with_win intro!: nth_equalityI)

lemma with_win_with_win:
  assumes "length A = 16" "length V = 16" "length A' = 16" "length V' = 16" "a + 112 \<le> length mem"
  shows "with_win a (with_win a mem A V) A' V' = with_win a mem A' V'"
  using assms by (auto simp: nth_with_win intro!: nth_equalityI)

lemma with_win_self:
  "a + 112 \<le> length mem \<Longrightarrow> with_win a mem (win mem a) (win mem (a + 96)) = mem"
  by (auto simp: nth_with_win nth_win intro!: nth_equalityI)

section \<open>The loops of FindMinimum on the windows\<close>

lemma length_shift_down [simp]: "length (shift_down a v j n mem) = length mem"
  by (induction a v j n mem rule: shift_down.induct) (simp_all add: Let_def)

lemma nth_shift_down:
  assumes "v = a + 96" "v + 16 < length mem" "j + n \<le> 16" "k < length mem"
  shows "shift_down a v j n mem ! k =
    (if v + j \<le> k \<and> k < v + j + n \<or> a + j \<le> k \<and> k < a + j + n then mem ! Suc k else mem ! k)"
  using assms
proof (induction a v j n mem rule: shift_down.induct)
  case (2 a v j n mem)
  define m1 where "m1 = mem[v + j := mem ! (v + j + 1)]"
  define m2 where "m2 = m1[a + j := m1 ! (a + j + 1)]"
  have "shift_down a v j (Suc n) mem ! k = shift_down a v (Suc j) n m2 ! k"
    by (simp add: m1_def m2_def Let_def)
  also have "\<dots> = (if v + Suc j \<le> k \<and> k < v + Suc j + n \<or> a + Suc j \<le> k \<and> k < a + Suc j + n
      then m2 ! Suc k else m2 ! k)"
    unfolding m2_def m1_def by (rule "2.IH" [OF refl refl]) (use "2.prems" in simp_all)
  also have "m2 ! k = (if k = v + j \<or> k = a + j then mem ! Suc k else mem ! k)"
    using "2.prems" by (auto simp: m2_def m1_def nth_list_update)
  also have "v + Suc j \<le> k \<and> k < v + Suc j + n \<or> a + Suc j \<le> k \<and> k < a + Suc j + n \<Longrightarrow>
      m2 ! Suc k = mem ! Suc k"
    using "2.prems" by (auto simp: m2_def m1_def nth_list_update)
  then have "(if v + Suc j \<le> k \<and> k < v + Suc j + n \<or> a + Suc j \<le> k \<and> k < a + Suc j + n
      then m2 ! Suc k else (if k = v + j \<or> k = a + j then mem ! Suc k else mem ! k)) =
    (if v + j \<le> k \<and> k < v + j + Suc n \<or> a + j \<le> k \<and> k < a + j + Suc n then mem ! Suc k else mem ! k)"
    by auto
  finally show ?case .
qed simp

text \<open>
  Removal of entry \<open>i\<close>: the elements read outside the two windows are overwritten by the
  two assignments that follow the loop.
\<close>

lemma remove_old_windows:
  assumes "a + 112 < length mem" "i < 16"
  shows "(shift_down a (a + 96) i (16 - i) mem)[a + 15 := 101, a + 96 + 15 := 10000] =
    with_win a mem (remove_at i (win mem a) 101) (remove_at i (win mem (a + 96)) 10000)"
  using assms
  by (intro with_win_eqI) (auto simp: nth_list_update nth_shift_down nth_remove_at nth_win)

lemma length_age_win:
  "length A = 16 \<Longrightarrow> length V = 16 \<Longrightarrow> i + n \<le> 16 \<Longrightarrow>
   length (fst (age_win i n A V)) = 16 \<and> length (snd (age_win i n A V)) = 16"
  by (induction i n A V rule: age_win.induct) simp_all

lemma age_loop_windows:
  assumes "a + 112 < length mem" "i + n \<le> 16"
  shows "age_loop a (a + 96) i n mem =
    with_win a mem (fst (age_win i n (win mem a) (win mem (a + 96))))
                   (snd (age_win i n (win mem a) (win mem (a + 96))))"
  using assms
proof (induction n arbitrary: i mem)
  case 0
  then show ?case by (simp add: with_win_self)
next
  case (Suc n)
  define A where "A = win mem a"
  define V where "V = win mem (a + 96)"
  define A' where "A' = (if A ! i \<noteq> 100 then A[i := s16 (A ! i + 1)] else remove_at i A 101)"
  define V' where "V' = (if A ! i \<noteq> 100 then V else remove_at i V 10000)"
  have len: "length A = 16" "length V = 16" using Suc.prems by (simp_all add: A_def V_def)
  then have len': "length A' = 16" "length V' = 16" using Suc.prems by (simp_all add: A'_def V'_def)
  have nth: "mem ! (a + i) = A ! i" using Suc.prems by (simp add: nth_win A_def)
  have upd: "mem[a + i := s16 (A ! i + 1)] = with_win a mem (A[i := s16 (A ! i + 1)]) V"
    using Suc.prems len
    by (intro with_win_eqI) (auto simp: A_def V_def nth_list_update nth_win)
  have "age_loop a (a + 96) i (Suc n) mem = age_loop a (a + 96) (Suc i) n (with_win a mem A' V')"
    using remove_old_windows [of a mem i] Suc.prems
    by (simp add: nth upd Let_def A'_def V'_def A_def [symmetric] V_def [symmetric])
  also have "\<dots> = with_win a (with_win a mem A' V')
      (fst (age_win (Suc i) n A' V')) (snd (age_win (Suc i) n A' V'))"
    using Suc.prems len' by (subst Suc.IH) (simp_all add: win_with_win)
  also have "\<dots> = with_win a mem (fst (age_win (Suc i) n A' V')) (snd (age_win (Suc i) n A' V'))"
    using Suc.prems len' length_age_win [of A' V' "Suc i" n] by (intro with_win_with_win) simp_all
  also have "age_win (Suc i) n A' V' = age_win i (Suc n) A V"
    by (simp add: A'_def V'_def)
  finally show ?case by (simp add: A_def V_def)
qed

lemma length_shift_up [simp]: "length (shift_up a v p n mem) = length mem"
  by (induction a v p n mem rule: shift_up.induct) (simp_all add: Let_def)

lemma nth_shift_up:
  assumes "v = a + 96" "v + p + n < length mem" "p + n \<le> 15" "k < length mem"
  shows "shift_up a v p n mem ! k =
    (if v + p < k \<and> k \<le> v + p + n \<or> a + p < k \<and> k \<le> a + p + n then mem ! (k - 1) else mem ! k)"
  using assms
proof (induction a v p n mem rule: shift_up.induct)
  case (2 a v p n mem)
  define m1 where "m1 = mem[v + (p + Suc n) := mem ! (v + (p + Suc n) - 1)]"
  define m2 where "m2 = m1[a + (p + Suc n) := m1 ! (a + (p + Suc n) - 1)]"
  have m2: "m2 ! i = (if i = v + (p + Suc n) \<or> i = a + (p + Suc n) then mem ! (i - 1) else mem ! i)"
    if "i < length mem" for i
    using "2.prems" that by (auto simp: m2_def m1_def nth_list_update)
  have "shift_up a v p (Suc n) mem ! k = shift_up a v p n m2 ! k"
    by (simp add: m1_def m2_def Let_def)
  also have "\<dots> = (if v + p < k \<and> k \<le> v + p + n \<or> a + p < k \<and> k \<le> a + p + n
      then m2 ! (k - 1) else m2 ! k)"
    unfolding m2_def m1_def by (rule "2.IH" [OF refl refl refl]) (use "2.prems" in simp_all)
  also have "\<dots> = (if v + p < k \<and> k \<le> v + p + Suc n \<or> a + p < k \<and> k \<le> a + p + Suc n
      then mem ! (k - 1) else mem ! k)"
    using "2.prems" m2 [of k] m2 [of "k - 1"] by auto
  finally show ?case .
qed simp

section \<open>The comparison tree\<close>

lemma find_position_none:
  assumes "sorted V" "length V = 16"
  shows "find_position f (nth V) = -1 \<longleftrightarrow> V ! 15 \<le> f"
proof -
  have "V ! 7 \<le> V ! 15" using assms by (simp add: sorted_nth_mono)
  then show ?thesis by (auto simp: find_position_def)
qed

lemma find_position_spec:
  assumes "f < V ! 15" "sorted V" "length V = 16"
  shows "\<exists>p<16. find_position f (nth V) = int p \<and> f < V ! p \<and> (\<forall>k<p. V ! k \<le> f)"
proof -
  have le: "V ! i \<le> V ! j" if "i \<le> j" "j < 16" for i j
    using assms that by (simp add: sorted_nth_mono)
  have ex: "\<exists>p<16. find_position f (nth V) = int p \<and> f < V ! p \<and> (p = 0 \<or> V ! (p - 1) \<le> f)"
    using assms(1) unfolding find_position_def by (auto split: if_splits) 
  then obtain p where "p < 16" "find_position f (nth V) = int p" "f < V ! p"
      "p = 0 \<or> V ! (p - 1) \<le> f"
    by blast
  moreover have "V ! k \<le> f" if "k < p" for k
  proof -
    have "V ! k \<le> V ! (p - 1)" by (rule le) (use that \<open>p < 16\<close> in simp_all)
    with \<open>p = 0 \<or> V ! (p - 1) \<le> f\<close> that show ?thesis by auto
  qed
  ultimately show ?thesis by blast
qed

text \<open>Insertion at the position found is insertion into the sorted list.\<close>

lemma insert_at_insort:
  assumes "sorted V" "p < length V" "f < V ! p" "\<forall>k<p. V ! k \<le> f"
  shows "insert_at p f V = take (length V) (insort f V)"
proof -
  have low: "x \<le> f" if "x \<in> set (take p V)" for x
    using assms(2,4) that by (auto simp: in_set_conv_nth)
  have high: "f \<le> x" if "x \<in> set (drop p V)" for x
  proof -
    from that obtain k where "k < length V - p" "x = V ! (p + k)"
      by (auto simp: in_set_conv_nth)
    then have "V ! p \<le> x" using assms(1,2) by (simp add: sorted_nth_mono)
    with assms(3) show ?thesis by simp
  qed
  have "sorted (take p V @ f # drop p V)"
    using assms(1) low high by (auto simp: sorted_append sorted_wrt_take sorted_wrt_drop intro: order_trans)
  moreover have "mset V = mset (take p V) + mset (drop p V)"
    by (metis append_take_drop_id mset_append)
  then have "mset (take p V @ f # drop p V) = mset (insort f V)"
    by simp
  ultimately have "take p V @ f # drop p V = insort f V"
    by (metis assms(1) properties_for_sort sort_key_id_if_sorted sorted_insort)
  then show ?thesis by (simp add: insert_at_def)
qed

text \<open>One call of \<open>WebRtcVad_FindMinimum\<close> on the ages and values of its channel.\<close>

definition insert_win :: "int16 \<Rightarrow> int16 list \<times> int16 list \<Rightarrow> int16 list \<times> int16 list" where
  "insert_win f AV = (let (A, V) = AV; p = find_position f (nth V)
     in if p > -1 then (insert_at (nat p) 1 A, insert_at (nat p) f V) else (A, V))"

lemma find_position_range: "find_position f sv = -1 \<or> (\<exists>p<16. find_position f sv = int p)"
  unfolding find_position_def by (auto split: if_splits)

lemma find_position_cong:
  "(\<And>k. k < 16 \<Longrightarrow> g k = h k) \<Longrightarrow> find_position f g = find_position f h"
  by (simp add: find_position_def)

lemma length_insert_win:
  assumes "length A = 16" "length V = 16"
  shows "length (fst (insert_win f (A, V))) = 16" "length (snd (insert_win f (A, V))) = 16"
  using find_position_range [of f "nth V"] assms by (auto simp: insert_win_def Let_def)

lemma insert_value_windows:
  assumes "a + 112 < length mem"
  shows "insert_value a (a + 96) f mem =
    with_win a mem (fst (insert_win f (win mem a, win mem (a + 96))))
                   (snd (insert_win f (win mem a, win mem (a + 96))))"
proof -
  let ?A = "win mem a" and ?V = "win mem (a + 96)"
  have len: "length ?A = 16" "length ?V = 16" using assms by simp_all
  have pos: "find_position f (\<lambda>k. mem ! (a + 96 + k)) = find_position f (nth ?V)"
    using assms by (intro find_position_cong) (simp add: nth_win)
  from find_position_range [of f "nth ?V"] show ?thesis
  proof
    assume "find_position f (nth ?V) = -1"
    then show ?thesis using assms
      by (simp add: insert_value_def insert_win_def pos with_win_self)
  next
    assume "\<exists>p<16. find_position f (nth ?V) = int p"
    then obtain p where p: "p < 16" "find_position f (nth ?V) = int p" by blast
    have "insert_value a (a + 96) f mem =
        (shift_up a (a + 96) p (15 - p) mem)[a + 96 + p := f, a + p := 1]"
      using p by (simp add: insert_value_def pos Let_def)
    also have "\<dots> = with_win a mem (insert_at p 1 ?A) (insert_at p f ?V)"
      using assms p len
      by (intro with_win_eqI) (auto simp: nth_list_update nth_shift_up nth_insert_at nth_win)
    finally show ?thesis using p by (simp add: insert_win_def Let_def)
  qed
qed

lemma FindMinimum_mem:
  assumes "a + 112 < length mem" "length mem = n"
  shows "insert_value a (a + 96) f (age_loop a (a + 96) 0 16 mem) =
    with_win a mem (fst (insert_win f (age_win 0 16 (win mem a) (win mem (a + 96)))))
                   (snd (insert_win f (age_win 0 16 (win mem a) (win mem (a + 96)))))"
proof -
  define A V where "A = fst (age_win 0 16 (win mem a) (win mem (a + 96)))"
    and "V = snd (age_win 0 16 (win mem a) (win mem (a + 96)))"
  have len: "length A = 16" "length V = 16"
    using assms length_age_win [of "win mem a" "win mem (a + 96)" 0 16] by (simp_all add: A_def V_def)
  have "age_loop a (a + 96) 0 16 mem = with_win a mem A V"
    using assms by (simp add: age_loop_windows A_def V_def)
  then show ?thesis
    using assms len length_insert_win [of A V f]
    by (simp add: insert_value_windows win_with_win with_win_with_win)
      (simp add: A_def V_def)
qed

section \<open>The sorted window\<close>

definition win_ok :: "int16 list \<Rightarrow> bool" where
  "win_ok V \<longleftrightarrow> length V = 16 \<and> sorted V \<and> (\<forall>x\<in>set V. x \<le> 10000)"

lemma set_remove_at: "set (remove_at i xs x) \<subseteq> insert x (set xs)"
  by (auto simp: remove_at_def dest: in_set_takeD in_set_dropD)

lemma remove_at_ok: "win_ok V \<Longrightarrow> i < 16 \<Longrightarrow> win_ok (remove_at i V 10000)"
proof -
  assume V: "win_ok V" and i: "i < 16"
  have "sorted (take i V @ drop (Suc i) V)"
  proof -
    have "V = take i V @ V ! i # drop (Suc i) V"
      using V i by (intro id_take_nth_drop) (simp add: win_ok_def)
    then have "sorted (take i V @ V ! i # drop (Suc i) V)" using V by (simp add: win_ok_def)
    then show ?thesis by (simp add: sorted_append)
  qed
  then have "sorted (remove_at i V 10000)"
    using V by (auto simp: remove_at_def sorted_append win_ok_def dest: in_set_takeD in_set_dropD)
  then show "win_ok (remove_at i V 10000)"
    using V i set_remove_at [of i V 10000] by (auto simp: win_ok_def)
qed

lemma age_win_ok:
  "win_ok V \<Longrightarrow> i + n \<le> 16 \<Longrightarrow> win_ok (snd (age_win i n A V))"
  by (induction i n A V rule: age_win.induct) (simp_all add: remove_at_ok)

lemma age_win_subset: "set (snd (age_win i n A V)) \<subseteq> insert 10000 (set V)"
proof (induction i n A V rule: age_win.induct)
  case (2 i n A V)
  show ?case
  proof (cases "A ! i = 100")
    case True
    then show ?thesis using "2.IH"(2) set_remove_at [of i V 10000] by auto
  qed (use "2.IH"(1) in simp)
qed auto

text \<open>As long as no value reaches the age of 100 frames, every age grows by one.\<close>

lemma age_win_young:
  assumes "\<forall>k. i \<le> k \<and> k < i + n \<longrightarrow> A ! k \<noteq> 100" "i + n \<le> length A"
  shows "age_win i n A V =
    (take i A @ map (\<lambda>x. s16 (x + 1)) (take n (drop i A)) @ drop (i + n) A, V)"
  using assms
proof (induction i n A V rule: age_win.induct)
  case (2 i n A V)
  let ?A = "A[i := s16 (A ! i + 1)]"
  have "age_win i (Suc n) A V = age_win (Suc i) n ?A V" using "2.prems" by simp
  also have "\<dots> = (take (Suc i) ?A @ map (\<lambda>x. s16 (x + 1)) (take n (drop (Suc i) ?A)) @ drop (Suc i + n) ?A, V)"
    using "2.prems" by (intro "2.IH"(1)) auto
  also have "take (Suc i) ?A = take i A @ [s16 (A ! i + 1)]"
    using "2.prems" by (simp add: take_Suc_conv_app_nth)
  also have "drop (Suc i) ?A = drop (Suc i) A" by simp
  finally show ?case using "2.prems" by (simp add: Cons_nth_drop_Suc [symmetric])
qed simp

lemma insort_max:
  fixes V :: "int list"
  assumes "sorted V" "\<forall>x\<in>set V. x \<le> f"
  shows "insort f V = V @ [f]"
proof -
  have "sorted (V @ [f])" using assms by (simp add: sorted_append)
  moreover have "mset (V @ [f]) = mset (insort f V)" by simp
  ultimately show ?thesis
    by (metis properties_for_sort sort_key_id_if_sorted sorted_insort assms(1))
qed

lemma sorted_win_le_last:
  fixes V :: "int list"
  assumes "sorted V" "length V = 16" "x \<in> set V"
  shows "x \<le> V ! 15"
proof -
  from assms(3) obtain k where "k < length V" "V ! k = x" unfolding in_set_conv_nth by blast
  then show ?thesis using assms sorted_nth_mono [of V k 15] by simp
qed

lemma insert_win_vals:
  assumes V: "win_ok V"
  shows "snd (insert_win f (A, V)) = take 16 (insort f V)"
proof -
  have len: "length V = 16" and sorted: "sorted V" using V unfolding win_ok_def by blast+
  show ?thesis
  proof (cases "V ! 15 \<le> f")
    case True
    have "find_position f (nth V) = -1" using find_position_none [OF sorted len] True by blast
    then have "snd (insert_win f (A, V)) = V" by (simp add: insert_win_def)
    moreover have "insort f V = V @ [f]"
      using sorted_win_le_last [OF sorted len] True by (intro insort_max [OF sorted] ballI) (blast intro: order_trans)
    ultimately show ?thesis using len by simp
  next
    case False
    then have "f < V ! 15" by simp
    from find_position_spec [OF this sorted len] obtain p
      where p: "p < 16" "find_position f (nth V) = int p" "f < V ! p" "\<forall>k<p. V ! k \<le> f"
      by blast
    have "p < length V" using p(1) len by simp
    from insert_at_insort [OF sorted this p(3,4)] show ?thesis
      by (simp add: insert_win_def p(2) len)
  qed
qed

lemma insort_take_ok:
  assumes "win_ok V"
  shows "win_ok (take 16 (insort f V))"
proof -
  have len: "length V = 16" and sorted: "sorted V" and le: "\<forall>x\<in>set V. x \<le> 10000"
    using assms by (auto simp: win_ok_def)
  have "sorted (insort f V)" using sorted by (simp add: sorted_insort)
  moreover have "x \<le> 10000" if "x \<in> set (take 16 (insort f V))" for x
  proof (cases "f \<le> 10000")
    case True
    have "x \<in> insert f (set V)" using that in_set_takeD [of x 16 "insort f V"]
      by (simp add: set_insort_key)
    then show ?thesis using le True by auto
  next
    case False
    then have "\<forall>x\<in>set V. \<not> f \<le> x" using le by auto
    then have "insort f V = V @ [f]"
      by (induction V) auto
    then show ?thesis using that len le by (auto dest: in_set_takeD)
  qed
  ultimately show ?thesis using len by (simp add: win_ok_def sorted_wrt_take)
qed

section \<open>FindMinimum\<close>

definition FindMinimum_win :: "VadInstT \<Rightarrow> int16 \<Rightarrow> nat \<Rightarrow> int16 list \<times> int16 list" where
  "FindMinimum_win self f c =
     insert_win f (age_win 0 16 (win (index_vector self) (16 * c)) (win (low_value_vector self) (16 * c)))"

definition FindMinimum_mean :: "VadInstT \<Rightarrow> int16 \<Rightarrow> nat \<Rightarrow> int16" where
  "FindMinimum_mean self f c =
     smooth_median (frame_counter self) (snd (FindMinimum_win self f c) ! 2)
       (snd (FindMinimum_win self f c) ! 0) (mean_value self ! c)"

lemma win_append1: "p + 16 \<le> length xs \<Longrightarrow> win (xs @ ys) p = win xs p"
  by (simp add: win_def)

lemma win_append2: "length xs = n \<Longrightarrow> win (xs @ ys) (p + n) = win ys p"
  by (simp add: win_def)

lemma length_FindMinimum_win:
  assumes "inst_shape self" "c < 6"
  shows "length (fst (FindMinimum_win self f c)) = 16" "length (snd (FindMinimum_win self f c)) = 16"
proof -
  have "length (win (index_vector self) (16 * c)) = 16" "length (win (low_value_vector self) (16 * c)) = 16"
    using assms by (simp_all add: inst_shape_def)
  then have "length (fst (age_win 0 16 (win (index_vector self) (16 * c)) (win (low_value_vector self) (16 * c)))) = 16 \<and>
      length (snd (age_win 0 16 (win (index_vector self) (16 * c)) (win (low_value_vector self) (16 * c)))) = 16"
    by (rule length_age_win) simp
  then show "length (fst (FindMinimum_win self f c)) = 16" "length (snd (FindMinimum_win self f c)) = 16"
    unfolding FindMinimum_win_def by (metis length_insert_win prod.collapse)+
qed

lemma with_win_parts:
  assumes "length I = 96" "length L = 96" "length A = 16" "length V = 16" "a + 16 \<le> 96"
  shows "with_win a (I @ L @ M) A V = blit I a A @ blit L a V @ M"
  using assms by (intro nth_equalityI) (auto simp: nth_with_win nth_append nth_blit add.commute)

text \<open>The effect of the function: it replaces the windows of its channel and the mean.\<close>

lemma FindMinimum_eq:
  assumes shape: "inst_shape self" and c: "c < 6"
  shows "WebRtcVad_FindMinimum self f c =
    (FindMinimum_mean self f c,
     self\<lparr>index_vector := blit (index_vector self) (16 * c) (fst (FindMinimum_win self f c)),
          low_value_vector := blit (low_value_vector self) (16 * c) (snd (FindMinimum_win self f c)),
          mean_value := (mean_value self)[c := FindMinimum_mean self f c]\<rparr>)"
proof -
  define mem where "mem = index_vector self @ low_value_vector self @ mean_value self"
  define A V where "A = fst (FindMinimum_win self f c)" and "V = snd (FindMinimum_win self f c)"
  have lens: "length (index_vector self) = 96" "length (low_value_vector self) = 96"
      "length (mean_value self) = 6"
    using shape by (simp_all add: inst_shape_def)
  have lAV: "length A = 16" "length V = 16"
    using length_FindMinimum_win [OF shape c] by (simp_all add: A_def V_def)
  have mem: "insert_value (c * 16) (96 + c * 16) f (age_loop (c * 16) (96 + c * 16) 0 16 mem) =
      blit (index_vector self) (16 * c) A @ blit (low_value_vector self) (16 * c) V @ mean_value self"
    (is "?m = _")
  proof -
    have w: "win mem (c * 16) = win (index_vector self) (16 * c)"
        "win mem (c * 16 + 96) = win (low_value_vector self) (16 * c)"
      using c lens by (simp_all add: mem_def win_append1 win_append2 mult.commute)
    have "c * 16 + 112 < length mem" using c lens by (simp add: mem_def)
    then have "?m = with_win (c * 16) mem A V"
      using FindMinimum_mem [of "c * 16" mem _ f] unfolding w
      by (simp add: add.commute A_def V_def FindMinimum_win_def)
    then show ?thesis using c lens lAV by (simp add: mem_def with_win_parts mult.commute)
  qed
  have nth: "?m ! (96 + c * 16 + k) = V ! k" if "k < 16" for k
    using c lens lAV that by (simp add: mem nth_append nth_blit)
  show ?thesis
    using nth [of 2] nth [of 0] lens lAV c
    by (simp add: WebRtcVad_FindMinimum_def Let_def mem_def [symmetric] mem)
      (simp add: FindMinimum_mean_def A_def V_def)
qed

lemma smooth_median_eq:
  fixes counter :: int
  assumes "is_s16 sv2" "is_s16 sv0" "is_s16 mean"
  defines "med \<equiv> (if counter > 2 then sv2 else if counter > 0 then sv0 else 1600)"
  defines "alpha \<equiv> (if counter > 0 then (if med < mean then kSmoothingDown else kSmoothingUp) else 0)"
  shows "smooth_median counter sv2 sv0 mean =
    s16 (shr ((alpha + 1) * mean + (32767 - alpha) * med + 16384) 15)"
proof -
  have "is_s16 med" using assms(1-3) by (simp add: med_def is_s16_def)
  then have m: "\<bar>med\<bar> \<le> 32768" "\<bar>mean\<bar> \<le> 32768" "s16 med = med" "s16 mean = mean"
    using assms(3) by (auto simp: is_s16_def)
  have w: "s16 (alpha + 1) = alpha + 1" "s16 (32767 - alpha) = 32767 - alpha"
      "\<bar>alpha + 1\<bar> \<le> alpha + 1" "\<bar>32767 - alpha\<bar> \<le> 32767 - alpha"
    by (simp_all add: alpha_def)
  have "\<bar>(alpha + 1) * mean\<bar> \<le> (alpha + 1) * 32768" "\<bar>(32767 - alpha) * med\<bar> \<le> (32767 - alpha) * 32768"
    using abs_mult_le [OF w(3) m(2)] abs_mult_le [OF w(4) m(1)] by blast+
  moreover have "(alpha + 1) * 32768 + (32767 - alpha) * 32768 = 1073741824" by (simp add: algebra_simps)
  ultimately have "\<bar>(alpha + 1) * mean + (32767 - alpha) * med\<bar> \<le> 1073741824" by linarith
  then have "s32 ((alpha + 1) * mean + (32767 - alpha) * med) = (alpha + 1) * mean + (32767 - alpha) * med"
      "s32 ((alpha + 1) * mean + (32767 - alpha) * med + 16384) =
        (alpha + 1) * mean + (32767 - alpha) * med + 16384"
    by (intro s32_id; linarith)+
  moreover have "smooth_median counter sv2 sv0 mean =
      s16 (shr (s32 (s32 (s16 (alpha + 1) * s16 mean + s16 (32767 - alpha) * s16 med) + 16384)) 15)"
    unfolding smooth_median_def MUL_16_16_def Let_def alpha_def med_def ..
  ultimately show ?thesis unfolding w(1,2) m(3,4) by metis
qed

lemma weighted_between:
  fixes a b w :: int
  assumes "0 \<le> w" "w \<le> 32768" "a \<le> b"
  shows "a \<le> shr (w * a + (32768 - w) * b + 16384) 15" "shr (w * a + (32768 - w) * b + 16384) 15 \<le> b"
    "a \<le> shr (w * b + (32768 - w) * a + 16384) 15" "shr (w * b + (32768 - w) * a + 16384) 15 \<le> b"
proof -
  have e: "w * a + (32768 - w) * b = 32768 * a + (32768 - w) * (b - a)"
      "w * a + (32768 - w) * b = 32768 * b - w * (b - a)"
      "w * b + (32768 - w) * a = 32768 * a + w * (b - a)"
      "w * b + (32768 - w) * a = 32768 * b - (32768 - w) * (b - a)"
    by (simp_all add: algebra_simps)
  have n: "0 \<le> w * (b - a)" "0 \<le> (32768 - w) * (b - a)" using assms by simp_all
  show "a \<le> shr (w * a + (32768 - w) * b + 16384) 15" using e(1) n by (simp add: le_shr_iff)
  show "a \<le> shr (w * b + (32768 - w) * a + 16384) 15" using e(3) n by (simp add: le_shr_iff)
  have "shr (w * a + (32768 - w) * b + 16384) 15 < b + 1"
    unfolding shr_less_iff using e(2) n by simp
  then show "shr (w * a + (32768 - w) * b + 16384) 15 \<le> b" by simp
  have "shr (w * b + (32768 - w) * a + 16384) 15 < b + 1"
    unfolding shr_less_iff using e(4) n by simp
  then show "shr (w * b + (32768 - w) * a + 16384) 15 \<le> b" by simp
qed

lemma smooth_median_between:
  fixes counter :: int
  assumes "is_s16 sv2" "is_s16 sv0" "is_s16 mean"
  defines "med \<equiv> (if counter > 2 then sv2 else if counter > 0 then sv0 else 1600)"
  shows "min med mean \<le> smooth_median counter sv2 sv0 mean"
    "smooth_median counter sv2 sv0 mean \<le> max med mean"
proof -
  have med: "is_s16 med" using assms by (simp add: med_def is_s16_def)
  define alpha where "alpha = (if counter > 0 then (if med < mean then kSmoothingDown else kSmoothingUp) else 0)"
  have w: "0 \<le> alpha + 1" "alpha + 1 \<le> 32768" by (simp_all add: alpha_def)
  have comp: "32768 - (alpha + 1) = 32767 - alpha" by simp
  let ?v = "shr ((alpha + 1) * mean + (32767 - alpha) * med + 16384) 15"
  have b: "min med mean \<le> ?v \<and> ?v \<le> max med mean"
  proof (cases "mean \<le> med")
    case True
    then show ?thesis using weighted_between(1,2) [OF w True] unfolding comp by (simp only: min.absorb2 max.absorb1)
  next
    case False
    then have le: "med \<le> mean" by simp
    show ?thesis using weighted_between(3,4) [OF w le] unfolding comp by (simp only: min.absorb1 max.absorb2 le)
  qed
  have mm: "-32768 \<le> min med mean" "max med mean \<le> 32767"
    using med assms(3) by (simp_all add: is_s16_def)
  have "s16 ?v = ?v"
    by (rule s16_id [OF order_trans [OF mm(1) conjunct1 [OF b]] order_trans [OF conjunct2 [OF b] mm(2)]])
  then have eq: "smooth_median counter sv2 sv0 mean = ?v"
    unfolding smooth_median_eq [OF assms(1-3), of counter] alpha_def med_def .
  show "min med mean \<le> smooth_median counter sv2 sv0 mean"
    unfolding eq using b by (rule conjunct1)
  show "smooth_median counter sv2 sv0 mean \<le> max med mean"
    unfolding eq using b by (rule conjunct2)
qed

lemma FindMinimum_win_range:
  assumes ok: "win_ok (win (low_value_vector self) (16 * c))" and f: "is_s16 f"
    and low16: "\<forall>x\<in>set (low_value_vector self). is_s16 x"
  shows "\<forall>x\<in>set (snd (FindMinimum_win self f c)). is_s16 x"
proof -
  let ?I = "win (index_vector self) (16 * c)" and ?L = "win (low_value_vector self) (16 * c)"
  define V where "V = snd (age_win 0 16 ?I ?L)"
  have "win_ok V" unfolding V_def by (rule age_win_ok [OF ok]) simp
  then have eq: "snd (FindMinimum_win self f c) = take 16 (insort f V)"
    using insert_win_vals [of V f "fst (age_win 0 16 ?I ?L)"] by (simp add: FindMinimum_win_def V_def)
  have "set ?L \<subseteq> set (low_value_vector self)"
    by (auto simp: win_def dest: in_set_takeD in_set_dropD)
  then have "\<forall>x\<in>set V. x = 10000 \<or> is_s16 x"
    using age_win_subset [of 0 16 ?I ?L] low16 by (auto simp: V_def)
  then have "\<forall>x\<in>set (insort f V). is_s16 x" using f by (auto simp: set_insort_key is_s16_def)
  then show ?thesis unfolding eq using set_take_subset [of 16 "insort f V"] by blast
qed

section \<open>Properties\<close>

lemma win_blit_same:
  "length A = 16 \<Longrightarrow> p + 16 \<le> length xs \<Longrightarrow> win (blit xs p A) p = A"
  by (simp add: win_def take_drop_blit)

lemma win_blit_other:
  assumes "length A = 16" "p + 16 \<le> length xs" "q + 16 \<le> p \<or> p + 16 \<le> q" "q + 16 \<le> length xs"
  shows "win (blit xs p A) q = win xs q"
  using assms by (intro nth_equalityI) (auto simp: nth_win nth_blit)

lemma FindMinimum_win_ok:
  assumes ok: "win_ok (win (low_value_vector self) (16 * c))"
  shows "win_ok (snd (FindMinimum_win self f c))"
proof -
  let ?I = "win (index_vector self) (16 * c)" and ?L = "win (low_value_vector self) (16 * c)"
  define V where "V = snd (age_win 0 16 ?I ?L)"
  have V: "win_ok V" unfolding V_def by (rule age_win_ok [OF ok]) simp
  then have "snd (FindMinimum_win self f c) = take 16 (insort f V)"
    using insert_win_vals [of V f "fst (age_win 0 16 ?I ?L)"] by (simp add: FindMinimum_win_def V_def)
  then show ?thesis using insort_take_ok [OF V] by simp
qed

lemma FindMinimum_shape:
  "inst_shape self \<Longrightarrow> c < 6 \<Longrightarrow> inst_shape (snd (WebRtcVad_FindMinimum self f c))"
  using length_FindMinimum_win [of self c f] by (simp add: FindMinimum_eq) (simp add: inst_shape_def)

text \<open>
  C6: \<open>WebRtcVad_FindMinimum\<close> keeps the sixteen smallest values.  If the window of the channel
  is sorted, then afterwards it is the sixteen smallest of the values that survived the
  ageing pass and the new value, in order, and the windows of the other channels and the age
  vectors of the other channels are untouched.  The survivors are old values or the filler
  10000, and without an entry of age 100 they are all the old values.
\<close>

theorem FindMinimum_smallest:
  fixes f :: int
  assumes shape: "inst_shape self" and c: "c < 6"
    and ok: "win_ok (win (low_value_vector self) (16 * c))"
  defines "aged \<equiv> snd (age_win 0 16 (win (index_vector self) (16 * c)) (win (low_value_vector self) (16 * c)))"
    and "self' \<equiv> snd (WebRtcVad_FindMinimum self f c)"
  shows "win (low_value_vector self') (16 * c) = take 16 (insort f aged)
    \<and> win_ok (win (low_value_vector self') (16 * c))
    \<and> set aged \<subseteq> insert 10000 (set (win (low_value_vector self) (16 * c)))
    \<and> ((\<forall>k<16. index_vector self ! (16 * c + k) \<noteq> 100) \<longrightarrow> aged = win (low_value_vector self) (16 * c))
    \<and> (\<forall>d<6. d \<noteq> c \<longrightarrow>
         win (low_value_vector self') (16 * d) = win (low_value_vector self) (16 * d) \<and>
         win (index_vector self') (16 * d) = win (index_vector self) (16 * d))"
proof -
  let ?I = "win (index_vector self) (16 * c)" and ?L = "win (low_value_vector self) (16 * c)"
  have lens: "length (index_vector self) = 96" "length (low_value_vector self) = 96"
    using shape by (simp_all add: inst_shape_def)
  have lwin: "length (fst (FindMinimum_win self f c)) = 16" "length (snd (FindMinimum_win self f c)) = 16"
    by (rule length_FindMinimum_win [OF shape c])+
  have aged_ok: "win_ok aged" unfolding aged_def by (rule age_win_ok [OF ok]) simp
  have "snd (FindMinimum_win self f c) = take 16 (insort f aged)"
    using insert_win_vals [OF aged_ok, of f "fst (age_win 0 16 ?I ?L)"]
    by (simp add: FindMinimum_win_def aged_def)
  moreover have "win (low_value_vector self') (16 * c) = snd (FindMinimum_win self f c)"
    using c lens lwin by (simp add: self'_def FindMinimum_eq [OF shape c] win_blit_same)
  ultimately have eq: "win (low_value_vector self') (16 * c) = take 16 (insort f aged)" by simp
  have ok': "win_ok (win (low_value_vector self') (16 * c))" unfolding eq by (rule insort_take_ok [OF aged_ok])
  have sub: "set aged \<subseteq> insert 10000 (set ?L)" unfolding aged_def by (rule age_win_subset)
  have young: "aged = ?L" if "\<forall>k<16. index_vector self ! (16 * c + k) \<noteq> 100"
    using that c lens by (simp add: aged_def age_win_young nth_win)
  have other: "win (low_value_vector self') (16 * d) = win (low_value_vector self) (16 * d) \<and>
        win (index_vector self') (16 * d) = win (index_vector self) (16 * d)"
    if "d < 6" "d \<noteq> c" for d
    using that c lens lwin by (auto simp: self'_def FindMinimum_eq [OF shape c] intro!: win_blit_other)
  from eq ok' sub young other show ?thesis by blast
qed

theorem FindMinimum_smallest_witness:
  "win (low_value_vector (snd (WebRtcVad_FindMinimum vad_init 500 5))) 80 = 500 # replicate 15 10000"
proof -
  have ok: "win_ok (win (low_value_vector vad_init) (16 * 5))"
    by (simp add: win_ok_def win_def vad_init_def sorted_replicate)
  have "win (low_value_vector vad_init) (16 * 5) = replicate 16 10000"
    "\<forall>k<16. index_vector vad_init ! (16 * 5 + k) \<noteq> 100"
    by (simp_all add: win_def vad_init_def)
  moreover have "take 16 (insort 500 (replicate 16 (10000::int))) = 500 # replicate 15 10000" by code_simp
  ultimately show ?thesis
    using FindMinimum_smallest [OF inst_shape_vad_init _ ok, of 500] by simp
qed

text \<open>
  The running mean returned by \<open>WebRtcVad_FindMinimum\<close> lies between the previous mean and
  the current median, so the fixed-point smoothing never overflows or overshoots.
\<close>

theorem FindMinimum_mean_between:
  assumes shape: "inst_shape self" and c: "c < 6" and f: "is_s16 f"
    and ok: "win_ok (win (low_value_vector self) (16 * c))"
    and low16: "\<forall>x\<in>set (low_value_vector self). is_s16 x"
    and mean: "is_s16 (mean_value self ! c)"
  defines "r \<equiv> WebRtcVad_FindMinimum self f c"
  defines "low \<equiv> win (low_value_vector (snd r)) (16 * c)"
  defines "med \<equiv> (if frame_counter self > 2 then low ! 2 else if frame_counter self > 0 then low ! 0 else 1600)"
  shows "min med (mean_value self ! c) \<le> fst r \<and> fst r \<le> max med (mean_value self ! c)
    \<and> mean_value (snd r) = (mean_value self)[c := fst r]"
proof -
  define L where "L = win (low_value_vector self) (16 * c)"
  have lens: "length (low_value_vector self) = 96" using shape by (simp add: inst_shape_def)
  have lwin: "length (snd (FindMinimum_win self f c)) = 16" by (rule length_FindMinimum_win(2) [OF shape c])
  have low: "low = snd (FindMinimum_win self f c)"
    using c lens lwin by (simp add: low_def r_def FindMinimum_eq [OF shape c] win_blit_same)
  have vals: "\<forall>x\<in>set low. is_s16 x" unfolding low by (rule FindMinimum_win_range [OF ok f low16])
  have "is_s16 (low ! 2)" "is_s16 (low ! 0)" using vals lwin by (simp_all add: low)
  from smooth_median_between [OF this mean, of "frame_counter self"] show ?thesis
    by (simp add: r_def FindMinimum_eq [OF shape c] FindMinimum_mean_def low [symmetric] med_def)
qed

theorem FindMinimum_mean_between_witness:
  "fst (WebRtcVad_FindMinimum vad_init 500 5) = 1600"
proof -
  have "win_ok (win (low_value_vector vad_init) (16 * 5))"
    by (simp add: win_ok_def win_def vad_init_def sorted_replicate)
  moreover have "\<forall>x\<in>set (low_value_vector vad_init). is_s16 x" "is_s16 (mean_value vad_init ! 5)"
    "frame_counter vad_init = 0" "mean_value vad_init ! 5 = 1600"
    by (simp_all add: vad_init_def is_s16_def)
  ultimately show ?thesis
    using FindMinimum_mean_between [OF inst_shape_vad_init, of 5 500] by (simp add: is_s16_def)
qed

end
