(* ===== verification/VadGmm.thy ===== *)
theory VadGmm
  imports VadSp
begin

text \<open>
  The Gaussian of the detector's mixture model (\<open>vad_gmm.c\<close>): the probability of a feature
  value (Q20) and the normalised distance \<open>delta\<close> (Q11) that the model update uses.
  The lemmas show that no conversion of the routine changes a value for the standard
  deviations the detector keeps (at least 378, Q7) and feature values it can see, state the
  result in plain integer arithmetic and bound it.
\<close>

abbreviation (input) kCompVar :: int where "kCompVar \<equiv> 22005"
abbreviation (input) kLog2Exp :: int where "kLog2Exp \<equiv> 5909"

text \<open>The power of two \<open>exp2(- tmp16)\<close> in Q10 by a shift and a linear mantissa.\<close>

definition gauss_exp2 :: "int16 \<Rightarrow> int16" where
  "gauss_exp2 tmp16 =
     (let tmp16 = s16 (- tmp16);
          exp_value = s16 (0x0400 OR (tmp16 AND 0x03FF));
          tmp16 = s16 (tmp16 XOR 0xFFFF);
          tmp16 = s16 (shr tmp16 10);
          tmp16 = s16 (tmp16 + 1)
      in s16 (shr exp_value (nat tmp16)))"

definition WebRtcVad_GaussianProbability :: "int16 \<Rightarrow> int16 \<Rightarrow> int16 \<Rightarrow> int32 \<times> int16" where
  "WebRtcVad_GaussianProbability input mean std =
     (let tmp32 = 131072 + shr std 1;
          inv_std = s16 (WebRtcSpl_DivW32W16 tmp32 std);
          tmp16 = shr inv_std 2;
          inv_std2 = s16 (MUL_16_16_RSFT tmp16 tmp16 2);
          tmp16 = s16 (input * 2 ^ 3);
          tmp16 = s16 (tmp16 - mean);
          delta = s16 (MUL_16_16_RSFT inv_std2 tmp16 10);
          tmp32 = MUL_16_16_RSFT delta tmp16 9;
          exp_value =
            (if tmp32 < kCompVar
             then gauss_exp2 (s16 (MUL_16_16_RSFT kLog2Exp (s16 tmp32) 12))
             else 0)
      in (MUL_16_16 inv_std exp_value, delta))"

section \<open>The exponential\<close>

lemma s16_xor_FFFF:
  assumes "is_s16 x"
  shows "s16 (x XOR 0xFFFF) = - x - 1"
proof -
  have F: "(0xFFFF::int) = mask 16" by (simp add: mask_eq_exp_minus_1)
  have "take_bit 16 (x XOR 0xFFFF) = take_bit 16 (NOT x)"
    unfolding F by (rule bit_eqI) (auto simp: bit_simps)
  then have "(x XOR 0xFFFF) mod 65536 = (- x - 1) mod 65536"
    by (simp add: take_bit_eq_mod not_int_def)
  then have "65536 dvd (x XOR 0xFFFF) - (- x - 1)" by (simp add: mod_eq_dvd_iff)
  then have "s16 (x XOR 0xFFFF) = s16 (- x - 1)" by (intro i16.conv_eqI) simp
  then show ?thesis using assms by (simp add: is_s16_def)
qed

lemma exp_or_take_bit: "2 ^ n OR take_bit n y = 2 ^ n + take_bit n (y::int)"
  by (rule disjunctive_add [symmetric]) (auto simp: bit_simps)

lemma or_1024: "0x0400 OR (y AND 0x03FF) = 1024 + y mod (1024::int)"
proof -
  have "y AND 0x03FF = take_bit 10 y" by (simp add: take_bit_eq_mask mask_eq_exp_minus_1)
  then show ?thesis using exp_or_take_bit [of 10 y] by (simp add: take_bit_eq_mod)
qed

lemma gauss_exp2_eq:
  assumes "0 \<le> x" "x \<le> 32767"
  shows "gauss_exp2 x = (1024 + (- x) mod 1024) div 2 ^ nat ((x + 1023) div 1024)"
proof -
  have m: "0 \<le> (- x) mod 1024" "(- x) mod 1024 < 1024" by simp_all
  have e: "s16 (0x0400 OR (- x AND 0x03FF)) = 1024 + (- x) mod 1024"
    unfolding or_1024 by (rule s16_id) (use m in linarith)+
  have q: "-1 \<le> shr (x - 1) 10" "shr (x - 1) 10 \<le> 31"
    using assms le_shr_iff [of "-1" "x - 1" 10] shr_less_iff [of "x - 1" 10 32] by simp_all
  have neg: "s16 (- x) = - x" by (rule s16_id) (use assms in linarith)+
  have sh: "s16 (- x XOR 0xFFFF) = x - 1" using assms by (subst s16_xor_FFFF) (simp_all add: is_s16_def)
  have "shr (x - 1) 10 + 1 = (x + 1023) div 1024" by simp
  moreover have "s16 (shr (x - 1) 10) = shr (x - 1) 10" "s16 (shr (x - 1) 10 + 1) = shr (x - 1) 10 + 1"
    by (rule s16_id; use q in linarith)+
  ultimately have g: "gauss_exp2 x = s16 (shr (1024 + (- x) mod 1024) (nat ((x + 1023) div 1024)))"
    by (simp only: gauss_exp2_def Let_def neg e sh)
  have "\<bar>shr (1024 + (- x) mod 1024) (nat ((x + 1023) div 1024))\<bar> \<le> 2047"
  proof (rule shr_abs)
    have "(2047::int) * 1 \<le> 2047 * 2 ^ nat ((x + 1023) div 1024)" by (rule mult_left_mono) simp_all
    with m show "\<bar>1024 + - x mod 1024\<bar> \<le> 2047 * 2 ^ nat ((x + 1023) div 1024)" by linarith
  qed
  then show ?thesis unfolding g by (intro s16_id) linarith+
qed

lemma gauss_exp2_bounds:
  assumes "0 \<le> x" "x \<le> 32767"
  shows "0 \<le> gauss_exp2 x" and "gauss_exp2 x \<le> 1024"
proof -
  let ?m = "1024 + (- x) mod 1024" and ?k = "nat ((x + 1023) div 1024)"
  have "?m < 1025 * 2 ^ ?k \<and> 0 \<le> ?m"
  proof (cases "x = 0")
    case False
    have "1 \<le> (x + 1023) div 1024" using assms(1) False le_div_iff [of 1024 1 "x + 1023"] by simp
    then obtain k where k: "?k = Suc k" by (cases "?k") simp_all
    have "(1025::int) * 2 \<le> 1025 * 2 ^ Suc k" by simp
    moreover have "0 \<le> (- x) mod 1024" "(- x) mod 1024 < 1024" by simp_all
    ultimately show ?thesis unfolding k by linarith
  qed simp
  then have "shr ?m ?k < 1025" "0 \<le> shr ?m ?k"
    unfolding shr_less_iff le_shr_iff by simp_all
  then show "0 \<le> gauss_exp2 x" "gauss_exp2 x \<le> 1024" unfolding gauss_exp2_eq [OF assms] by linarith+
qed

section \<open>The probability in plain integers\<close>

definition gauss_delta :: "int \<Rightarrow> int \<Rightarrow> int \<Rightarrow> int" where
  "gauss_delta input mean std =
     (let inv = (131072 + std div 2) div std in (inv div 4) ^ 2 div 4 * (8 * input - mean) div 1024)"

definition gauss_prob :: "int \<Rightarrow> int \<Rightarrow> int \<Rightarrow> int" where
  "gauss_prob input mean std =
     (let inv = (131072 + std div 2) div std;
          e = gauss_delta input mean std * (8 * input - mean) div 512;
          x = 5909 * e div 4096
      in if e < 22005 then inv * ((1024 + (- x) mod 1024) div 2 ^ nat ((x + 1023) div 1024)) else 0)"

text \<open>The standard deviations and distances for which the routine does not overflow.\<close>

definition gauss_ok :: "int \<Rightarrow> int \<Rightarrow> int \<Rightarrow> bool" where
  "gauss_ok input mean std \<longleftrightarrow>
     378 \<le> std \<and> std \<le> 32767 \<and> \<bar>8 * input\<bar> \<le> 32767 \<and> \<bar>8 * input - mean\<bar> \<le> 18000"

lemma inv_std_bounds:
  assumes "378 \<le> std" "std \<le> (32767::int)"
  shows "4 \<le> (131072 + std div 2) div std" "(131072 + std div 2) div std \<le> 347"
proof -
  have "4 * std \<le> 131072 + std div 2" using assms by linarith
  then show "4 \<le> (131072 + std div 2) div std" using assms le_div_iff [of std 4] by simp
  have "131072 + std div 2 < 348 * std" using assms by linarith
  then show "(131072 + std div 2) div std \<le> 347" using assms div_less_iff [of std "131072 + std div 2" 348] by linarith
qed

lemma sq_le:
  fixes t :: int
  assumes "0 \<le> t" "t \<le> 86"
  shows "0 \<le> t * t" "t * t \<le> 7396"
  using assms mult_mono [of t 86 t 86] by simp_all

text \<open>\<open>i2\<close> is the inverse variance, \<open>d\<close> the distance.\<close>

lemma gauss_delta_bounds:
  fixes i2 d :: int
  assumes "0 \<le> i2" "i2 \<le> 1849" "\<bar>d\<bar> \<le> 18000"
  shows "\<bar>i2 * d div 1024\<bar> \<le> 32502" "0 \<le> (i2 * d div 1024) * d"
    "\<bar>(i2 * d div 1024) * d\<bar> \<le> 585036000"
proof -
  have "\<bar>i2 * d\<bar> \<le> 1849 * 18000" using assms by (intro abs_mult_le) simp_all
  then have "\<bar>i2 * d\<bar> \<le> 32502 * 2 ^ 10" by simp
  from shr_abs [OF this] show b: "\<bar>i2 * d div 1024\<bar> \<le> 32502" by simp
  show "0 \<le> (i2 * d div 1024) * d"
  proof (cases "0 \<le> d")
    case True
    then show ?thesis using assms(1) by (simp add: pos_imp_zdiv_nonneg_iff)
  next
    case False
    then have "i2 * d \<le> 0" using assms(1) by (simp add: mult_nonneg_nonpos)
    then have "i2 * d div 1024 \<le> 0" using div_less_iff [of 1024 "i2 * d" 1] by simp
    then show ?thesis using False by (simp add: mult_nonpos_nonpos)
  qed
  show "\<bar>(i2 * d div 1024) * d\<bar> \<le> 585036000"
    using abs_mult_le [OF b assms(3)] by simp
qed

lemma GaussianProbability_eq:
  assumes "gauss_ok input mean std"
  shows "WebRtcVad_GaussianProbability input mean std = (gauss_prob input mean std, gauss_delta input mean std)"
proof -
  define inv where "inv = (131072 + std div 2) div std"
  define t where "t = inv div 4"
  define i2 where "i2 = t * t div 4"
  define d where "d = 8 * input - mean"
  define delta where "delta = i2 * d div 1024"
  define e where "e = delta * d div 512"
  have std: "378 \<le> std" "std \<le> 32767" and inp: "\<bar>8 * input\<bar> \<le> 32767" and d: "\<bar>d\<bar> \<le> 18000"
    using assms by (simp_all add: gauss_ok_def d_def)
  have inv: "4 \<le> inv" "inv \<le> 347" using inv_std_bounds [OF std] by (simp_all add: inv_def)
  have t: "0 \<le> t" "t \<le> 86" using inv by (simp_all add: t_def)
  have i2: "0 \<le> i2" "i2 \<le> 1849" using sq_le [OF t] by (simp_all add: i2_def pos_imp_zdiv_nonneg_iff del: zero_le_mult_iff)
  note db = gauss_delta_bounds [OF i2 d, folded delta_def]
  have e: "0 \<le> e" "\<bar>e\<bar> \<le> 1142649"
    using db(2,3) by (simp_all add: e_def pos_imp_zdiv_nonneg_iff)
  have c1: "s16 (WebRtcSpl_DivW32W16 (131072 + shr std 1) std) = inv"
    using std inv by (simp add: WebRtcSpl_DivW32W16_def cdiv_pos inv_def [symmetric])
  have c2: "s16 (MUL_16_16_RSFT t t 2) = i2"
    using t i2 by (simp add: MUL_16_16_RSFT_def MUL_16_16_def i2_def [symmetric])
  have c3: "s16 (s16 (input * 2 ^ 3) - mean) = d"
    using d inp by (simp add: d_def mult.commute)
  have c4: "s16 (MUL_16_16_RSFT i2 d 10) = delta"
    using d i2 db(1) by (simp add: MUL_16_16_RSFT_def MUL_16_16_def delta_def [symmetric])
  have c5: "MUL_16_16_RSFT delta d 9 = e"
    using d db(1) by (simp add: MUL_16_16_RSFT_def MUL_16_16_def e_def [symmetric])
  have c0: "shr inv 2 = t" by (simp add: t_def)
  have lhs: "WebRtcVad_GaussianProbability input mean std =
      (MUL_16_16 inv (if e < kCompVar then gauss_exp2 (s16 (MUL_16_16_RSFT kLog2Exp (s16 e) 12)) else 0), delta)"
    by (simp only: WebRtcVad_GaussianProbability_def Let_def c1 c0 c2 c3 c4 c5)
  have rd: "gauss_delta input mean std = delta"
    by (simp add: gauss_delta_def Let_def inv_def t_def i2_def d_def delta_def power2_eq_square)
  have rp: "gauss_prob input mean std =
      (let x = 5909 * e div 4096 in
       if e < 22005 then inv * ((1024 + (- x) mod 1024) div 2 ^ nat ((x + 1023) div 1024)) else 0)"
    by (simp only: gauss_prob_def rd Let_def inv_def [symmetric] d_def [symmetric] e_def [symmetric])
  show ?thesis
  proof (cases "e < 22005")
    case True
    define x where "x = 5909 * e div 4096"
    have x: "0 \<le> x" "x \<le> 32767"
      using True e by (simp_all add: x_def pos_imp_zdiv_nonneg_iff)
    have c6: "s16 (MUL_16_16_RSFT kLog2Exp (s16 e) 12) = x"
      using True e x by (simp add: MUL_16_16_RSFT_def MUL_16_16_def x_def [symmetric])
    have "MUL_16_16 inv (gauss_exp2 x) = inv * gauss_exp2 x"
      using inv gauss_exp2_bounds [OF x] by (simp add: MUL_16_16_def)
    then show ?thesis
      using True by (simp only: lhs rd rp c6 if_True Let_def x_def [symmetric] gauss_exp2_eq [OF x])
  next
    case False
    then show ?thesis by (simp add: lhs rd rp Let_def MUL_16_16_def)
  qed
qed

lemma gauss_prob_bounds:
  assumes "gauss_ok input mean std"
  shows "0 \<le> gauss_prob input mean std" "gauss_prob input mean std \<le> 355328"
proof -
  define inv where "inv = (131072 + std div 2) div std"
  define e where "e = gauss_delta input mean std * (8 * input - mean) div 512"
  define x where "x = 5909 * e div 4096"
  define y where "y = (1024 + (- x) mod 1024) div 2 ^ nat ((x + 1023) div 1024)"
  have std: "378 \<le> std" "std \<le> 32767" using assms by (simp_all add: gauss_ok_def)
  have inv: "0 \<le> inv" "inv \<le> 347" using inv_std_bounds [OF std] by (simp_all add: inv_def)
  have p: "gauss_prob input mean std = (if e < 22005 then inv * y else 0)"
    by (simp only: gauss_prob_def Let_def inv_def [symmetric] e_def [symmetric] x_def [symmetric] y_def [symmetric])
  have e: "0 \<le> e"
  proof -
    have t: "0 \<le> inv div 4" "inv div 4 \<le> 86" using inv by simp_all
    then have "0 \<le> (inv div 4)\<^sup>2 div 4" "(inv div 4)\<^sup>2 div 4 \<le> 1849"
      using sq_le [OF t] by (simp_all add: power2_eq_square pos_imp_zdiv_nonneg_iff del: zero_le_mult_iff)
    moreover have "\<bar>8 * input - mean\<bar> \<le> 18000" using assms by (simp add: gauss_ok_def)
    ultimately have "0 \<le> (inv div 4)\<^sup>2 div 4 * (8 * input - mean) div 1024 * (8 * input - mean)"
      by (rule gauss_delta_bounds(2))
    then show ?thesis
      by (simp add: e_def gauss_delta_def Let_def inv_def [symmetric] pos_imp_zdiv_nonneg_iff)
  qed
  have "0 \<le> inv * y \<and> inv * y \<le> 355328" if "e < 22005"
  proof -
    have x: "0 \<le> x" "x \<le> 32767" using that e by (simp_all add: x_def pos_imp_zdiv_nonneg_iff)
    have y: "0 \<le> y" "y \<le> 1024"
      using gauss_exp2_bounds [OF x] unfolding gauss_exp2_eq [OF x] by (simp_all add: y_def)
    have "inv * y \<le> 347 * 1024" using inv y by (intro mult_mono) simp_all
    then show ?thesis using inv y by simp
  qed
  then show "0 \<le> gauss_prob input mean std" "gauss_prob input mean std \<le> 355328"
    unfolding p by simp_all
qed

text \<open>
  Within the range of the detector the Gaussian routine computes in plain integer
  arithmetic: no 16-bit conversion, shift or mask loses information, the probability is the
  product of the inverse standard deviation and a piecewise linear power of two, it is not
  negative and at most 347 * 2^10, so weighted sums of two of them stay far below 2^31.
\<close>

theorem GaussianProbability_exact:
  assumes "gauss_ok input mean std"
  shows "WebRtcVad_GaussianProbability input mean std = (gauss_prob input mean std, gauss_delta input mean std)
    \<and> 0 \<le> gauss_prob input mean std \<and> gauss_prob input mean std \<le> 347 * 2 ^ 10"
  using GaussianProbability_eq [OF assms] gauss_prob_bounds [OF assms] by simp

theorem GaussianProbability_exact_witness:
  "WebRtcVad_GaussianProbability 700 6738 378 = (4164, -2055)"
proof -
  have "gauss_ok 700 6738 378" by (simp add: gauss_ok_def)
  then show ?thesis
    using GaussianProbability_exact [of 700 6738 378] by (simp add: gauss_prob_def gauss_delta_def)
qed

end
