(* ===== verification/VadFilterbank.thy ===== *)
theory VadFilterbank
  imports VadInst
begin

text \<open>
  The filter bank of the detector (\<open>vad_filterbank.c\<close>): the high-pass filter, the all-pass
  split filter, the logarithmic band energy and \<open>WebRtcVad_CalculateFeatures\<close>, which turns
  an 8 kHz frame into six band energies in dB and an energy indicator.
\<close>

abbreviation (input) kLogConst :: int where "kLogConst \<equiv> 24660"
abbreviation (input) kLogEnergyIntPart :: int where "kLogEnergyIntPart \<equiv> 14336"

definition kHpZeroCoefs :: "int16 list" where "kHpZeroCoefs = [6631, -13262, 6631]"
definition kHpPoleCoefs :: "int16 list" where "kHpPoleCoefs = [16384, -7756, 5620]"
definition kAllPassCoefsQ15 :: "int16 list" where "kAllPassCoefsQ15 = [20972, 5571]"
definition kOffsetVector :: "int16 list" where "kOffsetVector = [368, 368, 272, 176, 176, 176]"

section \<open>Filters\<close>

text \<open>One sample of the high-pass filter; \<open>filter_state\<close> has four elements.\<close>

definition HighPass_step :: "int16 list \<Rightarrow> int16 \<Rightarrow> int16 list \<times> int16" where
  "HighPass_step filter_state x =
     (let tmp32 = MUL_16_16 (kHpZeroCoefs ! 0) x;
          tmp32 = s32 (tmp32 + MUL_16_16 (kHpZeroCoefs ! 1) (filter_state ! 0));
          tmp32 = s32 (tmp32 + MUL_16_16 (kHpZeroCoefs ! 2) (filter_state ! 1));
          filter_state = filter_state[1 := filter_state ! 0];
          filter_state = filter_state[0 := x];
          tmp32 = s32 (tmp32 - MUL_16_16 (kHpPoleCoefs ! 1) (filter_state ! 2));
          tmp32 = s32 (tmp32 - MUL_16_16 (kHpPoleCoefs ! 2) (filter_state ! 3));
          filter_state = filter_state[3 := filter_state ! 2];
          filter_state = filter_state[2 := s16 (shr tmp32 14)]
      in (filter_state, filter_state ! 2))"

definition HighPassFilter :: "int16 list \<Rightarrow> nat \<Rightarrow> int16 list \<Rightarrow> int16 list \<times> int16 list" where
  "HighPassFilter data_in data_length filter_state =
     (let (filter_state, data_out) = run HighPass_step filter_state (take data_length data_in)
      in (data_out, filter_state))"

text \<open>One sample of the all-pass filter; the state is kept in Q15 during the loop.\<close>

definition AllPass_step :: "int16 \<Rightarrow> int32 \<Rightarrow> int16 \<Rightarrow> int32 \<times> int16" where
  "AllPass_step filter_coefficient state32 x =
     (let tmp32 = s32 (state32 + MUL_16_16 filter_coefficient x);
          tmp16 = s16 (shr tmp32 16);
          state32 = shl32 x 14;
          state32 = s32 (state32 - MUL_16_16 filter_coefficient tmp16);
          state32 = shl32 state32 1
      in (state32, tmp16))"

text \<open>The filter reads every second sample of \<open>data_in\<close>.\<close>

definition AllPassFilter :: "int16 list \<Rightarrow> nat \<Rightarrow> int16 \<Rightarrow> int16 \<Rightarrow> int16 list \<times> int16" where
  "AllPassFilter data_in data_length filter_coefficient filter_state =
     (let state32 = shl32 filter_state 16;
          (state32, data_out) = run (AllPass_step filter_coefficient) state32
             (take data_length (evens data_in))
      in (data_out, s16 (shr state32 16)))"

text \<open>Returns \<open>hp_data_out\<close>, \<open>lp_data_out\<close> and the two states.\<close>

definition SplitFilter ::
    "int16 list \<Rightarrow> nat \<Rightarrow> int16 \<Rightarrow> int16 \<Rightarrow> int16 list \<times> int16 list \<times> int16 \<times> int16" where
  "SplitFilter data_in data_length upper_st lower_st =
     (let half_length = data_length div 2;
          (up, upper_st) = AllPassFilter data_in half_length (kAllPassCoefsQ15 ! 0) upper_st;
          (low, lower_st) =
             AllPassFilter (drop 1 data_in) half_length (kAllPassCoefsQ15 ! 1) lower_st;
          hp_data_out = map2 (\<lambda>h l. s16 (h - l)) up low;
          lp_data_out = map2 (\<lambda>h l. s16 (l + h)) up low
      in (hp_data_out, lp_data_out, upper_st, lower_st))"

section \<open>Band energy\<close>

text \<open>Returns \<open>total_energy\<close> and \<open>log_energy\<close>.\<close>

definition LogOfEnergy :: "int16 list \<Rightarrow> nat \<Rightarrow> int16 \<Rightarrow> int16 \<Rightarrow> int16 \<times> int16" where
  "LogOfEnergy data_in data_length offset total_energy =
     (let (e, tot_rshifts) = WebRtcSpl_Energy (take data_length data_in);
          energy = u32 e
      in if energy \<noteq> 0
         then let normalizing_rshifts = 17 - WebRtcSpl_NormU32 energy;
                  log2_energy = kLogEnergyIntPart;
                  tot_rshifts = tot_rshifts + normalizing_rshifts;
                  energy = (if normalizing_rshifts < 0
                            then u32 (energy * 2 ^ nat (- normalizing_rshifts))
                            else shr energy (nat normalizing_rshifts));
                  log2_energy = s16 (log2_energy + s16 (shr (energy AND 0x00003FFF) 4));
                  log_energy = s16 (MUL_16_16_RSFT kLogConst log2_energy 19
                                  + MUL_16_16_RSFT tot_rshifts kLogConst 9);
                  log_energy = (if log_energy < 0 then 0 else log_energy);
                  log_energy = s16 (log_energy + offset);
                  total_energy =
                    (if total_energy \<le> kMinEnergy
                     then if tot_rshifts \<ge> 0 then s16 (total_energy + (kMinEnergy + 1))
                          else s16 (total_energy + s16 (shr energy (nat (- tot_rshifts))))
                     else total_energy)
              in (total_energy, log_energy)
         else (total_energy, offset))"

section \<open>Features\<close>

text \<open>Returns the total energy and the feature vector.\<close>

definition WebRtcVad_CalculateFeatures ::
    "VadInstT \<Rightarrow> int16 list \<Rightarrow> nat \<Rightarrow> int16 \<times> int16 list \<times> VadInstT" where
  "WebRtcVad_CalculateFeatures self data_in data_length =
     (let total_energy = 0;
          half_data_length = data_length div 2;
          len = half_data_length;
          us = upper_state self; ls = lower_state self;
          (hp_120, lp_120, u, l) = SplitFilter data_in data_length (us ! 0) (ls ! 0);
          us = us[0 := u]; ls = ls[0 := l];
          (hp_60, lp_60, u, l) = SplitFilter hp_120 len (us ! 1) (ls ! 1);
          us = us[1 := u]; ls = ls[1 := l];
          len = len div 2;
          (total_energy, f5) = LogOfEnergy hp_60 len (kOffsetVector ! 5) total_energy;
          (total_energy, f4) = LogOfEnergy lp_60 len (kOffsetVector ! 4) total_energy;
          len = half_data_length;
          (hp_60, lp_60, u, l) = SplitFilter lp_120 len (us ! 2) (ls ! 2);
          us = us[2 := u]; ls = ls[2 := l];
          len = len div 2;
          (total_energy, f3) = LogOfEnergy hp_60 len (kOffsetVector ! 3) total_energy;
          (hp_120, lp_120, u, l) = SplitFilter lp_60 len (us ! 3) (ls ! 3);
          us = us[3 := u]; ls = ls[3 := l];
          len = len div 2;
          (total_energy, f2) = LogOfEnergy hp_120 len (kOffsetVector ! 2) total_energy;
          (hp_60, lp_60, u, l) = SplitFilter lp_120 len (us ! 4) (ls ! 4);
          us = us[4 := u]; ls = ls[4 := l];
          len = len div 2;
          (total_energy, f1) = LogOfEnergy hp_60 len (kOffsetVector ! 1) total_energy;
          (hp_120, hps) = HighPassFilter lp_60 len (hp_filter_state self);
          (total_energy, f0) = LogOfEnergy hp_120 len (kOffsetVector ! 0) total_energy
      in (total_energy, [f0, f1, f2, f3, f4, f5],
          self\<lparr>upper_state := us, lower_state := ls, hp_filter_state := hps\<rparr>))"

section \<open>Filters stay in range\<close>

definition hp_st :: "int16 list \<Rightarrow> bool" where
  "hp_st fs \<longleftrightarrow> length fs = 4 \<and> (\<forall>x\<in>set fs. is_s16 x)"

lemma hp_stE:
  assumes "hp_st fs"
  obtains a b c d where "fs = [a, b, c, d]" "is_s16 a" "is_s16 b" "is_s16 c" "is_s16 d"
  using assms by (auto simp: hp_st_def numeral_eq_Suc length_Suc_conv)

text \<open>The 32-bit accumulator of the high-pass filter is exact.\<close>

lemma HighPass_step_eq:
  assumes "is_s16 x" "is_s16 a" "is_s16 b" "is_s16 c" "is_s16 d"
  shows "HighPass_step [a, b, c, d] x =
    (let y = s16 (shr (6631 * x - 13262 * a + 6631 * b + 7756 * c - 5620 * d) 14) in ([x, a, y, c], y))"
proof -
  have r: "-32768 \<le> x" "x \<le> 32767" "-32768 \<le> a" "a \<le> 32767" "-32768 \<le> b" "b \<le> 32767"
      "-32768 \<le> c" "c \<le> 32767" "-32768 \<le> d" "d \<le> 32767"
    using assms by (simp_all add: is_s16_def)
  have 1: "s32 (6631 * x + - 13262 * a) = 6631 * x + - 13262 * a" by (rule s32_id) (use r in linarith)+
  have 2: "s32 (6631 * x + - 13262 * a + 6631 * b) = 6631 * x + - 13262 * a + 6631 * b"
    by (rule s32_id) (use r in linarith)+
  have 3: "s32 (6631 * x + - 13262 * a + 6631 * b - - 7756 * c) = 6631 * x + - 13262 * a + 6631 * b - - 7756 * c"
    by (rule s32_id) (use r in linarith)+
  have 4: "s32 (6631 * x + - 13262 * a + 6631 * b - - 7756 * c - 5620 * d) =
      6631 * x + - 13262 * a + 6631 * b - - 7756 * c - 5620 * d"
    by (rule s32_id) (use r in linarith)+
  have s: "s16 x = x" "s16 a = a" "s16 b = b" "s16 c = c" "s16 d = d" using r by simp_all
  show ?thesis
    unfolding HighPass_step_def kHpZeroCoefs_def kHpPoleCoefs_def MUL_16_16_def
    using 1 2 3 4 by (simp add: s Let_def)
qed

interpretation hp: filter_section HighPass_step hp_st is_s16 is_s16
proof
  fix fs x assume fs: "hp_st fs" and x: "is_s16 x"
  from fs obtain a b c d where "fs = [a, b, c, d]" "is_s16 a" "is_s16 b" "is_s16 c" "is_s16 d"
    by (rule hp_stE)
  then show "hp_st (fst (HighPass_step fs x))" "is_s16 (snd (HighPass_step fs x))"
    using x by (simp_all add: HighPass_step_eq Let_def hp_st_def)
qed

interpretation ap: filter_section "AllPass_step c" is_s32 is_s16 is_s16
  by unfold_locales (simp_all add: AllPass_step_def Let_def)

lemma AllPassFilter_shape [c_shape]:
  "length (fst (AllPassFilter xs n c s)) = min n ((length xs + 1) div 2)"
  by (simp add: AllPassFilter_def Let_def case_prod_beta min.commute)

lemma AllPassFilter_range [c_ranges]: "is_s16 (snd (AllPassFilter xs n c s))"
  by (simp add: AllPassFilter_def Let_def case_prod_beta)

lemma SplitFilter_shape [c_shape]:
  assumes "even n" "n \<le> length xs"
  shows "length (fst (SplitFilter xs n u l)) = n div 2"
    "length (fst (snd (SplitFilter xs n u l))) = n div 2"
proof -
  have "min (n div 2) ((length xs + 1) div 2) = n div 2" "min (n div 2) ((length xs - 1 + 1) div 2) = n div 2"
    using assms by (auto simp: min_def elim!: evenE)
  then show "length (fst (SplitFilter xs n u l)) = n div 2"
    "length (fst (snd (SplitFilter xs n u l))) = n div 2"
    by (simp_all add: SplitFilter_def Let_def case_prod_beta c_shape)
qed

lemma SplitFilter_range [c_ranges]:
  "\<forall>y\<in>set (fst (SplitFilter xs n u l)). is_s16 y"
  "\<forall>y\<in>set (fst (snd (SplitFilter xs n u l))). is_s16 y"
  "is_s16 (fst (snd (snd (SplitFilter xs n u l))))"
  "is_s16 (snd (snd (snd (SplitFilter xs n u l))))"
  by (auto simp: SplitFilter_def Let_def case_prod_beta AllPassFilter_range)

lemma HighPassFilter_range [c_ranges]:
  assumes "\<forall>x\<in>set xs. is_s16 x" "hp_st fs"
  shows "\<forall>y\<in>set (fst (HighPassFilter xs n fs)). is_s16 y" "hp_st (snd (HighPassFilter xs n fs))"
proof -
  have "\<forall>x\<in>set (take n xs). is_s16 x" using assms(1) by (auto dest: in_set_takeD)
  from hp.run_out [OF assms(2) this] hp.run_st [OF assms(2) this]
  show "\<forall>y\<in>set (fst (HighPassFilter xs n fs)). is_s16 y" "hp_st (snd (HighPassFilter xs n fs))"
    by (simp_all add: HighPassFilter_def Let_def case_prod_beta)
qed

section \<open>The logarithm\<close>

lemma norm15:
  assumes "0 < E" "E < 4294967296"
  defines "r \<equiv> 17 - WebRtcSpl_NormU32 E"
  defines "En \<equiv> (if r < 0 then u32 (E * 2 ^ nat (- r)) else shr E (nat r))"
  shows "2 ^ 14 \<le> En" "En < 2 ^ 15" "-14 \<le> r" "r \<le> 17"
    "r < 0 \<Longrightarrow> shr En (nat (- r)) = E" "0 \<le> r \<Longrightarrow> En = shr E (nat r)"
proof -
  define n where "n = nat (WebRtcSpl_NormU32 E)"
  have n: "2 ^ 31 \<le> E * 2 ^ n" "E * 2 ^ n < 2 ^ 32" "WebRtcSpl_NormU32 E = int n"
    using NormU32_correct [OF assms(1,2)] by (simp_all add: n_def)
  have "n < 32" by (rule norm_exponent_bound [OF assms(1) n(2)])
  have r: "r = 17 - int n" by (simp add: r_def n(3))
  then show "-14 \<le> r" "r \<le> 17" using \<open>n < 32\<close> by simp_all
  have "2 ^ 14 \<le> En \<and> En < 2 ^ 15 \<and> (r < 0 \<longrightarrow> shr En (nat (- r)) = E)"
  proof (cases "n \<le> 17")
    case True
    then have "En = shr E (17 - n)" using r by (simp add: En_def nat_diff_distrib)
    moreover have "(2::int) ^ (17 - n) * 2 ^ n = 2 ^ 17" using True by (simp flip: power_add)
    then have "E * 2 ^ n < 2 ^ 15 * 2 ^ (17 - n) * 2 ^ n" "2 ^ 14 * 2 ^ (17 - n) * 2 ^ n \<le> E * 2 ^ n"
      using n by (simp_all add: mult.assoc)
    then have "E < 2 ^ 15 * 2 ^ (17 - n)" "2 ^ 14 * 2 ^ (17 - n) \<le> E" by simp_all
    ultimately show ?thesis using True r by (simp add: shr_less_iff le_shr_iff)
  next
    case False
    define k where "k = n - 17"
    have "nat (- r) = k" using False r by (simp add: k_def)
    moreover have "(2::int) ^ n = 2 ^ k * 2 ^ 17" using False by (subst power_add [symmetric]) (simp add: k_def)
    then have b: "2 ^ 14 \<le> E * 2 ^ k" "E * 2 ^ k < 2 ^ 15" using n by simp_all
    ultimately show ?thesis using False r by (simp add: En_def)
  qed
  then show "2 ^ 14 \<le> En" "En < 2 ^ 15" "r < 0 \<Longrightarrow> shr En (nat (- r)) = E" by blast+
  show "0 \<le> r \<Longrightarrow> En = shr E (nat r)" by (simp add: En_def)
qed

lemma low14_bits:
  fixes E :: int
  assumes "2 ^ 14 \<le> E" "E < 2 ^ 15"
  shows "E AND 0x00003FFF = E - 2 ^ 14"
proof -
  have "E AND 0x00003FFF = take_bit 14 E" by (simp add: take_bit_eq_mask mask_eq_exp_minus_1)
  also have "\<dots> = E mod 2 ^ 14" by (simp add: take_bit_eq_mod)
  also have "\<dots> = (E - 2 ^ 14) mod 2 ^ 14" by simp
  also have "\<dots> = E - 2 ^ 14" using assms by (intro mod_pos_pos_trivial) simp_all
  finally show ?thesis .
qed

lemma small_shr:
  fixes E t :: int
  assumes "2 ^ 14 \<le> E" "E < 2 ^ 15" "t < 0"
  shows "0 \<le> shr E (nat (- t))" "shr E (nat (- t)) < 16384"
proof -
  show "0 \<le> shr E (nat (- t))" unfolding le_shr_iff using assms(1) by simp
  from assms(3) obtain k where k: "nat (- t) = Suc k" by (cases "nat (- t)") simp_all
  have "E < 16384 * 2" "(16384::int) * 2 \<le> 16384 * 2 ^ Suc k" using assms(2) by simp_all
  then show "shr E (nat (- t)) < 16384" unfolding k shr_less_iff by linarith
qed

text \<open>
  The band energy in dB: \<open>En * 2 ^ tot\<close> is the energy with a 15-bit mantissa \<open>En\<close>.
\<close>

definition log_energy_of :: "int \<Rightarrow> int \<Rightarrow> int" where
  "log_energy_of En tot = max 0 (24660 * (14336 + (En - 2 ^ 14) div 16) div 2 ^ 19 + 24660 * tot div 2 ^ 9)"

lemma log_energy_of_le:
  assumes "En < 2 ^ 15" "tot \<le> 49"
  shows "0 \<le> log_energy_of En tot" "log_energy_of En tot \<le> 3082"
proof -
  have "24660 * (14336 + (En - 2 ^ 14) div 16) div 2 ^ 19 < 723" "24660 * tot div 2 ^ 9 < 2361"
    unfolding shr_less_iff using assms by simp_all
  then show "log_energy_of En tot \<le> 3082" by (simp add: log_energy_of_def)
qed (simp add: log_energy_of_def)

lemma LogOfEnergy_nonzero:
  assumes e: "WebRtcSpl_Energy (take n xs) = (e, sc)" and E: "u32 e \<noteq> 0"
    and sc: "0 \<le> sc" "sc \<le> 32" and off: "0 \<le> offset" "offset \<le> 4000"
    and tot0: "0 \<le> total0" "total0 \<le> 32767"
  defines "r \<equiv> 17 - WebRtcSpl_NormU32 (u32 e)"
  defines "En \<equiv> (if r < 0 then u32 (u32 e * 2 ^ nat (- r)) else shr (u32 e) (nat r))"
  shows "LogOfEnergy xs n offset total0 =
    (if total0 \<le> 10 then total0 + (if sc + r \<ge> 0 then 11 else shr En (nat (- (sc + r)))) else total0,
     offset + log_energy_of En (sc + r))"
proof -
  have E': "0 < u32 e" "u32 e < 4294967296"
    using E n32.conv_lo [of e] n32.conv_hi [of e] by linarith+
  note nb = norm15 [OF E', folded r_def, folded En_def]
  have frac: "0 \<le> (En - 2 ^ 14) div 16" "(En - 2 ^ 14) div 16 \<le> 1023"
    using nb(1,2) by simp_all
  have f: "s16 (shr (En AND 0x00003FFF) 4) = (En - 2 ^ 14) div 16"
    using frac by (simp add: low14_bits [OF nb(1,2), simplified])
  define L where "L = 14336 + (En - 2 ^ 14) div 16"
  have L: "s16 (14336 + (En - 2 ^ 14) div 16) = L" "14336 \<le> L" "L \<le> 15359" "s16 L = L"
    using frac by (simp_all add: L_def)
  have tot: "-14 \<le> sc + r" "sc + r \<le> 49" using nb(3,4) sc by simp_all
  have m: "MUL_16_16_RSFT kLogConst L 19 = 24660 * L div 2 ^ 19"
    "MUL_16_16_RSFT (sc + r) kLogConst 9 = 24660 * (sc + r) div 2 ^ 9"
    using tot L by (simp_all add: MUL_16_16_RSFT_def MUL_16_16_def mult.commute)
  define V where "V = 24660 * L div 2 ^ 19 + 24660 * (sc + r) div 2 ^ 9"
  have V: "log_energy_of En (sc + r) = max 0 V" by (simp add: log_energy_of_def V_def L_def)
  have "log_energy_of En (sc + r) \<le> 3082" by (rule log_energy_of_le(2) [OF nb(2) tot(2)])
  then have Vb: "V \<le> 3082" unfolding V by simp
  have "-676 \<le> 24660 * (sc + r) div 2 ^ 9" "0 \<le> 24660 * L div 2 ^ 19"
    unfolding le_shr_iff using tot L(2) by simp_all
  then have Vs: "s16 V = V" using Vb unfolding V_def by (intro s16_id) linarith+
  have lg: "s16 ((if V < 0 then 0 else V) + offset) = offset + log_energy_of En (sc + r)"
    using Vb off unfolding V by simp
  have up: "s16 (total0 + s16 (shr En (nat (- (sc + r))))) = total0 + shr En (nat (- (sc + r)))"
    if "total0 \<le> 10" "sc + r < 0"
    using small_shr [OF nb(1,2) that(2)] that(1) tot0 by simp
  have m': "MUL_16_16_RSFT kLogConst L 19 + MUL_16_16_RSFT (sc + r) kLogConst 9 = V"
    unfolding V_def m ..
  have "LogOfEnergy xs n offset total0 =
    (if total0 \<le> 10 then if sc + r \<ge> 0 then s16 (total0 + (10 + 1))
        else s16 (total0 + s16 (shr En (nat (- (sc + r))))) else total0,
     s16 ((if V < 0 then 0 else V) + offset))"
    by (simp only: LogOfEnergy_def e prod.case Let_def E not_False_eq_True if_True
        r_def [symmetric] En_def [symmetric] f L(1) m' Vs)
  then show ?thesis using up tot0 unfolding lg by auto
qed

lemma GetScalingSquare_le:
  assumes "0 \<le> n" "n < 2 ^ k" "k \<le> 31"
  shows "WebRtcSpl_GetScalingSquare xs n \<le> int k"
proof -
  define bits where "bits = WebRtcSpl_GetSizeInBits n"
  have "(2::int) ^ k \<le> 2 ^ 31" using assms(3) by (intro power_increasing) simp_all
  then have n: "n < 4294967296" using assms(2) by simp
  have b: "0 \<le> bits" "0 < bits \<longrightarrow> 2 ^ nat (bits - 1) \<le> n"
    using GetSizeInBits_correct [OF assms(1) n] by (simp_all add: bits_def)
  have "bits \<le> int k"
  proof (rule ccontr)
    assume "\<not> bits \<le> int k"
    then have "k \<le> nat (bits - 1)" "0 < bits" by simp_all
    then have "(2::int) ^ k \<le> 2 ^ nat (bits - 1)" by (intro power_increasing) simp_all
    with b(2) \<open>0 < bits\<close> assms(2) show False by linarith
  qed
  moreover have "u32 n = n" using assms(1) n by simp
  ultimately show ?thesis
    using NormW32_range [of "s32 (scaling_smax (-1) xs * scaling_smax (-1) xs)"]
    by (simp add: WebRtcSpl_GetScalingSquare_def Let_def bits_def)
qed

text \<open>For the block lengths of the detector every band energy is a small non-negative number.\<close>

lemma LogOfEnergy_bounds:
  assumes len: "length xs \<le> 127" and off: "0 \<le> offset" "offset \<le> 4000"
    and tot0: "0 \<le> total0" "total0 \<le> 32767"
  shows "total0 \<le> fst (LogOfEnergy xs n offset total0)"
    "fst (LogOfEnergy xs n offset total0) \<le> 32767"
    "offset \<le> snd (LogOfEnergy xs n offset total0)"
    "snd (LogOfEnergy xs n offset total0) \<le> offset + 1878"
    "10 < total0 \<Longrightarrow> fst (LogOfEnergy xs n offset total0) = total0"
proof -
  obtain e sc where e: "WebRtcSpl_Energy (take n xs) = (e, sc)" by fastforce
  have sc: "0 \<le> sc" "sc \<le> 7"
    using e GetScalingSquare_nonneg [of "take n xs"] GetScalingSquare_le [of "int (length (take n xs))" 7] len
    by (auto simp: WebRtcSpl_Energy_def Let_def)
  have "total0 \<le> fst (LogOfEnergy xs n offset total0) \<and> fst (LogOfEnergy xs n offset total0) \<le> 32767 \<and>
    offset \<le> snd (LogOfEnergy xs n offset total0) \<and> snd (LogOfEnergy xs n offset total0) \<le> offset + 1878 \<and>
    (10 < total0 \<longrightarrow> fst (LogOfEnergy xs n offset total0) = total0)"
  proof (cases "u32 e = 0")
    case True
    then show ?thesis using tot0 by (simp add: LogOfEnergy_def e)
  next
    case False
    define r where "r = 17 - WebRtcSpl_NormU32 (u32 e)"
    define En where "En = (if r < 0 then u32 (u32 e * 2 ^ nat (- r)) else shr (u32 e) (nat r))"
    have eq: "LogOfEnergy xs n offset total0 =
      (if total0 \<le> 10 then total0 + (if sc + r \<ge> 0 then 11 else shr En (nat (- (sc + r)))) else total0,
       offset + log_energy_of En (sc + r))"
      unfolding r_def En_def by (rule LogOfEnergy_nonzero [OF e False]) (use sc off tot0 in simp_all)
    have E': "0 < u32 e" "u32 e < 4294967296"
      using False n32.conv_lo [of e] n32.conv_hi [of e] by linarith+
    note nb = norm15 [OF E', folded r_def, folded En_def]
    note sh = small_shr [OF nb(1,2), of "sc + r"]
    have "24660 * (14336 + (En - 2 ^ 14) div 16) div 2 ^ 19 < 723" "24660 * (sc + r) div 2 ^ 9 < 1156"
      unfolding shr_less_iff using nb(2,4) sc by simp_all
    then have "0 \<le> log_energy_of En (sc + r)" "log_energy_of En (sc + r) \<le> 1878"
      by (simp_all add: log_energy_of_def)
    then show ?thesis using sh tot0 by (cases "0 \<le> sc + r") (simp_all add: eq)
  qed
  then show "total0 \<le> fst (LogOfEnergy xs n offset total0)"
    "fst (LogOfEnergy xs n offset total0) \<le> 32767"
    "offset \<le> snd (LogOfEnergy xs n offset total0)"
    "snd (LogOfEnergy xs n offset total0) \<le> offset + 1878"
    "10 < total0 \<Longrightarrow> fst (LogOfEnergy xs n offset total0) = total0" by blast+
qed

section \<open>The feature vector\<close>

text \<open>The six bands as a tree of splits.\<close>

definition band_splits :: "VadInstT \<Rightarrow> int16 list \<Rightarrow> nat \<Rightarrow> (int16 list \<times> int16 list \<times> int16 \<times> int16) list" where
  "band_splits self xs n =
     (let us = upper_state self; ls = lower_state self;
          s0 = SplitFilter xs n (us ! 0) (ls ! 0);
          s1 = SplitFilter (fst s0) (n div 2) (us ! 1) (ls ! 1);
          s2 = SplitFilter (fst (snd s0)) (n div 2) (us ! 2) (ls ! 2);
          s3 = SplitFilter (fst (snd s2)) (n div 2 div 2) (us ! 3) (ls ! 3);
          s4 = SplitFilter (fst (snd s3)) (n div 2 div 2 div 2) (us ! 4) (ls ! 4)
      in [s0, s1, s2, s3, s4])"

definition band_energies :: "VadInstT \<Rightarrow> int16 list \<Rightarrow> nat \<Rightarrow> (int16 \<times> int16) list" where
  "band_energies self xs n =
     (let s = band_splits self xs n;
          e5 = LogOfEnergy (fst (s ! 1)) (n div 2 div 2) (kOffsetVector ! 5) 0;
          e4 = LogOfEnergy (fst (snd (s ! 1))) (n div 2 div 2) (kOffsetVector ! 4) (fst e5);
          e3 = LogOfEnergy (fst (s ! 2)) (n div 2 div 2) (kOffsetVector ! 3) (fst e4);
          e2 = LogOfEnergy (fst (s ! 3)) (n div 2 div 2 div 2) (kOffsetVector ! 2) (fst e3);
          e1 = LogOfEnergy (fst (s ! 4)) (n div 2 div 2 div 2 div 2) (kOffsetVector ! 1) (fst e2);
          e0 = LogOfEnergy (fst (HighPassFilter (fst (snd (s ! 4))) (n div 2 div 2 div 2 div 2) (hp_filter_state self)))
                 (n div 2 div 2 div 2 div 2) (kOffsetVector ! 0) (fst e1)
      in [e0, e1, e2, e3, e4, e5])"

lemma CalculateFeatures_eq:
  fixes xs :: "int16 list" and n :: nat
  assumes shape: "inst_shape self"
  defines "s \<equiv> band_splits self xs n" and "e \<equiv> band_energies self xs n"
  shows "WebRtcVad_CalculateFeatures self xs n =
    (fst (e ! 0), map snd e,
     self\<lparr>upper_state := map (\<lambda>s. fst (snd (snd s))) s, lower_state := map (\<lambda>s. snd (snd (snd s))) s,
          hp_filter_state := snd (HighPassFilter (fst (snd (s ! 4))) (n div 2 div 2 div 2 div 2) (hp_filter_state self))\<rparr>)"
proof -
  have "length (upper_state self) = 5" "length (lower_state self) = 5"
    using shape by (simp_all add: inst_shape_def)
  then obtain u0 u1 u2 u3 u4 l0 l1 l2 l3 l4
    where "upper_state self = [u0, u1, u2, u3, u4]" "lower_state self = [l0, l1, l2, l3, l4]"
    by (auto simp: numeral_eq_Suc length_Suc_conv)
  then show ?thesis
    by (simp add: WebRtcVad_CalculateFeatures_def s_def e_def band_splits_def band_energies_def
        Let_def case_prod_beta)
qed

text \<open>The block lengths of the frames the detector accepts.\<close>

definition frame_lengths :: "nat list" where
  "frame_lengths = [80, 160, 240]"

lemma band_splits_shape:
  fixes self :: VadInstT
  assumes "n \<in> set frame_lengths" "n \<le> length xs"
  defines "s \<equiv> band_splits self xs n"
  shows "length (fst (s ! 0)) = n div 2" "length (fst (snd (s ! 0))) = n div 2"
    "length (fst (s ! 1)) = n div 4" "length (fst (snd (s ! 1))) = n div 4"
    "length (fst (s ! 2)) = n div 4" "length (fst (snd (s ! 2))) = n div 4"
    "length (fst (s ! 3)) = n div 8" "length (fst (snd (s ! 3))) = n div 8"
    "length (fst (s ! 4)) = n div 16" "length (fst (snd (s ! 4))) = n div 16"
  using assms(1,2) by (auto simp: s_def frame_lengths_def band_splits_def Let_def SplitFilter_shape)

lemma band_splits_range:
  assumes "k < 5"
  shows "\<forall>y\<in>set (fst (band_splits self xs n ! k)). is_s16 y"
    "\<forall>y\<in>set (fst (snd (band_splits self xs n ! k))). is_s16 y"
    "is_s16 (fst (snd (snd (band_splits self xs n ! k))))"
    "is_s16 (snd (snd (snd (band_splits self xs n ! k))))"
  using assms by (auto simp: band_splits_def Let_def SplitFilter_range less_Suc_eq numeral_eq_Suc)

lemma length_band [simp]: "length (band_splits self xs n) = 5" "length (band_energies self xs n) = 6"
  by (simp_all add: band_splits_def band_energies_def Let_def)

lemma HighPassFilter_shape [c_shape]: "length (fst (HighPassFilter xs n fs)) = min n (length xs)"
  by (simp add: HighPassFilter_def Let_def case_prod_beta min.commute)

text \<open>A chain of energies: the indicator never falls and stays an \<open>int16_t\<close>.\<close>

definition energy_pair_ok :: "int \<Rightarrow> int16 \<Rightarrow> int16 \<times> int16 \<Rightarrow> bool" where
  "energy_pair_ok offset total0 p \<longleftrightarrow>
     total0 \<le> fst p \<and> fst p \<le> 32767 \<and> offset \<le> snd p \<and> snd p \<le> offset + 1878
     \<and> (10 < total0 \<longrightarrow> fst p = total0)"

lemma LogOfEnergy_pair:
  assumes "length xs \<le> 127" "0 \<le> offset" "offset \<le> 4000" "0 \<le> total0" "total0 \<le> 32767"
  shows "energy_pair_ok offset total0 (LogOfEnergy xs n offset total0)"
  using LogOfEnergy_bounds [OF assms] by (simp add: energy_pair_ok_def)

lemma energy_pair_range: "energy_pair_ok offset total0 p \<Longrightarrow> 0 \<le> total0 \<Longrightarrow> 0 \<le> fst p \<and> fst p \<le> 32767"
  by (simp add: energy_pair_ok_def)

lemma band_energies_chain:
  fixes self :: VadInstT
  assumes n: "n \<in> set frame_lengths" "n \<le> length xs"
  defines "e \<equiv> band_energies self xs n"
  shows "energy_pair_ok 176 0 (e ! 5)" "energy_pair_ok 176 (fst (e ! 5)) (e ! 4)"
    "energy_pair_ok 176 (fst (e ! 4)) (e ! 3)" "energy_pair_ok 272 (fst (e ! 3)) (e ! 2)"
    "energy_pair_ok 368 (fst (e ! 2)) (e ! 1)" "energy_pair_ok 368 (fst (e ! 1)) (e ! 0)"
proof -
  note shape = band_splits_shape [OF n, of self, simplified]
  have n240: "n \<le> 240" "n div 4 \<le> 127" "n div 8 \<le> 127" "n div 16 \<le> 127"
    "n div 2 div 2 div 2 div 2 \<le> 127"
    using n(1) by (auto simp: frame_lengths_def)
  let ?s = "band_splits self xs n"
  have e: "e ! 5 = LogOfEnergy (fst (?s ! 1)) (n div 2 div 2) 176 0"
    "e ! 4 = LogOfEnergy (fst (snd (?s ! 1))) (n div 2 div 2) 176 (fst (e ! 5))"
    "e ! 3 = LogOfEnergy (fst (?s ! 2)) (n div 2 div 2) 176 (fst (e ! 4))"
    "e ! 2 = LogOfEnergy (fst (?s ! 3)) (n div 2 div 2 div 2) 272 (fst (e ! 3))"
    "e ! 1 = LogOfEnergy (fst (?s ! 4)) (n div 2 div 2 div 2 div 2) 368 (fst (e ! 2))"
    "e ! 0 = LogOfEnergy (fst (HighPassFilter (fst (snd (?s ! 4))) (n div 2 div 2 div 2 div 2) (hp_filter_state self)))
       (n div 2 div 2 div 2 div 2) 368 (fst (e ! 1))"
    by (simp_all add: e_def band_energies_def Let_def kOffsetVector_def)
  show 5: "energy_pair_ok 176 0 (e ! 5)"
    unfolding e(1) by (rule LogOfEnergy_pair) (simp_all add: shape n240)
  note r5 = energy_pair_range [OF 5, simplified]
  show 4: "energy_pair_ok 176 (fst (e ! 5)) (e ! 4)"
    unfolding e(2) by (rule LogOfEnergy_pair [OF _ _ _ conjunct1 [OF r5] conjunct2 [OF r5]]) (simp_all add: shape n240)
  note r4 = energy_pair_range [OF 4 conjunct1 [OF r5]]
  show 3: "energy_pair_ok 176 (fst (e ! 4)) (e ! 3)"
    unfolding e(3) by (rule LogOfEnergy_pair [OF _ _ _ conjunct1 [OF r4] conjunct2 [OF r4]]) (simp_all add: shape n240)
  note r3 = energy_pair_range [OF 3 conjunct1 [OF r4]]
  show 2: "energy_pair_ok 272 (fst (e ! 3)) (e ! 2)"
    unfolding e(4) by (rule LogOfEnergy_pair [OF _ _ _ conjunct1 [OF r3] conjunct2 [OF r3]]) (simp_all add: shape n240)
  note r2 = energy_pair_range [OF 2 conjunct1 [OF r3]]
  show 1: "energy_pair_ok 368 (fst (e ! 2)) (e ! 1)"
    unfolding e(5) by (rule LogOfEnergy_pair [OF _ _ _ conjunct1 [OF r2] conjunct2 [OF r2]]) (simp_all add: shape n240)
  note r1 = energy_pair_range [OF 1 conjunct1 [OF r2]]
  show "energy_pair_ok 368 (fst (e ! 1)) (e ! 0)"
    unfolding e(6) by (rule LogOfEnergy_pair [OF _ _ _ conjunct1 [OF r1] conjunct2 [OF r1]]) (simp_all add: shape n240 HighPassFilter_shape)
qed

lemma CalculateFeatures_state:
  fixes xs :: "int16 list" and n :: nat
  assumes "inst_shape self" "hp_st (hp_filter_state self)"
  defines "self' \<equiv> snd (snd (WebRtcVad_CalculateFeatures self xs n))"
  shows "self' = self\<lparr>upper_state := upper_state self', lower_state := lower_state self',
           hp_filter_state := hp_filter_state self'\<rparr>"
    and "inst_shape self'" and "hp_st (hp_filter_state self')"
proof -
  have hp: "hp_st (snd (HighPassFilter (fst (snd (band_splits self xs n ! 4))) (n div 2 div 2 div 2 div 2) (hp_filter_state self)))"
    by (rule HighPassFilter_range(2) [OF band_splits_range(2) assms(2)]) simp
  show "self' = self\<lparr>upper_state := upper_state self', lower_state := lower_state self',
           hp_filter_state := hp_filter_state self'\<rparr>" "inst_shape self'" "hp_st (hp_filter_state self')"
    using hp assms(1) by (simp_all add: self'_def CalculateFeatures_eq) (simp_all add: inst_shape_def hp_st_def)
qed

lemma CalculateFeatures_range:
  assumes n: "n \<in> set frame_lengths" "n \<le> length xs"
    and inv: "inst_shape self" "hp_st (hp_filter_state self)"
  defines "r \<equiv> WebRtcVad_CalculateFeatures self xs n"
  shows "0 \<le> fst r \<and> fst r \<le> 32767 \<and> length (fst (snd r)) = 6
    \<and> (\<forall>c<6. kOffsetVector ! c \<le> fst (snd r) ! c \<and> fst (snd r) ! c \<le> kOffsetVector ! c + 1878)
    \<and> snd (snd r) = self\<lparr>upper_state := upper_state (snd (snd r)),
         lower_state := lower_state (snd (snd r)), hp_filter_state := hp_filter_state (snd (snd r))\<rparr>"
proof -
  note chain = band_energies_chain [OF n, of self]
  let ?e = "band_energies self xs n"
  have tot: "0 \<le> fst (?e ! 0) \<and> fst (?e ! 0) \<le> 32767"
    using chain unfolding energy_pair_ok_def by linarith
  have feat: "kOffsetVector ! c \<le> snd (?e ! c) \<and> snd (?e ! c) \<le> kOffsetVector ! c + 1878" if "c < 6" for c
  proof -
    note b = chain [unfolded energy_pair_ok_def]
    from that consider "c = 0" | "c = 1" | "c = 2" | "c = 3" | "c = 4" | "c = 5" by linarith
    then show ?thesis
    proof cases
      case 1 then show ?thesis using b(6) by (simp add: kOffsetVector_def)
    next
      case 2 then show ?thesis using b(5) by (simp add: kOffsetVector_def)
    next
      case 3 then show ?thesis using b(4) by (simp add: kOffsetVector_def)
    next
      case 4 then show ?thesis using b(3) by (simp add: kOffsetVector_def)
    next
      case 5 then show ?thesis using b(2) by (simp add: kOffsetVector_def)
    next
      case 6 then show ?thesis using b(1) by (simp add: kOffsetVector_def)
    qed
  qed
  have eqs: "fst r = fst (?e ! 0)" "fst (snd r) = map snd ?e"
    unfolding r_def CalculateFeatures_eq [OF inv(1)] by simp_all
  have "0 \<le> fst r \<and> fst r \<le> 32767" "length (fst (snd r)) = 6"
    "\<forall>c<6. kOffsetVector ! c \<le> fst (snd r) ! c \<and> fst (snd r) ! c \<le> kOffsetVector ! c + 1878"
    unfolding eqs using tot feat by simp_all
  with CalculateFeatures_state(1) [OF inv, of xs n, folded r_def] show ?thesis by blast
qed

section \<open>Properties\<close>

text \<open>
  The high-pass filter never overflows its 32-bit accumulator.  For any \<open>int16_t\<close> state and
  input, one step computes the difference equation exactly, truncates it to Q0 and stores
  an \<open>int16_t\<close>; so does every prefix of a block.
\<close>

theorem HighPass_exact:
  assumes "is_s16 x" "is_s16 x1" "is_s16 x2" "is_s16 y1" "is_s16 y2"
  defines "acc \<equiv> 6631 * x - 13262 * x1 + 6631 * x2 + 7756 * y1 - 5620 * y2"
  shows "HighPass_step [x1, x2, y1, y2] x = ([x, x1, s16 (shr acc 14), y1], s16 (shr acc 14))
    \<and> is_s32 acc"
proof -
  have "is_s32 acc" using assms(1-5) unfolding acc_def is_s16_def is_s32_def by linarith
  then show ?thesis unfolding HighPass_step_eq [OF assms(1-5)] by (simp add: acc_def Let_def)
qed

theorem HighPass_exact_witness:
  "HighPass_step [-32768, 32767, 32767, -32768] 32767 = ([32767, -32768, 14262, 32767], 14262)"
  using HighPass_exact [of 32767 "-32768" 32767 32767 "-32768"] by (simp add: is_s16_def s16_def)

text \<open>
  C37: The feature vector of a frame is always in range.  For a frame of 10, 20 or 30 ms the
  energy indicator is a non-negative \<open>int16_t\<close>, each of the six features lies between the
  offset of its band and that offset plus 1878, and only the filter states change.
\<close>

theorem CalculateFeatures_bounds:
  assumes n: "n \<in> set frame_lengths" "n \<le> length xs"
    and inv: "inst_shape self" "hp_st (hp_filter_state self)"
  defines "r \<equiv> WebRtcVad_CalculateFeatures self xs n"
  shows "0 \<le> fst r \<and> fst r \<le> 32767 \<and> length (fst (snd r)) = 6
    \<and> (\<forall>c<6. kOffsetVector ! c \<le> fst (snd r) ! c \<and> fst (snd r) ! c \<le> kOffsetVector ! c + 1878)
    \<and> snd (snd r) = self\<lparr>upper_state := upper_state (snd (snd r)),
         lower_state := lower_state (snd (snd r)), hp_filter_state := hp_filter_state (snd (snd r))\<rparr>"
  unfolding r_def by (rule CalculateFeatures_range [OF n inv])

theorem CalculateFeatures_bounds_witness:
  "fst (snd (WebRtcVad_CalculateFeatures vad_init (replicate 80 1000) 80)) ! 3 \<le> 2054"
proof -
  have "hp_st (hp_filter_state vad_init)" by (simp add: vad_init_def hp_st_def is_s16_def)
  from CalculateFeatures_bounds [OF _ _ inst_shape_vad_init this, of 80 "replicate 80 1000"]
  have "\<forall>c<6. fst (snd (WebRtcVad_CalculateFeatures vad_init (replicate 80 1000) 80)) ! c
      \<le> kOffsetVector ! c + 1878"
    by (simp add: frame_lengths_def)
  from this [rule_format, of 3] show ?thesis by (simp add: kOffsetVector_def)
qed

text \<open>
  The energy indicator of a quiet block is exact.  As long as the indicator has not passed
  the minimum energy, a block whose energy needs no scaling and is below \<open>2 ^ 14\<close> adds
  exactly its energy (the shifts that normalise the mantissa are undone), a louder one adds
  eleven; once the indicator has passed the minimum it no longer changes.
\<close>

theorem LogOfEnergy_indicator:
  assumes e: "WebRtcSpl_Energy (take n xs) = (e, 0)" and E: "0 < e" "e < 2147483648"
    and off: "0 \<le> offset" "offset \<le> 4000" and tot0: "0 \<le> total0" "total0 \<le> 32767"
  shows "fst (LogOfEnergy xs n offset total0) =
    (if total0 > 10 then total0 else if e < 2 ^ 14 then total0 + e else total0 + 11)"
proof -
  have u: "u32 e = e" using E by simp
  define r where "r = 17 - WebRtcSpl_NormU32 e"
  define En where "En = (if r < 0 then u32 (e * 2 ^ nat (- r)) else shr e (nat r))"
  have E': "0 < e" "e < 4294967296" using E by simp_all
  note nb = norm15 [OF E', folded r_def, folded En_def]
  have nz: "u32 e \<noteq> 0" using E u by simp
  have eq: "LogOfEnergy xs n offset total0 =
    (if total0 \<le> 10 then total0 + (if r \<ge> 0 then 11 else shr En (nat (- r))) else total0,
     offset + log_energy_of En r)"
    using LogOfEnergy_nonzero [OF e nz _ _ off tot0] by (simp add: u r_def En_def)
  have "r < 0 \<longleftrightarrow> e < 2 ^ 14"
  proof
    assume r: "r < 0"
    have "shr En (nat (- r)) < 2 ^ 14" using small_shr(2) [OF nb(1,2) r] by simp
    then show "e < 2 ^ 14" using nb(5) [OF r] by simp
  next
    assume less: "e < 2 ^ 14"
    show "r < 0"
    proof (rule ccontr)
      assume "\<not> r < 0"
      then have "2 ^ 14 \<le> shr e (nat r)" using nb(1,6) by simp
      also have "\<dots> \<le> e" using E by (intro shr_le_self) simp
      finally show False using less by simp
    qed
  qed
  then show ?thesis using nb(5) by (auto simp: eq)
qed

theorem LogOfEnergy_indicator_witness:
  "fst (LogOfEnergy [3, 4] 2 176 0) = 25"
proof -
  have "WebRtcSpl_Energy (take 2 [3, 4]) = (25, 0)" by code_simp
  from LogOfEnergy_indicator [OF this, of 176 0] show ?thesis by simp
qed

end
