(* ===== verification/VadCore.thy ===== *)
theory VadCore
  imports VadGmm VadFilterbank
begin

text \<open>
  The decision of the detector (\<open>vad_core.c\<close>): the likelihood-ratio test of
  \<open>GmmProbability\<close> over six channels, the update of the mixture models, the hangover
  logic, and the \<open>WebRtcVad_CalcVad*\<close> entry points for the four sampling rates.

  \<open>GmmProbability\<close> is one function of 360 lines in C; here it is the composition of the
  definitions below, one per part of its body, in the order of the code.  The local arrays
  \<open>deltaN\<close>, \<open>deltaS\<close>, \<open>ngprvec\<close> and \<open>sgprvec\<close> and the flag are the record \<open>gmm_local\<close>.
  Every local of type \<open>int16_t\<close> or \<open>int32_t\<close> is converted where the code assigns it.
\<close>

section \<open>Thresholds and weighted averages\<close>

text \<open>Returns \<open>overhead1\<close>, \<open>overhead2\<close>, \<open>individualTest\<close>, \<open>totalTest\<close>.\<close>

definition gmm_thresholds :: "VadInstT \<Rightarrow> nat \<Rightarrow> int16 \<times> int16 \<times> int16 \<times> int16" where
  "gmm_thresholds self frame_length =
     (let i = (if frame_length = 80 then 0 else if frame_length = 160 then 1 else 2)
      in (over_hang_max_1 self ! i, over_hang_max_2 self ! i, individual self ! i, total self ! i))"

text \<open>\<open>data\<close> and \<open>weights\<close> point at element \<open>c\<close> of their arrays; the offset is added in place.\<close>

definition WeightedAverage_step ::
    "nat \<Rightarrow> int16 \<Rightarrow> int16 list \<Rightarrow> nat \<Rightarrow> int16 list \<times> int32 \<Rightarrow> int16 list \<times> int32" where
  "WeightedAverage_step c offset weights k dw =
     (let (data, weighted_average) = dw;
          i = c + k * kNumChannels;
          data = data[i := s16 (data ! i + offset)]
      in (data, s32 (weighted_average + data ! i * weights ! i)))"

definition WeightedAverage ::
    "int16 list \<Rightarrow> nat \<Rightarrow> int16 \<Rightarrow> int16 list \<Rightarrow> int16 list \<times> int32" where
  "WeightedAverage data c offset weights =
     fold (WeightedAverage_step c offset weights) [0..<kNumGaussians] (data, 0)"

section \<open>The likelihood-ratio test\<close>

record gmm_local =
  vadflag :: int16
  sum_log_likelihood_ratios :: int32
  deltaN :: "int16 list"
  deltaS :: "int16 list"
  ngprvec :: "int16 list"
  sgprvec :: "int16 list"

definition gmm_local_init :: gmm_local where
  "gmm_local_init =
     \<lparr>vadflag = 0, sum_log_likelihood_ratios = 0, deltaN = replicate kTableSize 0,
      deltaS = replicate kTableSize 0, ngprvec = replicate kTableSize 0,
      sgprvec = replicate kTableSize 0\<rparr>"

text \<open>
  The probability of the feature under one hypothesis: the weighted sum over the two
  Gaussians of a channel (Q27), the first term of the sum, and the distances.
\<close>

definition hypothesis_test ::
    "int16 list \<Rightarrow> int16 list \<Rightarrow> int16 list \<Rightarrow> int16 \<Rightarrow> nat \<Rightarrow> int32 \<times> int32 \<times> int16 \<times> int16" where
  "hypothesis_test weights means stds feature channel =
     (let gaussian = channel;
          (tmp1_s32, delta0) = WebRtcVad_GaussianProbability feature (means ! gaussian) (stds ! gaussian);
          probability0 = s32 (weights ! gaussian * tmp1_s32);
          h_test = s32 (0 + probability0);
          gaussian = channel + kNumChannels;
          (tmp1_s32, delta1) = WebRtcVad_GaussianProbability feature (means ! gaussian) (stds ! gaussian);
          probability1 = s32 (weights ! gaussian * tmp1_s32);
          h_test = s32 (h_test + probability1)
      in (h_test, probability0, delta0, delta1))"

text \<open>\<open>(probability & 0xFFFFF000) << 2\<close> is an unsigned operation, divided by a Q15 value.\<close>

definition conditional_probability :: "int32 \<Rightarrow> int16 \<Rightarrow> int16" where
  "conditional_probability probability0 h =
     (let tmp1_s32 = s32 (u32 ((u32 probability0 AND 0xFFFFF000) * 2 ^ 2))
      in s16 (WebRtcSpl_DivW32W16 tmp1_s32 h))"

definition likelihood_shift :: "int32 \<Rightarrow> int16" where
  "likelihood_shift h_test =
     (let shifts = s16 (WebRtcSpl_NormW32 h_test) in if h_test = 0 then 31 else shifts)"

definition test_channel :: "VadInstT \<Rightarrow> int16 list \<Rightarrow> int16 \<Rightarrow> nat \<Rightarrow> gmm_local \<Rightarrow> gmm_local" where
  "test_channel self features individualTest channel loc =
     (let (h0_test, noise_probability0, dn0, dn1) =
            hypothesis_test kNoiseDataWeights (noise_means self) (noise_stds self) (features ! channel) channel;
          (h1_test, speech_probability0, ds0, ds1) =
            hypothesis_test kSpeechDataWeights (speech_means self) (speech_stds self) (features ! channel) channel;
          loc = loc\<lparr>deltaN := (deltaN loc)[channel := dn0, channel + kNumChannels := dn1],
                    deltaS := (deltaS loc)[channel := ds0, channel + kNumChannels := ds1]\<rparr>;
          shifts_h0 = likelihood_shift h0_test;
          shifts_h1 = likelihood_shift h1_test;
          log_likelihood_ratio = s16 (shifts_h0 - shifts_h1);
          loc = loc\<lparr>sum_log_likelihood_ratios :=
                      s32 (sum_log_likelihood_ratios loc + log_likelihood_ratio * kSpectrumWeight ! channel)\<rparr>;
          loc = (if log_likelihood_ratio * 2 ^ 2 > individualTest then loc\<lparr>vadflag := 1\<rparr> else loc);
          h0 = s16 (shr h0_test 12);
          loc = (if h0 > 0
                 then let p = conditional_probability noise_probability0 h0
                      in loc\<lparr>ngprvec := (ngprvec loc)[channel := p, channel + kNumChannels := s16 (16384 - p)]\<rparr>
                 else loc\<lparr>ngprvec := (ngprvec loc)[channel := 16384]\<rparr>);
          h1 = s16 (shr h1_test 12)
      in if h1 > 0
         then let p = conditional_probability speech_probability0 h1
              in loc\<lparr>sgprvec := (sgprvec loc)[channel := p, channel + kNumChannels := s16 (16384 - p)]\<rparr>
         else loc)"

definition test_channels :: "VadInstT \<Rightarrow> int16 list \<Rightarrow> int16 \<Rightarrow> int16 \<Rightarrow> gmm_local" where
  "test_channels self features individualTest totalTest =
     (let loc = fold (test_channel self features individualTest) [0..<kNumChannels] gmm_local_init
      in loc\<lparr>vadflag := vadflag loc OR (if sum_log_likelihood_ratios loc \<ge> totalTest then 1 else 0)\<rparr>)"

section \<open>The update of one Gaussian\<close>

text \<open>\<open>ngpr\<close> and \<open>dn\<close> are the entries of \<open>ngprvec\<close> and \<open>deltaN\<close>.\<close>

definition update_noise_mean ::
    "bool \<Rightarrow> int16 \<Rightarrow> int16 \<Rightarrow> int16 \<Rightarrow> int16 \<Rightarrow> int16 \<Rightarrow> nat \<Rightarrow> nat \<Rightarrow> int16" where
  "update_noise_mean speech nmk ngpr dn feature_minimum tmp1_s16 channel k =
     (let nmk2 = nmk;
          nmk2 = (if \<not> speech
                  then let delt = s16 (MUL_16_16_RSFT ngpr dn 11)
                       in s16 (nmk + s16 (MUL_16_16_RSFT delt kNoiseUpdateConst 22))
                  else nmk2);
          ndelt = s16 (feature_minimum * 2 ^ 4 - tmp1_s16);
          nmk3 = s16 (nmk2 + s16 (MUL_16_16_RSFT ndelt kBackEta 9));
          tmp_s16 = s16 ((int k + 5) * 2 ^ 7);
          nmk3 = (if nmk3 < tmp_s16 then tmp_s16 else nmk3);
          tmp_s16 = s16 ((72 + int k - int channel) * 2 ^ 7)
      in if nmk3 > tmp_s16 then tmp_s16 else nmk3)"

definition update_speech_mean :: "int16 \<Rightarrow> int16 \<Rightarrow> int16 \<Rightarrow> int16 \<Rightarrow> nat \<Rightarrow> int16" where
  "update_speech_mean smk sgpr ds maxspe k =
     (let delt = s16 (MUL_16_16_RSFT sgpr ds 11);
          tmp_s16 = s16 (MUL_16_16_RSFT delt kSpeechUpdateConst 21);
          smk2 = s16 (smk + shr (tmp_s16 + 1) 1);
          maxmu = s16 (maxspe + 640);
          smk2 = (if smk2 < kMinimumMean ! k then kMinimumMean ! k else smk2)
      in if smk2 > maxmu then maxmu else smk2)"

definition update_speech_std :: "int16 \<Rightarrow> int16 \<Rightarrow> int16 \<Rightarrow> int16 \<Rightarrow> int16 \<Rightarrow> int16" where
  "update_speech_std ssk smk feature sgpr ds =
     (let tmp_s16 = s16 (shr (smk + 4) 3);
          tmp_s16 = s16 (feature - tmp_s16);
          tmp1_s32 = MUL_16_16_RSFT ds tmp_s16 3;
          tmp2_s32 = s32 (tmp1_s32 - 4096);
          tmp_s16 = s16 (shr sgpr 2);
          tmp1_s32 = s32 (tmp_s16 * tmp2_s32);
          tmp2_s32 = shr tmp1_s32 4;
          tmp_s16 = (if tmp2_s32 > 0
                     then s16 (WebRtcSpl_DivW32W16 tmp2_s32 (s16 (ssk * 10)))
                     else s16 (- s16 (WebRtcSpl_DivW32W16 (s32 (- tmp2_s32)) (s16 (ssk * 10)))));
          tmp_s16 = s16 (tmp_s16 + 128);
          ssk = s16 (ssk + shr tmp_s16 8)
      in if ssk < kMinStd then kMinStd else ssk)"

definition update_noise_std :: "int16 \<Rightarrow> int16 \<Rightarrow> int16 \<Rightarrow> int16 \<Rightarrow> int16 \<Rightarrow> int16" where
  "update_noise_std nsk nmk feature ngpr dn =
     (let tmp_s16 = s16 (feature - shr nmk 3);
          tmp1_s32 = MUL_16_16_RSFT dn tmp_s16 3;
          tmp1_s32 = s32 (tmp1_s32 - 4096);
          tmp_s16 = s16 (shr (ngpr + 2) 2);
          tmp2_s32 = s32 (tmp_s16 * tmp1_s32);
          tmp1_s32 = shr tmp2_s32 14;
          tmp_s16 = (if tmp1_s32 > 0
                     then s16 (WebRtcSpl_DivW32W16 tmp1_s32 nsk)
                     else s16 (- s16 (WebRtcSpl_DivW32W16 (s32 (- tmp1_s32)) nsk)));
          tmp_s16 = s16 (tmp_s16 + 32);
          nsk = s16 (nsk + shr tmp_s16 6)
      in if nsk < kMinStd then kMinStd else nsk)"

definition update_gaussian ::
    "gmm_local \<Rightarrow> int16 list \<Rightarrow> nat \<Rightarrow> int16 \<Rightarrow> int16 \<Rightarrow> int16 \<Rightarrow> nat \<Rightarrow> VadInstT \<Rightarrow> VadInstT" where
  "update_gaussian loc features channel feature_minimum tmp1_s16 maxspe k self =
     (let gaussian = channel + k * kNumChannels;
          nmk = noise_means self ! gaussian;
          smk = speech_means self ! gaussian;
          nsk = noise_stds self ! gaussian;
          ssk = speech_stds self ! gaussian;
          speech = (vadflag loc \<noteq> 0);
          nmk3 = update_noise_mean speech nmk (ngprvec loc ! gaussian) (deltaN loc ! gaussian)
                   feature_minimum tmp1_s16 channel k;
          self = self\<lparr>noise_means := (noise_means self)[gaussian := nmk3]\<rparr>
      in if speech
         then let smk2 = update_speech_mean smk (sgprvec loc ! gaussian) (deltaS loc ! gaussian) maxspe k;
                  self = self\<lparr>speech_means := (speech_means self)[gaussian := smk2]\<rparr>;
                  ssk = update_speech_std ssk smk (features ! channel) (sgprvec loc ! gaussian) (deltaS loc ! gaussian)
              in self\<lparr>speech_stds := (speech_stds self)[gaussian := ssk]\<rparr>
         else let nsk = update_noise_std nsk nmk (features ! channel) (ngprvec loc ! gaussian) (deltaN loc ! gaussian)
              in self\<lparr>noise_stds := (noise_stds self)[gaussian := nsk]\<rparr>)"

section \<open>The update of one channel\<close>

text \<open>Subtracts \<open>d\<close> from the two means of a channel.\<close>

definition lower_means :: "int16 list \<Rightarrow> nat \<Rightarrow> int16 \<Rightarrow> int16 list" where
  "lower_means data channel d =
     fold (\<lambda>k data. data[channel + k * kNumChannels := s16 (data ! (channel + k * kNumChannels) - d)])
       [0..<kNumGaussians] data"

text \<open>The distance of the global means in Q5, and the corrections \<open>tmp1_s16\<close> and \<open>tmp2_s16\<close>.\<close>

definition model_difference :: "int32 \<Rightarrow> int32 \<Rightarrow> int16" where
  "model_difference speech_global_mean noise_global_mean =
     s16 (s16 (shr speech_global_mean 9) - s16 (shr noise_global_mean 9))"

definition separation :: "int16 \<Rightarrow> nat \<Rightarrow> int16 \<Rightarrow> int16" where
  "separation factor channel diff =
     (let tmp_s16 = s16 (kMinimumDifference ! channel - diff) in s16 (MUL_16_16_RSFT factor tmp_s16 2))"

text \<open>Separates the models if they are too close; returns the two global means.\<close>

definition separate_models :: "nat \<Rightarrow> VadInstT \<Rightarrow> int32 \<times> int32 \<times> VadInstT" where
  "separate_models channel self =
     (let (nm, noise_global_mean) = WeightedAverage (noise_means self) channel 0 kNoiseDataWeights;
          (sm, speech_global_mean) = WeightedAverage (speech_means self) channel 0 kSpeechDataWeights;
          self = self\<lparr>noise_means := nm, speech_means := sm\<rparr>;
          diff = model_difference speech_global_mean noise_global_mean
      in if diff < kMinimumDifference ! channel
         then let tmp1_s16 = separation 13 channel diff;
                  tmp2_s16 = separation 3 channel diff;
                  (sm, speech_global_mean) = WeightedAverage (speech_means self) channel tmp1_s16 kSpeechDataWeights;
                  (nm, noise_global_mean) = WeightedAverage (noise_means self) channel (s16 (- tmp2_s16)) kNoiseDataWeights
              in (speech_global_mean, noise_global_mean, self\<lparr>noise_means := nm, speech_means := sm\<rparr>)
         else (speech_global_mean, noise_global_mean, self))"

text \<open>Controls the drift of the means.\<close>

definition limit_means :: "nat \<Rightarrow> int32 \<Rightarrow> int32 \<Rightarrow> VadInstT \<Rightarrow> VadInstT" where
  "limit_means channel speech_global_mean noise_global_mean self =
     (let maxspe = kMaximumSpeech ! channel;
          tmp2_s16 = s16 (shr speech_global_mean 7);
          self = (if tmp2_s16 > maxspe
                  then self\<lparr>speech_means := lower_means (speech_means self) channel (s16 (tmp2_s16 - maxspe))\<rparr>
                  else self);
          tmp2_s16 = s16 (shr noise_global_mean 7)
      in if tmp2_s16 > kMaximumNoise ! channel
         then self\<lparr>noise_means := lower_means (noise_means self) channel (s16 (tmp2_s16 - kMaximumNoise ! channel))\<rparr>
         else self)"

text \<open>The state of the loop is the instance and \<open>maxspe\<close>.\<close>

definition update_channel ::
    "gmm_local \<Rightarrow> int16 list \<Rightarrow> nat \<Rightarrow> VadInstT \<times> int16 \<Rightarrow> VadInstT \<times> int16" where
  "update_channel loc features channel sm =
     (let (self, maxspe) = sm;
          (feature_minimum, self) = WebRtcVad_FindMinimum self (features ! channel) channel;
          (nm, noise_global_mean) = WeightedAverage (noise_means self) channel 0 kNoiseDataWeights;
          self = self\<lparr>noise_means := nm\<rparr>;
          tmp1_s16 = s16 (shr noise_global_mean 6);
          self = fold (update_gaussian loc features channel feature_minimum tmp1_s16 maxspe)
                   [0..<kNumGaussians] self;
          (speech_global_mean, noise_global_mean, self) = separate_models channel self;
          self = limit_means channel speech_global_mean noise_global_mean self
      in (self, kMaximumSpeech ! channel))"

section \<open>The decision\<close>

definition hangover :: "int16 \<Rightarrow> int16 \<Rightarrow> int16 \<Rightarrow> VadInstT \<Rightarrow> int16 \<times> VadInstT" where
  "hangover flag overhead1 overhead2 self =
     (if flag = 0
      then let (flag, self) =
                 (if over_hang self > 0
                  then (s16 (2 + over_hang self), self\<lparr>over_hang := s16 (over_hang self - 1)\<rparr>)
                  else (flag, self))
           in (flag, self\<lparr>num_of_speech := 0\<rparr>)
      else let self = self\<lparr>num_of_speech := s16 (num_of_speech self + 1)\<rparr>
           in if num_of_speech self > kMaxSpeechFrames
              then (flag, self\<lparr>num_of_speech := kMaxSpeechFrames, over_hang := overhead2\<rparr>)
              else (flag, self\<lparr>over_hang := overhead1\<rparr>))"

definition GmmProbability :: "VadInstT \<Rightarrow> int16 list \<Rightarrow> int16 \<Rightarrow> nat \<Rightarrow> int16 \<times> VadInstT" where
  "GmmProbability self features total_power frame_length =
     (let (overhead1, overhead2, individualTest, totalTest) = gmm_thresholds self frame_length;
          (flag, self) =
            (if total_power > kMinEnergy
             then let loc = test_channels self features individualTest totalTest;
                      (self, maxspe) = fold (update_channel loc features) [0..<kNumChannels] (self, 12800)
                  in (vadflag loc, self\<lparr>frame_counter := s32 (frame_counter self + 1)\<rparr>)
             else (0, self))
      in hangover flag overhead1 overhead2 self)"

section \<open>Entry points\<close>

definition WebRtcVad_CalcVad8khz :: "VadInstT \<Rightarrow> int16 list \<Rightarrow> nat \<Rightarrow> int \<times> VadInstT" where
  "WebRtcVad_CalcVad8khz inst speech_frame frame_length =
     (let (total_power, feature_vector, inst) = WebRtcVad_CalculateFeatures inst speech_frame frame_length;
          (v, inst) = GmmProbability inst feature_vector total_power frame_length;
          inst = inst\<lparr>vad := v\<rparr>
      in (vad inst, inst))"

definition WebRtcVad_CalcVad16khz :: "VadInstT \<Rightarrow> int16 list \<Rightarrow> nat \<Rightarrow> int \<times> VadInstT" where
  "WebRtcVad_CalcVad16khz inst speech_frame frame_length =
     (let (speechNB, fs) = WebRtcVad_Downsampling speech_frame (downsampling_filter_states inst) 0 (int frame_length);
          inst = inst\<lparr>downsampling_filter_states := fs\<rparr>;
          len = frame_length div 2
      in WebRtcVad_CalcVad8khz inst speechNB len)"

definition WebRtcVad_CalcVad32khz :: "VadInstT \<Rightarrow> int16 list \<Rightarrow> nat \<Rightarrow> int \<times> VadInstT" where
  "WebRtcVad_CalcVad32khz inst speech_frame frame_length =
     (let (speechWB, fs) = WebRtcVad_Downsampling speech_frame (downsampling_filter_states inst) 2 (int frame_length);
          inst = inst\<lparr>downsampling_filter_states := fs\<rparr>;
          len = frame_length div 2;
          (speechNB, fs) = WebRtcVad_Downsampling speechWB (downsampling_filter_states inst) 0 (int len);
          inst = inst\<lparr>downsampling_filter_states := fs\<rparr>;
          len = len div 2
      in WebRtcVad_CalcVad8khz inst speechNB len)"

text \<open>
  The loop of the 48 kHz entry point over 10 ms blocks; \<open>speech_frame\<close> is the same pointer in
  every iteration.
\<close>

fun resample_frames ::
    "int16 list \<Rightarrow> nat \<Rightarrow> nat \<Rightarrow> int16 list \<times> State48khzTo8khz \<times> int32 list
      \<Rightarrow> int16 list \<times> State48khzTo8khz \<times> int32 list" where
  "resample_frames speech_frame i 0 st = st"
| "resample_frames speech_frame i (Suc n) st =
     (let (speech_nb, state, tmp_mem) = st;
          (out, state, tmp_mem) = WebRtcSpl_Resample48khzTo8khz speech_frame state tmp_mem
      in resample_frames speech_frame (Suc i) n (blit speech_nb (i * 80) out, state, tmp_mem))"

definition WebRtcVad_CalcVad48khz :: "VadInstT \<Rightarrow> int16 list \<Rightarrow> nat \<Rightarrow> int \<times> VadInstT" where
  "WebRtcVad_CalcVad48khz inst speech_frame frame_length =
     (let speech_nb = replicate 240 0;
          tmp_mem = replicate (480 + 256) 0;
          num_10ms_frames = frame_length div 480;
          (speech_nb, state, tmp_mem) =
            resample_frames speech_frame 0 num_10ms_frames (speech_nb, state_48_to_8 inst, tmp_mem);
          inst = inst\<lparr>state_48_to_8 := state\<rparr>
      in WebRtcVad_CalcVad8khz inst speech_nb (frame_length div 6))"

section \<open>The invariant of the models\<close>

definition std_ok :: "int16 \<Rightarrow> bool" where
  "std_ok x \<longleftrightarrow> 378 \<le> x \<and> x \<le> 32767"

definition models_ok :: "VadInstT \<Rightarrow> bool" where
  "models_ok self \<longleftrightarrow>
     inst_shape self \<and>
     list_all std_ok (noise_stds self) \<and> list_all std_ok (speech_stds self) \<and>
     list_all is_s16 (noise_means self) \<and> list_all is_s16 (speech_means self) \<and>
     (\<forall>c<6. win_ok (win (low_value_vector self) (16 * c))) \<and>
     list_all is_s16 (low_value_vector self) \<and> list_all is_s16 (mean_value self)"

text \<open>The fields that the model update does not touch.\<close>

definition control where
  "control self =
     (downsampling_filter_states self, state_48_to_8 self, frame_counter self, over_hang self,
      num_of_speech self, (upper_state self, lower_state self, hp_filter_state self),
      (over_hang_max_1 self, over_hang_max_2 self, individual self, total self, init_flag self))"

lemma std_clamp: "std_ok (if s16 x < kMinStd then kMinStd else s16 x)"
  using i16.conv_hi [of x] by (simp add: std_ok_def)

lemma update_noise_std_ok: "std_ok (update_noise_std nsk nmk feature ngpr dn)"
  unfolding update_noise_std_def Let_def by (rule std_clamp)

lemma update_speech_std_ok: "std_ok (update_speech_std ssk smk feature sgpr ds)"
  unfolding update_speech_std_def Let_def by (rule std_clamp)

lemma s16_clamp:
  assumes "is_s16 l"
  shows "is_s16 (if (if s16 x < l then l else s16 x) > s16 h then s16 h
           else (if s16 x < l then l else s16 x))"
  using assms by simp

lemma update_noise_mean_s16: "is_s16 (update_noise_mean speech nmk ngpr dn fm t channel k)"
  unfolding update_noise_mean_def Let_def by (rule s16_clamp) (rule is_s16_s16)

lemma update_speech_mean_s16:
  assumes "k < 2" shows "is_s16 (update_speech_mean smk sgpr ds maxspe k)"
proof -
  have "k = 0 \<or> k = 1" using assms by linarith
  then have "is_s16 (kMinimumMean ! k)" by (auto simp: kMinimumMean_def is_s16_def)
  then show ?thesis unfolding update_speech_mean_def Let_def by (rule s16_clamp)
qed

lemma update_gaussian_ok:
  assumes "models_ok self" "k < 2"
  shows "models_ok (update_gaussian loc features channel fm t maxspe k self)"
  using assms(1)
  by (simp add: models_ok_def inst_shape_def update_gaussian_def Let_def update_noise_mean_s16
      update_noise_std_ok update_speech_std_ok update_speech_mean_s16 [OF assms(2)])

lemma update_gaussian_control: "control (update_gaussian loc features channel fm t maxspe k self) = control self"
  by (simp add: update_gaussian_def Let_def control_def)

lemma WeightedAverage_eq:
  "WeightedAverage data c offset weights =
    (let d1 = data[c := s16 (data ! c + offset)];
         d2 = d1[c + 6 := s16 (d1 ! (c + 6) + offset)]
     in (d2, s32 (s32 (d1 ! c * weights ! c) + d2 ! (c + 6) * weights ! (c + 6))))"
  by (simp add: WeightedAverage_def WeightedAverage_step_def Let_def numeral_2_eq_2)

lemma WeightedAverage_data:
  "list_all is_s16 data \<Longrightarrow> list_all is_s16 (fst (WeightedAverage data c offset weights))"
  "length (fst (WeightedAverage data c offset weights)) = length data"
  by (auto simp: WeightedAverage_eq Let_def)

lemma lower_means_data:
  "list_all is_s16 data \<Longrightarrow> list_all is_s16 (lower_means data c d)"
  "length (lower_means data c d) = length data"
  by (auto simp: lower_means_def numeral_2_eq_2)

lemma separate_models_ok: "models_ok self \<Longrightarrow> models_ok (snd (snd (separate_models channel self)))"
  by (simp add: separate_models_def Let_def case_prod_beta models_ok_def inst_shape_def WeightedAverage_data)

lemma separate_models_control: "control (snd (snd (separate_models channel self))) = control self"
  by (simp add: separate_models_def Let_def case_prod_beta control_def)

lemma limit_means_ok: "models_ok self \<Longrightarrow> models_ok (limit_means channel s n self)"
  by (simp add: limit_means_def Let_def models_ok_def inst_shape_def lower_means_data)

lemma limit_means_control: "control (limit_means channel s n self) = control self"
  by (simp add: limit_means_def Let_def control_def)

lemma FindMinimum_ok:
  assumes ok: "models_ok self" and c: "c < 6" and f: "is_s16 f"
  shows "models_ok (snd (WebRtcVad_FindMinimum self f c))"
proof -
  have shape: "inst_shape self" and wins: "\<forall>c<6. win_ok (win (low_value_vector self) (16 * c))"
    and low: "list_all is_s16 (low_value_vector self)"
    using ok by (simp_all add: models_ok_def)
  have lens: "length (low_value_vector self) = 96" using shape by (simp add: inst_shape_def)
  let ?V = "snd (FindMinimum_win self f c)"
  have lV: "length ?V = 16" by (rule length_FindMinimum_win(2) [OF shape c])
  have V: "win_ok ?V" by (rule FindMinimum_win_ok) (use wins c in blast)
  have Vs: "list_all is_s16 ?V"
    using FindMinimum_win_range [OF wins [rule_format, OF c] f] low by (simp add: list_all_iff)
  have "win_ok (win (blit (low_value_vector self) (16 * c) ?V) (16 * d))" if "d < 6" for d
  proof (cases "d = c")
    case True
    then show ?thesis using V lV lens c by (simp add: win_blit_same)
  next
    case False
    then have "win (blit (low_value_vector self) (16 * c) ?V) (16 * d) = win (low_value_vector self) (16 * d)"
      using lV lens c that by (intro win_blit_other) auto
    then show ?thesis using wins that by simp
  qed
  moreover have "is_s16 (FindMinimum_mean self f c)"
    unfolding FindMinimum_mean_def smooth_median_def Let_def by (rule is_s16_s16)
  ultimately show ?thesis
    using ok FindMinimum_shape [OF shape c, of f] low Vs
    unfolding models_ok_def FindMinimum_eq [OF shape c] by (simp add: list_all_blit)
qed

lemma FindMinimum_control:
  assumes "inst_shape self" "c < 6"
  shows "control (snd (WebRtcVad_FindMinimum self f c)) = control self"
  by (simp add: FindMinimum_eq [OF assms] control_def)

lemma fold_invariant:
  assumes "P s" "\<And>x s. x \<in> set xs \<Longrightarrow> P s \<Longrightarrow> P (f x s)"
  shows "P (fold f xs s)"
  using assms by (induction xs arbitrary: s) simp_all

lemma fold_preserves:
  assumes "\<And>x s. x \<in> set xs \<Longrightarrow> g (f x s) = g s"
  shows "g (fold f xs s) = g s"
  using assms by (induction xs arbitrary: s) simp_all

lemma update_gaussians_ok:
  assumes "models_ok self"
  shows "models_ok (fold (update_gaussian loc features channel fm t maxspe) [0..<2] self)"
  by (rule fold_invariant [where P = models_ok, OF assms]) (simp add: update_gaussian_ok)

lemma update_gaussians_control:
  "control (fold (update_gaussian loc features channel fm t maxspe) [0..<2] self) = control self"
  by (rule fold_preserves) (rule update_gaussian_control)

lemma models_ok_noise_means:
  "models_ok self \<Longrightarrow> list_all is_s16 nm \<Longrightarrow> length nm = 12 \<Longrightarrow> models_ok (self\<lparr>noise_means := nm\<rparr>)"
  by (simp add: models_ok_def inst_shape_def)

lemma control_noise_means [simp]: "control (self\<lparr>noise_means := nm\<rparr>) = control self"
  by (simp add: control_def)

definition features_ok :: "int16 list \<Rightarrow> bool" where
  "features_ok features \<longleftrightarrow> length features = 6 \<and> list_all is_s16 features"

lemma update_channel_ok:
  assumes ok: "models_ok (fst sm)" and c: "c < 6" and f: "features_ok features"
  shows "models_ok (fst (update_channel loc features c sm))"
    "control (fst (update_channel loc features c sm)) = control (fst sm)"
proof -
  obtain self maxspe where sm: "sm = (self, maxspe)" by fastforce
  define s1 where "s1 = snd (WebRtcVad_FindMinimum self (features ! c) c)"
  define s2 where "s2 = s1\<lparr>noise_means := fst (WeightedAverage (noise_means s1) c 0 kNoiseDataWeights)\<rparr>"
  have fs: "is_s16 (features ! c)" using f c by (simp add: features_ok_def list_all_nthD)
  have s1: "models_ok s1" using FindMinimum_ok [OF _ c fs] ok by (simp add: s1_def sm)
  then have s2: "models_ok s2"
    unfolding s2_def by (intro models_ok_noise_means) (simp_all add: WeightedAverage_data models_ok_def inst_shape_def)
  have ctl: "control s2 = control self"
    using FindMinimum_control [of self c] ok c by (simp add: s2_def s1_def sm models_ok_def)
  show "models_ok (fst (update_channel loc features c sm))"
    using s2 unfolding update_channel_def sm Let_def case_prod_beta s1_def s2_def
    by (simp only: fst_conv limit_means_ok separate_models_ok update_gaussians_ok)
  show "control (fst (update_channel loc features c sm)) = control (fst sm)"
    using ctl unfolding update_channel_def sm Let_def case_prod_beta s1_def s2_def
    by (simp only: fst_conv limit_means_control separate_models_control update_gaussians_control)
qed

lemma update_channels_ok:
  assumes ok: "models_ok self" and f: "features_ok features"
  shows "models_ok (fst (fold (update_channel loc features) [0..<6] (self, maxspe)))"
    and "control (fst (fold (update_channel loc features) [0..<6] (self, maxspe))) = control self"
proof -
  have "models_ok (fst (fold (update_channel loc features) [0..<6] (self, maxspe))) \<and>
      control (fst (fold (update_channel loc features) [0..<6] (self, maxspe))) = control self"
    by (rule fold_invariant) (use ok update_channel_ok [OF _ _ f] in auto)
  then show "models_ok (fst (fold (update_channel loc features) [0..<6] (self, maxspe)))"
    "control (fst (fold (update_channel loc features) [0..<6] (self, maxspe))) = control self" by blast+
qed

section \<open>The flag\<close>

lemma test_channel_flag:
  "vadflag loc \<in> {0, 1} \<Longrightarrow> vadflag (test_channel self features t c loc) \<in> {0, 1}"
  by (simp add: test_channel_def Let_def case_prod_beta)

lemma test_channels_flag: "vadflag (test_channels self features t1 t2) \<in> {0, 1}"
proof -
  have "vadflag (fold (test_channel self features t1) [0..<6] gmm_local_init) \<in> {0, 1}"
    by (rule fold_invariant [where P = "\<lambda>loc. vadflag loc \<in> {0, 1}"])
      (simp add: gmm_local_init_def, rule test_channel_flag)
  then show ?thesis by (auto simp: test_channels_def Let_def)
qed

section \<open>The hangover\<close>

text \<open>The part of the state that the hangover uses.\<close>

definition hang_ok :: "VadInstT \<Rightarrow> bool" where
  "hang_ok self \<longleftrightarrow>
     0 \<le> over_hang self \<and> over_hang self \<le> 14 \<and> 0 \<le> num_of_speech self \<and> num_of_speech self \<le> 6 \<and>
     list_all (\<lambda>x. 2 \<le> x \<and> x \<le> 8) (over_hang_max_1 self) \<and>
     list_all (\<lambda>x. 3 \<le> x \<and> x \<le> 14) (over_hang_max_2 self)"

text \<open>The decisions the detector can return: noise, speech, or a hangover frame.\<close>

definition vad_decisions :: "int set" where
  "vad_decisions = {0, 1} \<union> {3..16}"

lemma hangover_noise:
  assumes "0 \<le> over_hang self" "over_hang self \<le> 14"
  shows "hangover 0 o1 o2 self =
    (if over_hang self > 0 then 2 + over_hang self else 0,
     self\<lparr>over_hang := max 0 (over_hang self - 1), num_of_speech := 0\<rparr>)"
  using assms by (auto simp: hangover_def Let_def)

lemma hangover_speech:
  assumes "0 \<le> num_of_speech self" "num_of_speech self \<le> 6"
  shows "hangover 1 o1 o2 self =
    (1, self\<lparr>num_of_speech := min 6 (num_of_speech self + 1),
             over_hang := (if num_of_speech self = 6 then o2 else o1)\<rparr>)"
  using assms by (auto simp: hangover_def Let_def)

lemma hangover_ok:
  assumes hang: "hang_ok self" and flag: "flag \<in> {0, 1}"
    and o1: "2 \<le> o1" "o1 \<le> 8" and o2: "3 \<le> o2" "o2 \<le> 14"
  shows "fst (hangover flag o1 o2 self) \<in> vad_decisions"
    and "hang_ok (snd (hangover flag o1 o2 self))"
    and "models_ok self \<Longrightarrow> models_ok (snd (hangover flag o1 o2 self))"
proof -
  note h = hang [unfolded hang_ok_def]
  have "flag = 0 \<or> flag = 1" using flag by blast
  then show "fst (hangover flag o1 o2 self) \<in> vad_decisions"
    "hang_ok (snd (hangover flag o1 o2 self))"
    "models_ok self \<Longrightarrow> models_ok (snd (hangover flag o1 o2 self))"
    using h o1 o2 by (elim disjE; auto simp: hangover_noise hangover_speech vad_decisions_def hang_ok_def
        models_ok_def inst_shape_def)+
qed

lemma gmm_thresholds_ok:
  assumes "inst_shape self" "hang_ok self"
  obtains o1 o2 t1 t2 where "gmm_thresholds self n = (o1, o2, t1, t2)" "2 \<le> o1" "o1 \<le> 8" "3 \<le> o2" "o2 \<le> 14"
proof -
  define i :: nat where "i = (if n = 80 then 0 else if n = 160 then 1 else 2)"
  have i: "i < 3" by (simp add: i_def)
  have "2 \<le> over_hang_max_1 self ! i \<and> over_hang_max_1 self ! i \<le> 8"
    "3 \<le> over_hang_max_2 self ! i \<and> over_hang_max_2 self ! i \<le> 14"
    using assms i list_all_nthD [of _ "over_hang_max_1 self" i] list_all_nthD [of _ "over_hang_max_2 self" i]
    by (simp_all add: hang_ok_def inst_shape_def list_all_length)
  then show ?thesis by (intro that [of "over_hang_max_1 self ! i" "over_hang_max_2 self ! i"])
      (simp_all add: gmm_thresholds_def Let_def i_def)
qed

definition core_ok :: "VadInstT \<Rightarrow> bool" where
  "core_ok self \<longleftrightarrow> models_ok self \<and> hang_ok self \<and> hp_st (hp_filter_state self) \<and>
     ds_st (downsampling_filter_states self ! 0, downsampling_filter_states self ! 1) \<and>
     ds_st (downsampling_filter_states self ! 2, downsampling_filter_states self ! 3)"

lemma core_ok_control:
  assumes "core_ok self" "control self' = control self" "models_ok self'"
  shows "core_ok self'"
  using assms by (simp add: core_ok_def control_def hang_ok_def)

text \<open>What a decision keeps of the control state, besides the hangover counters.\<close>

definition modes where
  "modes self = (over_hang_max_1 self, over_hang_max_2 self, individual self, total self, init_flag self)"

text \<open>The part of \<open>GmmProbability\<close> before the hangover.\<close>

definition gmm_flag :: "VadInstT \<Rightarrow> int16 list \<Rightarrow> int16 \<Rightarrow> int16 \<Rightarrow> int16 \<Rightarrow> int16" where
  "gmm_flag self features pw t1 t2 =
     (if pw > 10 then vadflag (test_channels self features t1 t2) else 0)"

definition gmm_update :: "VadInstT \<Rightarrow> int16 list \<Rightarrow> int16 \<Rightarrow> int16 \<Rightarrow> int16 \<Rightarrow> VadInstT" where
  "gmm_update self features pw t1 t2 =
     (if pw > 10
      then let s = fst (fold (update_channel (test_channels self features t1 t2) features) [0..<6] (self, 12800))
           in s\<lparr>frame_counter := s32 (frame_counter s + 1)\<rparr>
      else self)"

lemma GmmProbability_eq:
  "gmm_thresholds self n = (o1, o2, t1, t2) \<Longrightarrow>
   GmmProbability self features pw n =
     hangover (gmm_flag self features pw t1 t2) o1 o2 (gmm_update self features pw t1 t2)"
  by (simp add: GmmProbability_def Let_def case_prod_beta gmm_flag_def gmm_update_def)

lemma gmm_flag_range: "gmm_flag self features pw t1 t2 \<in> {0, 1}"
  using test_channels_flag by (simp add: gmm_flag_def)

lemma gmm_update_ok:
  assumes ok: "core_ok self" and f: "features_ok features"
  shows "core_ok (gmm_update self features pw t1 t2)" "modes (gmm_update self features pw t1 t2) = modes self"
    "over_hang (gmm_update self features pw t1 t2) = over_hang self"
    "num_of_speech (gmm_update self features pw t1 t2) = num_of_speech self"
proof -
  have models: "models_ok self" using ok by (simp add: core_ok_def)
  define s where "s = fst (fold (update_channel (test_channels self features t1 t2) features) [0..<6] (self, 12800))"
  have s: "models_ok s" "control s = control self"
    unfolding s_def by (rule update_channels_ok [OF models f])+
  have core: "core_ok s" by (rule core_ok_control [OF ok s(2,1)])
  have eq: "gmm_update self features pw t1 t2 =
      (if pw > 10 then s\<lparr>frame_counter := s32 (frame_counter s + 1)\<rparr> else self)"
    unfolding gmm_update_def s_def Let_def ..
  show "core_ok (gmm_update self features pw t1 t2)"
    using ok core unfolding eq by (simp add: core_ok_def models_ok_def inst_shape_def hang_ok_def)
  show "modes (gmm_update self features pw t1 t2) = modes self"
    "over_hang (gmm_update self features pw t1 t2) = over_hang self"
    "num_of_speech (gmm_update self features pw t1 t2) = num_of_speech self"
    using s(2) unfolding eq by (simp_all add: modes_def control_def)
qed

lemma hangover_frame:
  "hp_filter_state (snd (hangover flag o1 o2 s)) = hp_filter_state s"
  "downsampling_filter_states (snd (hangover flag o1 o2 s)) = downsampling_filter_states s"
  "modes (snd (hangover flag o1 o2 s)) = modes s"
  by (simp_all add: hangover_def Let_def modes_def)

lemma GmmProbability_ok:
  assumes ok: "core_ok self" and f: "features_ok features"
  shows "fst (GmmProbability self features pw n) \<in> vad_decisions"
    and "core_ok (snd (GmmProbability self features pw n))"
    and "modes (snd (GmmProbability self features pw n)) = modes self"
proof -
  have "inst_shape self" "hang_ok self" using ok by (simp_all add: core_ok_def models_ok_def)
  from gmm_thresholds_ok [OF this, of n] obtain o1 o2 t1 t2
    where th: "gmm_thresholds self n = (o1, o2, t1, t2)" and b: "2 \<le> o1" "o1 \<le> 8" "3 \<le> o2" "o2 \<le> 14"
    by metis
  let ?s = "gmm_update self features pw t1 t2"
  note u = gmm_update_ok [OF ok f, of pw t1 t2]
  have sp: "hang_ok ?s" "models_ok ?s" using u(1) by (simp_all add: core_ok_def)
  note h = hangover_ok [OF sp(1) gmm_flag_range b]
  show "fst (GmmProbability self features pw n) \<in> vad_decisions"
    unfolding GmmProbability_eq [OF th] by (rule h(1))
  show "core_ok (snd (GmmProbability self features pw n))"
    unfolding GmmProbability_eq [OF th] using u(1) h(2) h(3) [OF sp(2)]
    by (simp add: core_ok_def hangover_frame)
  show "modes (snd (GmmProbability self features pw n)) = modes self"
    unfolding GmmProbability_eq [OF th] hangover_frame by (rule u(2))
qed

section \<open>The entry points\<close>

lemma modes_control: "control self = control self' \<Longrightarrow> modes self = modes self'"
  by (simp add: control_def modes_def)

lemma CalcVad8khz_ok:
  assumes ok: "core_ok self" and n: "n \<in> set frame_lengths" "n \<le> length xs"
  shows "fst (WebRtcVad_CalcVad8khz self xs n) \<in> vad_decisions"
    and "core_ok (snd (WebRtcVad_CalcVad8khz self xs n))"
    and "modes (snd (WebRtcVad_CalcVad8khz self xs n)) = modes self"
    and "vad (snd (WebRtcVad_CalcVad8khz self xs n)) = fst (WebRtcVad_CalcVad8khz self xs n)"
proof -
  define r where "r = WebRtcVad_CalculateFeatures self xs n"
  define s where "s = snd (snd r)"
  define f where "f = fst (snd r)"
  define g where "g = GmmProbability s f (fst r) n"
  have inv: "inst_shape self" "hp_st (hp_filter_state self)" and models: "models_ok self" and hang: "hang_ok self"
    using ok by (simp_all add: core_ok_def models_ok_def)
  note feat = CalculateFeatures_range [OF n inv, folded r_def]
  note st = CalculateFeatures_state [OF inv, of xs n, folded r_def, folded s_def]
  have fo: "features_ok f"
  proof -
    have len: "length f = 6" using feat by (simp add: f_def)
  have b: "\<forall>c<6. kOffsetVector ! c \<le> f ! c \<and> f ! c \<le> kOffsetVector ! c + 1878" using feat unfolding f_def by blast
    have "\<forall>x\<in>set kOffsetVector. 0 \<le> x \<and> x \<le> 400" "length kOffsetVector = 6"
      by (simp_all add: kOffsetVector_def)
    then have o: "0 \<le> kOffsetVector ! c \<and> kOffsetVector ! c \<le> 400" if "c < 6" for c
      using that nth_mem [of c kOffsetVector] by metis
    have "is_s16 (f ! c)" if "c < 6" for c
      using b [rule_format, OF that] o [OF that] unfolding is_s16_def by linarith
    then show ?thesis using len by (simp add: features_ok_def list_all_length)
  qed
  obtain us ls h where s: "s = self\<lparr>upper_state := us, lower_state := ls, hp_filter_state := h\<rparr>"
    using st(1) by blast
  have md: "modes s = modes self" by (simp add: s modes_def)
  have "models_ok s" using models st(2) by (simp add: models_ok_def s)
  moreover have "hang_ok s" using hang by (simp add: hang_ok_def s)
  ultimately have core: "core_ok s" using ok st(3) by (simp add: core_ok_def s)
  have eq: "WebRtcVad_CalcVad8khz self xs n = (fst g, (snd g)\<lparr>vad := fst g\<rparr>)"
    by (simp add: WebRtcVad_CalcVad8khz_def Let_def case_prod_beta g_def f_def s_def r_def)
  have g: "fst g \<in> vad_decisions" "core_ok (snd g)" "modes (snd g) = modes self"
    unfolding g_def using GmmProbability_ok [OF core fo] md by simp_all
  then show "fst (WebRtcVad_CalcVad8khz self xs n) \<in> vad_decisions"
    "modes (snd (WebRtcVad_CalcVad8khz self xs n)) = modes self"
    "vad (snd (WebRtcVad_CalcVad8khz self xs n)) = fst (WebRtcVad_CalcVad8khz self xs n)"
    "core_ok (snd (WebRtcVad_CalcVad8khz self xs n))"
    by (simp_all add: eq modes_def) (simp add: core_ok_def models_ok_def inst_shape_def hang_ok_def)
qed

lemma core_ok_states:
  assumes "core_ok self" "length fs = 4" "ds_st (fs ! 0, fs ! 1)" "ds_st (fs ! 2, fs ! 3)"
  shows "core_ok (self\<lparr>downsampling_filter_states := fs\<rparr>)"
  using assms by (simp add: core_ok_def models_ok_def inst_shape_def hang_ok_def)

lemma core_ok_state_48:
  assumes "core_ok self" "state_48_8_ok st"
  shows "core_ok (self\<lparr>state_48_to_8 := st\<rparr>)"
  using assms by (simp add: core_ok_def models_ok_def inst_shape_def hang_ok_def)

lemma core_ok_length_states: "core_ok self \<Longrightarrow> length (downsampling_filter_states self) = 4"
  by (simp add: core_ok_def models_ok_def inst_shape_def)

text \<open>One downsampling step of the instance: \<open>k = 0\<close> or \<open>k = 2\<close>.\<close>

lemma downsample_ok:
  assumes ok: "core_ok self" and k: "k = 0 \<or> k = 2" and xs: "\<forall>x\<in>set xs. is_s16 x"
    and len: "m \<le> length xs"
  shows "core_ok (self\<lparr>downsampling_filter_states :=
      snd (WebRtcVad_Downsampling xs (downsampling_filter_states self) k (int m))\<rparr>)"
    and "\<forall>y\<in>set (fst (WebRtcVad_Downsampling xs (downsampling_filter_states self) k (int m))). is_s16 y"
    and "length (fst (WebRtcVad_Downsampling xs (downsampling_filter_states self) k (int m))) = m div 2"
proof -
  let ?fs = "downsampling_filter_states self"
  let ?fs' = "snd (WebRtcVad_Downsampling xs ?fs k (int m))"
  have l: "length ?fs = 4" by (rule core_ok_length_states [OF ok])
  have st: "ds_st (?fs ! k, ?fs ! (k + 1))" using ok k by (auto simp: core_ok_def)
  note d = Downsampling_state [OF xs st, of "int m"]
  have "ds_st (?fs' ! 0, ?fs' ! 1) \<and> ds_st (?fs' ! 2, ?fs' ! 3)"
    using d k l ok by (auto simp: core_ok_def)
  then show "core_ok (self\<lparr>downsampling_filter_states := ?fs'\<rparr>)"
    using l by (intro core_ok_states [OF ok]) (simp_all add: Downsampling_shape)
  show "\<forall>y\<in>set (fst (WebRtcVad_Downsampling xs ?fs k (int m))). is_s16 y"
    by (rule Downsampling_range [OF xs st])
  show "length (fst (WebRtcVad_Downsampling xs ?fs k (int m))) = m div 2"
    using len by (simp add: Downsampling_shape nat_div_distrib div_le_mono min.absorb1)
qed

lemma modes_states [simp]: "modes (self\<lparr>downsampling_filter_states := fs\<rparr>) = modes self"
  "modes (self\<lparr>state_48_to_8 := st\<rparr>) = modes self"
  by (simp_all add: modes_def)

text \<open>What every entry point establishes.\<close>

definition entry_ok :: "VadInstT \<Rightarrow> int \<times> VadInstT \<Rightarrow> bool" where
  "entry_ok self r \<longleftrightarrow> fst r \<in> vad_decisions \<and> core_ok (snd r) \<and> modes (snd r) = modes self"

lemma CalcVad8khz_entry:
  "core_ok self \<Longrightarrow> n \<in> set frame_lengths \<Longrightarrow> n \<le> length xs \<Longrightarrow> entry_ok self (WebRtcVad_CalcVad8khz self xs n)"
  by (simp add: entry_ok_def CalcVad8khz_ok)

lemma entry_ok_modes: "entry_ok self r \<Longrightarrow> modes self = modes self' \<Longrightarrow> entry_ok self' r"
  by (simp add: entry_ok_def)

lemma CalcVad16khz_entry:
  assumes ok: "core_ok self" and xs: "\<forall>x\<in>set xs. is_s16 x" and n: "n \<in> {160, 320, 480}" "n \<le> length xs"
  shows "entry_ok self (WebRtcVad_CalcVad16khz self xs n)"
proof -
  note d = downsample_ok [OF ok _ xs n(2), of 0, simplified]
  have "n div 2 \<in> set frame_lengths" using n(1) by (auto simp: frame_lengths_def)
  from CalcVad8khz_entry [OF d(1) this] show ?thesis
    using d(3) by (simp add: WebRtcVad_CalcVad16khz_def Let_def case_prod_beta entry_ok_def)
qed

lemma CalcVad32khz_entry:
  assumes ok: "core_ok self" and xs: "\<forall>x\<in>set xs. is_s16 x" and n: "n \<in> {320, 640, 960}" "n \<le> length xs"
  shows "entry_ok self (WebRtcVad_CalcVad32khz self xs n)"
proof -
  let ?d = "WebRtcVad_Downsampling xs (downsampling_filter_states self) 2 (int n)"
  note d = downsample_ok [OF ok _ xs n(2), of 2, simplified]
  note e = downsample_ok [OF d(1) _ d(2), of 0 "n div 2", simplified]
  have "n div 2 div 2 \<in> set frame_lengths" using n(1) by (auto simp: frame_lengths_def)
  from CalcVad8khz_entry [OF e(1) this] show ?thesis
    using e(3) d(3) by (simp add: WebRtcVad_CalcVad32khz_def Let_def case_prod_beta entry_ok_def)
qed

text \<open>The 48 kHz loop: iterated conversion of the first 480 samples.\<close>

fun repeat_48_8 :: "nat \<Rightarrow> int16 list \<Rightarrow> State48khzTo8khz \<Rightarrow> int16 list \<times> State48khzTo8khz" where
  "repeat_48_8 0 xs st = ([], st)"
| "repeat_48_8 (Suc n) xs st =
     (let (out, st) = pipeline_48_8 xs st; (outs, st) = repeat_48_8 n xs st in (out @ outs, st))"

lemma repeat_48_8_shape:
  "length xs = 480 \<Longrightarrow> state_48_8_ok st \<Longrightarrow>
   length (fst (repeat_48_8 n xs st)) = 80 * n \<and> state_48_8_ok (snd (repeat_48_8 n xs st))"
  by (induction n arbitrary: st) (simp_all add: Let_def case_prod_beta pipeline_48_8_shape)

lemma blit_blit_append:
  "off + length xs + length ys \<le> length dst \<Longrightarrow>
   blit (blit dst off xs) (off + length xs) ys = blit dst off (xs @ ys)"
  by (intro nth_equalityI) (auto simp: nth_blit nth_append)

lemma resample_frames_eq:
  assumes "480 \<le> length xs" "state_48_8_ok st" "496 \<le> length mem" "80 * (i + n) \<le> length nb"
  shows "fst (resample_frames xs i n (nb, st, mem)) = blit nb (i * 80) (fst (repeat_48_8 n (take 480 xs) st)) \<and>
    fst (snd (resample_frames xs i n (nb, st, mem))) = snd (repeat_48_8 n (take 480 xs) st)"
  using assms(2-)
proof (induction n arbitrary: i nb st mem)
  case (Suc n)
  define p where "p = pipeline_48_8 (take 480 xs) st"
  define mem' where "mem' = snd (snd (WebRtcSpl_Resample48khzTo8khz xs st mem))"
  have r: "WebRtcSpl_Resample48khzTo8khz xs st mem = (fst p, snd p, mem')"
    using Resample48khzTo8khz_pipeline [OF assms(1) Suc.prems(1,2)]
    by (simp add: p_def mem'_def prod_eq_iff)
  have p: "length (fst p) = 80" "state_48_8_ok (snd p)"
    unfolding p_def using assms(1) Suc.prems(1) by (simp_all add: pipeline_48_8_shape)
  have mem': "496 \<le> length mem'"
    unfolding mem'_def using Suc.prems Resample48khzTo8khz_tmpmem [OF assms(1), of st mem] by simp
  define q where "q = repeat_48_8 n (take 480 xs) (snd p)"
  have q: "length (fst q) = 80 * n"
    unfolding q_def using repeat_48_8_shape [of "take 480 xs" "snd p" n] p assms(1) by simp
  have "80 * (Suc i + n) \<le> length (blit nb (i * 80) (fst p))"
    using Suc.prems(3) p(1) by simp
  note IH = Suc.IH [OF p(2) mem' this, folded q_def]
  have "blit (blit nb (i * 80) (fst p)) (Suc i * 80) (fst q) = blit nb (i * 80) (fst p @ fst q)"
    using blit_blit_append [of "i * 80" "fst p" "fst q" nb] p(1) q Suc.prems(3) by (simp add: add.commute)
  then show ?case using IH
    by (simp add: r Let_def case_prod_beta p_def [symmetric] q_def [symmetric])
qed simp

lemma CalcVad48khz_eq:
  assumes ok: "core_ok self" and xs: "480 \<le> length xs" and n: "n \<le> 1440"
  shows "WebRtcVad_CalcVad48khz self xs n =
    (let r = repeat_48_8 (n div 480) (take 480 xs) (state_48_to_8 self)
     in WebRtcVad_CalcVad8khz (self\<lparr>state_48_to_8 := snd r\<rparr>) (blit (replicate 240 0) 0 (fst r)) (n div 6))"
proof -
  have "state_48_8_ok (state_48_to_8 self)" using ok by (simp add: core_ok_def models_ok_def inst_shape_def)
  then show ?thesis
    using resample_frames_eq [OF xs, of "state_48_to_8 self" "replicate 736 0" 0 "n div 480" "replicate 240 0"] n
    by (simp add: WebRtcVad_CalcVad48khz_def Let_def case_prod_beta)
qed

lemma CalcVad48khz_entry:
  assumes ok: "core_ok self" and n: "n \<in> {480, 960, 1440}" "n \<le> length xs"
  shows "entry_ok self (WebRtcVad_CalcVad48khz self xs n)"
proof -
  let ?r = "repeat_48_8 (n div 480) (take 480 xs) (state_48_to_8 self)"
  have xs: "480 \<le> length xs" "n \<le> 1440" using n by auto
  have "state_48_8_ok (state_48_to_8 self)" using ok by (simp add: core_ok_def models_ok_def inst_shape_def)
  then have r: "length (fst ?r) = 80 * (n div 480)" "state_48_8_ok (snd ?r)"
    using repeat_48_8_shape [of "take 480 xs"] xs by simp_all
  have "n div 6 \<in> set frame_lengths" using n(1) by (auto simp: frame_lengths_def)
  moreover have "n div 6 \<le> length (blit (replicate 240 0) 0 (fst ?r))"
    using n(1) r(1) by auto
  ultimately have "entry_ok (self\<lparr>state_48_to_8 := snd ?r\<rparr>)
      (WebRtcVad_CalcVad8khz (self\<lparr>state_48_to_8 := snd ?r\<rparr>) (blit (replicate 240 0) 0 (fst ?r)) (n div 6))"
    using core_ok_state_48 [OF ok r(2)] by (intro CalcVad8khz_entry)
  then show ?thesis unfolding CalcVad48khz_eq [OF ok xs] by (simp add: Let_def entry_ok_def)
qed

section \<open>The decision of the likelihood-ratio test\<close>

lemma likelihood_shift_range: "0 \<le> likelihood_shift h \<and> likelihood_shift h \<le> 31"
proof -
  have "0 \<le> WebRtcSpl_NormW32 h" "WebRtcSpl_NormW32 h \<le> 31"
    using NormW32_range NormW32_le_31 by simp_all
  then show ?thesis by (simp add: likelihood_shift_def Let_def)
qed

text \<open>The log-likelihood ratio of a channel, as a difference of normalisation counts.\<close>

definition llr :: "VadInstT \<Rightarrow> int16 list \<Rightarrow> nat \<Rightarrow> int" where
  "llr self features c =
     likelihood_shift (fst (hypothesis_test kNoiseDataWeights (noise_means self) (noise_stds self) (features ! c) c))
     - likelihood_shift (fst (hypothesis_test kSpeechDataWeights (speech_means self) (speech_stds self) (features ! c) c))"

lemma llr_range: "-31 \<le> llr self features c" "llr self features c \<le> 31"
  using likelihood_shift_range
    [of "fst (hypothesis_test kNoiseDataWeights (noise_means self) (noise_stds self) (features ! c) c)"]
    likelihood_shift_range
    [of "fst (hypothesis_test kSpeechDataWeights (speech_means self) (speech_stds self) (features ! c) c)"]
  unfolding llr_def by linarith+

lemma test_channel_effect:
  "vadflag (test_channel self features t c loc) = (if llr self features c * 4 > t then 1 else vadflag loc)"
  "sum_log_likelihood_ratios (test_channel self features t c loc) =
     s32 (sum_log_likelihood_ratios loc + llr self features c * kSpectrumWeight ! c)"
proof -
  have s: "s16 (llr self features c) = llr self features c" using llr_range [of self features c] by simp
  show "vadflag (test_channel self features t c loc) = (if llr self features c * 4 > t then 1 else vadflag loc)"
    "sum_log_likelihood_ratios (test_channel self features t c loc) =
     s32 (sum_log_likelihood_ratios loc + llr self features c * kSpectrumWeight ! c)"
    using s by (simp_all add: test_channel_def Let_def case_prod_beta llr_def)
qed

lemma test_fold_flag:
  "vadflag (fold (test_channel self features t) cs loc) =
    (if \<exists>c\<in>set cs. llr self features c * 4 > t then 1 else vadflag loc)"
  by (induction cs arbitrary: loc) (auto simp: test_channel_effect)

lemma test_fold_sum:
  "sum_log_likelihood_ratios loc = s32 a \<Longrightarrow>
   sum_log_likelihood_ratios (fold (test_channel self features t) cs loc) =
    s32 (a + (\<Sum>c\<leftarrow>cs. llr self features c * kSpectrumWeight ! c))"
  by (induction cs arbitrary: loc a) (simp_all add: test_channel_effect i32.conv_add_left add.assoc)

lemma upt_6: "[0..<6] = [0, 1, 2, 3, 4, 5::nat]"
  by (simp add: upt_rec)

lemma test_channels_flag_eq:
  "vadflag (test_channels self features t1 t2) =
    (if (\<exists>c<6. llr self features c * 4 > t1) \<or> (\<Sum>c\<leftarrow>[0..<6]. llr self features c * kSpectrumWeight ! c) \<ge> t2
     then 1 else 0)"
proof -
  let ?S = "\<Sum>c\<leftarrow>[0..<6]. llr self features c * kSpectrumWeight ! c"
  have "\<bar>?S\<bar> \<le> 2046"
    using llr_range [of self features 0] llr_range [of self features 1] llr_range [of self features 2]
      llr_range [of self features 3] llr_range [of self features 4] llr_range [of self features 5]
    by (simp add: upt_6 kSpectrumWeight_def)
  then have S: "s32 ?S = ?S" by (intro s32_id) linarith+
  have "sum_log_likelihood_ratios (fold (test_channel self features t1) [0..<6] gmm_local_init) = ?S"
    using test_fold_sum [of gmm_local_init 0 self features t1 "[0..<6]"] S by (simp add: gmm_local_init_def)
  moreover have "vadflag (fold (test_channel self features t1) [0..<6] gmm_local_init) =
      (if \<exists>c<6. llr self features c * 4 > t1 then 1 else 0)"
    by (auto simp: test_fold_flag gmm_local_init_def)
  ultimately show ?thesis by (simp add: test_channels_def Let_def)
qed

section \<open>Properties\<close>

lemma core_ok_vad_init: "core_ok vad_init"
proof -
  have "models_ok vad_init"
  proof -
    have "\<forall>c<6. win (low_value_vector vad_init) (16 * c) = replicate 16 10000"
      by (simp add: vad_init_def win_def)
    then have "\<forall>c<6. win_ok (win (low_value_vector vad_init) (16 * c))"
      by (simp add: win_ok_def)
    moreover have "list_all is_s16 (low_value_vector vad_init)" "list_all is_s16 (mean_value vad_init)"
      by (simp_all add: vad_init_def list_all_iff is_s16_def)
    moreover have "list_all std_ok (noise_stds vad_init)" "list_all std_ok (speech_stds vad_init)"
      "list_all is_s16 (noise_means vad_init)" "list_all is_s16 (speech_means vad_init)"
      by (simp_all add: vad_init_def table_defs std_ok_def is_s16_def)
    ultimately show ?thesis unfolding models_ok_def using inst_shape_vad_init by blast
  qed
  moreover have "hang_ok vad_init" by (simp add: vad_init_def hang_ok_def mode_defs)
  moreover have "hp_st (hp_filter_state vad_init)" by (simp add: vad_init_def hp_st_def is_s16_def)
  ultimately show ?thesis by (simp add: core_ok_def vad_init_def)
qed

text \<open>
  C4: The decision of a frame is speech exactly when the frame carries more than the minimum
  energy and either one channel's log-likelihood ratio exceeds the local threshold of the
  mode and frame length, or the spectrally weighted sum of the six ratios reaches the global
  threshold; the sum cannot overflow.  Otherwise the answer is noise or a hangover value.
\<close>

theorem GmmProbability_decision:
  assumes ok: "core_ok self" and f: "features_ok features" and th: "gmm_thresholds self n = (o1, o2, t1, t2)"
  shows "fst (GmmProbability self features pw n) = 1 \<longleftrightarrow>
    pw > 10 \<and> ((\<exists>c<6. llr self features c * 4 > t1) \<or>
      (\<Sum>c\<leftarrow>[0..<6]. llr self features c * kSpectrumWeight ! c) \<ge> t2)"
proof -
  let ?s = "gmm_update self features pw t1 t2" and ?f = "gmm_flag self features pw t1 t2"
  have hang: "hang_ok ?s" using gmm_update_ok(1) [OF ok f] by (simp add: core_ok_def)
  have "fst (hangover flag o1 o2 ?s) = 1 \<longleftrightarrow> flag = 1" if "flag = 0 \<or> flag = 1" for flag
    using that hang by (auto simp: hang_ok_def hangover_noise hangover_speech split: if_splits)
  then have "fst (GmmProbability self features pw n) = 1 \<longleftrightarrow> ?f = 1"
    unfolding GmmProbability_eq [OF th] using gmm_flag_range by blast
  then show ?thesis by (simp add: gmm_flag_def test_channels_flag_eq)
qed

theorem GmmProbability_decision_witness:
  "fst (GmmProbability vad_init [368, 368, 272, 176, 176, 176] 5 80) \<noteq> 1"
proof -
  have "features_ok [368, 368, 272, 176, 176, 176]" by (simp add: features_ok_def is_s16_def)
  moreover have "gmm_thresholds vad_init 80 = (8, 14, 24, 57)"
    by (simp add: gmm_thresholds_def vad_init_def mode_defs)
  ultimately show ?thesis using GmmProbability_decision [OF core_ok_vad_init, of _ 80 8 14 24 57 5] by simp
qed

text \<open>A sequence of frames with the given flags, seen by the hangover logic.\<close>

definition hangover_run :: "int16 \<Rightarrow> int16 \<Rightarrow> int16 list \<Rightarrow> VadInstT \<Rightarrow> int16 list \<times> VadInstT" where
  "hangover_run o1 o2 flags self =
     (let (self, out) = run (\<lambda>s flag. let (v, s') = hangover flag o1 o2 s in (s', v)) self flags
      in (out, self))"

lemma hangover_run_Cons:
  "fst (hangover_run o1 o2 (f # fs) s) = fst (hangover f o1 o2 s) # fst (hangover_run o1 o2 fs (snd (hangover f o1 o2 s)))"
  "snd (hangover_run o1 o2 (f # fs) s) = snd (hangover_run o1 o2 fs (snd (hangover f o1 o2 s)))"
  by (simp_all add: hangover_run_def Let_def case_prod_beta)

lemma hangover_run_append:
  "fst (hangover_run o1 o2 (fs @ gs) s) = fst (hangover_run o1 o2 fs s) @ fst (hangover_run o1 o2 gs (snd (hangover_run o1 o2 fs s)))"
  "snd (hangover_run o1 o2 (fs @ gs) s) = snd (hangover_run o1 o2 gs (snd (hangover_run o1 o2 fs s)))"
  by (simp_all add: hangover_run_def Let_def case_prod_beta run_append)

lemma hangover_run_Nil [simp]: "hangover_run o1 o2 [] s = ([], s)"
  by (simp add: hangover_run_def)

lemma hangover_run_noise:
  assumes "0 \<le> over_hang s" "over_hang s \<le> 14"
  shows "fst (hangover_run o1 o2 (replicate n 0) s) =
      map (\<lambda>i. if int i < over_hang s then 2 + over_hang s - int i else 0) [0..<n] \<and>
    over_hang (snd (hangover_run o1 o2 (replicate n 0) s)) = max 0 (over_hang s - int n)"
  using assms
proof (induction n arbitrary: s)
  case (Suc n)
  define s' where "s' = snd (hangover 0 o1 o2 s)"
  have s': "over_hang s' = max 0 (over_hang s - 1)" "fst (hangover 0 o1 o2 s) = (if over_hang s > 0 then 2 + over_hang s else 0)"
    using Suc.prems by (simp_all add: s'_def hangover_noise)
  have IH: "fst (hangover_run o1 o2 (replicate n 0) s') =
      map (\<lambda>i. if int i < over_hang s' then 2 + over_hang s' - int i else 0) [0..<n]"
    "over_hang (snd (hangover_run o1 o2 (replicate n 0) s')) = max 0 (over_hang s' - int n)"
    using Suc.IH [of s'] Suc.prems s'(1) by auto
  have "[0..<Suc n] = 0 # map Suc [0..<n]" by (simp add: upt_conv_Cons map_Suc_upt del: upt_Suc)
  then have "map (\<lambda>i. if int i < over_hang s then 2 + over_hang s - int i else 0) [0..<Suc n] =
      (if over_hang s > 0 then 2 + over_hang s else 0) #
      map (\<lambda>i. if int i < over_hang s' then 2 + over_hang s' - int i else 0) [0..<n]"
    using Suc.prems s'(1) by (auto simp del: upt_Suc)
  then show ?case
    using IH s' by (simp add: hangover_run_Cons s'_def [symmetric] del: upt_Suc)
qed simp

lemma hangover_run_speech:
  assumes "0 \<le> num_of_speech s" "num_of_speech s \<le> 6" "0 < m"
  shows "fst (hangover_run o1 o2 (replicate m 1) s) = replicate m 1 \<and>
    num_of_speech (snd (hangover_run o1 o2 (replicate m 1) s)) = min 6 (num_of_speech s + int m) \<and>
    over_hang (snd (hangover_run o1 o2 (replicate m 1) s)) = (if num_of_speech s + int m > 6 then o2 else o1)"
  using assms
proof (induction m arbitrary: s)
  case (Suc m)
  define s' where "s' = snd (hangover 1 o1 o2 s)"
  have s': "num_of_speech s' = min 6 (num_of_speech s + 1)" "over_hang s' = (if num_of_speech s = 6 then o2 else o1)"
      "fst (hangover 1 o1 o2 s) = 1"
    using Suc.prems by (simp_all add: s'_def hangover_speech)
  show ?case
  proof (cases "m = 0")
    case True
    then show ?thesis using s' Suc.prems by (auto simp: hangover_run_Cons s'_def [symmetric])
  next
    case False
    then show ?thesis using Suc.IH [of s'] s' Suc.prems
      by (auto simp: hangover_run_Cons s'_def [symmetric])
  qed
qed simp

text \<open>
  C38: The hangover decays by one per noise frame.  After \<open>m > 0\<close> consecutive speech frames
  that follow a pause, the next noise frames are answered by 2 + h, 2 + h - 1, ..., 3 and
  then by 0, where \<open>h\<close> is the short limit of the mode, or the long limit if there were
  more than six speech frames.
\<close>

theorem hangover_decay:
  assumes "num_of_speech self = 0" "0 < m" "0 \<le> o1" "o1 \<le> 14" "0 \<le> o2" "o2 \<le> 14"
  shows "fst (hangover_run o1 o2 (replicate m 1 @ replicate n 0) self) =
    (let h = (if m > 6 then o2 else o1)
     in replicate m 1 @ map (\<lambda>i. if int i < h then 2 + h - int i else 0) [0..<n])"
proof -
  let ?s = "snd (hangover_run o1 o2 (replicate m 1) self)"
  have sp: "fst (hangover_run o1 o2 (replicate m 1) self) = replicate m 1"
    "over_hang ?s = (if m > 6 then o2 else o1)"
    using hangover_run_speech [of self m o1 o2] assms by simp_all
  then have "0 \<le> over_hang ?s" "over_hang ?s \<le> 14" using assms by simp_all
  from hangover_run_noise [OF this, of o1 o2 n] show ?thesis
    unfolding hangover_run_append sp Let_def by simp
qed

theorem hangover_decay_witness:
  "fst (hangover_run 8 14 ([1, 1] @ replicate 10 0) vad_init) = [1, 1, 10, 9, 8, 7, 6, 5, 4, 3, 0, 0]"
proof -
  have "num_of_speech vad_init = 0" by (simp add: vad_init_def)
  from hangover_decay [OF this, of 2 8 14 10] show ?thesis
    by (simp add: numeral_2_eq_2 Let_def upt_rec)
qed

text \<open>
  The 48 kHz entry point looks at the first 10 ms only: two frames that agree on their first
  480 samples give the same decision and the same state, whatever their frame length, since
  the loop passes the same pointer to the resampler in every iteration.
\<close>

theorem CalcVad48khz_first_block:
  assumes "core_ok self" "n \<le> 1440" "480 \<le> length xs" "480 \<le> length ys" "take 480 xs = take 480 ys"
  shows "WebRtcVad_CalcVad48khz self xs n = WebRtcVad_CalcVad48khz self ys n"
  using CalcVad48khz_eq [OF assms(1,3,2)] CalcVad48khz_eq [OF assms(1,4,2)] assms(5) by simp

theorem CalcVad48khz_first_block_witness:
  "WebRtcVad_CalcVad48khz vad_init (replicate 480 0 @ replicate 960 9000) 1440 =
   WebRtcVad_CalcVad48khz vad_init (replicate 1440 0) 1440"
  by (rule CalcVad48khz_first_block [OF core_ok_vad_init]) simp_all

text \<open>
  A frame without energy leaves the models alone: if the total power of the features does
  not exceed the minimum energy, the decision is noise or hangover, and means, standard
  deviations, minima, medians and the frame counter keep their values.
\<close>

theorem GmmProbability_quiet:
  assumes "pw \<le> 10" "0 \<le> over_hang self" "over_hang self \<le> 14"
  shows "GmmProbability self features pw n =
    (if over_hang self > 0 then 2 + over_hang self else 0,
     self\<lparr>over_hang := max 0 (over_hang self - 1), num_of_speech := 0\<rparr>)"
proof -
  obtain o1 o2 t1 t2 where th: "gmm_thresholds self n = (o1, o2, t1, t2)" by (metis prod.collapse)
  show ?thesis using assms
    by (simp add: GmmProbability_eq [OF th] gmm_flag_def gmm_update_def hangover_noise)
qed

theorem GmmProbability_quiet_witness:
  "fst (GmmProbability (vad_init\<lparr>over_hang := 8\<rparr>) [368, 368, 272, 176, 176, 176] 10 80) = 10"
  using GmmProbability_quiet [of 10 "vad_init\<lparr>over_hang := 8\<rparr>"] by simp

text \<open>
  C5: Every 8 kHz frame of 10, 20 or 30 ms keeps the invariant of the detector: all array
  shapes, the sorted windows, standard deviations of at least 378, means and minima within
  \<open>int16_t\<close>, bounded filter states, \<open>over_hang\<close> in 0..14 and \<open>num_of_speech\<close> in 0..6.  The
  decision is 0 for noise, 1 for speech or 2 plus the remaining hangover (3 to 16).
\<close>

theorem CalcVad8khz_invariant:
  assumes "core_ok self" "n \<in> set frame_lengths" "n \<le> length xs"
  shows "core_ok (snd (WebRtcVad_CalcVad8khz self xs n)) \<and>
    fst (WebRtcVad_CalcVad8khz self xs n) \<in> vad_decisions \<and>
    vad (snd (WebRtcVad_CalcVad8khz self xs n)) = fst (WebRtcVad_CalcVad8khz self xs n)"
  using CalcVad8khz_ok [OF assms] by blast

theorem CalcVad8khz_invariant_witness:
  "core_ok (snd (WebRtcVad_CalcVad8khz vad_init (replicate 80 1000) 80))"
  using CalcVad8khz_invariant [OF core_ok_vad_init, of 80 "replicate 80 1000"]
  by (simp add: frame_lengths_def)

end
