(* ===== verification/WebRtcVad.thy ===== *)
theory WebRtcVad
  imports VadCore
begin

text \<open>
  The interface of the detector (\<open>webrtc_vad.c\<close>): creation, initialisation, mode selection,
  the check of rates and frame lengths, and \<open>WebRtcVad_Process\<close>.  Handles and frames that may
  be NULL are options; the result of \<open>malloc\<close> is an argument (the block of memory, with
  arbitrary contents, or None).

  The second half treats a detector as a state machine: the step relation \<open>vad_step\<close> has one
  rule per call a client can make, and the invariant \<open>vad_inv\<close> holds in every reachable state.
\<close>

section \<open>The interface functions\<close>

definition kValidRates :: "int list" where
  "kValidRates = [8000, 16000, 32000, 48000]"

abbreviation (input) kMaxFrameLengthMs :: int where "kMaxFrameLengthMs \<equiv> 30"

text \<open>\<open>handle\<close> says whether the pointer to the handle is not NULL.\<close>

definition WebRtcVad_Create :: "bool \<Rightarrow> VadInstT option \<Rightarrow> int \<times> VadInstT option" where
  "WebRtcVad_Create handle allocated =
     (if \<not> handle then (-1, None)
      else case allocated of
          None \<Rightarrow> (-1, None)
        | Some self \<Rightarrow> (0, Some (self\<lparr>init_flag := 0\<rparr>)))"

definition WebRtcVad_Init :: "VadInstT option \<Rightarrow> int \<times> VadInstT option" where
  "WebRtcVad_Init handle = WebRtcVad_InitCore handle"

definition WebRtcVad_set_mode :: "VadInstT option \<Rightarrow> int \<Rightarrow> int \<times> VadInstT option" where
  "WebRtcVad_set_mode handle mode =
     (case handle of
        None \<Rightarrow> (-1, None)
      | Some self \<Rightarrow>
          if init_flag self \<noteq> kInitCheck then (-1, Some self)
          else let (r, self) = WebRtcVad_set_mode_core self mode in (r, Some self))"

text \<open>The inner loop over 10, 20, 30 ms and the outer loop over the rates.\<close>

function valid_length_loop :: "int \<Rightarrow> int \<Rightarrow> int \<Rightarrow> int" where
  "valid_length_loop valid_rate frame_length valid_length_ms =
     (if valid_length_ms \<le> kMaxFrameLengthMs
      then let valid_length = cdiv valid_rate 1000 * valid_length_ms
           in if frame_length = valid_length then 0
              else valid_length_loop valid_rate frame_length (valid_length_ms + 10)
      else -1)"
  by pat_completeness auto
termination by (relation "measure (\<lambda>(r, f, ms). nat (31 - ms))") auto

declare valid_length_loop.simps [simp del]

fun valid_rate_loop :: "int list \<Rightarrow> int \<Rightarrow> int \<Rightarrow> int" where
  "valid_rate_loop [] rate frame_length = -1"
| "valid_rate_loop (valid_rate # rates) rate frame_length =
     (if valid_rate = rate then valid_length_loop valid_rate frame_length 10
      else valid_rate_loop rates rate frame_length)"

definition WebRtcVad_ValidRateAndFrameLength :: "int \<Rightarrow> int \<Rightarrow> int" where
  "WebRtcVad_ValidRateAndFrameLength rate frame_length = valid_rate_loop kValidRates rate frame_length"

definition WebRtcVad_Process ::
    "VadInstT option \<Rightarrow> int \<Rightarrow> int16 list option \<Rightarrow> int \<Rightarrow> int \<times> VadInstT option" where
  "WebRtcVad_Process handle fs audio_frame frame_length =
     (case handle of
        None \<Rightarrow> (-1, None)
      | Some self \<Rightarrow>
          if init_flag self \<noteq> kInitCheck then (-1, Some self)
          else case audio_frame of
              None \<Rightarrow> (-1, Some self)
            | Some frame \<Rightarrow>
                if WebRtcVad_ValidRateAndFrameLength fs frame_length \<noteq> 0 then (-1, Some self)
                else let n = nat frame_length;
                         (v, self) =
                           (if fs = 48000 then WebRtcVad_CalcVad48khz self frame n
                            else if fs = 32000 then WebRtcVad_CalcVad32khz self frame n
                            else if fs = 16000 then WebRtcVad_CalcVad16khz self frame n
                            else if fs = 8000 then WebRtcVad_CalcVad8khz self frame n
                            else (-1, self));
                         v = (if v > 0 then 1 else v)
                     in (v, Some self))"

section \<open>Valid rates and frame lengths\<close>

lemma valid_length_loop_eq:
  "valid_length_loop r f 10 = (if f = cdiv r 1000 * 10 \<or> f = cdiv r 1000 * 20 \<or> f = cdiv r 1000 * 30 then 0 else -1)"
  by (simp add: valid_length_loop.simps [of r _ 10] valid_length_loop.simps [of r _ 20]
      valid_length_loop.simps [of r _ 30] valid_length_loop.simps [of r _ 40] Let_def)

lemma ValidRate_eq:
  "WebRtcVad_ValidRateAndFrameLength rate n =
    (if rate \<in> {8000, 16000, 32000, 48000} \<and> (\<exists>ms\<in>{10, 20, 30}. n = rate div 1000 * ms) then 0 else -1)"
proof -
  have c: "cdiv 8000 1000 = 8" "cdiv 16000 1000 = 16" "cdiv 32000 1000 = 32" "cdiv 48000 1000 = 48"
    by (simp_all add: cdiv_pos)
  show ?thesis
    by (auto simp: WebRtcVad_ValidRateAndFrameLength_def kValidRates_def valid_length_loop_eq c)
qed

section \<open>Sequences of calls\<close>

text \<open>The invariant of an initialised detector.\<close>

definition vad_inv :: "VadInstT \<Rightarrow> bool" where
  "vad_inv self \<longleftrightarrow> init_flag self = kInitCheck \<and> core_ok self"

datatype vad_event =
    SetMode int int
  | Process int "int16 list option" int int
  | ReInit

text \<open>
  One call on a detector, with its result.  The memory behind the frame pointer has to hold
  the samples the call reads, as 16-bit integers; nothing else is assumed.
\<close>

definition frame_readable :: "int16 list option \<Rightarrow> int \<Rightarrow> bool" where
  "frame_readable frame n \<longleftrightarrow>
     (case frame of None \<Rightarrow> True | Some xs \<Rightarrow> n \<le> int (length xs) \<and> (\<forall>x\<in>set xs. is_s16 x))"

inductive vad_step :: "VadInstT \<Rightarrow> vad_event \<Rightarrow> VadInstT \<Rightarrow> bool" where
  step_mode: "WebRtcVad_set_mode (Some s) mode = (r, Some s') \<Longrightarrow> vad_step s (SetMode mode r) s'"
| step_process: "frame_readable frame n \<Longrightarrow> WebRtcVad_Process (Some s) fs frame n = (r, Some s') \<Longrightarrow>
    vad_step s (Process fs frame n r) s'"
| step_init: "WebRtcVad_Init (Some s) = (0, Some s') \<Longrightarrow> vad_step s ReInit s'"

inductive_cases step_modeE: "vad_step s (SetMode mode r) s'"
inductive_cases step_processE: "vad_step s (Process fs frame n r) s'"
inductive_cases step_initE: "vad_step s ReInit s'"

inductive vad_run :: "VadInstT \<Rightarrow> vad_event list \<Rightarrow> VadInstT \<Rightarrow> bool" where
  run_refl: "vad_run s [] s"
| run_step: "vad_step s e s1 \<Longrightarrow> vad_run s1 es s2 \<Longrightarrow> vad_run s (e # es) s2"

inductive_simps vad_run_Nil [simp]: "vad_run s [] s'"
inductive_simps vad_run_Cons: "vad_run s (e # es) s'"

lemma entry_vad_inv:
  assumes "entry_ok self (v, s')" "vad_inv self"
  shows "vad_inv s'" "v \<in> vad_decisions"
  using assms by (simp_all add: entry_ok_def vad_inv_def modes_def)

lemma vad_decisions_flag: "v \<in> vad_decisions \<Longrightarrow> (if v > 0 then 1 else v) \<in> {0, 1::int}"
  by (auto simp: vad_decisions_def)

lemma Process_valid_entry:
  assumes inv: "vad_inv self" and frame: "nat n \<le> length xs" "\<forall>x\<in>set xs. is_s16 x"
    and valid: "WebRtcVad_ValidRateAndFrameLength fs n = 0"
  shows "entry_ok self
    (if fs = 48000 then WebRtcVad_CalcVad48khz self xs (nat n)
     else if fs = 32000 then WebRtcVad_CalcVad32khz self xs (nat n)
     else if fs = 16000 then WebRtcVad_CalcVad16khz self xs (nat n)
     else if fs = 8000 then WebRtcVad_CalcVad8khz self xs (nat n)
     else (-1, self))"
proof -
  have ok: "core_ok self" using inv by (simp add: vad_inv_def)
  note len = frame(1)
  from valid have "fs \<in> {8000, 16000, 32000, 48000}" and n: "\<exists>ms\<in>{10, 20, 30}. n = fs div 1000 * ms"
    by (simp_all add: ValidRate_eq split: if_splits)
  then consider "fs = 8000" | "fs = 16000" | "fs = 32000" | "fs = 48000" by blast
  then show ?thesis
  proof cases
    case 1
    then have "nat n \<in> set frame_lengths" using n by (auto simp: frame_lengths_def)
    then show ?thesis using CalcVad8khz_entry [OF ok _ len] 1 by simp
  next
    case 2
    then have "nat n \<in> {160, 320, 480}" using n by auto
    then show ?thesis using CalcVad16khz_entry [OF ok frame(2) _ len] 2 by simp
  next
    case 3
    then have "nat n \<in> {320, 640, 960}" using n by auto
    then show ?thesis using CalcVad32khz_entry [OF ok frame(2) _ len] 3 by simp
  next
    case 4
    then have "nat n \<in> {480, 960, 1440}" using n by auto
    then show ?thesis using CalcVad48khz_entry [OF ok _ len] 4 by simp
  qed
qed

lemma Process_ok:
  assumes inv: "vad_inv self" and frame: "frame_readable frame n"
  obtains v s' where "WebRtcVad_Process (Some self) fs frame n = (v, Some s')" "vad_inv s'"
    "if frame = None \<or> WebRtcVad_ValidRateAndFrameLength fs n \<noteq> 0 then v = -1 \<and> s' = self else v \<in> {0, 1}"
proof (cases "frame = None \<or> WebRtcVad_ValidRateAndFrameLength fs n \<noteq> 0")
  case True
  then have "WebRtcVad_Process (Some self) fs frame n = (-1, Some self)"
    by (auto simp: WebRtcVad_Process_def split: option.split)
  then show ?thesis using that [of "-1" self] inv True by simp
next
  case False
  then obtain xs where xs: "frame = Some xs" and valid: "WebRtcVad_ValidRateAndFrameLength fs n = 0" by auto
  have fr: "nat n \<le> length xs" "\<forall>x\<in>set xs. is_s16 x"
    using frame by (auto simp: frame_readable_def xs)
  define r where "r = (if fs = 48000 then WebRtcVad_CalcVad48khz self xs (nat n)
     else if fs = 32000 then WebRtcVad_CalcVad32khz self xs (nat n)
     else if fs = 16000 then WebRtcVad_CalcVad16khz self xs (nat n)
     else if fs = 8000 then WebRtcVad_CalcVad8khz self xs (nat n)
     else (-1, self))"
  have e: "entry_ok self (fst r, snd r)" unfolding r_def prod.collapse by (rule Process_valid_entry [OF inv fr valid])
  have "WebRtcVad_Process (Some self) fs frame n = (if fst r > 0 then 1 else fst r, Some (snd r))"
    using inv unfolding WebRtcVad_Process_def xs
    by (simp add: vad_inv_def valid Let_def case_prod_beta r_def [symmetric])
  then show ?thesis
    using entry_vad_inv [OF e inv] vad_decisions_flag False that by metis
qed

lemma set_mode_core_ok: "core_ok self \<Longrightarrow> core_ok (snd (WebRtcVad_set_mode_core self mode))"
  by (simp add: WebRtcVad_set_mode_core_def core_ok_def models_ok_def inst_shape_def hang_ok_def mode_defs)

lemma set_mode_inv: "vad_inv self \<Longrightarrow> WebRtcVad_set_mode (Some self) mode = (r, Some s') \<Longrightarrow> vad_inv s'"
  using set_mode_core_ok [of self mode]
  by (auto simp: WebRtcVad_set_mode_def vad_inv_def Let_def case_prod_beta WebRtcVad_set_mode_core_def split: if_splits)

lemma vad_inv_init: "vad_inv vad_init"
  using core_ok_vad_init by (simp add: vad_inv_def) (simp add: vad_init_def)

lemma vad_step_inv: "vad_step s e s' \<Longrightarrow> vad_inv s \<Longrightarrow> vad_inv s'"
proof (induction rule: vad_step.induct)
  case (step_mode s mode r s')
  then show ?case by (simp add: set_mode_inv)
next
  case (step_process frame n s fs r s')
  then show ?case by (metis Process_ok Pair_inject option.inject)
next
  case (step_init s s')
  then show ?case by (simp add: WebRtcVad_Init_def InitCore_vad_init vad_inv_init)
qed

lemma vad_run_inv: "vad_run s es s' \<Longrightarrow> vad_inv s \<Longrightarrow> vad_inv s'"
  by (induction rule: vad_run.induct) (simp_all add: vad_step_inv)

section \<open>Properties\<close>

text \<open>
  Exactly the four sampling rates with 10, 20 or 30 ms of samples are valid.
\<close>

theorem ValidRateAndFrameLength_table:
  "WebRtcVad_ValidRateAndFrameLength rate n = 0 \<longleftrightarrow>
     (rate, n) \<in> {8000} \<times> {80, 160, 240} \<union> {16000} \<times> {160, 320, 480}
       \<union> {32000} \<times> {320, 640, 960} \<union> {48000} \<times> {480, 960, 1440}"
proof -
  have s: "(if P then 0 else -1) = (0::int) \<longleftrightarrow> P" for P by simp
  consider "rate = 8000" | "rate = 16000" | "rate = 32000" | "rate = 48000"
    | "rate \<notin> {8000, 16000, 32000, 48000}" by blast
  then show ?thesis unfolding ValidRate_eq s by cases simp_all
qed

text \<open>
  C1: Every call of \<open>WebRtcVad_Process\<close> on an initialised detector returns. It answers -1 and
  leaves the detector unchanged exactly when the frame is NULL or the pair of rate and
  length is not valid; otherwise it answers 0 or 1, and the invariant is kept.
\<close>

theorem Process_result:
  assumes "vad_inv self" "frame_readable frame n"
  shows "\<exists>v s'. WebRtcVad_Process (Some self) fs frame n = (v, Some s') \<and> vad_inv s' \<and>
    (if frame = None \<or> WebRtcVad_ValidRateAndFrameLength fs n \<noteq> 0 then v = -1 \<and> s' = self else v \<in> {0, 1})"
  using Process_ok [OF assms] by metis

theorem Process_result_witness:
  "\<exists>v s'. WebRtcVad_Process (Some vad_init) 16000 (Some (replicate 160 100)) 160 = (v, Some s') \<and> v \<in> {0, 1}"
  using Process_result [OF vad_inv_init, of "Some (replicate 160 100)" 160 16000]
  by (auto simp: frame_readable_def is_s16_def ValidRate_eq)

text \<open>
  C3: The invariant of the detector holds after every sequence of calls: whatever modes a
  client sets (valid or not), whatever frames and rates it passes, and however often it
  initialises again, the state reached from initialisation satisfies \<open>vad_inv\<close>.
\<close>

theorem vad_reachable_invariant:
  assumes "vad_run vad_init es s"
  shows "vad_inv s"
  using vad_run_inv [OF assms vad_inv_init] .

theorem vad_reachable_invariant_witness:
  "\<exists>s. vad_run vad_init [SetMode 3 0, ReInit] s \<and> vad_inv s"
proof -
  have m: "WebRtcVad_set_mode (Some vad_init) 3 = (0, Some (snd (WebRtcVad_set_mode_core vad_init 3)))"
    by (simp add: WebRtcVad_set_mode_def WebRtcVad_set_mode_core_def vad_init_def Let_def)
  have "WebRtcVad_Init (Some s) = (0, Some vad_init)" for s
    by (simp add: WebRtcVad_Init_def InitCore_vad_init)
  then have "vad_run vad_init [SetMode 3 0, ReInit] vad_init"
    unfolding vad_run_Cons using vad_step.step_mode [OF m] vad_step.step_init by auto
  then show ?thesis using vad_reachable_invariant by blast
qed

text \<open>
  Mode selection: on an initialised detector the modes 0 to 3 are accepted and replace only
  the four threshold tables; every other mode is answered by -1 and changes nothing.
\<close>

theorem set_mode_spec:
  assumes "init_flag self = kInitCheck"
  shows "WebRtcVad_set_mode (Some self) mode =
    (if 0 \<le> mode \<and> mode \<le> 3
     then (0, Some (self\<lparr>over_hang_max_1 := (if mode \<le> 1 then [8, 4, 3] else [6, 3, 2]),
                        over_hang_max_2 := (if mode \<le> 1 then [14, 7, 5] else [9, 5, 3]),
                        individual := [[24, 21, 24], [37, 32, 37], [82, 78, 82], [94, 94, 94]] ! nat mode,
                        total := [[57, 48, 57], [100, 80, 100], [285, 260, 285], [1100, 1050, 1100]] ! nat mode\<rparr>))
     else (-1, Some self))"
proof -
  consider "mode = 0" | "mode = 1" | "mode = 2" | "mode = 3" | "mode < 0 \<or> 3 < mode" by linarith
  then show ?thesis
  proof cases
    case 5
    then have "mode \<noteq> 0" "mode \<noteq> 1" "mode \<noteq> 2" "mode \<noteq> 3" "\<not> (0 \<le> mode \<and> mode \<le> 3)" by linarith+
    then show ?thesis
      by (simp only: WebRtcVad_set_mode_def WebRtcVad_set_mode_core_def option.case assms if_False
          not_True_eq_False refl Let_def prod.case)
  qed (use assms in \<open>simp_all add: WebRtcVad_set_mode_def WebRtcVad_set_mode_core_def mode_defs Let_def\<close>)
qed

theorem set_mode_spec_witness:
  "fst (WebRtcVad_set_mode (Some vad_init) 4) = -1"
  using set_mode_spec [of vad_init 4] by (simp add: vad_init_def)

text \<open>
  Life cycle: a created detector rejects modes and frames until it is initialised, a failed
  allocation or a NULL handle is reported, and initialisation makes the state the same
  whatever the memory held before.
\<close>

theorem vad_life_cycle:
  "WebRtcVad_Create False mem = (-1, None) \<and> WebRtcVad_Create True None = (-1, None) \<and>
   (snd (WebRtcVad_Create True (Some m)) = Some self \<longrightarrow>
     WebRtcVad_set_mode (Some self) mode = (-1, Some self) \<and>
     WebRtcVad_Process (Some self) fs frame n = (-1, Some self) \<and>
     WebRtcVad_Init (Some self) = (0, Some vad_init))"
  by (auto simp: WebRtcVad_Create_def WebRtcVad_set_mode_def WebRtcVad_Process_def WebRtcVad_Init_def
      InitCore_vad_init)

theorem vad_life_cycle_witness:
  "WebRtcVad_set_mode (snd (WebRtcVad_Create True (Some (vad_init\<lparr>over_hang := 99\<rparr>)))) 2
     = (-1, snd (WebRtcVad_Create True (Some (vad_init\<lparr>over_hang := 99\<rparr>))))"
proof -
  obtain self where self: "snd (WebRtcVad_Create True (Some (vad_init\<lparr>over_hang := 99\<rparr>))) = Some self"
    by (simp add: WebRtcVad_Create_def)
  with vad_life_cycle [of None "vad_init\<lparr>over_hang := 99\<rparr>" self 2] show ?thesis by simp
qed

end
