(* ===== verification/ByteMem.thy ===== *)
theory ByteMem
  imports Prelude "HOL-Library.Monad_Syntax"
begin

text \<open>
  Byte-addressed blocks of memory for the components that copy with \<open>memcpy\<close>: a block is a
  list, \<open>load\<close> and \<open>store\<close> answer None when an access leaves the block, and the operations of
  the clients are written in the option monad, so that a property of the form "the result is
  \<open>Some\<close>" states that no access is out of bounds.  \<open>size_t\<close> is \<^typ>\<open>nat\<close> with the reduction
  modulo two to the power 64 written out.

  The locale \<open>fifo\<close> is the contract of the buffers of the project: what goes in comes out in
  the same order.  Its lemma \<open>stream\<close> extends the contract of the single calls to every
  sequence of calls.
\<close>

section \<open>Sizes\<close>

type_synonym byte = "8 word"

abbreviation (input) size_max :: nat where "size_max \<equiv> 18446744073709551616"

definition sz_add :: "nat \<Rightarrow> nat \<Rightarrow> nat" where
  "sz_add a b = (a + b) mod size_max"

definition sz_sub :: "nat \<Rightarrow> nat \<Rightarrow> nat" where
  "sz_sub a b = (a + (size_max - b mod size_max)) mod size_max"

definition sz_mul :: "nat \<Rightarrow> nat \<Rightarrow> nat" where
  "sz_mul a b = (a * b) mod size_max"

lemma sz_add_exact [simp]: "a + b < size_max \<Longrightarrow> sz_add a b = a + b"
  by (simp add: sz_add_def)

lemma sz_mul_exact [simp]: "a * b < size_max \<Longrightarrow> sz_mul a b = a * b"
  by (simp add: sz_mul_def)

lemma sz_sub_exact [simp]:
  assumes "b \<le> a" "a < size_max"
  shows "sz_sub a b = a - b"
proof -
  have "a + (size_max - b mod size_max) = (a - b) + size_max" using assms by simp
  then have "sz_sub a b = ((a - b) + size_max) mod size_max" by (simp only: sz_sub_def)
  also have "\<dots> = (a - b) mod size_max" by (rule mod_add_self2)
  also have "\<dots> = a - b" using assms by (intro mod_less) simp
  finally show ?thesis .
qed

section \<open>Loads and stores\<close>

definition load :: "nat \<Rightarrow> nat \<Rightarrow> 'a list \<Rightarrow> 'a list option" where
  "load off n mem = (if off + n \<le> length mem then Some (take n (drop off mem)) else None)"

definition store :: "nat \<Rightarrow> 'a list \<Rightarrow> 'a list \<Rightarrow> 'a list option" where
  "store off xs mem = (if off + length xs \<le> length mem then Some (blit mem off xs) else None)"

text \<open>\<open>memcpy (dst + d, src + s, n)\<close> and \<open>memset (dst + d, x, n)\<close>.\<close>

definition memcpy :: "'a list \<Rightarrow> nat \<Rightarrow> 'a list \<Rightarrow> nat \<Rightarrow> nat \<Rightarrow> 'a list option" where
  "memcpy dst d src s n = do { xs \<leftarrow> load s n src; store d xs dst }"

definition memset :: "'a list \<Rightarrow> nat \<Rightarrow> 'a \<Rightarrow> nat \<Rightarrow> 'a list option" where
  "memset dst d x n = store d (replicate n x) dst"

lemma load_Some [simp]: "off + n \<le> length mem \<Longrightarrow> load off n mem = Some (take n (drop off mem))"
  by (simp add: load_def)

lemma store_Some [simp]: "off + length xs \<le> length mem \<Longrightarrow> store off xs mem = Some (blit mem off xs)"
  by (simp add: store_def)

lemma memcpy_Some [simp]:
  "s + n \<le> length src \<Longrightarrow> d + n \<le> length dst \<Longrightarrow>
   memcpy dst d src s n = Some (blit dst d (take n (drop s src)))"
  by (simp add: memcpy_def)

lemma memset_all [simp]: "length dst = n \<Longrightarrow> memset dst 0 x n = Some (replicate n x)"
  by (simp add: memset_def blit_def)

lemma memcpy_length: "memcpy dst d src s n = Some dst' \<Longrightarrow> length dst' = length dst"
  by (auto simp: memcpy_def load_def store_def split: if_splits)

section \<open>A heap of blocks\<close>

text \<open>
  For clients that keep pointers: an address is the position of its block, a freed block is
  None.  A fresh block always gets a new address, so a dangling pointer stays dangling.
\<close>

type_synonym heap = "byte list option list"

definition block_at :: "heap \<Rightarrow> nat \<Rightarrow> byte list option" where
  "block_at h a = (if a < length h then h ! a else None)"

definition h_alloc :: "byte list \<Rightarrow> heap \<Rightarrow> nat \<times> heap" where
  "h_alloc block h = (length h, h @ [Some block])"

definition h_free :: "nat \<Rightarrow> heap \<Rightarrow> heap option" where
  "h_free a h = (case block_at h a of None \<Rightarrow> None | Some _ \<Rightarrow> Some (h[a := None]))"

definition h_store :: "nat \<Rightarrow> byte list \<Rightarrow> heap \<Rightarrow> heap option" where
  "h_store a xs h = (case block_at h a of
      None \<Rightarrow> None
    | Some block \<Rightarrow> do { block \<leftarrow> store 0 xs block; Some (h[a := Some block]) })"

lemma block_at_Some: "block_at h a = Some b \<longleftrightarrow> a < length h \<and> h ! a = Some b"
  by (auto simp: block_at_def)

lemma block_at_update [simp]:
  "a < length h \<Longrightarrow> block_at (h[a := x]) b = (if b = a then x else block_at h b)"
  by (auto simp: block_at_def)

lemma block_at_append [simp]:
  "block_at (h @ [x]) b = (if b = length h then x else block_at h b)"
  by (auto simp: block_at_def nth_append)

section \<open>The contract of a buffer\<close>

text \<open>
  \<open>put\<close> answers the data it accepted (which may be less than it was offered), \<open>get\<close> the
  data it delivered; None is an access out of bounds.
\<close>

datatype ('c, 'd) buffer_call = Put 'c | Get 'd

fun run_calls ::
    "('c \<Rightarrow> 's \<Rightarrow> ('a list \<times> 's) option) \<Rightarrow> ('d \<Rightarrow> 's \<Rightarrow> ('a list \<times> 's) option) \<Rightarrow>
     ('c, 'd) buffer_call list \<Rightarrow> 's \<Rightarrow> ('a list \<times> 'a list \<times> 's) option" where
  "run_calls put get [] s = Some ([], [], s)"
| "run_calls put get (Put c # cs) s = do {
     (xs, s) \<leftarrow> put c s;
     (ins, outs, s) \<leftarrow> run_calls put get cs s;
     Some (xs @ ins, outs, s) }"
| "run_calls put get (Get n # cs) s = do {
     (ys, s) \<leftarrow> get n s;
     (ins, outs, s) \<leftarrow> run_calls put get cs s;
     Some (ins, ys @ outs, s) }"

fun call_ok :: "('c \<Rightarrow> bool) \<Rightarrow> ('d \<Rightarrow> bool) \<Rightarrow> ('c, 'd) buffer_call \<Rightarrow> bool" where
  "call_ok put_ok get_ok (Put c) = put_ok c"
| "call_ok put_ok get_ok (Get n) = get_ok n"

locale fifo =
  fixes inv :: "'s \<Rightarrow> bool" and contents :: "'s \<Rightarrow> 'a list" and shape :: "'s \<Rightarrow> 'k"
    and put :: "'c \<Rightarrow> 's \<Rightarrow> ('a list \<times> 's) option"
    and get :: "'d \<Rightarrow> 's \<Rightarrow> ('a list \<times> 's) option"
    and put_ok :: "'k \<Rightarrow> 'c \<Rightarrow> bool" and get_ok :: "'k \<Rightarrow> 'd \<Rightarrow> bool"
  assumes put_law: "inv s \<Longrightarrow> put_ok (shape s) c \<Longrightarrow>
      \<exists>xs s'. put c s = Some (xs, s') \<and> inv s' \<and> shape s' = shape s \<and> contents s' = contents s @ xs"
    and get_law: "inv s \<Longrightarrow> get_ok (shape s) n \<Longrightarrow>
      \<exists>ys s'. get n s = Some (ys, s') \<and> inv s' \<and> shape s' = shape s \<and> contents s = ys @ contents s'"
begin

lemma stream:
  "inv s \<Longrightarrow> list_all (call_ok (put_ok (shape s)) (get_ok (shape s))) cs \<Longrightarrow>
   \<exists>ins outs s'. run_calls put get cs s = Some (ins, outs, s') \<and> inv s' \<and> shape s' = shape s \<and>
     contents s @ ins = outs @ contents s'"
proof (induction cs arbitrary: s)
  case Nil
  then show ?case by simp
next
  case (Cons c cs)
  show ?case
  proof (cases c)
    case (Put x)
    then obtain xs s1 where s1: "put x s = Some (xs, s1)" "inv s1" "shape s1 = shape s"
        "contents s1 = contents s @ xs"
      using put_law [of s x] Cons.prems by auto
    then obtain ins outs s' where "run_calls put get cs s1 = Some (ins, outs, s')" "inv s'"
        "shape s' = shape s1" "contents s1 @ ins = outs @ contents s'"
      using Cons.IH [OF s1(2)] Cons.prems by auto
    then show ?thesis using Put s1 by simp
  next
    case (Get n)
    then obtain ys s1 where s1: "get n s = Some (ys, s1)" "inv s1" "shape s1 = shape s"
        "contents s = ys @ contents s1"
      using get_law [of s n] Cons.prems by auto
    then obtain ins outs s' where "run_calls put get cs s1 = Some (ins, outs, s')" "inv s'"
        "shape s' = shape s1" "contents s1 @ ins = outs @ contents s'"
      using Cons.IH [OF s1(2)] Cons.prems by auto
    then show ?thesis using Get s1 by simp
  qed
qed

end

text \<open>
  The abstract queue: what \<open>Put\<close> accepts and what \<open>Get\<close> delivers depends only on the contents.
\<close>

fun run_queue ::
    "('a list \<Rightarrow> 'c \<Rightarrow> 'a list) \<Rightarrow> ('a list \<Rightarrow> 'd \<Rightarrow> 'a list) \<Rightarrow>
     ('c, 'd) buffer_call list \<Rightarrow> 'a list \<Rightarrow> 'a list \<times> 'a list \<times> 'a list" where
  "run_queue accept deliver [] q = ([], [], q)"
| "run_queue accept deliver (Put c # cs) q =
     (let (ins, outs, q') = run_queue accept deliver cs (q @ accept q c) in (accept q c @ ins, outs, q'))"
| "run_queue accept deliver (Get n # cs) q =
     (let (ins, outs, q') = run_queue accept deliver cs (drop (length (deliver q n)) q)
      in (ins, deliver q n @ outs, q'))"

locale exact_fifo = fifo +
  fixes accept :: "'b \<Rightarrow> 'c list \<Rightarrow> 'd \<Rightarrow> 'c list" and deliver :: "'b \<Rightarrow> 'c list \<Rightarrow> 'e \<Rightarrow> 'c list"
  assumes put_exact: "inv s \<Longrightarrow> put_ok (shape s) c \<Longrightarrow> put c s = Some (xs, s') \<Longrightarrow> xs = accept (shape s) (contents s) c"
    and get_exact: "inv s \<Longrightarrow> get_ok (shape s) n \<Longrightarrow> get n s = Some (ys, s') \<Longrightarrow> ys = deliver (shape s) (contents s) n"
begin

lemma refines:
  "inv s \<Longrightarrow> list_all (call_ok (put_ok (shape s)) (get_ok (shape s))) cs \<Longrightarrow>
   run_calls put get cs s = Some (ins, outs, s') \<Longrightarrow>
   run_queue (accept (shape s)) (deliver (shape s)) cs (contents s) = (ins, outs, contents s')"
proof (induction cs arbitrary: s ins outs)
  case (Cons c cs)
  show ?case
  proof (cases c)
    case (Put x)
    then obtain xs s1 where s1: "put x s = Some (xs, s1)" "inv s1" "shape s1 = shape s" "contents s1 = contents s @ xs"
      using put_law [of s x] Cons.prems by auto
    then obtain ins1 where "run_calls put get cs s1 = Some (ins1, outs, s')" "ins = xs @ ins1"
      using Cons.prems(3) Put by (auto split: Option.bind_splits)
    then show ?thesis
      using Cons.IH [OF s1(2)] Cons.prems Put s1(3,4) put_exact [OF Cons.prems(1) _ s1(1)] by simp
  next
    case (Get n)
    then obtain ys s1 where s1: "get n s = Some (ys, s1)" "inv s1" "shape s1 = shape s" "contents s = ys @ contents s1"
      using get_law [of s n] Cons.prems by auto
    then obtain outs1 where "run_calls put get cs s1 = Some (ins, outs1, s')" "outs = ys @ outs1"
      using Cons.prems(3) Get by (auto split: Option.bind_splits)
    moreover have "deliver (shape s) (contents s) n = ys" using get_exact [OF Cons.prems(1) _ s1(1)] Cons.prems(2) Get by simp
    moreover have "drop (length ys) (contents s) = contents s1" by (simp add: s1(4))
    ultimately show ?thesis using Cons.IH [OF s1(2)] Cons.prems(2) Get s1(3) by simp
  qed
qed simp

end

end
