(* ===== verification/RingBuffer.thy ===== *)
theory RingBuffer
  imports ByteMem
begin

text \<open>
  The ring buffer of the signal processing library (\<open>ring_buffer.c\<close>), for elements of an
  arbitrary size.  A handle or data pointer that may be NULL is an option; positions and
  counts are \<open>size_t\<close>, and \<open>MoveReadPtr\<close> computes in \<open>int\<close> as the code does.  The
  operations run in the option monad: None is an access outside the block.

  The lemmas refine the buffer to a tape, the readable bytes followed by the writable ones:
  writing fills the front of the writable part, reading and moving the read position shift
  the border between the two parts.
\<close>

section \<open>State\<close>

datatype Wrap = SAME_WRAP | DIFF_WRAP

record RingBuffer =
  read_pos :: nat
  write_pos :: nat
  element_count :: nat
  element_size :: nat
  rw_wrap :: Wrap
  ring_data :: "byte list"

text \<open>The regions of a read are offsets into the block; the second may be NULL.\<close>

datatype region = InBuffer nat | InData

section \<open>Operations\<close>

definition WebRtc_available_read :: "RingBuffer option \<Rightarrow> nat" where
  "WebRtc_available_read handle =
     (case handle of
        None \<Rightarrow> 0
      | Some self \<Rightarrow>
          if rw_wrap self = SAME_WRAP then sz_sub (write_pos self) (read_pos self)
          else sz_add (sz_sub (element_count self) (read_pos self)) (write_pos self))"

definition WebRtc_available_write :: "RingBuffer option \<Rightarrow> nat" where
  "WebRtc_available_write handle =
     (case handle of
        None \<Rightarrow> 0
      | Some self \<Rightarrow> sz_sub (element_count self) (WebRtc_available_read handle))"

definition GetBufferReadRegions :: "RingBuffer \<Rightarrow> nat \<Rightarrow> nat \<times> (nat \<times> nat) \<times> (nat option \<times> nat)" where
  "GetBufferReadRegions buf n =
     (let readable_elements = WebRtc_available_read (Some buf);
          read_elements = (if readable_elements < n then readable_elements else n);
          margin = sz_sub (element_count buf) (read_pos buf)
      in if read_elements > margin
         then (read_elements,
               (sz_mul (read_pos buf) (element_size buf), sz_mul margin (element_size buf)),
               (Some 0, sz_mul (sz_sub read_elements margin) (element_size buf)))
         else (read_elements,
               (sz_mul (read_pos buf) (element_size buf), sz_mul read_elements (element_size buf)),
               (None, 0)))"

definition WebRtc_InitBuffer :: "RingBuffer \<Rightarrow> RingBuffer option" where
  "WebRtc_InitBuffer self = do {
     let self = self\<lparr>read_pos := 0, write_pos := 0, rw_wrap := SAME_WRAP\<rparr>;
     d \<leftarrow> memset (ring_data self) 0 0 (sz_mul (element_count self) (element_size self));
     Some (self\<lparr>ring_data := d\<rparr>) }"

text \<open>
  \<open>malloc_self\<close> is the uninitialised structure the first \<open>malloc\<close> returns, or None;
  \<open>malloc_data\<close> the block of a requested size.
\<close>

definition WebRtc_CreateBuffer ::
    "RingBuffer option \<Rightarrow> (nat \<Rightarrow> byte list option) \<Rightarrow> nat \<Rightarrow> nat \<Rightarrow> RingBuffer option option" where
  "WebRtc_CreateBuffer malloc_self malloc_data n sz =
     (if n = 0 \<or> sz = 0 then Some None
      else case malloc_self of
          None \<Rightarrow> Some None
        | Some self \<Rightarrow>
            (case malloc_data (sz_mul n sz) of
               None \<Rightarrow> Some None
             | Some block \<Rightarrow> do {
                 let self = self\<lparr>ring_data := block\<rparr>;
                 let self = self\<lparr>element_count := n, element_size := sz\<rparr>;
                 self \<leftarrow> WebRtc_InitBuffer self;
                 Some (Some self) }))"

text \<open>\<open>int\<close> values are 32 bits wide; the read position converts back to \<open>size_t\<close>.\<close>

definition WebRtc_MoveReadPtr :: "RingBuffer option \<Rightarrow> int32 \<Rightarrow> int32 \<times> RingBuffer option" where
  "WebRtc_MoveReadPtr handle k =
     (case handle of
        None \<Rightarrow> (0, None)
      | Some self \<Rightarrow>
          let free_elements = s32 (int (WebRtc_available_write (Some self)));
              readable_elements = s32 (int (WebRtc_available_read (Some self)));
              pos = s32 (int (read_pos self));
              k = (if k > readable_elements then readable_elements else k);
              k = (if k < s32 (- free_elements) then s32 (- free_elements) else k);
              pos = s32 (pos + k);
              (pos, self) =
                (if pos > s32 (int (element_count self))
                 then (s32 (pos - s32 (int (element_count self))), self\<lparr>rw_wrap := SAME_WRAP\<rparr>)
                 else (pos, self));
              (pos, self) =
                (if pos < 0
                 then (s32 (pos + s32 (int (element_count self))), self\<lparr>rw_wrap := DIFF_WRAP\<rparr>)
                 else (pos, self))
          in (k, Some (self\<lparr>read_pos := nat (pos mod 2 ^ 64)\<rparr>)))"

text \<open>
  \<open>want_ptr\<close> says that \<open>data_ptr\<close> is not NULL; the answer is the count, the value stored in
  \<open>*data_ptr\<close>, the destination block and the buffer.
\<close>

definition WebRtc_ReadBuffer ::
    "RingBuffer option \<Rightarrow> bool \<Rightarrow> byte list option \<Rightarrow> nat \<Rightarrow>
     (nat \<times> region option \<times> byte list option \<times> RingBuffer option) option" where
  "WebRtc_ReadBuffer handle want_ptr dest n =
     (case (handle, dest) of
        (None, _) \<Rightarrow> Some (0, None, dest, handle)
      | (Some self, None) \<Rightarrow> Some (0, None, dest, handle)
      | (Some self, Some data) \<Rightarrow> do {
          let (read_count, (ptr1, bytes1), (ptr2, bytes2)) = GetBufferReadRegions self n;
          (ptr, data) \<leftarrow>
            (if bytes2 > 0 then do {
               data \<leftarrow> memcpy data 0 (ring_data self) ptr1 bytes1;
               data \<leftarrow> memcpy data bytes1 (ring_data self) (the ptr2) bytes2;
               Some (InData, data) }
             else if \<not> want_ptr then do {
               data \<leftarrow> memcpy data 0 (ring_data self) ptr1 bytes1;
               Some (InBuffer ptr1, data) }
             else Some (InBuffer ptr1, data));
          let (_, handle) = WebRtc_MoveReadPtr (Some self) (s32 (int read_count));
          Some (read_count, if want_ptr then Some ptr else None, Some data, handle) })"

definition WebRtc_WriteBuffer ::
    "RingBuffer option \<Rightarrow> byte list option \<Rightarrow> nat \<Rightarrow> (nat \<times> RingBuffer option) option" where
  "WebRtc_WriteBuffer handle src n =
     (case (handle, src) of
        (None, _) \<Rightarrow> Some (0, None)
      | (Some self, None) \<Rightarrow> Some (0, Some self)
      | (Some self, Some data) \<Rightarrow> do {
          let free_elements = WebRtc_available_write (Some self);
          let write_elements = (if free_elements < n then free_elements else n);
          let margin = sz_sub (element_count self) (write_pos self);
          (n, self) \<leftarrow>
            (if write_elements > margin then do {
               d \<leftarrow> memcpy (ring_data self) (sz_mul (write_pos self) (element_size self))
                      data 0 (sz_mul margin (element_size self));
               Some (sz_sub write_elements margin,
                     self\<lparr>ring_data := d, write_pos := 0, rw_wrap := DIFF_WRAP\<rparr>) }
             else Some (write_elements, self));
          d \<leftarrow> memcpy (ring_data self) (sz_mul (write_pos self) (element_size self))
                 data (sz_mul (sz_sub write_elements n) (element_size self)) (sz_mul n (element_size self));
          Some (write_elements,
                Some (self\<lparr>ring_data := d, write_pos := sz_add (write_pos self) n\<rparr>)) })"

section \<open>The invariant\<close>

definition rb_inv :: "RingBuffer \<Rightarrow> bool" where
  "rb_inv self \<longleftrightarrow>
     0 < element_size self \<and> 0 < element_count self \<and> element_count self < 1073741824 \<and>
     element_count self * element_size self < size_max \<and>
     length (ring_data self) = element_count self * element_size self \<and>
     read_pos self \<le> element_count self \<and> write_pos self \<le> element_count self \<and>
     (rw_wrap self = SAME_WRAP \<longrightarrow> read_pos self \<le> write_pos self) \<and>
     (rw_wrap self = DIFF_WRAP \<longrightarrow> write_pos self \<le> read_pos self)"

definition avail :: "RingBuffer \<Rightarrow> nat" where
  "avail self = (if rw_wrap self = SAME_WRAP then write_pos self - read_pos self
                 else element_count self - read_pos self + write_pos self)"

lemma wrap_cases: "w = SAME_WRAP \<or> w = DIFF_WRAP"
  by (cases w) simp_all

lemma avail_le: "rb_inv self \<Longrightarrow> avail self \<le> element_count self"
  using wrap_cases [of "rw_wrap self"] by (auto simp: rb_inv_def avail_def)

lemma available_read_avail [simp]: "rb_inv self \<Longrightarrow> WebRtc_available_read (Some self) = avail self"
  using wrap_cases [of "rw_wrap self"]
  by (auto simp: WebRtc_available_read_def rb_inv_def avail_def)

lemma available_write_avail [simp]:
  "rb_inv self \<Longrightarrow> WebRtc_available_write (Some self) = element_count self - avail self"
  using avail_le [of self] by (simp add: WebRtc_available_write_def rb_inv_def)

lemma offset_le: "k \<le> n \<Longrightarrow> n * s < (m::nat) \<Longrightarrow> k * s < m"
  by (meson le_less_trans mult_le_mono1)

text \<open>Offsets into the block never wrap around.\<close>

lemma sz_mul_offset: "rb_inv self \<Longrightarrow> k \<le> element_count self \<Longrightarrow>
    sz_mul k (element_size self) = k * element_size self"
  unfolding rb_inv_def by (intro sz_mul_exact offset_le [of k "element_count self"]) auto

section \<open>The tape\<close>

text \<open>
  The readable bytes, oldest first, and the writable bytes in the order in which writing
  fills them; the last writable byte is the one most recently read.
\<close>

type_synonym tape = "byte list \<times> byte list"

fun ring_tape :: "Wrap \<Rightarrow> nat \<Rightarrow> nat \<Rightarrow> byte list \<Rightarrow> tape" where
  "ring_tape SAME_WRAP r w d = (take (w - r) (drop r d), drop w d @ take r d)"
| "ring_tape DIFF_WRAP r w d = (drop r d @ take w d, take (r - w) (drop w d))"

definition tape_of :: "RingBuffer \<Rightarrow> tape" where
  "tape_of self =
     ring_tape (rw_wrap self) (read_pos self * element_size self) (write_pos self * element_size self)
       (ring_data self)"

definition tape_write :: "byte list \<Rightarrow> tape \<Rightarrow> tape" where
  "tape_write xs t = (fst t @ xs, drop (length xs) (snd t))"

definition tape_forward :: "nat \<Rightarrow> tape \<Rightarrow> tape" where
  "tape_forward n t = (drop n (fst t), snd t @ take n (fst t))"

definition tape_back :: "nat \<Rightarrow> tape \<Rightarrow> tape" where
  "tape_back n t =
     (let k = length (snd t) - n in (drop k (snd t) @ fst t, take k (snd t)))"

lemma ring_tape_split:
  "ring_tape SAME_WRAP (length a) (length a + length b) (a @ b @ c) = (b, c @ a)"
  "ring_tape DIFF_WRAP (length a + length b) (length a) (a @ b @ c) = (c @ a, b)"
  by simp_all

lemma split3:
  assumes "m \<le> n" "n \<le> length d"
  obtains a b c where "d = a @ b @ c" "length a = m" "length b = n - m"
proof
  show "d = take m d @ take (n - m) (drop m d) @ drop n d"
    using assms by (metis append_take_drop_id drop_drop le_add_diff_inverse2)
qed (use assms in auto)

lemma split2:
  assumes "n \<le> length d"
  obtains a b where "d = a @ b" "length a = n"
  using assms by (metis append_take_drop_id length_take min.absorb2)

definition wrap_ok :: "Wrap \<Rightarrow> nat \<Rightarrow> nat \<Rightarrow> nat \<Rightarrow> bool" where
  "wrap_ok wrap r w n \<longleftrightarrow> (if wrap = SAME_WRAP then r \<le> w \<and> w \<le> n else w \<le> r \<and> r \<le> n)"

lemma ring_tape_parts:
  assumes "wrap_ok wrap r w (length d)"
  obtains (same) a b c where "wrap = SAME_WRAP" "d = a @ b @ c" "r = length a" "w = length a + length b"
  | (diff) a b c where "wrap = DIFF_WRAP" "d = a @ b @ c" "w = length a" "r = length a + length b"
proof (cases wrap)
  case SAME_WRAP
  with assms have "r \<le> w" "w \<le> length d" by (auto simp: wrap_ok_def)
  then obtain a b c where "d = a @ b @ c" "length a = r" "length b = w - r" by (rule split3)
  then show thesis using SAME_WRAP \<open>r \<le> w\<close> by (intro same) auto
next
  case DIFF_WRAP
  with assms have "w \<le> r" "r \<le> length d" by (auto simp: wrap_ok_def)
  then obtain a b c where "d = a @ b @ c" "length a = w" "length b = r - w" by (rule split3)
  then show thesis using DIFF_WRAP \<open>w \<le> r\<close> by (intro diff) auto
qed

lemma ring_tape_lengths:
  assumes "wrap_ok wrap r w (length d)"
  shows "length (fst (ring_tape wrap r w d)) = (if wrap = SAME_WRAP then w - r else length d - r + w)"
    "length (snd (ring_tape wrap r w d)) = (if wrap = SAME_WRAP then length d - w + r else r - w)"
  using assms by (cases rule: ring_tape_parts; simp add: ring_tape_split)+

lemma ring_tape_forward:
  assumes "wrap_ok wrap r w (length d)" "k \<le> length (fst (ring_tape wrap r w d))"
  shows "ring_tape (if r + k > length d then SAME_WRAP else wrap)
           (if r + k > length d then r + k - length d else r + k) w d =
         tape_forward k (ring_tape wrap r w d)"
  using assms(1)
proof (cases rule: ring_tape_parts)
  case (same a b c)
  then have "k \<le> length b" using assms(2) by simp
  then obtain b1 b2 where "b = b1 @ b2" "length b1 = k" by (rule split2)
  then show ?thesis using same ring_tape_split(1) [of "a @ b1" b2 c]
    by (simp add: tape_forward_def)
next
  case (diff a b c)
  show ?thesis
  proof (cases "k \<le> length c")
    case True
    then obtain c1 c2 where "c = c1 @ c2" "length c1 = k" by (rule split2)
    then show ?thesis using diff ring_tape_split(2) [of a "b @ c1" c2]
      by (simp add: tape_forward_def)
  next
    case False
    then have "k - length c \<le> length a" using assms(2) diff by simp
    then obtain a1 a2 where "a = a1 @ a2" "length a1 = k - length c" by (rule split2)
    moreover have "k = length c + length a1" "a1 \<noteq> []" using calculation False by auto
    ultimately show ?thesis using diff ring_tape_split(1) [of a1 a2 "b @ c"]
      by (simp add: tape_forward_def)
  qed
qed

lemma ring_tape_back:
  assumes "wrap_ok wrap r w (length d)" "k \<le> length (snd (ring_tape wrap r w d))"
  shows "ring_tape (if k > r then DIFF_WRAP else wrap) (if k > r then r + length d - k else r - k) w d =
         tape_back k (ring_tape wrap r w d)"
  using assms(1)
proof (cases rule: ring_tape_parts)
  case (same a b c)
  show ?thesis
  proof (cases "k \<le> r")
    case True
    then have "r - k \<le> length a" using same by simp
    then obtain a1 a2 where "a = a1 @ a2" "length a1 = r - k" by (rule split2)
    then show ?thesis using same True ring_tape_split(1) [of a1 "a2 @ b" c]
      by (simp add: tape_back_def)
  next
    case False
    then have "length c - (k - r) \<le> length c" "k - r \<le> length c" using assms(2) same by auto
    from this(1) obtain c1 c2 where "c = c1 @ c2" "length c1 = length c - (k - r)" by (rule split2)
    then show ?thesis
      using same False \<open>k - r \<le> length c\<close> ring_tape_split(2) [of "a @ b" c1 c2]
      by (simp add: tape_back_def)
  qed
next
  case (diff a b c)
  then have "k \<le> length b" "length b - k \<le> length b" using assms(2) by auto
  from this(2) obtain b1 b2 where "b = b1 @ b2" "length b1 = length b - k" by (rule split2)
  then show ?thesis using diff \<open>k \<le> length b\<close> ring_tape_split(2) [of a b1 "b2 @ c"]
    by (simp add: tape_back_def)
qed

lemma ring_tape_write:
  assumes "wrap_ok wrap r w (length d)" "length xs \<le> length (snd (ring_tape wrap r w d))"
    "length xs \<le> length d - w"
  shows "ring_tape wrap r (w + length xs) (blit d w xs) = tape_write xs (ring_tape wrap r w d)"
  using assms(1)
proof (cases rule: ring_tape_parts)
  case (same a b c)
  then have "length xs \<le> length c" using assms(3) by simp
  then obtain c1 c2 where "c = c1 @ c2" "length c1 = length xs" by (rule split2)
  then show ?thesis using same ring_tape_split(1) [of a "b @ xs" c2]
    by (simp add: tape_write_def blit_def)
next
  case (diff a b c)
  then have "length xs \<le> length b" using assms(2) by simp
  then obtain b1 b2 where "b = b1 @ b2" "length b1 = length xs" by (rule split2)
  then show ?thesis using diff ring_tape_split(2) [of "a @ xs" b2 c]
    by (simp add: tape_write_def blit_def)
qed

lemma ring_tape_write_wrap:
  assumes "wrap_ok wrap r w (length d)" "length (xs @ ys) \<le> length (snd (ring_tape wrap r w d))"
    "length xs = length d - w" "w \<le> length d" "ys \<noteq> []"
  shows "ring_tape DIFF_WRAP r (length ys) (blit (blit d w xs) 0 ys) =
         tape_write (xs @ ys) (ring_tape wrap r w d)"
  using assms(1)
proof (cases rule: ring_tape_parts)
  case (same a b c)
  then have "length ys \<le> length a" "length xs = length c" using assms by auto
  from this(1) obtain a1 a2 where "a = a1 @ a2" "length a1 = length ys" by (rule split2)
  then show ?thesis using same \<open>length xs = length c\<close> ring_tape_split(2) [of ys a2 "b @ xs"]
    by (simp add: tape_write_def blit_def)
next
  case (diff a b c)
  then show ?thesis using assms by simp
qed

lemma rb_wrap_ok:
  assumes "rb_inv self"
  shows "wrap_ok (rw_wrap self) (read_pos self * element_size self) (write_pos self * element_size self)
           (length (ring_data self))"
  using assms wrap_cases [of "rw_wrap self"] by (auto simp: rb_inv_def wrap_ok_def)

lemma tape_lengths:
  assumes "rb_inv self"
  shows "length (fst (tape_of self)) = avail self * element_size self"
    "length (snd (tape_of self)) = (element_count self - avail self) * element_size self"
proof -
  note [simp] = ring_tape_lengths [OF rb_wrap_ok [OF assms]]
  have le: "write_pos self * element_size self \<le> read_pos self * element_size self" if "write_pos self \<le> read_pos self"
    using that by simp
  have "read_pos self * element_size self \<le> element_count self * element_size self"
    using assms by (simp add: rb_inv_def)
  note [arith] = this
  show "length (fst (tape_of self)) = avail self * element_size self"
    "length (snd (tape_of self)) = (element_count self - avail self) * element_size self"
    using assms wrap_cases [of "rw_wrap self"] le
    by (auto simp: tape_of_def rb_inv_def avail_def diff_mult_distrib add_mult_distrib)
qed

section \<open>Moving the read position\<close>

definition forward :: "RingBuffer \<Rightarrow> nat \<Rightarrow> RingBuffer" where
  "forward self j =
     (let beyond = read_pos self + j > element_count self
      in self\<lparr>rw_wrap := (if beyond then SAME_WRAP else rw_wrap self),
              read_pos := (if beyond then read_pos self + j - element_count self else read_pos self + j)\<rparr>)"

definition backward :: "RingBuffer \<Rightarrow> nat \<Rightarrow> RingBuffer" where
  "backward self j =
     (let before = j > read_pos self
      in self\<lparr>rw_wrap := (if before then DIFF_WRAP else rw_wrap self),
              read_pos := (if before then read_pos self + element_count self - j else read_pos self - j)\<rparr>)"

lemma forward_inv: "rb_inv self \<Longrightarrow> j \<le> avail self \<Longrightarrow> rb_inv (forward self j)"
  using wrap_cases [of "rw_wrap self"] by (auto simp: rb_inv_def forward_def avail_def Let_def)

lemma backward_inv: "rb_inv self \<Longrightarrow> j \<le> element_count self - avail self \<Longrightarrow> rb_inv (backward self j)"
  using wrap_cases [of "rw_wrap self"] by (auto simp: rb_inv_def backward_def avail_def Let_def)

lemma scale_add: "(r + j) * s = r * s + j * (s::nat)"
  by (rule add_mult_distrib)

lemma scale_less: "0 < s \<Longrightarrow> (a * s < b * (s::nat)) = (a < b)"
  by simp

lemma forward_tape:
  assumes "rb_inv self" "j \<le> avail self"
  shows "tape_of (forward self j) = tape_forward (j * element_size self) (tape_of self)"
proof -
  let ?s = "element_size self" and ?n = "element_count self"
  have s: "0 < ?s" and len: "length (ring_data self) = ?n * ?s" using assms(1) by (auto simp: rb_inv_def)
  have "j * ?s \<le> length (fst (tape_of self))" using tape_lengths(1) [OF assms(1)] assms(2) by simp
  then have "tape_forward (j * ?s) (tape_of self) =
      ring_tape (if read_pos self * ?s + j * ?s > ?n * ?s then SAME_WRAP else rw_wrap self)
        (if read_pos self * ?s + j * ?s > ?n * ?s then read_pos self * ?s + j * ?s - ?n * ?s
         else read_pos self * ?s + j * ?s) (write_pos self * ?s) (ring_data self)"
    using ring_tape_forward [OF rb_wrap_ok [OF assms(1)], of "j * ?s"]
    by (simp only: tape_of_def len)
  then show ?thesis using s
    by (simp add: tape_of_def forward_def Let_def scale_less [OF s] diff_mult_distrib flip: scale_add)
qed

lemma backward_tape:
  assumes "rb_inv self" "j \<le> element_count self - avail self"
  shows "tape_of (backward self j) = tape_back (j * element_size self) (tape_of self)"
proof -
  let ?s = "element_size self" and ?n = "element_count self"
  have s: "0 < ?s" and len: "length (ring_data self) = ?n * ?s" using assms(1) by (auto simp: rb_inv_def)
  have "j * ?s \<le> length (snd (tape_of self))" using tape_lengths(2) [OF assms(1)] assms(2) by simp
  then have "tape_back (j * ?s) (tape_of self) =
      ring_tape (if j * ?s > read_pos self * ?s then DIFF_WRAP else rw_wrap self)
        (if j * ?s > read_pos self * ?s then read_pos self * ?s + ?n * ?s - j * ?s
         else read_pos self * ?s - j * ?s) (write_pos self * ?s) (ring_data self)"
    using ring_tape_back [OF rb_wrap_ok [OF assms(1)], of "j * ?s"]
    by (simp only: tape_of_def len)
  then show ?thesis using s
    by (simp add: tape_of_def backward_def Let_def scale_less [OF s] diff_mult_distrib flip: scale_add)
qed

text \<open>The computation in \<open>int\<close> is exact: positions and counts are below \<open>2^30\<close>.\<close>

lemma MoveReadPtr_ints:
  assumes "rb_inv self"
  shows "WebRtc_MoveReadPtr (Some self) k =
    (let k = (if k > int (avail self) then int (avail self) else k);
         f = int (element_count self - avail self);
         k = (if k < - f then - f else k);
         pos = int (read_pos self) + k;
         (pos, self) = (if pos > int (element_count self)
                        then (pos - int (element_count self), self\<lparr>rw_wrap := SAME_WRAP\<rparr>) else (pos, self));
         (pos, self) = (if pos < 0
                        then (pos + int (element_count self), self\<lparr>rw_wrap := DIFF_WRAP\<rparr>) else (pos, self))
     in (k, Some (self\<lparr>read_pos := nat pos\<rparr>)))"
proof -
  let ?a = "int (avail self)" and ?n = "int (element_count self)" and ?r = "int (read_pos self)"
  let ?f = "int (element_count self - avail self)"
  define j where "j = (let k = (if k > ?a then ?a else k) in if k < - ?f then - ?f else k)"
  have a: "?a \<le> ?n" "?r \<le> ?n" "?n < 1073741824" "?f = ?n - ?a" "- ?f \<le> 0"
    using avail_le [OF assms] assms by (auto simp: rb_inv_def)
  have j: "- ?f \<le> j" "j \<le> ?a" using a(5) by (auto simp: j_def Let_def)
  have ids: "s32 ?a = ?a" "s32 ?n = ?n" "s32 ?r = ?r" "s32 ?f = ?f" "s32 (- ?f) = - ?f"
    "s32 (?r + j) = ?r + j" "s32 (?r + j - ?n) = ?r + j - ?n"
    "s32 (?r + j - ?n + ?n) = ?r + j - ?n + ?n"
    using a j by (auto intro!: s32_id)
  have neg: "s32 (?r + j + ?n) = ?r + j + ?n" if "?r + j < 0" using a j that by (auto intro!: s32_id)
  have mods: "(?r + j) mod 2 ^ 64 = ?r + j" if "0 \<le> ?r + j" using a j that by (intro mod_pos_pos_trivial) auto
  have mods1: "(?r + j - ?n) mod 2 ^ 64 = ?r + j - ?n" if "?n < ?r + j" using a j that by (intro mod_pos_pos_trivial) auto
  have mods2: "(?r + j + ?n) mod 2 ^ 64 = ?r + j + ?n" if "?r + j < 0" using a j that by (intro mod_pos_pos_trivial) auto
  show ?thesis
    unfolding WebRtc_MoveReadPtr_def option.case available_read_avail [OF assms]
      available_write_avail [OF assms]
    unfolding Let_def ids
    unfolding j_def [symmetric, unfolded Let_def] ids
    using neg mods mods1 mods2 a by (auto split: if_splits)
qed

lemma MoveReadPtr_forward:
  assumes "rb_inv self" "0 \<le> k"
  shows "WebRtc_MoveReadPtr (Some self) k =
    (let j = min (nat k) (avail self) in (int j, Some (forward self j)))"
proof -
  have "(if k > int (avail self) then int (avail self) else k) = int (min (nat k) (avail self))"
    using assms(2) by auto
  then show ?thesis
    unfolding MoveReadPtr_ints [OF assms(1)] forward_def
    by (auto simp: Let_def nat_diff_distrib of_nat_diff nat_add_distrib split: if_splits)
qed

lemma MoveReadPtr_backward:
  assumes "rb_inv self" "k < 0"
  shows "WebRtc_MoveReadPtr (Some self) k =
    (let j = min (nat (- k)) (element_count self - avail self) in (- int j, Some (backward self j)))"
proof -
  let ?f = "element_count self - avail self"
  define j where "j = min (nat (- k)) ?f"
  have k: "(if k > int (avail self) then int (avail self) else k) = k"
    "(if k < - int ?f then - int ?f else k) = - int j"
    using assms(2) by (auto simp: j_def)
  have r: "read_pos self \<le> element_count self" "j \<le> element_count self"
    using assms(1) by (auto simp: rb_inv_def j_def)
  have pos: "nat (int (read_pos self) + (- int j)) = read_pos self - j"
    "nat (int (read_pos self) + (- int j) + int (element_count self)) = read_pos self + element_count self - j"
    "(int (read_pos self) + (- int j) < 0) = (read_pos self < j)"
    "(int (read_pos self) + (- int j) > int (element_count self)) = False"
    using r by auto
  show ?thesis
    unfolding MoveReadPtr_ints [OF assms(1)] backward_def Let_def k j_def [symmetric] pos
    by (simp add: pos)
qed

section \<open>Reading and writing\<close>

lemma ring_tape_read:
  assumes "wrap_ok wrap r w (length d)" "k \<le> length (fst (ring_tape wrap r w d))"
  shows "take k (fst (ring_tape wrap r w d)) =
    (if k > length d - r then drop r d @ take (k - (length d - r)) d else take k (drop r d))"
  using assms by (cases rule: ring_tape_parts) (auto simp: min_def)

lemma GetBufferReadRegions_eq:
  assumes "rb_inv self"
  shows "GetBufferReadRegions self n =
    (let m = min n (avail self); s = element_size self; margin = element_count self - read_pos self
     in if m > margin then (m, (read_pos self * s, margin * s), (Some 0, (m - margin) * s))
        else (m, (read_pos self * s, m * s), (None, 0)))"
proof -
  have le: "avail self \<le> element_count self" by (rule avail_le [OF assms])
  have inv: "read_pos self \<le> element_count self" "element_count self < 1073741824"
    using assms by (auto simp: rb_inv_def)
  have m: "(if avail self < n then avail self else n) = min n (avail self)" by auto
  have margin: "sz_sub (element_count self) (read_pos self) = element_count self - read_pos self"
    using inv by simp
  have rest: "sz_sub (min n (avail self)) (element_count self - read_pos self) =
      min n (avail self) - (element_count self - read_pos self)"
    if "min n (avail self) > element_count self - read_pos self"
    using that inv le by (intro sz_sub_exact) auto
  show ?thesis
    unfolding GetBufferReadRegions_def available_read_avail [OF assms] Let_def m margin
    using rest inv le by (simp add: sz_mul_offset [OF assms])
qed

text \<open>The bytes a client finds at the address stored in \<open>*data_ptr\<close>.\<close>

fun region_bytes :: "region \<Rightarrow> byte list \<Rightarrow> RingBuffer \<Rightarrow> nat \<Rightarrow> byte list" where
  "region_bytes (InBuffer off) data self k = take k (drop off (ring_data self))"
| "region_bytes InData data self k = take k data"

definition read_count :: "RingBuffer \<Rightarrow> nat \<Rightarrow> nat" where
  "read_count self n = min n (avail self)"

definition read_bytes :: "RingBuffer \<Rightarrow> nat \<Rightarrow> byte list" where
  "read_bytes self n = take (read_count self n * element_size self) (fst (tape_of self))"

lemma forward_data [simp]: "ring_data (forward self j) = ring_data self"
  by (simp add: forward_def Let_def)

lemma blit_two:
  "length xs + length ys \<le> length d \<Longrightarrow> blit (blit d 0 xs) (length xs) ys = blit d 0 (xs @ ys)"
  by (simp add: blit_def add.commute)

lemma ReadBuffer_Some:
  assumes inv: "rb_inv self" and room: "read_count self n * element_size self \<le> length data"
  shows "\<exists>ptr data'. WebRtc_ReadBuffer (Some self) want_ptr (Some data) n =
      Some (read_count self n, if want_ptr then Some ptr else None, Some data',
            Some (forward self (read_count self n))) \<and>
    length data' = length data \<and>
    region_bytes ptr data' self (read_count self n * element_size self) = read_bytes self n \<and>
    (\<not> want_ptr \<longrightarrow> data' = blit data 0 (read_bytes self n))"
proof -
  let ?m = "read_count self n" and ?s = "element_size self" and ?d = "ring_data self"
  let ?r = "read_pos self" and ?margin = "element_count self - read_pos self"
  have i: "?r \<le> element_count self" "0 < ?s" "element_count self < 1073741824"
    "length ?d = element_count self * ?s" using inv by (auto simp: rb_inv_def)
  have m: "?m \<le> avail self" "?m \<le> element_count self"
    using avail_le [OF inv] by (auto simp: read_count_def)
  have move: "WebRtc_MoveReadPtr (Some self) (s32 (int ?m)) = (int ?m, Some (forward self ?m))"
    using MoveReadPtr_forward [OF inv, of "int ?m"] m i by (simp add: Let_def min_def)
  have "?m * ?s \<le> length (fst (tape_of self))" using m(1) by (simp add: tape_lengths [OF inv])
  then have bytes: "read_bytes self n =
      (if ?m * ?s > length ?d - ?r * ?s then drop (?r * ?s) ?d @ take (?m * ?s - (length ?d - ?r * ?s)) ?d
       else take (?m * ?s) (drop (?r * ?s) ?d))"
    unfolding read_bytes_def tape_of_def using ring_tape_read [OF rb_wrap_ok [OF inv]] by simp
  have marg: "length ?d - ?r * ?s = ?margin * ?s" using i by (simp add: diff_mult_distrib)
  have len: "length (read_bytes self n) = ?m * ?s"
    unfolding read_bytes_def using m(1) by (simp add: tape_lengths [OF inv])
  note regions = GetBufferReadRegions_eq [OF inv, of n, folded read_count_def]
  show ?thesis
  proof (cases "?m > ?margin")
    case True
    define xs ys where "xs = drop (?r * ?s) ?d" and "ys = take ((?m - ?margin) * ?s) ?d"
    have wrap: "read_bytes self n = xs @ ys"
    proof -
      have "?m * ?s > ?margin * ?s" using True i(2) by simp
      then show ?thesis
        unfolding bytes marg xs_def ys_def by (simp only: if_True diff_mult_distrib)
    qed
    have xs: "length xs = ?margin * ?s" unfolding xs_def by (simp add: marg)
    have c1: "memcpy data 0 ?d (?r * ?s) (?margin * ?s) = Some (blit data 0 xs)"
      using room len wrap xs i marg by (simp add: xs_def diff_mult_distrib)
    have c2: "memcpy (blit data 0 xs) (?margin * ?s) ?d 0 ((?m - ?margin) * ?s) = Some (blit data 0 (xs @ ys))"
    proof -
      have "(?m - ?margin) * ?s \<le> length ?d" using m(2) i(4) by (simp add: mult_le_mono1 le_diff_conv)
      then have "length ys = (?m - ?margin) * ?s" by (simp add: ys_def)
      then show ?thesis
        using room len wrap xs \<open>(?m - ?margin) * ?s \<le> length ?d\<close> blit_two [of xs ys data]
        by (simp add: ys_def)
    qed
    have "(?m - ?margin) * ?s > 0" using True i(2) by simp
    then show ?thesis
      using True c1 c2 move wrap room len
      by (intro exI [of _ InData] exI [of _ "blit data 0 (xs @ ys)"])
        (simp add: WebRtc_ReadBuffer_def regions Let_def blit_def)
  next
    case False
    then have "\<not> ?m * ?s > ?margin * ?s" by simp
    then have flat: "read_bytes self n = take (?m * ?s) (drop (?r * ?s) ?d)"
      unfolding bytes marg by (simp only: if_False)
    have "?r * ?s \<le> length ?d" unfolding i(4) using i(1) by simp
    then have "?r * ?s + ?m * ?s \<le> length ?d"
      using \<open>\<not> ?m * ?s > ?margin * ?s\<close> marg by linarith
    then show ?thesis
      using False move flat room len
      by (intro exI [of _ "InBuffer (?r * ?s)"], cases want_ptr)
        (auto simp: WebRtc_ReadBuffer_def regions Let_def)
  qed
qed

definition write_count :: "RingBuffer \<Rightarrow> nat \<Rightarrow> nat" where
  "write_count self n = min n (element_count self - avail self)"

lemma rb_inv_written:
  assumes "rb_inv self" "j \<le> element_count self - avail self" "length d = length (ring_data self)"
  shows "write_pos self + j \<le> element_count self \<Longrightarrow>
      rb_inv (self\<lparr>ring_data := d, write_pos := write_pos self + j\<rparr>)"
    "write_pos self + j > element_count self \<Longrightarrow>
      rb_inv (self\<lparr>ring_data := d, write_pos := write_pos self + j - element_count self, rw_wrap := DIFF_WRAP\<rparr>)"
  using assms wrap_cases [of "rw_wrap self"] by (auto simp: rb_inv_def avail_def)

lemma WriteBuffer_Some:
  assumes inv: "rb_inv self" and room: "write_count self n * element_size self \<le> length data"
  shows "\<exists>self'. WebRtc_WriteBuffer (Some self) (Some data) n = Some (write_count self n, Some self') \<and>
    rb_inv self' \<and> element_size self' = element_size self \<and> element_count self' = element_count self \<and>
    tape_of self' = tape_write (take (write_count self n * element_size self) data) (tape_of self)"
proof -
  let ?m = "write_count self n" and ?s = "element_size self" and ?d = "ring_data self"
  let ?w = "write_pos self" and ?margin = "element_count self - write_pos self"
  have i: "?w \<le> element_count self" "0 < ?s" "element_count self < 1073741824"
    "length ?d = element_count self * ?s" using inv by (auto simp: rb_inv_def)
  have m: "?m \<le> element_count self - avail self" "?m \<le> element_count self"
    by (auto simp: write_count_def)
  have n: "(if element_count self - avail self < n then element_count self - avail self else n) = ?m"
    by (auto simp: write_count_def)
  have margin: "sz_sub (element_count self) ?w = ?margin" using i by simp
  note sz = sz_mul_offset [OF inv]
  define xs where "xs = take (?m * ?s) data"
  have xs: "length xs = ?m * ?s" using room by (simp add: xs_def)
  have fits: "length xs \<le> length (snd (tape_of self))"
    unfolding xs tape_lengths [OF inv] using m(1) by simp
  have marg: "length ?d - ?w * ?s = ?margin * ?s" using i by (simp add: diff_mult_distrib)
  have wle: "?w * ?s \<le> length ?d" unfolding i(4) using i(1) by simp
  note ok = rb_wrap_ok [OF inv]
  show ?thesis
  proof (cases "?m > ?margin")
    case False
    then have "?m * ?s \<le> ?margin * ?s" by simp
    then have le: "?w * ?s + ?m * ?s \<le> length ?d" using marg wle by linarith
    have copy: "memcpy ?d (?w * ?s) data 0 (?m * ?s) = Some (blit ?d (?w * ?s) xs)"
      using le room by (simp add: xs_def)
    let ?self = "self\<lparr>ring_data := blit ?d (?w * ?s) xs, write_pos := ?w + ?m\<rparr>"
    have "WebRtc_WriteBuffer (Some self) (Some data) n = Some (?m, Some ?self)"
      unfolding WebRtc_WriteBuffer_def option.case prod.case available_write_avail [OF inv] Let_def n margin
      using False m i copy by (simp add: sz sz_mul_def [of 0])
    moreover have "rb_inv ?self"
      using rb_inv_written(1) [OF inv m(1)] False i le xs by simp
    moreover have "tape_of ?self = tape_write xs (tape_of self)"
      using ring_tape_write [OF ok, of xs] fits le xs
      by (simp add: tape_of_def add_mult_distrib)
    ultimately show ?thesis by (intro exI [of _ ?self]) (simp add: xs_def)
  next
    case True
    define a b where "a = take (?margin * ?s) data" and "b = take ((?m - ?margin) * ?s) (drop (?margin * ?s) data)"
    have le: "?margin * ?s \<le> ?m * ?s" and lt: "0 < (?m - ?margin) * ?s" using True i by auto
    have ms: "(?m - ?margin) * ?s = ?m * ?s - ?margin * ?s" by (simp add: diff_mult_distrib)
    have ab: "xs = a @ b" unfolding xs_def a_def b_def ms using le by (simp flip: take_add)
    have a: "length a = ?margin * ?s" using le_trans [OF le room] by (simp add: a_def)
    have b: "length b = (?m - ?margin) * ?s" using xs a ms unfolding ab by simp
    have c1: "memcpy ?d (?w * ?s) data 0 (?margin * ?s) = Some (blit ?d (?w * ?s) a)"
    proof -
      have "0 + ?margin * ?s \<le> length data" "?w * ?s + ?margin * ?s \<le> length ?d"
        using le_trans [OF le room] marg wle by linarith+
      then show ?thesis by (simp only: memcpy_Some a_def drop_0)
    qed
    have bd: "(?m - ?margin) * ?s \<le> length ?d" unfolding i(4) using m by (intro mult_le_mono1) linarith
    have lena: "length (blit ?d (?w * ?s) a) = length ?d"
      using a marg wle by (intro length_blit) linarith
    then have c2: "memcpy (blit ?d (?w * ?s) a) 0 data (?margin * ?s) ((?m - ?margin) * ?s) =
        Some (blit (blit ?d (?w * ?s) a) 0 b)"
      unfolding b_def using le room ms bd by (intro memcpy_Some) linarith+
    let ?self = "self\<lparr>ring_data := blit (blit ?d (?w * ?s) a) 0 b, write_pos := ?m - ?margin,
                      rw_wrap := DIFF_WRAP\<rparr>"
    have "WebRtc_WriteBuffer (Some self) (Some data) n = Some (?m, Some ?self)"
      unfolding WebRtc_WriteBuffer_def option.case prod.case available_write_avail [OF inv] Let_def n margin
      using True m i c1 c2 by (simp add: sz sz_mul_def [of 0])
    moreover have "rb_inv ?self"
    proof -
      have "length (blit (blit ?d (?w * ?s) a) 0 b) = length ?d"
        using lena b bd length_blit [of 0 b "blit ?d (?w * ?s) a"] by simp
      moreover have "?w + ?m > element_count self" "?m - ?margin = ?w + ?m - element_count self"
        using True i(1) by linarith+
      ultimately show ?thesis using rb_inv_written(2) [OF inv m(1)] by simp
    qed
    moreover have "tape_of ?self = tape_write xs (tape_of self)"
    proof -
      have "b \<noteq> []" using b lt by auto
      then have "ring_tape DIFF_WRAP (read_pos self * ?s) (length b) (blit (blit ?d (?w * ?s) a) 0 b) =
          tape_write (a @ b) (tape_of self)"
        unfolding tape_of_def using fits a marg wle
        by (intro ring_tape_write_wrap [OF ok]) (simp_all add: tape_of_def ab)
      then show ?thesis by (simp add: tape_of_def ab b del: ring_tape.simps)
    qed
    ultimately show ?thesis by (intro exI [of _ ?self]) (simp add: xs_def)
  qed
qed

section \<open>The calls of a client\<close>

text \<open>One call on a valid handle: its answer, the bytes it delivers and the new state.\<close>

datatype rb_op = Write "byte list" nat | Read bool "byte list" nat | Move int32

fun rb_exec :: "rb_op \<Rightarrow> RingBuffer \<Rightarrow> (int \<times> byte list \<times> RingBuffer) option" where
  "rb_exec (Write data n) self = do {
     (m, handle) \<leftarrow> WebRtc_WriteBuffer (Some self) (Some data) n;
     Some (int m, [], the handle) }"
| "rb_exec (Read want_ptr data n) self = do {
     (m, ptr, data', handle) \<leftarrow> WebRtc_ReadBuffer (Some self) want_ptr (Some data) n;
     let k = m * element_size self;
     Some (int m, if want_ptr then region_bytes (the ptr) (the data') self k else take k (the data'),
           the handle) }"
| "rb_exec (Move k) self =
     (let (j, handle) = WebRtc_MoveReadPtr (Some self) k in Some (j, [], the handle))"

text \<open>The same call on the tape of a buffer whose elements have \<open>s\<close> bytes.\<close>

fun tape_exec :: "nat \<Rightarrow> rb_op \<Rightarrow> tape \<Rightarrow> int \<times> byte list \<times> tape" where
  "tape_exec s (Write data n) t =
     (let m = min n (length (snd t) div s) in (int m, [], tape_write (take (m * s) data) t))"
| "tape_exec s (Read want_ptr data n) t =
     (let m = min n (length (fst t) div s) in (int m, take (m * s) (fst t), tape_forward (m * s) t))"
| "tape_exec s (Move k) t =
     (if k \<ge> 0
      then let j = min (nat k) (length (fst t) div s) in (int j, [], tape_forward (j * s) t)
      else let j = min (nat (- k)) (length (snd t) div s) in (- int j, [], tape_back (j * s) t))"

text \<open>The client's blocks hold the elements it asks for.\<close>

fun rb_op_ok :: "nat \<Rightarrow> rb_op \<Rightarrow> bool" where
  "rb_op_ok s (Write data n) = (n * s \<le> length data)"
| "rb_op_ok s (Read want_ptr data n) = (n * s \<le> length data)"
| "rb_op_ok s (Move k) = True"

lemma forward_size [simp]:
  "element_size (forward self j) = element_size self" "element_count (forward self j) = element_count self"
  by (simp_all add: forward_def Let_def)

lemma backward_size [simp]:
  "element_size (backward self j) = element_size self" "element_count (backward self j) = element_count self"
  by (simp_all add: backward_def Let_def)

lemma tape_units:
  assumes "rb_inv self"
  shows "length (fst (tape_of self)) div element_size self = avail self"
    "length (snd (tape_of self)) div element_size self = element_count self - avail self"
  using assms by (simp_all add: tape_lengths rb_inv_def)

definition rb_shape :: "RingBuffer \<Rightarrow> nat \<times> nat" where
  "rb_shape self = (element_count self, element_size self)"

lemma min_scale: "n * s \<le> k \<Longrightarrow> min n m * s \<le> (k::nat)"
  by (meson le_trans min.cobounded1 mult_le_mono1)

lemma rb_exec_tape:
  assumes inv: "rb_inv self" and ok: "rb_op_ok (element_size self) op"
  shows "\<exists>ans bytes self'. rb_exec op self = Some (ans, bytes, self') \<and> rb_inv self' \<and>
    rb_shape self' = rb_shape self \<and>
    tape_exec (element_size self) op (tape_of self) = (ans, bytes, tape_of self')"
proof (cases op)
  case (Write data n)
  have "write_count self n * element_size self \<le> length data"
    using ok Write by (simp add: write_count_def min_scale)
  from WriteBuffer_Some [OF inv this] show ?thesis
    using Write by (auto simp: rb_shape_def tape_units [OF inv] write_count_def Let_def)
next
  case (Read want_ptr data n)
  let ?m = "read_count self n"
  have m: "?m \<le> avail self" by (simp add: read_count_def)
  have "?m * element_size self \<le> length data"
    using ok Read by (simp add: read_count_def min_scale)
  from ReadBuffer_Some [OF inv this, of want_ptr] obtain ptr data' where
    read: "WebRtc_ReadBuffer (Some self) want_ptr (Some data) n =
      Some (?m, if want_ptr then Some ptr else None, Some data', Some (forward self ?m))"
    "region_bytes ptr data' self (?m * element_size self) = read_bytes self n"
    "\<not> want_ptr \<longrightarrow> data' = blit data 0 (read_bytes self n)" by auto
  have "length (read_bytes self n) = ?m * element_size self"
    unfolding read_bytes_def using m by (simp add: tape_lengths [OF inv])
  then have "rb_exec op self = Some (int ?m, read_bytes self n, forward self ?m)"
    using Read read by (auto simp: blit_def)
  then show ?thesis
    using Read forward_inv [OF inv m] forward_tape [OF inv m]
    by (simp add: rb_shape_def tape_units [OF inv] read_bytes_def Let_def flip: read_count_def)
next
  case (Move k)
  show ?thesis
  proof (cases "0 \<le> k")
    case True
    then show ?thesis
      using Move forward_inv [OF inv] forward_tape [OF inv] MoveReadPtr_forward [OF inv True]
      by (simp add: rb_shape_def tape_units [OF inv] Let_def)
  next
    case False
    then show ?thesis
      using Move backward_inv [OF inv] backward_tape [OF inv] MoveReadPtr_backward [OF inv, of k]
      by (simp add: rb_shape_def tape_units [OF inv] Let_def)
  qed
qed

section \<open>The buffer keeps the contract of a queue\<close>

definition rb_put :: "byte list \<times> nat \<Rightarrow> RingBuffer \<Rightarrow> (byte list \<times> RingBuffer) option" where
  "rb_put c self = do {
     (m, _, self') \<leftarrow> rb_exec (Write (fst c) (snd c)) self;
     Some (take (nat m * element_size self) (fst c), self') }"

definition rb_get :: "bool \<times> byte list \<times> nat \<Rightarrow> RingBuffer \<Rightarrow> (byte list \<times> RingBuffer) option" where
  "rb_get c self = do {
     (_, bytes, self') \<leftarrow> rb_exec (Read (fst c) (fst (snd c)) (snd (snd c))) self;
     Some (bytes, self') }"

definition rb_put_ok :: "nat \<times> nat \<Rightarrow> byte list \<times> nat \<Rightarrow> bool" where
  "rb_put_ok k c \<longleftrightarrow> rb_op_ok (snd k) (Write (fst c) (snd c))"

definition rb_get_ok :: "nat \<times> nat \<Rightarrow> bool \<times> byte list \<times> nat \<Rightarrow> bool" where
  "rb_get_ok k c \<longleftrightarrow> rb_op_ok (snd k) (Read (fst c) (fst (snd c)) (snd (snd c)))"

interpretation rb: fifo rb_inv "\<lambda>self. fst (tape_of self)" rb_shape rb_put rb_get rb_put_ok rb_get_ok
proof
  fix self c
  assume "rb_inv self" "rb_put_ok (rb_shape self) c"
  then show "\<exists>xs s'. rb_put c self = Some (xs, s') \<and> rb_inv s' \<and> rb_shape s' = rb_shape self \<and>
      fst (tape_of s') = fst (tape_of self) @ xs"
    using rb_exec_tape [of self "Write (fst c) (snd c)"]
    by (auto simp: rb_put_def rb_put_ok_def rb_shape_def tape_write_def Let_def prod_eq_iff simp del: rb_exec.simps)
next
  fix self c
  assume "rb_inv self" "rb_get_ok (rb_shape self) c"
  then show "\<exists>ys s'. rb_get c self = Some (ys, s') \<and> rb_inv s' \<and> rb_shape s' = rb_shape self \<and>
      fst (tape_of self) = ys @ fst (tape_of s')"
    using rb_exec_tape [of self "Read (fst c) (fst (snd c)) (snd (snd c))"]
    by (auto simp: rb_get_def rb_get_ok_def rb_shape_def tape_forward_def Let_def prod_eq_iff simp del: rb_exec.simps)
      (metis append_take_drop_id)
qed

lemma CreateBuffer_inv:
  assumes "WebRtc_CreateBuffer malloc_self malloc_data n s = Some (Some self)"
    and "\<And>k block. malloc_data k = Some block \<Longrightarrow> length block = k"
    and "n < 1073741824" "n * s < size_max"
  shows "rb_inv self \<and> rb_shape self = (n, s) \<and> fst (tape_of self) = []"
  using assms(1,3,4) assms(2) [of "n * s"]
  by (auto simp: WebRtc_CreateBuffer_def WebRtc_InitBuffer_def rb_inv_def tape_of_def rb_shape_def
      split: if_splits option.splits)

section \<open>Properties\<close>

text \<open>
  C2: Every call on a ring buffer in a reachable state (write, read through a pointer or by
  copying, move of the read position in either direction) stays inside the memory of the
  buffer and of the client, keeps the invariant, and answers and acts like the call on the
  tape: write and read counts are limited to the free and the readable elements, the bytes
  read are the oldest ones, and a move shifts the border between the readable and the
  writable part of the tape.
\<close>

theorem RingBuffer_refines_tape:
  assumes "rb_inv self" and "rb_op_ok (element_size self) op"
  shows "\<exists>ans bytes self'. rb_exec op self = Some (ans, bytes, self') \<and> rb_inv self' \<and>
    tape_exec (element_size self) op (tape_of self) = (ans, bytes, tape_of self')"
  using rb_exec_tape [OF assms] by blast

theorem RingBuffer_refines_tape_witness:
  "let self = \<lparr>read_pos = 2, write_pos = 1, element_count = 3, element_size = 2, rw_wrap = DIFF_WRAP,
               ring_data = [5, 6, 7, 8, 3, 4]\<rparr>
   in \<exists>ans bytes self'. rb_exec (Read True [0, 0, 0, 0, 0, 0] 3) self = Some (ans, bytes, self') \<and>
        (ans, bytes, tape_of self') = (2, [3, 4, 5, 6], ([], [7, 8, 3, 4, 5, 6]))"
proof -
  let ?self = "\<lparr>read_pos = 2, write_pos = 1, element_count = 3, element_size = 2, rw_wrap = DIFF_WRAP,
               ring_data = [5, 6, 7, 8, 3, 4]\<rparr>"
  have "rb_inv ?self" "rb_op_ok (element_size ?self) (Read True [0, 0, 0, 0, 0, 0] 3)"
    by (simp_all add: rb_inv_def)
  from RingBuffer_refines_tape [OF this]
  show ?thesis by (auto simp: tape_of_def tape_forward_def Let_def)
qed

text \<open>
  C24: A ring buffer is a queue for its whole life: after any sequence of writes and reads on
  a new buffer, with client blocks large enough for the counts they name, no call was out of
  bounds and the bytes accepted so far are the bytes delivered so far followed by the bytes
  still readable.
\<close>

theorem RingBuffer_stream:
  assumes "WebRtc_CreateBuffer malloc_self malloc_data n s = Some (Some self)"
    and "\<And>k block. malloc_data k = Some block \<Longrightarrow> length block = k"
    and "n < 1073741824" "n * s < size_max"
    and "list_all (call_ok (rb_put_ok (n, s)) (rb_get_ok (n, s))) cs"
  shows "\<exists>ins outs self'. run_calls rb_put rb_get cs self = Some (ins, outs, self') \<and>
    ins = outs @ fst (tape_of self')"
  using CreateBuffer_inv [OF assms(1-4)] rb.stream [of self cs] assms(5) by auto

theorem RingBuffer_stream_witness:
  "\<exists>ins outs self'.
     run_calls rb_put rb_get
       [Put ([1, 2, 3], 3), Get (True, [0, 0], 2), Put ([4, 5, 6], 3), Get (False, [0, 0, 0], 3)]
       \<lparr>read_pos = 0, write_pos = 0, element_count = 3, element_size = 1, rw_wrap = SAME_WRAP,
        ring_data = [0, 0, 0]\<rparr> = Some (ins, outs, self') \<and>
     ins = outs @ fst (tape_of self')"
proof (rule RingBuffer_stream [where malloc_data = "\<lambda>k. Some (replicate k 7)" and n = 3 and s = 1 and
      malloc_self = "Some \<lparr>read_pos = 9, write_pos = 9, element_count = 9, element_size = 9,
                            rw_wrap = DIFF_WRAP, ring_data = []\<rparr>"])
  show "WebRtc_CreateBuffer
     (Some \<lparr>read_pos = 9, write_pos = 9, element_count = 9, element_size = 9, rw_wrap = DIFF_WRAP,
            ring_data = []\<rparr>) (\<lambda>k. Some (replicate k 7)) 3 1 =
     Some (Some \<lparr>read_pos = 0, write_pos = 0, element_count = 3, element_size = 1, rw_wrap = SAME_WRAP,
                 ring_data = [0, 0, 0]\<rparr>)"
    by (simp add: WebRtc_CreateBuffer_def WebRtc_InitBuffer_def numeral_3_eq_3)
qed (auto simp: rb_put_ok_def rb_get_ok_def)

text \<open>
  Reading \<open>m\<close> elements and moving the read position back by \<open>m\<close> restores the tape, so
  the same elements can be read again (the echo cancellers rewind their buffers this way).
\<close>

theorem RingBuffer_rewind:
  assumes "rb_inv self" and "n * element_size self \<le> length data"
    and "rb_exec (Read want_ptr data n) self = Some (m, bytes, self')"
  shows "\<exists>self''. rb_exec (Move (- m)) self' = Some (- m, [], self'') \<and> tape_of self'' = tape_of self"
proof -
  let ?s = "element_size self" and ?m = "min n (avail self)"
  have s: "0 < ?s" using assms(1) by (simp add: rb_inv_def)
  have read: "m = int ?m" "rb_inv self'" "rb_shape self' = rb_shape self"
    "tape_of self' = tape_forward (?m * ?s) (tape_of self)"
    using rb_exec_tape [OF assms(1), of "Read want_ptr data n"] assms(2,3)
    by (auto simp: tape_units [OF assms(1)] Let_def simp del: rb_exec.simps)
  have m: "?m * ?s \<le> length (fst (tape_of self))" by (simp add: tape_lengths [OF assms(1)])
  then have units: "length (snd (tape_of self')) = length (snd (tape_of self)) + ?m * ?s"
    using read(4) by (simp add: tape_forward_def)
  then have "?m \<le> length (snd (tape_of self')) div ?s" using s by simp
  then have "tape_exec ?s (Move (- m)) (tape_of self') = (- m, [], tape_of self)"
    using read m units by (cases "?m = 0") (auto simp: tape_forward_def tape_back_def Let_def min_absorb1)
  then show ?thesis
    using rb_exec_tape [OF read(2), of "Move (- m)"] read(3)
    by (auto simp: rb_shape_def simp del: rb_exec.simps tape_exec.simps)
qed

theorem RingBuffer_rewind_witness:
  "let self = \<lparr>read_pos = 2, write_pos = 1, element_count = 3, element_size = 2, rw_wrap = DIFF_WRAP,
               ring_data = [5, 6, 7, 8, 3, 4]\<rparr>
   in \<exists>self''. rb_exec (Move (- 2)) (forward self 2) = Some (- 2, [], self'') \<and>
        tape_of self'' = tape_of self"
proof -
  let ?self = "\<lparr>read_pos = 2, write_pos = 1, element_count = 3, element_size = 2, rw_wrap = DIFF_WRAP,
               ring_data = [5, 6, 7, 8, 3, 4]\<rparr>"
  have inv: "rb_inv ?self" by (simp add: rb_inv_def)
  have "rb_exec (Read True [0, 0, 0, 0, 0, 0] 2) ?self = Some (2, [3, 4, 5, 6], forward ?self 2)"
    using ReadBuffer_Some [OF inv, of 2 "[0, 0, 0, 0, 0, 0]" True]
    by (auto simp: read_count_def avail_def read_bytes_def tape_of_def) (simp add: numeral_2_eq_2)
  from RingBuffer_rewind [OF inv _ this] show ?thesis by (simp add: Let_def)
qed

text \<open>
  The product of the two arguments of \<open>WebRtc_CreateBuffer\<close> is not checked: for
  2^63 + 1 elements of two bytes it wraps around to two bytes, the buffer is created, and
  the first write of two elements leaves the block.
\<close>

theorem CreateBuffer_overflow:
  "\<exists>self. WebRtc_CreateBuffer (Some self0) (\<lambda>k. Some (replicate k 0)) 9223372036854775809 2 = Some (Some self) \<and>
     length (ring_data self) = 2 \<and>
     WebRtc_WriteBuffer (Some self) (Some (replicate 4 1)) 2 = None"
proof -
  let ?self = "self0\<lparr>ring_data := [0, 0], element_count := 9223372036854775809, element_size := 2,
                     read_pos := 0, write_pos := 0, rw_wrap := SAME_WRAP\<rparr>"
  have "WebRtc_CreateBuffer (Some self0) (\<lambda>k. Some (replicate k 0)) 9223372036854775809 2 = Some (Some ?self)"
    by (simp add: WebRtc_CreateBuffer_def WebRtc_InitBuffer_def sz_mul_def numeral_2_eq_2)
  moreover have "WebRtc_WriteBuffer (Some ?self) (Some (replicate 4 1)) 2 = None"
    by (simp add: WebRtc_WriteBuffer_def WebRtc_available_write_def WebRtc_available_read_def
        memcpy_def store_def sz_sub_def sz_mul_def load_def)
  ultimately show ?thesis by (intro exI [of _ ?self]) simp
qed

end
