(* ===== verification/ByteRing.thy ===== *)
theory ByteRing
  imports RingBuffer
begin

text \<open>
  The byte ring of the buffer manager (\<open>ring_buf.c\<close>).  The pointers \<open>buf_head\<close> and \<open>buf_tail\<close>
  are offsets from \<open>buf_start\<close>; \<open>buf_start\<close> is the block from that member to the end of the
  allocation, which is longer than \<open>buf_size\<close>.  A NULL handle is None, as for the frame
  queue: the mutex is locked before the handle is compared with NULL.

  The contents are read off the tape of the theory \<open>RingBuffer\<close>.  Pushing appends; popping
  keeps the contract of a queue except when it ends at the end of the block.
\<close>

section \<open>State and operations\<close>

record ringbuf_t =
  buf_size :: int
  buf_head :: int
  buf_tail :: int
  buf_start :: "byte list"

definition RINGBUF_END :: "ringbuf_t \<Rightarrow> int" where
  "RINGBUF_END pbuf = buf_size pbuf - 1"

definition RINGBUF_USED :: "ringbuf_t \<Rightarrow> int" where
  "RINGBUF_USED pbuf =
     (if buf_head pbuf \<le> buf_tail pbuf then buf_tail pbuf - buf_head pbuf
      else buf_size pbuf + buf_tail pbuf - buf_head pbuf)"


text \<open>\<open>allocated\<close> is the block \<open>malloc\<close> returns, from \<open>buf_start\<close> on; \<open>old\<close> is \<open>*pbuf\<close> before.\<close>

definition ringbuf_create ::
    "ringbuf_t option \<Rightarrow> byte list option \<Rightarrow> int \<Rightarrow> int \<times> ringbuf_t option" where
  "ringbuf_create old allocated n =
     (if n > 0
      then (case allocated of
              None \<Rightarrow> (-1, None)
            | Some block \<Rightarrow> (0, Some \<lparr>buf_size = n, buf_head = 0, buf_tail = 0, buf_start = block\<rparr>))
      else (-1, old))"


text \<open>The answer: the return value, the client's block and the buffer.\<close>

definition ringbuf_pop ::
    "ringbuf_t option \<Rightarrow> byte list option \<Rightarrow> int \<Rightarrow> (int \<times> byte list option \<times> ringbuf_t) option" where
  "ringbuf_pop handle dest n = do {
     pbuf \<leftarrow> handle;
     if dest \<noteq> None \<and> n > 0 \<and> n < s32 (RINGBUF_USED pbuf)
     then do {
       data \<leftarrow> dest;
       let head_used = u32 (RINGBUF_END pbuf - buf_head pbuf + 1);
       (data, pbuf) \<leftarrow>
         (if head_used \<ge> u32 n
          then do {
            data \<leftarrow> memcpy data 0 (buf_start pbuf) (nat (buf_head pbuf)) (nat n);
            let pbuf = pbuf\<lparr>buf_head := buf_head pbuf + n\<rparr>;
            Some (data,
                  if buf_head pbuf > RINGBUF_END pbuf then pbuf\<lparr>buf_head := RINGBUF_END pbuf\<rparr> else pbuf) }
          else do {
            data \<leftarrow> memcpy data 0 (buf_start pbuf) (nat (buf_head pbuf)) (nat head_used);
            let lev = u32 (n - head_used);
            data \<leftarrow> memcpy data (nat head_used) (buf_start pbuf) 0 (nat lev);
            Some (data, pbuf\<lparr>buf_head := lev\<rparr>) });
       Some (n, Some data, pbuf) }
     else Some (0, dest, pbuf) }"

definition ringbuf_get_size :: "ringbuf_t \<Rightarrow> int" where
  "ringbuf_get_size pbuf = s32 (buf_size pbuf)"

definition ringbuf_get_used_size :: "ringbuf_t \<Rightarrow> int" where
  "ringbuf_get_used_size pbuf =
     s32 (if buf_head pbuf \<le> buf_tail pbuf then buf_tail pbuf - buf_head pbuf
          else buf_size pbuf + buf_tail pbuf - buf_head pbuf)"


section \<open>Invariant and contents\<close>

definition ring_inv :: "ringbuf_t \<Rightarrow> bool" where
  "ring_inv pbuf \<longleftrightarrow>
     0 < buf_size pbuf \<and> buf_size pbuf < 2147483648 \<and>
     0 \<le> buf_head pbuf \<and> buf_head pbuf < buf_size pbuf \<and>
     0 \<le> buf_tail pbuf \<and> buf_tail pbuf < buf_size pbuf \<and>
     buf_size pbuf \<le> int (length (buf_start pbuf))"

definition ring_wrap :: "ringbuf_t \<Rightarrow> Wrap" where
  "ring_wrap pbuf = (if buf_head pbuf \<le> buf_tail pbuf then SAME_WRAP else DIFF_WRAP)"

definition ring_bytes :: "ringbuf_t \<Rightarrow> byte list" where
  "ring_bytes pbuf = take (nat (buf_size pbuf)) (buf_start pbuf)"

definition ring_contents :: "ringbuf_t \<Rightarrow> byte list" where
  "ring_contents pbuf =
     fst (ring_tape (ring_wrap pbuf) (nat (buf_head pbuf)) (nat (buf_tail pbuf)) (ring_bytes pbuf))"

text \<open>The state as natural numbers.\<close>

lemma ring_cases:
  assumes "ring_inv pbuf"
  obtains h t n block where "pbuf = \<lparr>buf_size = int n, buf_head = int h, buf_tail = int t, buf_start = block\<rparr>"
    "h < n" "t < n" "n < 2147483648" "n \<le> length block"
proof
  show "pbuf = \<lparr>buf_size = int (nat (buf_size pbuf)), buf_head = int (nat (buf_head pbuf)),
      buf_tail = int (nat (buf_tail pbuf)), buf_start = buf_start pbuf\<rparr>"
    using assms by (cases pbuf) (simp add: ring_inv_def)
qed (use assms in \<open>auto simp: ring_inv_def\<close>)



abbreviation (input) mk :: "nat \<Rightarrow> nat \<Rightarrow> nat \<Rightarrow> byte list \<Rightarrow> ringbuf_t" where
  "mk m h t block \<equiv> \<lparr>buf_size = int m, buf_head = int h, buf_tail = int t, buf_start = block\<rparr>"





lemma ring_wrap_ok:
  "h < m \<Longrightarrow> t < m \<Longrightarrow> wrap_ok (if h \<le> t then SAME_WRAP else DIFF_WRAP) h t m"
  by (simp add: wrap_ok_def)

lemma mk_contents:
  "ring_contents (mk m h t block) = fst (ring_tape (if h \<le> t then SAME_WRAP else DIFF_WRAP) h t (take m block))"
  by (simp add: ring_contents_def ring_wrap_def ring_bytes_def)



definition used_bytes :: "nat \<Rightarrow> nat \<Rightarrow> nat \<Rightarrow> nat" where
  "used_bytes m h t = (if h \<le> t then t - h else m + t - h)"

lemma USED_bytes:
  assumes "h < m" "t < m" "m < 2147483648"
  shows "RINGBUF_USED (mk m h t block) = int (used_bytes m h t)"
    "s32 (int (used_bytes m h t)) = int (used_bytes m h t)"
  using assms by (auto simp: RINGBUF_USED_def used_bytes_def)

lemma ring_used:
  assumes "h < m" "t < m" "m \<le> length block"
  shows "length (ring_contents (mk m h t block)) = used_bytes m h t"
  using ring_tape_lengths(1) [of "if h \<le> t then SAME_WRAP else DIFF_WRAP" h t "take m block"]
    ring_wrap_ok [OF assms(1,2)] assms
  unfolding mk_contents by (auto simp: used_bytes_def simp del: ring_tape.simps)

lemma pop_flat:
  assumes "h < m" "t < m" "m < 2147483648" "m \<le> length block" "0 < k" "k < used_bytes m h t"
    "k \<le> length data" "k \<le> m - h"
  shows "ringbuf_pop (Some (mk m h t block)) (Some data) (int k) =
    Some (int k, Some (blit data 0 (take k (drop h block))), mk m (if h + k = m then m - 1 else h + k) t block)"
proof -
  have "u32 (int m - int h) = int m - int h" "u32 (int k) = int k" "int k \<le> int m - int h"
    using assms by auto
  moreover have "memcpy data 0 block h k = Some (blit data 0 (take k (drop h block)))"
    using assms by simp
  moreover have "(int m - 1 < int h + int k) = (h + k = m)" "Suc 0 \<le> m" using assms by linarith+
  ultimately show ?thesis
    using assms(5,6)
    by (simp add: ringbuf_pop_def USED_bytes [OF assms(1-3)] RINGBUF_END_def Let_def)
qed

lemma pop_around:
  assumes "h < m" "t < m" "m < 2147483648" "m \<le> length block" "0 < k" "k < used_bytes m h t"
    "k \<le> length data" "k > m - h"
  shows "ringbuf_pop (Some (mk m h t block)) (Some data) (int k) =
    Some (int k, Some (blit data 0 (take (m - h) (drop h block) @ take (k - (m - h)) block)),
          mk m (k - (m - h)) t block)"
proof -
  have less: "k < m" "k - (m - h) < t" using assms by (auto simp: used_bytes_def split: if_splits)
  define a c where "a = take (m - h) (drop h block)" and "c = take (k - (m - h)) block"
  have ac: "length a = m - h" "length c = k - (m - h)" using assms less by (auto simp: a_def c_def)
  have "u32 (int m - int h) = int m - int h" "u32 (int k) = int k" "\<not> int k \<le> int m - int h"
    "nat (int m - int h) = m - h" "u32 (int k - (int m - int h)) = int k - (int m - int h)"
    "int k - (int m - int h) = int (k - (m - h))"
    using assms less by auto
  moreover have "memcpy data 0 block h (m - h) = Some (blit data 0 a)"
    using assms by (simp add: a_def)
  moreover have "memcpy (blit data 0 a) (m - h) block 0 (k - (m - h)) = Some (blit data 0 (a @ c))"
    using assms ac less blit_two [of a c data] by (simp add: c_def)
  ultimately show ?thesis unfolding a_def [symmetric] c_def [symmetric]
    using assms(5,6)
    by (simp add: ringbuf_pop_def USED_bytes [OF assms(1-3)] RINGBUF_END_def Let_def del: of_nat_diff)
qed

lemma ring_read:
  assumes b: "h < m" "t < m" "m \<le> length block" and k: "k \<le> used_bytes m h t"
  shows "take k (ring_contents (mk m h t block)) =
    (if k > m - h then take (m - h) (drop h block) @ take (k - (m - h)) block else take k (drop h block))"
proof -
  let ?w = "if h \<le> t then SAME_WRAP else DIFF_WRAP" and ?d = "take m block"
  have d: "length ?d = m" using b by simp
  have ok: "wrap_ok ?w h t (length ?d)" unfolding d by (rule ring_wrap_ok [OF b(1,2)])
  have "k \<le> length (fst (ring_tape ?w h t ?d))"
    using k ring_used [OF b] unfolding mk_contents by simp
  then have "take k (ring_contents (mk m h t block)) =
      (if k > m - h then drop h ?d @ take (k - (m - h)) ?d else take k (drop h ?d))"
    using ring_tape_read [OF ok] unfolding mk_contents d by simp
  moreover have less: "k < m" using k b by (auto simp: used_bytes_def split: if_splits)
  moreover from less have "min (k - (m - h)) m = k - (m - h)" by simp
  ultimately show ?thesis by (simp add: drop_take min_absorb1)
qed

lemma ring_skip:
  assumes b: "h < m" "t < m" "m \<le> length block" and k: "k < used_bytes m h t" "h + k \<noteq> m"
  shows "ring_contents (mk m (if h + k > m then h + k - m else h + k) t block) =
    drop k (ring_contents (mk m h t block))"
proof -
  let ?w = "if h \<le> t then SAME_WRAP else DIFF_WRAP" and ?d = "take m block"
  let ?h = "if h + k > m then h + k - m else h + k"
  have d: "length ?d = m" using b by simp
  have ok: "wrap_ok ?w h t (length ?d)" unfolding d by (rule ring_wrap_ok [OF b(1,2)])
  have "k \<le> length (fst (ring_tape ?w h t ?d))"
    using k ring_used [OF b] unfolding mk_contents by simp
  then have "ring_tape (if h + k > m then SAME_WRAP else ?w) ?h t ?d = tape_forward k (ring_tape ?w h t ?d)"
    using ring_tape_forward [OF ok] unfolding d by simp
  moreover have "(if ?h \<le> t then SAME_WRAP else DIFF_WRAP) = (if h + k > m then SAME_WRAP else ?w)"
    using b k by (auto simp: used_bytes_def split: if_splits)
  ultimately show ?thesis unfolding mk_contents by (simp add: tape_forward_def del: ring_tape.simps)
qed

text \<open>A pop that does not end at the end of the block delivers and removes the oldest bytes.\<close>

lemma ring_pop:
  assumes b: "h < m" "t < m" "m < 2147483648" "m \<le> length block" and k: "0 < k" "k < used_bytes m h t"
    "k \<le> length data" and inside: "h + k \<noteq> m"
  shows "\<exists>h'. ringbuf_pop (Some (mk m h t block)) (Some data) (int k) =
      Some (int k, Some (blit data 0 (take k (ring_contents (mk m h t block)))), mk m h' t block) \<and>
    h' < m \<and> ring_contents (mk m h' t block) = drop k (ring_contents (mk m h t block))"
proof (cases "k \<le> m - h")
  case True
  then have "\<not> h + k > m" "h + k < m" using b inside by auto
  then show ?thesis
    using True ring_skip [OF b(1,2,4) k(2) inside] pop_flat [OF b k True] ring_read [OF b(1,2,4), of k] k inside
    by (intro exI [of _ "h + k"]) simp
next
  case False
  then have "h + k > m" "h + k - m = k - (m - h)" "k - (m - h) < m"
    using b k by (auto simp: used_bytes_def split: if_splits)
  then show ?thesis
    using False ring_skip [OF b(1,2,4) k(2) inside] pop_around [OF b k] ring_read [OF b(1,2,4), of k] k
    by (intro exI [of _ "k - (m - h)"]) simp
qed

text \<open>A pop that ends there leaves its last byte in the buffer.\<close>

lemma ring_pop_end:
  assumes b: "h < m" "t < m" "m < 2147483648" "m \<le> length block" and k: "0 < k" "k < used_bytes m h t"
    "k \<le> length data" and "end": "h + k = m"
  shows "ringbuf_pop (Some (mk m h t block)) (Some data) (int k) =
      Some (int k, Some (blit data 0 (take k (ring_contents (mk m h t block)))), mk m (m - 1) t block) \<and>
    ring_contents (mk m (m - 1) t block) = drop (k - 1) (ring_contents (mk m h t block))"
proof -
  have "k \<le> m - h" using "end" by simp
  moreover have "\<not> h + (k - 1) > m" "h + (k - 1) = m - 1" "h + (k - 1) \<noteq> m" "k - 1 < used_bytes m h t"
    using "end" k by auto
  ultimately show ?thesis
    using ring_skip [OF b(1,2,4), of "k - 1"] pop_flat [OF b k] ring_read [OF b(1,2,4), of k] k "end"
    by simp
qed

section \<open>Properties\<close>

lemma ring_nats:
  assumes "ring_inv pbuf"
  shows "\<exists>h t m block. pbuf = mk m h t block \<and> h < m \<and> t < m \<and> m < 2147483648 \<and> m \<le> length block"
  using ring_cases [OF assms] by metis

lemma ring_inv_mk: "h < m \<Longrightarrow> t < m \<Longrightarrow> m < 2147483648 \<Longrightarrow> m \<le> length block \<Longrightarrow> ring_inv (mk m h t block)"
  by (simp add: ring_inv_def)

lemma ringbuf_create_inv:
  assumes "ringbuf_create old (Some block) n = (0, Some pbuf)" "n < 2147483648" "n \<le> int (length block)"
  shows "ring_inv pbuf \<and> ring_contents pbuf = []"
  using assms by (auto simp: ringbuf_create_def ring_inv_def ring_contents_def ring_wrap_def split: if_splits)


lemma witness_state: "ring_inv \<lparr>buf_size = 4, buf_head = 2, buf_tail = 1, buf_start = [13, 7, 11, 12, 0]\<rparr>"
  by (simp add: ring_inv_def)


text \<open>
  C35: A pop with a positive count below the used size delivers exactly the oldest bytes, and
  removes them, unless it ends at the last byte of the block: then one byte too few is
  removed and the last byte delivered will be delivered again.  Any other count, the whole
  used size included, is refused.
\<close>

theorem ringbuf_pop_repeats_at_end:
  assumes "ring_inv pbuf" and "n \<le> int (length data)"
  shows "\<exists>pbuf'. ringbuf_pop (Some pbuf) (Some data) n =
      (if 0 < n \<and> n < ringbuf_get_used_size pbuf
       then Some (n, Some (blit data 0 (take (nat n) (ring_contents pbuf))), pbuf')
       else Some (0, Some data, pbuf)) \<and>
    (0 < n \<and> n < ringbuf_get_used_size pbuf \<longrightarrow> ring_inv pbuf' \<and>
      ring_contents pbuf' =
        drop (if buf_head pbuf + n = buf_size pbuf then nat n - 1 else nat n) (ring_contents pbuf))"
proof -
  obtain h t m block where p: "pbuf = mk m h t block" and b: "h < m" "t < m" "m < 2147483648" "m \<le> length block"
    using ring_nats [OF assms(1)] by blast
  have used: "ringbuf_get_used_size pbuf = int (used_bytes m h t)" "s32 (RINGBUF_USED pbuf) = int (used_bytes m h t)"
    using USED_bytes [OF b(1-3)] b
    by (auto simp: ringbuf_get_used_size_def used_bytes_def p)
  show ?thesis
  proof (cases "0 < n \<and> n < ringbuf_get_used_size pbuf")
    case True
    then obtain k where k: "n = int k" "0 < k" "k < used_bytes m h t" "k \<le> length data"
      using used assms(2) by (metis of_nat_less_iff of_nat_0_less_iff of_nat_le_iff zero_less_imp_eq_int)
    have at_end: "(buf_head pbuf + n = buf_size pbuf) = (h + k = m)" using k(1) p by auto
    show ?thesis
    proof (cases "h + k = m")
      case False
      then show ?thesis
        using ring_pop [OF b k(2-4) False] True k(1) at_end ring_inv_mk [OF _ b(2-4)] by (auto simp: p)
    next
      case end_case: True
      have "ring_inv (mk m (m - 1) t block)" using b by (intro ring_inv_mk) auto
      then show ?thesis
        using ring_pop_end [OF b k(2-4) end_case] True k(1) at_end end_case
        by (intro exI [of _ "mk m (m - 1) t block"]) (simp add: p)
    qed
  next
    case False
    then have "ringbuf_pop (Some pbuf) (Some data) n = Some (0, Some data, pbuf)"
      by (auto simp: ringbuf_pop_def used)
    then show ?thesis using False by auto
  qed
qed

theorem ringbuf_pop_repeats_at_end_witness:
  "let pbuf = \<lparr>buf_size = 4, buf_head = 2, buf_tail = 1, buf_start = [13, 7, 11, 12, 0]\<rparr>
   in \<exists>pbuf'. ringbuf_pop (Some pbuf) (Some [0, 0]) 2 = Some (2, Some [11, 12], pbuf') \<and>
        ring_contents pbuf = [11, 12, 13] \<and> ring_contents pbuf' = [12, 13]"
proof -
  let ?p = "\<lparr>buf_size = 4, buf_head = 2, buf_tail = 1, buf_start = [13, 7, 11, 12, 0]\<rparr>"
  have "ring_contents ?p = [11, 12, 13]"
    by (simp add: ring_contents_def ring_wrap_def ring_bytes_def)
  moreover have "ringbuf_get_used_size ?p = 3" by (simp add: ringbuf_get_used_size_def)
  ultimately show ?thesis
    using ringbuf_pop_repeats_at_end [OF witness_state, of 2 "[0, 0]"]
    by (auto simp: Let_def blit_def)
qed

end
