(* ===== verification/FramesQueue.thy ===== *)
theory FramesQueue
  imports ByteMem
begin

text \<open>
  The queue of audio frames (\<open>frames_queue.c\<close>): a ring of slots, each with a buffer of its
  own that grows when a larger frame is pushed.  The state is the heap of the buffers and
  the queue; an operation answers None when it dereferences a NULL, freed or too small
  buffer.  A NULL handle is None as well: the code locks \<open>queue->mutex\<close> before it compares
  \<open>queue\<close> with NULL.  The result of \<open>malloc\<close> is a flag.  Locking has no other effect on a
  single thread; every operation runs inside one critical section, so calls of several
  threads are a sequence of the calls modelled here.
\<close>

section \<open>State\<close>

record aframe =
  ready :: int
  valid_size :: int
  frame_size :: int
  frame_data :: "nat option"

record framesQueue =
  num_frames :: int
  index_head :: int
  index_tail :: int
  frames :: "aframe list"

section \<open>Operations\<close>

text \<open>The loop \<open>while (num_frames--)\<close> of the constructor.\<close>

fun clear_frames :: "nat \<Rightarrow> aframe list \<Rightarrow> aframe list option" where
  "clear_frames 0 fs = Some fs"
| "clear_frames (Suc n) fs =
     (if n < length fs
      then clear_frames n (fs[n := \<lparr>ready = 0, valid_size = 0, frame_size = 0, frame_data = None\<rparr>])
      else None)"

text \<open>
  \<open>queue_block\<close> and \<open>frames_block\<close> are the uninitialised blocks the two calls of \<open>malloc\<close>
  return.  The answer is the return value and what \<open>*queue\<close> points to afterwards.
\<close>

definition frames_queue_create ::
    "framesQueue option \<Rightarrow> aframe list option \<Rightarrow> int \<Rightarrow> (int \<times> framesQueue option) option" where
  "frames_queue_create queue_block frames_block n =
     (case queue_block of
        None \<Rightarrow> Some (-1, None)
      | Some queue \<Rightarrow>
          (case frames_block of
             None \<Rightarrow> Some (-1, Some queue)
           | Some fs \<Rightarrow> do {
               let queue = queue\<lparr>frames := fs\<rparr>;
               let queue = queue\<lparr>num_frames := n, index_head := 0, index_tail := 0\<rparr>;
               fs \<leftarrow> (if n < 0 then None else clear_frames (nat n) fs);
               Some (0, Some (queue\<lparr>frames := fs\<rparr>)) }))"

definition frames_at :: "framesQueue \<Rightarrow> int \<Rightarrow> aframe option" where
  "frames_at queue i =
     (if 0 \<le> i \<and> i < int (length (frames queue)) then Some (frames queue ! nat i) else None)"

definition put_frame :: "framesQueue \<Rightarrow> int \<Rightarrow> aframe \<Rightarrow> framesQueue" where
  "put_frame queue i f = queue\<lparr>frames := (frames queue)[nat i := f]\<rparr>"

text \<open>
  The first half of a push: a buffer that is too small is replaced.  The comparison of the
  frame's \<open>int\<close> size with the \<open>unsigned\<close> argument converts the former.
\<close>

definition frame_reserve :: "bool \<Rightarrow> nat \<Rightarrow> aframe \<Rightarrow> heap \<Rightarrow> (int \<times> aframe \<times> heap) option" where
  "frame_reserve malloc_ok n f h =
     (if u32 (frame_size f) < int n
      then do {
        h \<leftarrow> (case frame_data f of None \<Rightarrow> Some h | Some a \<Rightarrow> h_free a h);
        if malloc_ok
        then do {
          let (a, h) = h_alloc (replicate n 0) h;
          Some (0, f\<lparr>frame_data := Some a, frame_size := s32 (int n)\<rparr>, h) }
        else Some (-1, f\<lparr>frame_data := None\<rparr>, h) }
      else Some (0, f, h))"

text \<open>\<open>buf\<close> is NULL or a block; \<open>n\<close> is the argument \<open>size\<close>.\<close>

definition frames_queue_push ::
    "bool \<Rightarrow> byte list option \<Rightarrow> nat \<Rightarrow> framesQueue option \<Rightarrow> heap \<Rightarrow>
     (int \<times> framesQueue option \<times> heap) option" where
  "frames_queue_push malloc_ok buf n handle h = do {
     queue \<leftarrow> handle;
     if buf = None \<or> n = 0 then Some (-1, handle, h)
     else do {
       f \<leftarrow> frames_at queue (index_tail queue);
       if ready f \<noteq> 0 then Some (-1, handle, h)
       else do {
       (r, f, h) \<leftarrow> frame_reserve malloc_ok n f h;
       if r \<noteq> 0 then Some (-1, Some (put_frame queue (index_tail queue) f), h)
       else do {
         src \<leftarrow> buf;
         xs \<leftarrow> load 0 n src;
         a \<leftarrow> frame_data f;
         h \<leftarrow> h_store a xs h;
         let f = f\<lparr>valid_size := s32 (int n), ready := 1\<rparr>;
         let queue = put_frame queue (index_tail queue) f;
         let queue = queue\<lparr>index_tail := s32 (index_tail queue + 1)\<rparr>;
         let queue = (if index_tail queue = num_frames queue then queue\<lparr>index_tail := 0\<rparr> else queue);
         Some (0, Some queue, h) } } } }"

text \<open>The answer: the return value and the values stored in \<open>*buf\<close> and \<open>*size\<close>, if any.\<close>

definition frames_queue_pop ::
    "framesQueue option \<Rightarrow> (int \<times> (nat option \<times> int) option \<times> framesQueue option) option" where
  "frames_queue_pop handle = do {
     queue \<leftarrow> handle;
     f \<leftarrow> frames_at queue (index_head queue);
     if ready f = 0 then Some (-1, None, handle)
     else do {
       let result = (frame_data f, u32 (valid_size f));
       let queue = put_frame queue (index_head queue) (f\<lparr>ready := 0\<rparr>);
       let queue = queue\<lparr>index_head := s32 (index_head queue + 1)\<rparr>;
       let queue = (if index_head queue = num_frames queue then queue\<lparr>index_head := 0\<rparr> else queue);
       Some (0, Some result, Some queue) } }"

definition frames_queue_get_num_valid_frames :: "framesQueue option \<Rightarrow> int option" where
  "frames_queue_get_num_valid_frames handle = do {
     queue \<leftarrow> handle;
     let head = index_head queue;
     let tail = index_tail queue;
     let n = num_frames queue;
     if head \<le> tail then Some (s32 (tail - head)) else Some (s32 (n + tail - head)) }"

text \<open>The loop \<open>while (num_frames--)\<close> of the destructor; \<open>free(NULL)\<close> does nothing.\<close>

fun free_frames :: "nat \<Rightarrow> aframe list \<Rightarrow> heap \<Rightarrow> heap option" where
  "free_frames 0 fs h = Some h"
| "free_frames (Suc n) fs h =
     (if n < length fs
      then do {
        h \<leftarrow> (case frame_data (fs ! n) of None \<Rightarrow> Some h | Some a \<Rightarrow> h_free a h);
        free_frames n fs h }
      else None)"

definition frames_queue_destroy :: "framesQueue option \<Rightarrow> heap \<Rightarrow> (int \<times> heap) option" where
  "frames_queue_destroy handle h = do {
     queue \<leftarrow> handle;
     h \<leftarrow> (if num_frames queue < 0 then None else free_frames (nat (num_frames queue)) (frames queue) h);
     Some (0, h) }"

section \<open>The invariant\<close>

definition ptrs :: "aframe \<Rightarrow> nat list" where
  "ptrs f = (case frame_data f of None \<Rightarrow> [] | Some a \<Rightarrow> [a])"

definition frame_ok :: "heap \<Rightarrow> aframe \<Rightarrow> bool" where
  "frame_ok h f \<longleftrightarrow>
     0 \<le> frame_size f \<and> frame_size f < 2147483648 \<and>
     (case frame_data f of
        None \<Rightarrow> ready f = 0
      | Some a \<Rightarrow>
          (case block_at h a of
             None \<Rightarrow> False
           | Some block \<Rightarrow> int (length block) = frame_size f \<and>
               (ready f \<noteq> 0 \<longrightarrow> 0 < valid_size f \<and> valid_size f \<le> frame_size f)))"

text \<open>A failed \<open>malloc\<close> leaves a NULL buffer with the old size; in a solid slot NULL has size zero.\<close>

definition solid :: "aframe \<Rightarrow> bool" where
  "solid f \<longleftrightarrow> (frame_data f = None \<longrightarrow> frame_size f = 0)"

definition fq_solid :: "heap \<times> framesQueue \<Rightarrow> bool" where
  "fq_solid s \<longleftrightarrow> list_all solid (frames (snd s))"

definition frame_bytes :: "heap \<Rightarrow> aframe \<Rightarrow> byte list" where
  "frame_bytes h f = take (nat (valid_size f)) (the (block_at h (the (frame_data f))))"

text \<open>The slots in the order in which they are popped.\<close>

definition slots :: "framesQueue \<Rightarrow> aframe list" where
  "slots queue = rotate (nat (index_head queue)) (frames queue)"

definition queue_contents :: "heap \<times> framesQueue \<Rightarrow> byte list list" where
  "queue_contents s = map (frame_bytes (fst s)) (filter (\<lambda>f. ready f \<noteq> 0) (slots (snd s)))"

definition slots_ok :: "heap \<Rightarrow> aframe list \<Rightarrow> bool" where
  "slots_ok h fs \<longleftrightarrow> list_all (frame_ok h) fs \<and> distinct (concat (map ptrs fs))"

definition fq_split :: "framesQueue \<Rightarrow> aframe list \<Rightarrow> aframe list \<Rightarrow> bool" where
  "fq_split queue full free \<longleftrightarrow>
     slots queue = full @ free \<and>
     list_all (\<lambda>f. ready f \<noteq> 0) full \<and> list_all (\<lambda>f. ready f = 0) free \<and>
     nat (index_tail queue) = (nat (index_head queue) + length full) mod length (frames queue)"

definition fq_inv :: "heap \<times> framesQueue \<Rightarrow> bool" where
  "fq_inv s \<longleftrightarrow>
     (case s of (h, queue) \<Rightarrow>
        num_frames queue = int (length (frames queue)) \<and>
        0 < num_frames queue \<and> num_frames queue < 2147483648 \<and>
        0 \<le> index_head queue \<and> index_head queue < num_frames queue \<and>
        0 \<le> index_tail queue \<and> index_tail queue < num_frames queue \<and>
        slots_ok h (slots queue) \<and> (\<exists>full free. fq_split queue full free))"

section \<open>Slots\<close>

lemma mod_shift_le:
  assumes "i \<le> j" "j < n" "(k + i) mod n = (k + j) mod (n::nat)"
  shows "i = j"
proof -
  have "n dvd (k + j) - (k + i)" using assms by (metis mod_eq_dvd_iff_nat add_le_cancel_left)
  then have "n dvd j - i" by simp
  then have "j - i = 0" using assms(2) by (metis dvd_imp_le less_imp_diff_less linorder_not_le neq0_conv)
  then show ?thesis using assms(1) by simp
qed

lemma mod_shift_inj:
  assumes "i < n" "j < n"
  shows "(k + i) mod n = (k + j) mod (n::nat) \<longleftrightarrow> i = j"
  using mod_shift_le [of i j n k] mod_shift_le [of j i n k] assms by (metis nat_le_linear)

lemma rotate_update:
  assumes "i < length xs"
  shows "rotate k (xs[(k + i) mod length xs := x]) = (rotate k xs)[i := x]"
proof (rule nth_equalityI)
  fix j
  assume "j < length (rotate k (xs[(k + i) mod length xs := x]))"
  then have j: "j < length xs" by simp
  then have "(k + j) mod length xs < length xs" by (intro mod_less_divisor) auto
  then show "rotate k (xs[(k + i) mod length xs := x]) ! j = (rotate k xs)[i := x] ! j"
    using assms j mod_shift_inj [of i "length xs" j k]
    by (simp add: nth_rotate nth_list_update)
qed simp

lemma length_slots [simp]: "length (slots queue) = length (frames queue)"
  by (simp add: slots_def)

lemma slots_nth:
  "k < length (frames queue) \<Longrightarrow>
   slots queue ! k = frames queue ! ((nat (index_head queue) + k) mod length (frames queue))"
  by (simp add: slots_def nth_rotate)

lemma tail_slot:
  assumes "fq_inv (h, queue)" "fq_split queue full free"
  shows "frames_at queue (index_tail queue) = Some (case free of [] \<Rightarrow> hd full | f # _ \<Rightarrow> f)"
proof -
  have tail: "0 \<le> index_tail queue" "index_tail queue < int (length (frames queue))"
    and n: "0 < length (frames queue)"
    using assms(1) by (auto simp: fq_inv_def)
  have sl: "slots queue = full @ free"
    and t: "nat (index_tail queue) = (nat (index_head queue) + length full) mod length (frames queue)"
    using assms(2) by (auto simp: fq_split_def)
  then have len: "length full + length free = length (frames queue)"
    by (metis length_append length_slots)
  have "frames queue ! nat (index_tail queue) = (case free of [] \<Rightarrow> hd full | f # _ \<Rightarrow> f)"
  proof (cases free)
    case Nil
    then have "nat (index_tail queue) = nat (index_head queue) mod length (frames queue)"
      using t len by simp
    then have "frames queue ! nat (index_tail queue) = slots queue ! 0"
      using slots_nth [of 0 queue] n by simp
    moreover have "full \<noteq> []" using Nil n len by auto
    ultimately show ?thesis using sl Nil by (simp add: hd_conv_nth)
  next
    case (Cons f rest)
    then have "frames queue ! nat (index_tail queue) = slots queue ! length full"
      using slots_nth [of "length full" queue] t len by simp
    then show ?thesis using sl Cons by simp
  qed
  then show ?thesis using tail by (simp add: frames_at_def)
qed

lemma head_slot:
  assumes "fq_inv (h, queue)"
  shows "frames_at queue (index_head queue) = Some (hd (slots queue))"
proof -
  have head: "0 \<le> index_head queue" "index_head queue < int (length (frames queue))"
    using assms by (auto simp: fq_inv_def)
  then have "0 < length (frames queue)" by linarith
  moreover have "nat (index_head queue) < length (frames queue)" using head by linarith
  ultimately have "slots queue ! 0 = frames queue ! nat (index_head queue)" "slots queue \<noteq> []"
    using slots_nth [of 0 queue] by (simp, metis length_slots list.size(3) less_irrefl)
  then show ?thesis using head by (simp add: frames_at_def hd_conv_nth)
qed

lemma slots_put_tail:
  assumes "fq_split queue full (f # rest)"
  shows "slots (put_frame queue (index_tail queue) g) = full @ g # rest"
proof -
  have "length full < length (frames queue)"
    using assms unfolding fq_split_def by (metis length_append length_slots less_add_same_cancel1 length_Cons zero_less_Suc)
  then have "slots (put_frame queue (index_tail queue) g) = (slots queue)[length full := g]"
    using assms unfolding slots_def put_frame_def fq_split_def by (simp add: rotate_update)
  then show ?thesis using assms by (simp add: fq_split_def)
qed

text \<open>One step of an index around the ring.\<close>

lemma next_index:
  assumes "0 \<le> i" "i < n" "n < 2147483648"
  shows "(if s32 (i + 1) = n then 0 else s32 (i + 1)) = int ((nat i + 1) mod nat n)"
proof (cases "i + 1 = n")
  case True
  then have "nat i + 1 = nat n" using assms by linarith
  then show ?thesis using assms True by simp
next
  case False
  then have "nat i + 1 < nat n" using assms by linarith
  then show ?thesis using assms False by simp
qed

section \<open>Frames in the heap\<close>

lemma frame_ok_ptr: "frame_ok h f \<Longrightarrow> frame_data f = Some a \<Longrightarrow> a < length h"
  by (auto simp: frame_ok_def block_at_def split: if_splits option.splits)

lemma block_at_free: "a < length h \<Longrightarrow> b \<noteq> a \<Longrightarrow> block_at (h[a := x]) b = block_at h b"
  by simp

lemma frame_other:
  assumes "a < length h" "a \<notin> set (ptrs f)"
  shows "frame_ok (h[a := x]) f = frame_ok h f" "frame_bytes (h[a := x]) f = frame_bytes h f \<or> frame_data f = None"
  using assms by (auto simp: frame_ok_def frame_bytes_def ptrs_def split: option.splits)

lemma frame_append:
  assumes "frame_ok h f"
  shows "frame_ok (h @ [x]) f" "frame_bytes (h @ [x]) f = frame_bytes h f \<or> frame_data f = None"
  using assms frame_ok_ptr [OF assms] by (auto simp: frame_ok_def frame_bytes_def split: option.splits)

lemma frame_ready_data: "frame_ok h f \<Longrightarrow> ready f \<noteq> 0 \<Longrightarrow> frame_data f \<noteq> None"
  by (auto simp: frame_ok_def split: option.splits)

text \<open>Replacing one slot and its block keeps the other slots.\<close>

definition same_frames :: "heap \<Rightarrow> heap \<Rightarrow> aframe list \<Rightarrow> bool" where
  "same_frames h h' fs \<longleftrightarrow>
     (\<forall>f\<in>set fs. frame_ok h' f \<and> (ready f \<noteq> 0 \<longrightarrow> frame_bytes h' f = frame_bytes h f))"

lemma same_frames_trans: "same_frames h h' fs \<Longrightarrow> same_frames h' h'' fs \<Longrightarrow> same_frames h h'' fs"
  by (auto simp: same_frames_def)

lemma same_frames_update:
  assumes "list_all (frame_ok h) fs" "a < length h" "a \<notin> set (concat (map ptrs fs))"
  shows "same_frames h (h[a := x]) fs"
  using assms frame_other [OF assms(2)] frame_ready_data
  by (fastforce simp: same_frames_def list_all_iff)

lemma same_frames_append: "list_all (frame_ok h) fs \<Longrightarrow> same_frames h (h @ [x]) fs"
  using frame_append frame_ready_data by (fastforce simp: same_frames_def list_all_iff)

lemma same_frames_ok: "same_frames h h' fs \<Longrightarrow> list_all (frame_ok h') fs"
  by (auto simp: same_frames_def list_all_iff)

section \<open>Pushing\<close>

text \<open>The slot that takes a frame of \<open>n\<close> bytes: grown if its buffer is too small.\<close>

lemma grow_slot:
  assumes ok: "slots_ok h (full @ f # rest)" and r: "ready f = 0" and n: "0 < n" "n < 2147483648"
    and fits: "if frame_size f < int n then malloc_ok else frame_data f \<noteq> None"
  shows "\<exists>a g h' block.
    frame_reserve malloc_ok n f h = Some (0, g, h') \<and>
    frame_data g = Some a \<and> block_at h' a = Some block \<and> int (length block) = frame_size g \<and>
    n \<le> length block \<and> frame_size g < 2147483648 \<and> ready g = 0 \<and>
    a \<notin> set (concat (map ptrs (full @ rest))) \<and> same_frames h h' (full @ rest)"
proof -
  have f: "frame_ok h f" and others: "list_all (frame_ok h) (full @ rest)"
    and dist: "distinct (concat (map ptrs (full @ rest)))"
    "set (ptrs f) \<inter> set (concat (map ptrs (full @ rest))) = {}"
    using ok by (auto simp: slots_ok_def)
  have u: "u32 (frame_size f) = frame_size f" using f by (auto simp: frame_ok_def)
  have fresh: "length h \<notin> set (concat (map ptrs (full @ rest)))"
  proof
    assume "length h \<in> set (concat (map ptrs (full @ rest)))"
    then obtain g where "g \<in> set (full @ rest)" "frame_data g = Some (length h)"
      by (auto simp: ptrs_def split: option.splits) metis+
    then show False using others frame_ok_ptr [of h g "length h"] by (auto simp: list_all_iff)
  qed
  show ?thesis
  proof (cases "frame_size f < int n")
    case False
    then have "frame_data f \<noteq> None" using fits by simp
    then obtain a block where "frame_data f = Some a" "block_at h a = Some block" "int (length block) = frame_size f"
      using f by (auto simp: frame_ok_def split: option.splits)
    moreover have "a \<notin> set (concat (map ptrs (full @ rest)))"
      using dist(2) calculation(1) by (auto simp: ptrs_def)
    moreover have "frame_size f < 2147483648" using f by (simp add: frame_ok_def)
    moreover have "same_frames h h (full @ rest)" using others by (simp add: same_frames_def list_all_iff)
    moreover have "n \<le> length block" using False calculation(3) by linarith
    ultimately show ?thesis using r False u by (intro exI [of _ a] exI [of _ f] exI [of _ h] exI [of _ block])
      (simp add: frame_reserve_def)
  next
    case True
    then have malloc_ok using fits by simp
    show ?thesis
    proof (cases "frame_data f")
      case None
      then show ?thesis using True \<open>malloc_ok\<close> u n r fresh same_frames_append [OF others]
        by (auto simp: h_alloc_def frame_reserve_def)
    next
      case (Some b)
      then have b: "b < length h" "h_free b h = Some (h[b := None])"
        using f frame_ok_ptr [OF f] by (auto simp: h_free_def frame_ok_def split: option.splits)
      have "same_frames h (h[b := None]) (full @ rest)"
        using same_frames_update [OF others b(1)] dist Some by (auto simp: ptrs_def)
      then have "same_frames h (h[b := None] @ [Some (replicate n 0)]) (full @ rest)"
        using same_frames_append same_frames_ok same_frames_trans by blast
      then show ?thesis using True \<open>malloc_ok\<close> u n r fresh Some b by (auto simp: h_alloc_def frame_reserve_def)
    qed
  qed
qed

lemma push_full:
  assumes "fq_inv (h, queue)" "fq_split queue full []"
  shows "frames_queue_push ok (Some data) n (Some queue) h = Some (-1, Some queue, h)"
proof -
  have "full \<noteq> []" using assms by (auto simp: fq_inv_def fq_split_def) (metis length_0_conv length_slots)
  then have "ready (hd full) \<noteq> 0" using assms(2) by (cases full) (auto simp: fq_split_def)
  then show ?thesis using tail_slot [OF assms] by (simp add: frames_queue_push_def)
qed

lemma push_free:
  assumes inv: "fq_inv (h, queue)" and sp: "fq_split queue full (f # rest)"
    and n: "0 < n" "n < 2147483648" "n \<le> length data"
    and fits: "if frame_size f < int n then malloc_ok else frame_data f \<noteq> None"
  shows "\<exists>queue' h'. frames_queue_push malloc_ok (Some data) n (Some queue) h = Some (0, Some queue', h') \<and>
    fq_inv (h', queue') \<and> num_frames queue' = num_frames queue \<and>
    (fq_solid (h, queue) \<longrightarrow> fq_solid (h', queue')) \<and>
    queue_contents (h', queue') = queue_contents (h, queue) @ [take n data]"
proof -
  let ?t = "index_tail queue"
  have slots: "slots queue = full @ f # rest" and rf: "ready f = 0"
    and flags: "list_all (\<lambda>f. ready f \<noteq> 0) full" "list_all (\<lambda>f. ready f = 0) rest"
    and tail: "nat ?t = (nat (index_head queue) + length full) mod length (frames queue)"
    using sp by (auto simp: fq_split_def)
  have pos: "frames queue \<noteq> []" using slots length_slots [of queue] by auto
  have ok: "slots_ok h (full @ f # rest)" using inv slots by (simp add: fq_inv_def)
  have ix: "num_frames queue = int (length (frames queue))" "0 \<le> ?t" "?t < num_frames queue"
    "num_frames queue < 2147483648" using inv by (auto simp: fq_inv_def)
  from grow_slot [OF ok rf n(1,2) fits] obtain a g h' block where grow:
    "frame_reserve malloc_ok n f h = Some (0, g, h')"
    and g: "frame_data g = Some a" "block_at h' a = Some block" "int (length block) = frame_size g"
      "n \<le> length block" "frame_size g < 2147483648" "ready g = 0"
      "a \<notin> set (concat (map ptrs (full @ rest)))" "same_frames h h' (full @ rest)" by blast
  define g1 where "g1 = g\<lparr>valid_size := int n, ready := 1\<rparr>"
  define h1 where "h1 = h'[a := Some (blit block 0 (take n data))]"
  define q1 where "q1 = (put_frame queue ?t g1)\<lparr>index_tail := int ((nat ?t + 1) mod length (frames queue))\<rparr>"
  have a: "a < length h'" using g(2) by (simp add: block_at_Some)
  have st: "h_store a (take n data) h' = Some h1"
    using g(2,4) n(3) by (simp add: h_store_def h1_def)
  have nxt: "(if s32 (?t + 1) = num_frames queue then 0 else s32 (?t + 1)) =
      int ((nat ?t + 1) mod length (frames queue))"
    using next_index [OF ix(2-4)] ix(1) by simp
  have push: "frames_queue_push malloc_ok (Some data) n (Some queue) h = Some (0, Some q1, h1)"
    using tail_slot [OF inv sp] rf n grow g(1) st nxt
    by (auto simp: frames_queue_push_def g1_def q1_def put_frame_def Let_def split: if_splits)
  have same: "same_frames h h1 (full @ rest)"
    unfolding h1_def using g(8) same_frames_update [OF same_frames_ok [OF g(8)] a g(7)]
    by (rule same_frames_trans)
  have slots1: "slots q1 = full @ g1 # rest"
    using slots_put_tail [OF sp, of g1] by (simp add: q1_def slots_def)
  have g1: "frame_ok h1 g1" "frame_bytes h1 g1 = take n data" "ready g1 \<noteq> 0" "ptrs g1 = [a]"
    using g a n by (auto simp: g1_def h1_def frame_ok_def frame_bytes_def ptrs_def blit_def)
  have "slots_ok h1 (slots q1)"
    using ok g1 g(7) same_frames_ok [OF same] unfolding slots1 slots_ok_def by auto
  moreover have "fq_split q1 (full @ [g1]) rest"
    using slots1 flags g1(3) tail
    by (simp add: fq_split_def q1_def put_frame_def mod_Suc_eq)
  moreover have "num_frames q1 = num_frames queue" "length (frames q1) = length (frames queue)"
    "index_head q1 = index_head queue" "0 \<le> index_tail q1" "index_tail q1 < num_frames queue"
    using ix pos by (auto simp: q1_def put_frame_def)
  ultimately have "fq_inv (h1, q1)" using inv by (auto simp: fq_inv_def)
  moreover have "queue_contents (h1, q1) = queue_contents (h, queue) @ [take n data]"
  proof -
    have "filter (\<lambda>f. ready f \<noteq> 0) full = full" "filter (\<lambda>f. ready f \<noteq> 0) rest = []"
      using flags by (auto simp: list_all_iff filter_id_conv filter_empty_conv)
    moreover have "map (frame_bytes h1) full = map (frame_bytes h) full"
      using same flags by (auto simp: same_frames_def list_all_iff)
    ultimately show ?thesis using rf g1 by (simp add: queue_contents_def slots slots1)
  qed
  moreover have "fq_solid (h, queue) \<longrightarrow> fq_solid (h1, q1)"
    using g(1) by (simp add: fq_solid_def q1_def put_frame_def g1_def solid_def)
  ultimately show ?thesis using push \<open>num_frames q1 = num_frames queue\<close> by auto
qed

text \<open>A \<open>malloc\<close> that fails: the push is refused, the slot has lost its buffer.\<close>

lemma push_failed:
  assumes inv: "fq_inv (h, queue)" and sp: "fq_split queue full (f # rest)" and n: "0 < n" "frame_size f < int n"
  shows "\<exists>queue' h'. frames_queue_push False (Some data) n (Some queue) h = Some (-1, Some queue', h') \<and>
    fq_inv (h', queue') \<and> num_frames queue' = num_frames queue \<and>
    queue_contents (h', queue') = queue_contents (h, queue)"
proof -
  let ?g = "f\<lparr>frame_data := None\<rparr>" and ?q = "put_frame queue (index_tail queue) (f\<lparr>frame_data := None\<rparr>)"
  have slots: "slots queue = full @ f # rest" "slots ?q = full @ ?g # rest" and rf: "ready f = 0"
    and flags: "list_all (\<lambda>f. ready f \<noteq> 0) full" "list_all (\<lambda>f. ready f = 0) rest"
    using sp slots_put_tail [OF sp, of ?g] by (auto simp: fq_split_def)
  have ok: "slots_ok h (full @ f # rest)" using inv slots(1) by (simp add: fq_inv_def)
  then have f: "frame_ok h f" and others: "list_all (frame_ok h) (full @ rest)"
    and dist: "set (ptrs f) \<inter> set (concat (map ptrs (full @ rest))) = {}"
    by (auto simp: slots_ok_def)
  obtain h1 where h1: "frame_reserve False n f h = Some (-1, ?g, h1)" "same_frames h h1 (full @ rest)"
  proof (cases "frame_data f")
    case None
    then show thesis using that [of h] n f others
      by (auto simp: frame_reserve_def frame_ok_def same_frames_def list_all_iff)
  next
    case (Some b)
    then have b: "b < length h" "h_free b h = Some (h[b := None])"
      using f frame_ok_ptr [OF f] by (auto simp: h_free_def frame_ok_def split: option.splits)
    have "same_frames h (h[b := None]) (full @ rest)"
      using same_frames_update [OF others b(1)] dist Some by (auto simp: ptrs_def)
    then show thesis using that [of "h[b := None]"] n f Some b(2) by (simp add: frame_reserve_def frame_ok_def)
  qed
  have "frames_queue_push False (Some data) n (Some queue) h = Some (-1, Some ?q, h1)"
    using tail_slot [OF inv sp] rf n(1) h1(1) by (simp add: frames_queue_push_def)
  moreover have "slots_ok h1 (slots ?q)"
    using ok rf f same_frames_ok [OF h1(2)] unfolding slots(2) slots_ok_def by (auto simp: frame_ok_def ptrs_def)
  moreover have "fq_split ?q full (?g # rest)" using slots(2) flags rf sp by (simp add: fq_split_def put_frame_def)
  moreover have "queue_contents (h1, ?q) = queue_contents (h, queue)"
  proof -
    have "filter (\<lambda>f. ready f \<noteq> 0) full = full" "filter (\<lambda>f. ready f \<noteq> 0) rest = []"
      using flags by (auto simp: list_all_iff filter_id_conv filter_empty_conv)
    moreover have "map (frame_bytes h1) full = map (frame_bytes h) full"
      using h1(2) flags by (auto simp: same_frames_def list_all_iff)
    ultimately show ?thesis using rf by (simp add: queue_contents_def slots)
  qed
  ultimately show ?thesis using inv by (auto simp: fq_inv_def put_frame_def)
qed

text \<open>A push into a slot that has lost its buffer copies to NULL.\<close>

lemma push_stale:
  assumes "fq_inv (h, queue)" "fq_split queue full (f # rest)" "0 < n" "int n \<le> frame_size f" "frame_data f = None"
  shows "frames_queue_push malloc_ok (Some data) n (Some queue) h = None"
proof -
  have "frame_ok h f" "ready f = 0" using assms(1,2) by (auto simp: fq_inv_def fq_split_def slots_ok_def)
  then have "frame_reserve malloc_ok n f h = Some (0, f, h)" using assms(4) by (simp add: frame_reserve_def frame_ok_def)
  then show ?thesis using tail_slot [OF assms(1,2)] assms(3,5) \<open>ready f = 0\<close>
    by (cases "load 0 n data") (simp_all add: frames_queue_push_def)
qed

section \<open>Popping\<close>

lemma pop_empty:
  assumes "fq_inv (h, queue)" "fq_split queue [] free"
  shows "frames_queue_pop (Some queue) = Some (-1, None, Some queue)"
proof -
  have "slots queue = free" "free \<noteq> []" using assms
    by (auto simp: fq_split_def fq_inv_def) (metis length_0_conv length_slots)
  then have "ready (hd (slots queue)) = 0" using assms(2) by (cases free) (auto simp: fq_split_def)
  then show ?thesis using head_slot [OF assms(1)] by (simp add: frames_queue_pop_def)
qed

lemma rotate_Suc_Cons:
  assumes "rotate k xs = x # ys"
  shows "rotate (Suc k mod length xs) xs = ys @ [x]"
  using assms by (metis rotate1.simps(2) rotate_Suc rotate_conv_mod)

lemma pop_full:
  assumes inv: "fq_inv (h, queue)" and sp: "fq_split queue (f # full) free"
  shows "\<exists>queue' a. frames_queue_pop (Some queue) = Some (0, Some (Some a, valid_size f), Some queue') \<and>
    fq_inv (h, queue') \<and> num_frames queue' = num_frames queue \<and>
    (fq_solid (h, queue) \<longrightarrow> fq_solid (h, queue')) \<and>
    (\<exists>block. block_at h a = Some block \<and> nat (valid_size f) \<le> length block \<and>
      queue_contents (h, queue) = take (nat (valid_size f)) block # queue_contents (h, queue'))"
proof -
  let ?i = "index_head queue" and ?k = "nat (index_head queue)" and ?n = "length (frames queue)"
  let ?g = "f\<lparr>ready := 0\<rparr>"
  have slots: "slots queue = f # full @ free" and rf: "ready f \<noteq> 0"
    and flags: "list_all (\<lambda>f. ready f \<noteq> 0) full" "list_all (\<lambda>f. ready f = 0) free"
    and tail: "nat (index_tail queue) = (?k + Suc (length full)) mod ?n"
    using sp by (auto simp: fq_split_def)
  have ok: "slots_ok h (f # full @ free)" using inv slots by (simp add: fq_inv_def)
  have ix: "num_frames queue = int ?n" "0 \<le> ?i" "?i < num_frames queue" "num_frames queue < 2147483648"
    using inv by (auto simp: fq_inv_def)
  have f: "frame_ok h f" using ok by (simp add: slots_ok_def)
  with rf obtain a block where a: "frame_data f = Some a" "block_at h a = Some block"
    "nat (valid_size f) \<le> length block" "0 < valid_size f" "valid_size f < 2147483648"
    by (auto simp: frame_ok_def split: option.splits)
  define q1 where "q1 = (put_frame queue ?i ?g)\<lparr>index_head := int ((?k + 1) mod ?n)\<rparr>"
  have nxt: "(if s32 (?i + 1) = num_frames queue then 0 else s32 (?i + 1)) = int ((?k + 1) mod ?n)"
    using next_index [OF ix(2-4)] ix(1) by simp
  have pop: "frames_queue_pop (Some queue) = Some (0, Some (Some a, valid_size f), Some q1)"
    using head_slot [OF inv] slots rf nxt a
    by (auto simp: frames_queue_pop_def q1_def put_frame_def Let_def split: if_splits)
  have pos: "?k < ?n" "frames queue \<noteq> []" using ix by auto
  then have "rotate ?k ((frames queue)[?k := ?g]) = ?g # full @ free"
    using rotate_update [of 0 "frames queue" ?k ?g] slots by (auto simp: slots_def)
  then have slots1: "slots q1 = full @ free @ [?g]"
    using rotate_Suc_Cons [of ?k "(frames queue)[?k := ?g]"] by (simp add: slots_def q1_def put_frame_def)
  have "slots_ok h (slots q1)"
    using ok unfolding slots1 slots_ok_def by (auto simp: frame_ok_def ptrs_def split: option.splits)
  moreover have "fq_split q1 full (free @ [?g])"
  proof -
    have "(?k + Suc (length full)) mod ?n = ((?k + 1) mod ?n + length full) mod ?n"
      by (simp add: mod_add_left_eq)
    then show ?thesis using slots1 flags tail by (simp add: fq_split_def q1_def put_frame_def)
  qed
  moreover have "num_frames q1 = num_frames queue" "length (frames q1) = ?n"
    "index_tail q1 = index_tail queue" "0 \<le> index_head q1" "index_head q1 < num_frames queue"
    using ix pos by (auto simp: q1_def put_frame_def)
  ultimately have "fq_inv (h, q1)" using inv by (auto simp: fq_inv_def)
  moreover have "queue_contents (h, queue) = take (nat (valid_size f)) block # queue_contents (h, q1)"
    using rf a flags by (simp add: queue_contents_def slots slots1 frame_bytes_def)
  moreover have "fq_solid (h, queue) \<longrightarrow> fq_solid (h, q1)"
    using a(1) by (simp add: fq_solid_def q1_def put_frame_def solid_def)
  ultimately show ?thesis using pop a(2,3) \<open>num_frames q1 = num_frames queue\<close> by auto
qed

section \<open>The queue keeps the contract of a queue\<close>

text \<open>A client pushes a frame; the flag is the result of \<open>malloc\<close>, if the push calls it.\<close>

definition fq_put :: "bool \<times> byte list \<Rightarrow> heap \<times> framesQueue \<Rightarrow> (byte list list \<times> heap \<times> framesQueue) option" where
  "fq_put c s = do {
     (r, handle, h) \<leftarrow> frames_queue_push (fst c) (Some (snd c)) (length (snd c)) (Some (snd s)) (fst s);
     Some (if r = 0 then [snd c] else [], h, the handle) }"

text \<open>A client pops a frame and reads its bytes.\<close>

definition fq_get :: "unit \<Rightarrow> heap \<times> framesQueue \<Rightarrow> (byte list list \<times> heap \<times> framesQueue) option" where
  "fq_get u s = do {
     (r, result, handle) \<leftarrow> frames_queue_pop (Some (snd s));
     case result of
       None \<Rightarrow> Some ([], fst s, the handle)
     | Some (p, k) \<Rightarrow> do {
         a \<leftarrow> p;
         block \<leftarrow> block_at (fst s) a;
         xs \<leftarrow> load 0 (nat k) block;
         Some ([xs], fst s, the handle) } }"

definition fq_put_ok :: "int \<Rightarrow> bool \<times> byte list \<Rightarrow> bool" where
  "fq_put_ok n c \<longleftrightarrow> fst c \<and> length (snd c) < 2147483648"

definition fq_shape :: "heap \<times> framesQueue \<Rightarrow> int" where
  "fq_shape s = num_frames (snd s)"

text \<open>What a bounded queue of frames accepts and delivers.\<close>

definition fq_accept :: "int \<Rightarrow> byte list list \<Rightarrow> bool \<times> byte list \<Rightarrow> byte list list" where
  "fq_accept n q c = (if snd c = [] \<or> int (length q) = n then [] else [snd c])"

definition fq_deliver :: "int \<Rightarrow> byte list list \<Rightarrow> unit \<Rightarrow> byte list list" where
  "fq_deliver n q u = take 1 q"

lemma push_nothing: "frames_queue_push ok (Some []) 0 (Some queue) h = Some (-1, Some queue, h)"
  by (simp add: frames_queue_push_def)

lemma split_contents:
  assumes "fq_split queue full free"
  shows "length (queue_contents (h, queue)) = length full"
proof -
  have "filter (\<lambda>f. ready f \<noteq> 0) full = full" "filter (\<lambda>f. ready f \<noteq> 0) free = []"
    using assms by (auto simp: fq_split_def list_all_iff filter_id_conv filter_empty_conv)
  then show ?thesis using assms by (simp add: queue_contents_def fq_split_def)
qed

lemma split_lengths: "fq_inv (h, queue) \<Longrightarrow> fq_split queue full free \<Longrightarrow> num_frames queue = int (length full + length free)"
proof -
  assume "fq_inv (h, queue)" and "fq_split queue full free"
  then have "num_frames queue = int (length (frames queue))" "slots queue = full @ free"
    unfolding fq_inv_def fq_split_def by simp_all
  then show ?thesis using length_slots [of queue] by simp
qed

text \<open>A push in every case: what is accepted, and when the code copies to NULL.\<close>

lemma fq_put_cases:
  assumes inv: "fq_inv s" and len: "length (snd c) < 2147483648"
  shows "case fq_put c s of
      None \<Rightarrow> \<not> fq_solid s
    | Some (xs, s') \<Rightarrow> fq_inv s' \<and> fq_shape s' = fq_shape s \<and> queue_contents s' = queue_contents s @ xs \<and>
        (fst c \<longrightarrow> xs = fq_accept (fq_shape s) (queue_contents s) c \<and> (fq_solid s \<longrightarrow> fq_solid s'))"
proof -
  obtain h queue where s: "s = (h, queue)" by (cases s)
  obtain malloc_ok data where c: "c = (malloc_ok, data)" by (cases c)
  obtain full free where sp: "fq_split queue full free" using inv by (auto simp: fq_inv_def s)
  have inv': "fq_inv (h, queue)" using inv s by simp
  have full: "length (queue_contents s) = length full" "fq_shape s = int (length full + length free)"
    using split_contents [OF sp] split_lengths [OF inv' sp] by (simp_all add: s fq_shape_def)
  show ?thesis
  proof (cases "data = [] \<or> free = []")
    case True
    then have "fq_put c s = Some ([], s)"
      using push_nothing push_full [of h queue full] inv' sp by (auto simp: fq_put_def c s)
    then show ?thesis using inv full True by (auto simp: fq_accept_def c)
  next
    case False
    then obtain f rest where f: "free = f # rest" "data \<noteq> []" by (cases free) auto
    note sp = sp [unfolded f(1)]
    have accept: "fq_accept (fq_shape s) (queue_contents s) c = [data]" using full f by (simp add: fq_accept_def c)
    consider "if frame_size f < int (length data) then malloc_ok else frame_data f \<noteq> None"
      | "frame_size f < int (length data)" "\<not> malloc_ok" | "int (length data) \<le> frame_size f" "frame_data f = None"
      by (cases "frame_size f < int (length data)") auto
    then show ?thesis
    proof cases
      case 1
      have "0 < length data" "length data < 2147483648" using f(2) len by (simp_all add: c)
      from push_free [OF inv' sp this order_refl 1] obtain queue' h' where
        p: "frames_queue_push malloc_ok (Some data) (length data) (Some queue) h = Some (0, Some queue', h')"
          "fq_inv (h', queue')" "num_frames queue' = num_frames queue" "fq_solid (h, queue) \<longrightarrow> fq_solid (h', queue')"
          "queue_contents (h', queue') = queue_contents (h, queue) @ [data]" by auto
      then have "fq_put c s = Some ([data], h', queue')" by (simp add: fq_put_def c s)
      then show ?thesis using p(2-) accept by (simp add: fq_shape_def s)
    next
      case 2
      have "0 < length data" using f(2) by simp
      from push_failed [OF inv' sp this 2(1), of data] obtain queue' h' where
        p: "frames_queue_push False (Some data) (length data) (Some queue) h = Some (-1, Some queue', h')"
          "fq_inv (h', queue')" "num_frames queue' = num_frames queue"
          "queue_contents (h', queue') = queue_contents (h, queue)" by blast
      then have "fq_put c s = Some ([], h', queue')" using 2(2) by (simp add: fq_put_def c s)
      then show ?thesis using p(2-) 2(2) by (simp add: fq_shape_def s c)
    next
      case 3
      have "f \<in> set (slots queue)" using sp by (simp add: fq_split_def)
      moreover have "\<not> solid f" using 3 f(2) by (auto simp: solid_def)
      ultimately have "\<not> fq_solid s" by (auto simp: fq_solid_def list_all_iff slots_def s)
      then show ?thesis using push_stale [OF inv' sp _ 3, of malloc_ok data] f by (simp add: fq_put_def c s)
    qed
  qed
qed

lemma fq_get_total:
  assumes inv: "fq_inv s"
  shows "\<exists>ys s'. fq_get u s = Some (ys, s') \<and> fq_inv s' \<and> fq_shape s' = fq_shape s \<and>
    queue_contents s = ys @ queue_contents s' \<and> ys = fq_deliver n (queue_contents s) u \<and> (fq_solid s \<longrightarrow> fq_solid s')"
proof -
  obtain h queue where s: "s = (h, queue)" by (cases s)
  obtain full free where sp: "fq_split queue full free" using inv by (auto simp: fq_inv_def s)
  show ?thesis
  proof (cases full)
    case Nil
    then have "queue_contents s = []" using split_contents [OF sp, of h] by (simp add: s)
    then show ?thesis using pop_empty [of h queue free] inv sp s Nil by (simp add: fq_get_def fq_deliver_def)
  next
    case (Cons f full')
    then show ?thesis using pop_full [of h queue f full' free] inv sp s
      by (fastforce simp: fq_get_def fq_shape_def fq_deliver_def)
  qed
qed

interpretation fq: exact_fifo "\<lambda>s. fq_inv s \<and> fq_solid s" queue_contents fq_shape fq_put fq_get fq_put_ok "\<lambda>k u. True"
  fq_accept fq_deliver
proof
  fix s :: "heap \<times> framesQueue" and c xs s' u ys
  assume inv: "fq_inv s \<and> fq_solid s"
  show "\<exists>xs s'. fq_put c s = Some (xs, s') \<and> (fq_inv s' \<and> fq_solid s') \<and> fq_shape s' = fq_shape s \<and>
      queue_contents s' = queue_contents s @ xs" if "fq_put_ok (fq_shape s) c"
    using fq_put_cases [of s c] inv that by (auto simp: fq_put_ok_def split: option.splits)
  show "\<exists>ys s'. fq_get u s = Some (ys, s') \<and> (fq_inv s' \<and> fq_solid s') \<and> fq_shape s' = fq_shape s \<and>
      queue_contents s = ys @ queue_contents s'"
    using fq_get_total [of s u] inv by blast
  show "xs = fq_accept (fq_shape s) (queue_contents s) c" if "fq_put_ok (fq_shape s) c" "fq_put c s = Some (xs, s')"
    using fq_put_cases [of s c] inv that by (auto simp: fq_put_ok_def)
  show "ys = fq_deliver (fq_shape s) (queue_contents s) u" if "fq_get u s = Some (ys, s')"
    using fq_get_total [of s u "fq_shape s"] inv that by auto
qed

text \<open>When some \<open>malloc\<close> fails, what is accepted is still delivered or queued, as long as the code goes on.\<close>

lemma fq_run_partial:
  "\<lbrakk>fq_inv s; \<forall>c. Put c \<in> set cs \<longrightarrow> length (snd c) < 2147483648; run_calls fq_put fq_get cs s = Some (ins, outs, s')\<rbrakk> \<Longrightarrow>
   queue_contents s @ ins = outs @ queue_contents s'"
proof (induction cs arbitrary: s ins outs)
  case (Cons call cs)
  show ?case
  proof (cases call)
    case (Put c)
    then obtain xs s1 ins1 where s1: "fq_put c s = Some (xs, s1)" "run_calls fq_put fq_get cs s1 = Some (ins1, outs, s')"
        "ins = xs @ ins1"
      using Cons.prems(3) by (auto split: Option.bind_splits)
    then have "fq_inv s1" "queue_contents s1 = queue_contents s @ xs"
      using fq_put_cases [OF Cons.prems(1), of c] Cons.prems(2) Put by auto
    then show ?thesis using Cons.IH [of s1 ins1 outs] Cons.prems(2) s1 by simp
  next
    case (Get u)
    then obtain ys s1 outs1 where s1: "fq_get u s = Some (ys, s1)" "run_calls fq_put fq_get cs s1 = Some (ins, outs1, s')"
        "outs = ys @ outs1"
      using Cons.prems(3) by (auto split: Option.bind_splits)
    then have "fq_inv s1" "queue_contents s = ys @ queue_contents s1"
      using fq_get_total [OF Cons.prems(1), of u] by auto
    then show ?thesis using Cons.IH [of s1 ins outs1] Cons.prems(2) s1 by simp
  qed
qed simp

section \<open>Creation, count and destruction\<close>

lemma clear_frames_all:
  "n \<le> length fs \<Longrightarrow>
   clear_frames n fs =
     Some (replicate n \<lparr>ready = 0, valid_size = 0, frame_size = 0, frame_data = None\<rparr> @ drop n fs)"
proof (induction n arbitrary: fs)
  case (Suc n)
  then show ?case
    by (simp add: drop_update_cancel Cons_nth_drop_Suc [symmetric] replicate_append_same)
qed simp

lemma create_inv:
  assumes "frames_queue_create (Some q0) (Some fs) n = Some (r, Some queue)"
    and "n = int (length fs)" "0 < n" "n < 2147483648"
  shows "fq_inv (h, queue) \<and> fq_solid (h, queue) \<and> queue_contents (h, queue) = [] \<and> num_frames queue = n \<and> r = 0"
proof -
  let ?fs = "replicate (length fs) \<lparr>ready = 0, valid_size = 0, frame_size = 0, frame_data = None\<rparr>"
  have q: "queue = q0\<lparr>num_frames := n, index_head := 0, index_tail := 0, frames := ?fs\<rparr>" "r = 0"
    using assms by (auto simp: frames_queue_create_def clear_frames_all)
  moreover have "fq_split queue [] ?fs" using q by (simp add: fq_split_def slots_def list_all_iff)
  moreover have "slots_ok h ?fs"
    by (simp add: slots_ok_def frame_ok_def list_all_iff ptrs_def)
  ultimately show ?thesis using assms(2-4)
    by (auto simp: fq_inv_def slots_def queue_contents_def fq_solid_def solid_def list_all_iff)
qed

lemma num_valid_mod:
  assumes inv: "fq_inv (h, queue)"
  shows "frames_queue_get_num_valid_frames (Some queue) =
    Some (int (length (queue_contents (h, queue)) mod length (frames queue)))"
proof -
  obtain full free where sp: "fq_split queue full free" using inv by (auto simp: fq_inv_def)
  let ?n = "length (frames queue)" and ?i = "nat (index_head queue)" and ?t = "nat (index_tail queue)"
  have ix: "index_head queue = int ?i" "index_tail queue = int ?t" "num_frames queue = int ?n"
    "?i < ?n" "?t < ?n" "?n < 2147483648" using inv by (auto simp: fq_inv_def)
  have "length full \<le> ?n" using sp by (metis fq_split_def length_append length_slots le_add1)
  moreover have t: "?t = (?i + length full) mod ?n" using sp by (simp add: fq_split_def)
  ultimately have "(if ?i \<le> ?t then ?t - ?i else ?n + ?t - ?i) = length full mod ?n"
  proof (cases "?i + length full < ?n")
    case True
    then show ?thesis using t by simp
  next
    case False
    then have "?t = ?i + length full - ?n"
      using t ix(4) \<open>length full \<le> ?n\<close> by (simp add: le_mod_geq)
    then show ?thesis using False ix(4) \<open>length full \<le> ?n\<close> by (cases "length full = ?n") auto
  qed
  moreover have "frames_queue_get_num_valid_frames (Some queue) =
      Some (int (if ?i \<le> ?t then ?t - ?i else ?n + ?t - ?i))"
  proof -
    obtain i t n where v: "index_head queue = int i" "index_tail queue = int t" "num_frames queue = int n"
      using ix(1-3) by blast
    then have "i < n" "t < n" "n < 2147483648" "?i = i" "?t = t" "?n = n" using ix by auto
    then show ?thesis by (simp add: frames_queue_get_num_valid_frames_def v of_nat_diff)
  qed
  ultimately show ?thesis by (simp add: split_contents [OF sp])
qed

lemma free_frames_blocks:
  assumes "n \<le> length fs" "\<forall>a\<in>set (concat (map ptrs (take n fs))). block_at h a \<noteq> None"
    "distinct (concat (map ptrs (take n fs)))"
  shows "\<exists>h'. free_frames n fs h = Some h' \<and>
    (\<forall>a. block_at h' a = (if a \<in> set (concat (map ptrs (take n fs))) then None else block_at h a))"
  using assms
proof (induction n arbitrary: h)
  case (Suc n)
  have split: "take (Suc n) fs = take n fs @ [fs ! n]" using Suc.prems(1) by (simp add: take_Suc_conv_app_nth)
  obtain h1 where h1: "(case frame_data (fs ! n) of None \<Rightarrow> Some h | Some a \<Rightarrow> h_free a h) = Some h1"
    "\<forall>a. block_at h1 a = (if a \<in> set (ptrs (fs ! n)) then None else block_at h a)"
  proof (cases "frame_data (fs ! n)")
    case None
    then show thesis using that by (simp add: ptrs_def)
  next
    case (Some b)
    then have "block_at h b \<noteq> None" using Suc.prems(2) unfolding split by (simp add: ptrs_def)
    then obtain x where "b < length h" "block_at h b = Some x" by (auto simp: block_at_Some)
    then show thesis using that [of "h[b := None]"] Some by (simp add: ptrs_def h_free_def)
  qed
  have "\<forall>a\<in>set (concat (map ptrs (take n fs))). block_at h1 a \<noteq> None"
    using h1(2) Suc.prems(2,3) unfolding split by auto
  then show ?case using Suc.IH [of h1] Suc.prems(1,3) h1 unfolding split by (auto simp: ptrs_def)
qed simp

lemma slots_ptrs:
  "mset (concat (map ptrs (slots queue))) = mset (concat (map ptrs (frames queue)))"
proof -
  let ?m = "nat (index_head queue) mod length (frames queue)"
  have "mset (concat (map ptrs (drop ?m (frames queue) @ take ?m (frames queue)))) =
      mset (concat (map ptrs (take ?m (frames queue) @ drop ?m (frames queue))))"
    by (simp only: map_append concat_append mset_append add.commute)
  then show ?thesis by (simp add: slots_def rotate_drop_take)
qed

section \<open>Properties\<close>

text \<open>
  C26: The frame queue is a bounded queue for its whole life.  Take any sequence of pushes of frames
  of less than \<open>2 ^ 31\<close> bytes and of pops on a new queue, with any outcome of the calls of \<open>malloc\<close>.  If no \<open>malloc\<close> fails, every call accesses
  only live buffers and answers like a list of at most \<open>num_frames\<close> frames: a push is refused
  exactly when the frame is empty or the list is full, and a pop delivers the oldest frame, byte
  for byte, and nothing exactly when the list is empty.  If one fails, the code may later
  copy to NULL (None), but as long as it does not, the frames accepted so far are the frames
  popped so far, in order, followed by the frames still queued.
\<close>

theorem FramesQueue_stream:
  assumes "frames_queue_create (Some q0) (Some fs) n = Some (r, Some queue)"
    and "n = int (length fs)" "0 < n" "n < 2147483648"
    and "\<forall>c. Put c \<in> set cs \<longrightarrow> length (snd c) < 2147483648"
  shows "case run_calls fq_put fq_get cs (h, queue) of
      None \<Rightarrow> \<exists>data. Put (False, data) \<in> set cs
    | Some (ins, outs, s') \<Rightarrow> ins = outs @ queue_contents s' \<and>
        ((\<forall>data. Put (False, data) \<notin> set cs) \<longrightarrow>
          (ins, outs, queue_contents s') = run_queue (fq_accept n) (fq_deliver n) cs [])"
proof -
  have new: "fq_inv (h, queue)" "fq_solid (h, queue)" "queue_contents (h, queue) = []" "fq_shape (h, queue) = n"
    using create_inv [OF assms(1-4), of h] by (simp_all add: fq_shape_def)
  have ok: "list_all (call_ok (fq_put_ok n) (\<lambda>u. True)) cs" if "\<forall>data. Put (False, data) \<notin> set cs"
  proof -
    have "call_ok (fq_put_ok n) (\<lambda>u. True) call" if "call \<in> set cs" for call
      using assms(5) that \<open>\<forall>data. Put (False, data) \<notin> set cs\<close> by (cases call) (auto simp: fq_put_ok_def, metis)
    then show ?thesis by (simp add: list_all_iff)
  qed
  show ?thesis
  proof (cases "run_calls fq_put fq_get cs (h, queue)")
    case None
    then show ?thesis using fq.stream [of "(h, queue)" cs] new ok by auto
  next
    case (Some result)
    obtain ins outs s' where result: "result = (ins, outs, s')" by (cases result)
    show ?thesis
      using fq_run_partial [OF new(1) assms(5)] fq.refines [of "(h, queue)" cs ins outs s'] new ok Some result by auto
  qed
qed

theorem FramesQueue_stream_witness:
  "let q0 = \<lparr>num_frames = 0, index_head = 0, index_tail = 0, frames = []\<rparr>;
       f0 = \<lparr>ready = 5, valid_size = 5, frame_size = 5, frame_data = None\<rparr>;
       cs = [Put (True, [1, 2]), Put (True, [3]), Get (), Put (True, [4, 5, 6]), Put (True, [7])]
   in \<exists>queue s'. frames_queue_create (Some q0) (Some [f0, f0]) 2 = Some (0, Some queue) \<and>
        run_calls fq_put fq_get cs ([], queue) = Some ([[1, 2], [3], [4, 5, 6]], [[1, 2]], s') \<and>
        queue_contents s' = [[3], [4, 5, 6]]"
proof -
  let ?q0 = "\<lparr>num_frames = 0, index_head = 0, index_tail = 0, frames = []\<rparr>"
  let ?f0 = "\<lparr>ready = 5, valid_size = 5, frame_size = 5, frame_data = None\<rparr>"
  let ?cs = "[Put (True, [1, 2]), Put (True, [3]), Get (), Put (True, [4, 5, 6]), Put (True, [7])]"
  obtain queue where q: "frames_queue_create (Some ?q0) (Some [?f0, ?f0]) 2 = Some (0, Some queue)"
    by (simp add: frames_queue_create_def clear_frames_all)
  have "\<exists>s'. run_calls fq_put fq_get ?cs ([], queue) = Some ([[1, 2], [3], [4, 5, 6]], [[1, 2]], s') \<and>
      queue_contents s' = [[3], [4, 5, 6]]"
    using FramesQueue_stream [OF q, of ?cs "[]"]
    by (auto simp: fq_accept_def fq_deliver_def split: option.splits)
  then show ?thesis using q unfolding Let_def by blast
qed

text \<open>
  The count of valid frames is reported modulo the capacity, so a full queue reports that
  it holds no frame.
\<close>

theorem FramesQueue_count_modulo:
  assumes "fq_inv (h, queue)"
  shows "frames_queue_get_num_valid_frames (Some queue) =
    Some (int (length (queue_contents (h, queue)) mod nat (num_frames queue)))"
  using num_valid_mod [OF assms] assms by (simp add: fq_inv_def)

theorem FramesQueue_count_modulo_witness:
  "let f = \<lparr>ready = 1, valid_size = 1, frame_size = 1, frame_data = Some 0\<rparr>;
       queue = \<lparr>num_frames = 1, index_head = 0, index_tail = 0, frames = [f]\<rparr>
   in queue_contents ([Some [9]], queue) = [[9]] \<and> frames_queue_get_num_valid_frames (Some queue) = Some 0"
proof -
  let ?f = "\<lparr>ready = 1, valid_size = 1, frame_size = 1, frame_data = Some 0\<rparr>"
  let ?q = "\<lparr>num_frames = 1, index_head = 0, index_tail = 0, frames = [?f]\<rparr>"
  have c: "queue_contents ([Some [9]], ?q) = [[9]]"
    by (simp add: queue_contents_def slots_def frame_bytes_def block_at_def)
  have "slots_ok [Some [9]] [?f]"
    by (simp add: slots_ok_def frame_ok_def ptrs_def block_at_def)
  moreover have "fq_split ?q [?f] []" by (simp add: fq_split_def slots_def)
  ultimately have "fq_inv ([Some [9]], ?q)" by (auto simp: fq_inv_def slots_def)
  from FramesQueue_count_modulo [OF this] c show ?thesis by (simp add: Let_def)
qed

text \<open>
  Destroying a queue frees every buffer of its slots exactly once and nothing else.
\<close>

theorem FramesQueue_destroy_frees:
  assumes "fq_inv (h, queue)"
  shows "\<exists>h'. frames_queue_destroy (Some queue) h = Some (0, h') \<and>
    (\<forall>a. block_at h' a = (if \<exists>f\<in>set (frames queue). frame_data f = Some a then None else block_at h a))"
proof -
  have n: "num_frames queue = int (length (frames queue))" and ok: "slots_ok h (slots queue)"
    using assms by (auto simp: fq_inv_def)
  have set_eq: "set (concat (map ptrs (slots queue))) = set (concat (map ptrs (frames queue)))"
    using slots_ptrs by (rule mset_eq_setD)
  have dist: "distinct (concat (map ptrs (frames queue)))"
    using ok mset_eq_imp_distinct_iff [OF slots_ptrs] by (simp add: slots_ok_def)
  have "\<forall>a\<in>set (concat (map ptrs (slots queue))). block_at h a \<noteq> None"
  proof
    fix a
    assume "a \<in> set (concat (map ptrs (slots queue)))"
    then obtain f where "f \<in> set (slots queue)" "frame_data f = Some a"
      by (auto simp: ptrs_def split: option.splits)
    then show "block_at h a \<noteq> None"
      using ok by (auto simp: slots_ok_def list_all_iff frame_ok_def split: option.splits)
  qed
  then have "\<forall>a\<in>set (concat (map ptrs (frames queue))). block_at h a \<noteq> None"
    unfolding set_eq .
  then obtain h' where h': "free_frames (length (frames queue)) (frames queue) h = Some h'"
    "\<forall>a. block_at h' a = (if a \<in> set (concat (map ptrs (frames queue))) then None else block_at h a)"
    using free_frames_blocks [of "length (frames queue)" "frames queue" h] dist by auto
  have "a \<in> set (concat (map ptrs (frames queue))) \<longleftrightarrow> (\<exists>f\<in>set (frames queue). frame_data f = Some a)" for a
    by (auto simp: ptrs_def split: option.splits) (metis option.sel)+
  then show ?thesis using h' n by (auto simp: frames_queue_destroy_def)
qed

theorem FramesQueue_destroy_frees_witness:
  "let f = \<lparr>ready = 1, valid_size = 1, frame_size = 1, frame_data = Some 0\<rparr>;
       queue = \<lparr>num_frames = 1, index_head = 0, index_tail = 0, frames = [f]\<rparr>
   in \<exists>h'. frames_queue_destroy (Some queue) [Some [9], Some [8]] = Some (0, h') \<and>
        block_at h' 0 = None \<and> block_at h' 1 = Some [8]"
proof -
  let ?f = "\<lparr>ready = 1, valid_size = 1, frame_size = 1, frame_data = Some 0\<rparr>"
  let ?q = "\<lparr>num_frames = 1, index_head = 0, index_tail = 0, frames = [?f]\<rparr>"
  have "slots_ok [Some [9], Some [8]] [?f]"
    by (simp add: slots_ok_def frame_ok_def ptrs_def block_at_def)
  moreover have "fq_split ?q [?f] []" by (simp add: fq_split_def slots_def)
  ultimately have "fq_inv ([Some [9], Some [8]], ?q)" by (auto simp: fq_inv_def slots_def)
  from FramesQueue_destroy_frees [OF this]
  obtain h' where "frames_queue_destroy (Some ?q) [Some [9], Some [8]] = Some (0, h')"
    "block_at h' 0 = None" "block_at h' 1 = block_at [Some [9], Some [8]] 1" by auto
  then show ?thesis by (auto simp: Let_def block_at_def [of "[Some [9], Some [8]]"])
qed

text \<open>
  A failed \<open>malloc\<close> leaves the slot with a NULL buffer and its old size: in a queue of one
  slot, after a frame of four bytes was popped and a push of eight bytes failed, the push of
  two bytes copies to NULL.
\<close>

theorem FramesQueue_failed_malloc:
  "let f = \<lparr>ready = 0, valid_size = 4, frame_size = 4, frame_data = Some 0\<rparr>;
       queue = \<lparr>num_frames = 1, index_head = 0, index_tail = 0, frames = [f]\<rparr>
   in \<exists>handle h. frames_queue_push False (Some (replicate 8 1)) 8 (Some queue) [Some [1, 2, 3, 4]] = Some (-1, handle, h) \<and>
        frames_queue_push True (Some (replicate 2 1)) 2 handle h = None"
  by (simp add: frames_queue_push_def frames_at_def frame_reserve_def h_free_def block_at_def put_frame_def)

text \<open>
  The pointer a pop returns belongs to the slot: with one slot, the next push overwrites
  the frame just popped.
\<close>

theorem FramesQueue_pop_aliases:
  "let f = \<lparr>ready = 1, valid_size = 2, frame_size = 2, frame_data = Some 0\<rparr>;
       queue = \<lparr>num_frames = 1, index_head = 0, index_tail = 0, frames = [f]\<rparr>
   in \<exists>handle handle' h. frames_queue_pop (Some queue) = Some (0, Some (Some 0, 2), handle) \<and>
        frames_queue_push True (Some [3, 4]) 2 handle [Some [1, 2]] = Some (0, handle', h) \<and>
        block_at h 0 = Some [3, 4]"
  by (simp add: frames_queue_push_def frames_queue_pop_def frames_at_def frame_reserve_def h_store_def
      block_at_def put_frame_def blit_def)

end
