(* ===== verification/WavIO.thy ===== *)
theory WavIO
  imports ByteMem
begin

text \<open>
  Reading and writing of WAV headers and samples (\<open>wav_io.c\<close>).  A file is its bytes and the
  current position; \<open>fread\<close>, \<open>fwrite\<close> and \<open>fseek\<close> are the functions of the C library on it.
  The three chunk structures have no padding and are copied between memory and file as they
  are, on a little-endian machine.

  The search for a chunk identifier reads bytes of the stack buffer; None is a read outside
  of the bytes that were filled.  The lemmas show that the search stays inside, terminates
  and finds the first occurrence, that a header survives writing and reading, and where a
  successful read leaves the file.
\<close>

section \<open>Files\<close>

record wav_file =
  file_bytes :: "byte list"
  file_pos :: nat

definition fread :: "nat \<Rightarrow> nat \<Rightarrow> wav_file \<Rightarrow> byte list \<times> nat \<times> wav_file" where
  "fread sz n f =
     (let xs = take (sz * n) (drop (file_pos f) (file_bytes f))
      in (xs, length xs div sz, f\<lparr>file_pos := file_pos f + length xs\<rparr>))"

definition fwrite :: "byte list \<Rightarrow> wav_file \<Rightarrow> wav_file" where
  "fwrite xs f =
     f\<lparr>file_bytes := take (file_pos f) (file_bytes f) @ xs @ drop (file_pos f + length xs) (file_bytes f),
       file_pos := file_pos f + length xs\<rparr>"

text \<open>\<open>fseek\<close> relative to the current position; a negative target is refused.\<close>

definition fseek_cur :: "int \<Rightarrow> wav_file \<Rightarrow> wav_file" where
  "fseek_cur d f = (if int (file_pos f) + d < 0 then f else f\<lparr>file_pos := nat (int (file_pos f) + d)\<rparr>)"

section \<open>Integers in memory\<close>

definition le_bytes :: "nat \<Rightarrow> int \<Rightarrow> byte list" where
  "le_bytes k x = map (\<lambda>i. word_of_int (x div 256 ^ i)) [0..<k]"

fun le_nat :: "byte list \<Rightarrow> int" where
  "le_nat [] = 0"
| "le_nat (b # bs) = uint b + 256 * le_nat bs"

definition get_int :: "byte list \<Rightarrow> int32" where "get_int bs = s32 (le_nat bs)"
definition get_short :: "byte list \<Rightarrow> int16" where "get_short bs = s16 (le_nat bs)"

section \<open>Headers\<close>

record RIFF_CHUNK =
  riff_ID :: "byte list"
  riff_size :: int32
  riff_type :: "byte list"

record FORMAT_CHUNK =
  format_ID :: "byte list"
  format_size :: int32
  format_tag :: int16
  channels :: int16
  sample_per_sec :: int32
  avg_bytes_per_sec :: int32
  blockAlign :: int16
  bits_per_sample :: int16

record DATA_CHUNK =
  data_ID :: "byte list"
  data_size :: int32

record WAV_HEADER =
  riff :: RIFF_CHUNK
  format :: FORMAT_CHUNK
  data_chunk :: DATA_CHUNK

abbreviation (input) BUFFER_SIZE :: nat where "BUFFER_SIZE \<equiv> 256"
abbreviation (input) sizeof_RIFF :: nat where "sizeof_RIFF \<equiv> 12"
abbreviation (input) sizeof_FORMAT :: nat where "sizeof_FORMAT \<equiv> 24"
abbreviation (input) sizeof_DATA :: nat where "sizeof_DATA \<equiv> 8"

definition ID_RIFF :: "byte list" where "ID_RIFF = [0x52, 0x49, 0x46, 0x46]"
definition ID_WAVE :: "byte list" where "ID_WAVE = [0x57, 0x41, 0x56, 0x45]"
definition ID_fmt :: "byte list" where "ID_fmt = [0x66, 0x6D, 0x74, 0x20]"
definition ID_data :: "byte list" where "ID_data = [0x64, 0x61, 0x74, 0x61]"

text \<open>The structures as bytes, and the bytes as structures.\<close>

definition riff_bytes :: "RIFF_CHUNK \<Rightarrow> byte list" where
  "riff_bytes c = riff_ID c @ le_bytes 4 (riff_size c) @ riff_type c"

definition format_bytes :: "FORMAT_CHUNK \<Rightarrow> byte list" where
  "format_bytes c = format_ID c @ le_bytes 4 (format_size c) @ le_bytes 2 (format_tag c) @
     le_bytes 2 (channels c) @ le_bytes 4 (sample_per_sec c) @ le_bytes 4 (avg_bytes_per_sec c) @
     le_bytes 2 (blockAlign c) @ le_bytes 2 (bits_per_sample c)"

definition data_bytes :: "DATA_CHUNK \<Rightarrow> byte list" where
  "data_bytes c = data_ID c @ le_bytes 4 (data_size c)"

definition sub_bytes :: "nat \<Rightarrow> nat \<Rightarrow> byte list \<Rightarrow> byte list" where
  "sub_bytes i k bs = take k (drop i bs)"

definition riff_of :: "byte list \<Rightarrow> RIFF_CHUNK" where
  "riff_of bs = \<lparr>riff_ID = sub_bytes 0 4 bs, riff_size = get_int (sub_bytes 4 4 bs), riff_type = sub_bytes 8 4 bs\<rparr>"

definition format_of :: "byte list \<Rightarrow> FORMAT_CHUNK" where
  "format_of bs = \<lparr>format_ID = sub_bytes 0 4 bs, format_size = get_int (sub_bytes 4 4 bs),
     format_tag = get_short (sub_bytes 8 2 bs), channels = get_short (sub_bytes 10 2 bs),
     sample_per_sec = get_int (sub_bytes 12 4 bs), avg_bytes_per_sec = get_int (sub_bytes 16 4 bs),
     blockAlign = get_short (sub_bytes 20 2 bs), bits_per_sample = get_short (sub_bytes 22 2 bs)\<rparr>"

definition data_of :: "byte list \<Rightarrow> DATA_CHUNK" where
  "data_of bs = \<lparr>data_ID = sub_bytes 0 4 bs, data_size = get_int (sub_bytes 4 4 bs)\<rparr>"

section \<open>Operations\<close>

fun string_cmp :: "byte list \<Rightarrow> byte list \<Rightarrow> nat \<Rightarrow> int option" where
  "string_cmp str1 str2 0 = Some 0"
| "string_cmp (x # xs) (y # ys) (Suc n) = (if x \<noteq> y then Some (-1) else string_cmp xs ys n)"
| "string_cmp _ _ (Suc n) = None"

text \<open>The loop of \<open>search_ID\<close>: the answer and \<open>*loc\<close>.\<close>

function search_loop :: "byte list \<Rightarrow> byte list \<Rightarrow> int \<Rightarrow> int \<Rightarrow> int \<Rightarrow> (int \<times> int) option" where
  "search_loop ID buf buf_size num loc =
     (if buf_size \<ge> int (length ID)
      then do {
        r \<leftarrow> string_cmp ID buf (length ID);
        if r = 0 then Some (0, num)
        else search_loop ID (drop 1 buf) (buf_size - 1) (num + 1) loc }
      else Some (-1, loc))"
  by pat_completeness auto

termination
  by (relation "measure (\<lambda>(ID, buf, k, num, loc). nat (k + 1))") auto

definition search_ID :: "byte list \<Rightarrow> byte list \<Rightarrow> int \<Rightarrow> int \<Rightarrow> (int \<times> int) option" where
  "search_ID ID buf buf_size loc = search_loop ID buf buf_size 0 loc"

definition read_header :: "WAV_HEADER \<Rightarrow> wav_file \<Rightarrow> (int \<times> WAV_HEADER \<times> wav_file) option" where
  "read_header header file =
     (let (buf, buf_len, file) = fread 1 BUFFER_SIZE file
      in if buf_len = 0 then Some (-1, header, file)
         else do {
           (r, loc) \<leftarrow> search_ID ID_RIFF buf (int buf_len) 0;
           let p = nat loc;
           let buf_len = buf_len - p;
           if r = -1 \<or> buf_len < sizeof_RIFF then Some (-1, header, file)
           else do {
             chunk \<leftarrow> load p sizeof_RIFF buf;
             let header = header\<lparr>riff := riff_of chunk\<rparr>;
             if riff_type (riff header) \<noteq> ID_WAVE then Some (-1, header, file)
             else do {
               let p = p + sizeof_RIFF;
               let buf_len = buf_len - sizeof_RIFF;
               (r, loc) \<leftarrow> search_ID ID_fmt (drop p buf) (int buf_len) loc;
               let p = p + nat loc;
               let len = buf_len - nat loc;
               if r = -1 \<or> len < sizeof_FORMAT then Some (-1, header, file)
               else do {
                 chunk \<leftarrow> load p sizeof_FORMAT buf;
                 let header = header\<lparr>format := format_of chunk\<rparr>;
                 let p = p + sizeof_FORMAT;
                 let buf_len = len - sizeof_FORMAT;
                 (r, loc) \<leftarrow> search_ID ID_data (drop p buf) (int buf_len) loc;
                 let p = p + nat loc;
                 let len = buf_len - nat loc;
                 if r = -1 \<or> len < sizeof_DATA then Some (-1, header, file)
                 else do {
                   chunk \<leftarrow> load p sizeof_DATA buf;
                   let header = header\<lparr>data_chunk := data_of chunk\<rparr>;
                   Some (0, header, fseek_cur (- int (len - sizeof_DATA)) file) } } } } })"

definition write_header :: "WAV_HEADER \<Rightarrow> wav_file \<Rightarrow> int \<times> WAV_HEADER \<times> wav_file" where
  "write_header header file =
     (let header = header\<lparr>format := (format header)\<lparr>format_size := 16\<rparr>\<rparr>
      in (0, header,
          fwrite (riff_bytes (riff header) @ format_bytes (format header) @ data_bytes (data_chunk header)) file))"

text \<open>Samples are two bytes; the count of complete samples is the answer.\<close>

fun shorts_of :: "byte list \<Rightarrow> int16 list" where
  "shorts_of (a # b # bs) = get_short [a, b] # shorts_of bs"
| "shorts_of _ = []"

definition read_samples :: "int16 list \<Rightarrow> nat \<Rightarrow> wav_file \<Rightarrow> (int \<times> int16 list \<times> wav_file) option" where
  "read_samples buf num_samples file = do {
     let (xs, len, file) = fread 2 num_samples file;
     buf \<leftarrow> store 0 (shorts_of xs) buf;
     Some (s32 (int len), buf, file) }"

definition write_samples :: "int16 list \<Rightarrow> nat \<Rightarrow> wav_file \<Rightarrow> (int \<times> wav_file) option" where
  "write_samples buf num_samples file = do {
     xs \<leftarrow> load 0 num_samples buf;
     Some (s32 (int num_samples), fwrite (concat (map (le_bytes 2) xs)) file) }"

section \<open>Integers and their bytes\<close>

lemma length_le_bytes [simp]: "length (le_bytes k x) = k"
  by (simp add: le_bytes_def)

lemma le_bytes_Suc: "le_bytes (Suc k) x = word_of_int x # le_bytes k (x div 256)"
proof -
  have "[0..<Suc k] = 0 # map Suc [0..<k]" by (simp add: map_Suc_upt upt_conv_Cons del: upt_Suc)
  then show ?thesis by (simp add: le_bytes_def zdiv_zmult2_eq)
qed

lemma le_nat_bytes: "le_nat (le_bytes k x) = x mod 256 ^ k"
proof (induction k arbitrary: x)
  case 0
  then show ?case by (simp add: le_bytes_def)
next
  case (Suc k)
  have "x mod (256 * 256 ^ k) = 256 * (x div 256 mod 256 ^ k) + x mod 256"
    by (simp add: zmod_zmult2_eq)
  then show ?case by (simp add: le_bytes_Suc Suc.IH uint_word_of_int)
qed

lemma s32_mod: "is_s32 x \<Longrightarrow> s32 (x mod 4294967296) = x"
  by (auto simp: s32_def is_s32_def mod_add_left_eq)

lemma s16_mod: "is_s16 x \<Longrightarrow> s16 (x mod 65536) = x"
  by (auto simp: s16_def is_s16_def mod_add_left_eq)

lemma get_int_bytes [simp]: "is_s32 x \<Longrightarrow> get_int (le_bytes 4 x) = x"
  using s32_mod [of x] by (simp add: get_int_def le_nat_bytes)

lemma get_short_bytes [simp]: "is_s16 x \<Longrightarrow> get_short (le_bytes 2 x) = x"
  using s16_mod [of x] by (simp add: get_short_def le_nat_bytes)

lemma shorts_of_append:
  "is_s16 x \<Longrightarrow> shorts_of (le_bytes 2 x @ bs) = x # shorts_of bs"
  using get_short_bytes [of x] by (simp add: numeral_2_eq_2 le_bytes_Suc le_bytes_def)

lemma shorts_of_samples: "list_all is_s16 xs \<Longrightarrow> shorts_of (concat (map (le_bytes 2) xs)) = xs"
  by (induction xs) (simp_all add: shorts_of_append)

section \<open>The search\<close>

declare search_loop.simps [simp del]

lemma string_cmp_prefix:
  "n \<le> length xs \<Longrightarrow> n \<le> length ys \<Longrightarrow>
   string_cmp xs ys n = Some (if take n xs = take n ys then 0 else -1)"
  by (induction xs ys n rule: string_cmp.induct) auto

definition occurs_at :: "byte list \<Rightarrow> byte list \<Rightarrow> nat \<Rightarrow> bool" where
  "occurs_at ID buf k \<longleftrightarrow> take (length ID) (drop k buf) = ID"

lemma search_loop_find:
  assumes "n \<le> length buf" "ID \<noteq> []"
  shows "search_loop ID buf (int n) num loc =
    (case find (occurs_at ID buf) [0..<Suc n - length ID] of
       None \<Rightarrow> Some (-1, loc) | Some k \<Rightarrow> Some (0, num + int k))"
  using assms(1)
proof (induction n arbitrary: buf num)
  case 0
  have "Suc 0 - length ID = 0" using assms(2) by (cases ID) auto
  then show ?case using assms(2) by (subst search_loop.simps) simp
next
  case (Suc n)
  show ?case
  proof (cases "length ID \<le> Suc n")
    case False
    then show ?thesis by (subst search_loop.simps) simp
  next
    case True
    have cmp: "string_cmp ID buf (length ID) = Some (if occurs_at ID buf 0 then 0 else -1)"
      using string_cmp_prefix [of "length ID" ID buf] True Suc.prems by (auto simp: occurs_at_def)
    have idx: "[0..<Suc (Suc n) - length ID] = 0 # map Suc [0..<Suc n - length ID]"
      using True assms(2) by (simp add: Suc_diff_le map_Suc_upt upt_conv_Cons del: upt_Suc)
    have shift: "occurs_at ID buf \<circ> Suc = occurs_at ID (drop 1 buf)"
      by (auto simp: occurs_at_def)
    have "find (occurs_at ID buf) (map Suc ks) = map_option Suc (find (occurs_at ID (drop 1 buf)) ks)" for ks
      unfolding shift [symmetric] by (induction ks) auto
    then show ?thesis
      using True cmp Suc.IH [of "drop 1 buf" "num + 1"] Suc.prems
      by (subst search_loop.simps) (auto simp: idx split: option.splits)
  qed
qed

lemma search_ID_find:
  assumes "n \<le> length buf" "ID \<noteq> []"
  shows "search_ID ID buf (int n) loc =
    (case find (occurs_at ID buf) [0..<Suc n - length ID] of
       None \<Rightarrow> Some (-1, loc) | Some k \<Rightarrow> Some (0, int k))"
  using search_loop_find [OF assms, of 0 loc] by (simp add: search_ID_def split: option.splits)

lemma search_ID_here:
  assumes "take (length ID) buf = ID" "ID \<noteq> []" "length ID \<le> n" "n \<le> length buf"
  shows "search_ID ID buf (int n) loc = Some (0, 0)"
proof -
  have "occurs_at ID buf 0" using assms(1) by (simp add: occurs_at_def)
  then show ?thesis
    using search_ID_find [OF assms(4,2)] assms(2,3)
    by (simp add: Suc_diff_le upt_conv_Cons del: upt_Suc)
qed

lemma find_upt_Some:
  "find P [0..<n] = Some k \<Longrightarrow> k < n \<and> P k \<and> (\<forall>j<k. \<not> P j)"
  by (auto simp: find_Some_iff)

lemma search_ID_hit:
  assumes "search_ID ID buf (int n) loc = Some (r, p)" "r \<noteq> -1" "n \<le> length buf" "ID \<noteq> []"
  shows "\<exists>k. p = int k \<and> k + length ID \<le> n \<and> occurs_at ID buf k \<and> (\<forall>j<k. \<not> occurs_at ID buf j)"
  using assms(1,2) search_ID_find [OF assms(3,4)] assms(4)
  by (auto split: option.splits dest!: find_upt_Some)

lemma search_ID_total:
  "n \<le> length buf \<Longrightarrow> ID \<noteq> [] \<Longrightarrow> search_ID ID buf (int n) loc \<noteq> None"
  using search_ID_find [of n buf ID loc] by (auto split: option.splits)

lemma ID_lengths [simp]: "length ID_RIFF = 4" "length ID_WAVE = 4" "length ID_fmt = 4" "length ID_data = 4"
  "ID_RIFF \<noteq> []" "ID_fmt \<noteq> []" "ID_data \<noteq> []"
  by (simp_all add: ID_RIFF_def ID_WAVE_def ID_fmt_def ID_data_def)

section \<open>Reading a header\<close>

lemma fread_bytes:
  "fread 1 n f = (take n (drop (file_pos f) (file_bytes f)), length (take n (drop (file_pos f) (file_bytes f))),
     f\<lparr>file_pos := file_pos f + length (take n (drop (file_pos f) (file_bytes f)))\<rparr>)"
  by (simp add: fread_def Let_def)

definition header_ok :: "WAV_HEADER \<Rightarrow> bool" where
  "header_ok header \<longleftrightarrow>
     riff_ID (riff header) = ID_RIFF \<and> riff_type (riff header) = ID_WAVE \<and>
     format_ID (format header) = ID_fmt \<and> data_ID (data_chunk header) = ID_data \<and>
     list_all is_s32 [riff_size (riff header), sample_per_sec (format header),
                      avg_bytes_per_sec (format header), data_size (data_chunk header)] \<and>
     list_all is_s16 [format_tag (format header), channels (format header), blockAlign (format header),
                      bits_per_sample (format header)]"

definition header_bytes :: "WAV_HEADER \<Rightarrow> byte list" where
  "header_bytes header =
     riff_bytes (riff header) @ format_bytes ((format header)\<lparr>format_size := 16\<rparr>) @ data_bytes (data_chunk header)"

lemma sub_bytes_append [simp]:
  "length xs = i \<Longrightarrow> sub_bytes i k (xs @ ys) = take k ys"
  "length xs \<le> i \<Longrightarrow> sub_bytes i k (xs @ ys) = sub_bytes (i - length xs) k ys"
  by (simp_all add: sub_bytes_def)

lemma sub_bytes_0 [simp]: "sub_bytes 0 k xs = take k xs"
  by (simp add: sub_bytes_def)

lemma riff_of_bytes:
  assumes "header_ok header"
  shows "riff_of (riff_bytes (riff header)) = riff header" "length (riff_bytes (riff header)) = 12"
  using assms by (auto simp: riff_of_def riff_bytes_def header_ok_def)

lemma data_of_bytes:
  assumes "header_ok header"
  shows "data_of (data_bytes (data_chunk header)) = data_chunk header" "length (data_bytes (data_chunk header)) = 8"
  using assms by (auto simp: data_of_def data_bytes_def header_ok_def)

lemma format_of_bytes:
  assumes "header_ok header"
  shows "format_of (format_bytes ((format header)\<lparr>format_size := 16\<rparr>)) = (format header)\<lparr>format_size := 16\<rparr>"
    "length (format_bytes ((format header)\<lparr>format_size := 16\<rparr>)) = 24"
  using assms by (auto simp: format_of_def format_bytes_def header_ok_def is_s32_def)

lemma length_header_bytes: "header_ok header \<Longrightarrow> length (header_bytes header) = 44"
  by (simp add: header_bytes_def riff_of_bytes format_of_bytes data_of_bytes)

lemma load_part: "load (length a) (length b) (a @ b @ c) = Some b"
  by simp

lemma read_header_written:
  assumes ok: "header_ok header" and bytes: "drop (file_pos f) (file_bytes f) = header_bytes header @ rest"
  shows "read_header h0 f =
    Some (0, \<lparr>riff = riff header, format = (format header)\<lparr>format_size := 16\<rparr>, data_chunk = data_chunk header\<rparr>,
          f\<lparr>file_pos := file_pos f + 44\<rparr>)"
proof -
  define r where "r = riff_bytes (riff header)"
  define g where "g = format_bytes ((format header)\<lparr>format_size := 16\<rparr>)"
  define d where "d = data_bytes (data_chunk header)"
  define s where "s = take (212 :: nat) rest"
  define n where "n = length s"
  have len: "length r = 12" "length g = 24" "length d = 8"
    using riff_of_bytes(2) [OF ok] format_of_bytes(2) [OF ok] data_of_bytes(2) [OF ok]
    by (simp_all add: r_def g_def d_def)
  have buf: "take 256 (drop (file_pos f) (file_bytes f)) = r @ g @ d @ s"
    unfolding bytes header_bytes_def r_def [symmetric] g_def [symmetric] d_def [symmetric]
    using len by (simp add: s_def)
  have ids: "take 4 r = ID_RIFF" "take 4 g = ID_fmt" "take 4 d = ID_data"
    using ok by (auto simp: r_def g_def d_def header_ok_def riff_bytes_def format_bytes_def data_bytes_def)
  have s1: "search_ID ID_RIFF (r @ g @ d @ s) (int (44 + n)) 0 = Some (0, 0)"
    using ids len by (intro search_ID_here) (auto simp: n_def)
  have s2: "search_ID ID_fmt (g @ d @ s) (int (32 + n)) 0 = Some (0, 0)"
    using ids len by (intro search_ID_here) (auto simp: n_def)
  have s3: "search_ID ID_data (d @ s) (int (8 + n)) 0 = Some (0, 0)"
    using ids len by (intro search_ID_here) (auto simp: n_def)
  have l1: "load 0 12 (r @ g @ d @ s) = Some r" and l2: "load 12 24 (r @ g @ d @ s) = Some g"
    and l3: "load 36 8 (r @ g @ d @ s) = Some d"
    using len by simp_all
  have dr: "drop 12 (r @ g @ d @ s) = g @ d @ s" "drop 36 (r @ g @ d @ s) = d @ s"
    using len by simp_all
  have t: "riff_type (riff_of r) = ID_WAVE" "riff_of r = riff header"
    "format_of g = (format header)\<lparr>format_size := 16\<rparr>" "data_of d = data_chunk header"
    using riff_of_bytes(1) [OF ok] format_of_bytes(1) [OF ok] data_of_bytes(1) [OF ok] ok
    by (auto simp: r_def g_def d_def header_ok_def)
  have fr: "fread 1 256 f = (r @ g @ d @ s, 44 + n, f\<lparr>file_pos := file_pos f + (44 + n)\<rparr>)"
    using len unfolding fread_bytes buf by (simp add: n_def)
  have "fseek_cur (- int n) (f\<lparr>file_pos := file_pos f + (44 + n)\<rparr>) = f\<lparr>file_pos := file_pos f + 44\<rparr>"
    by (simp add: fseek_cur_def nat_add_distrib nat_diff_distrib)
  moreover have "riff_type (riff header) = ID_WAVE" using ok by (simp add: header_ok_def)
  ultimately show ?thesis
    using s1 s2 s3 unfolding read_header_def fr
    by (simp add: l1 l2 l3 dr t len Let_def add.commute)
qed

text \<open>One step of the parser: search an identifier in the \<open>m\<close> bytes from \<open>p\<close> on.\<close>

lemma search_step:
  assumes "p + m = length buf" "ID \<noteq> []"
  shows "\<exists>r loc'. search_ID ID (drop p buf) (int m) loc = Some (r, loc') \<and>
    (r = -1 \<or> r = 0 \<and> 0 \<le> loc' \<and> nat loc' + length ID \<le> m \<and> sub_bytes (p + nat loc') (length ID) buf = ID)"
proof -
  have "m \<le> length (drop p buf)" using assms(1) by simp
  from search_ID_find [OF this assms(2), of loc] show ?thesis
    by (auto simp: sub_bytes_def occurs_at_def add.commute split: option.splits dest!: find_upt_Some)
qed

definition data_header_before :: "wav_file \<Rightarrow> DATA_CHUNK \<Rightarrow> nat \<Rightarrow> bool" where
  "data_header_before f c pos \<longleftrightarrow>
     data_ID c = ID_data \<and> file_pos f + 44 \<le> pos \<and> pos \<le> file_pos f + 256 \<and>
     pos \<le> length (file_bytes f) \<and> c = data_of (sub_bytes (pos - 8) 8 (file_bytes f))"

lemma take_drop_take: "i + k \<le> n \<Longrightarrow> take k (drop i (take n xs)) = take k (drop i xs)"
  by (simp add: drop_take min_def)

lemma data_headerI:
  assumes buf: "buf = take 256 (drop (file_pos f) (file_bytes f))" and i: "i + 8 \<le> length buf" "36 \<le> i"
    and ID: "take 4 (drop i buf) = ID_data"
  shows "data_header_before f (data_of (take 8 (drop i buf))) (file_pos f + (i + 8))"
proof -
  have len: "i + 8 \<le> 256" "file_pos f + (i + 8) \<le> length (file_bytes f)"
    using i(1) unfolding buf by (auto split: if_splits)
  have "take 8 (drop i buf) = take 8 (drop i (drop (file_pos f) (file_bytes f)))"
    unfolding buf by (rule take_drop_take [OF len(1)])
  then have "take 8 (drop i buf) = sub_bytes (file_pos f + i) 8 (file_bytes f)"
    by (simp add: sub_bytes_def add.commute)
  moreover have "data_ID (data_of (take 8 (drop i buf))) = ID_data"
    using ID by (simp add: data_of_def)
  ultimately show ?thesis using len i(2) by (simp add: data_header_before_def)
qed

lemma read_header_cases:
  "\<exists>r header' f'. read_header header f = Some (r, header', f') \<and> file_bytes f' = file_bytes f \<and>
    (r = -1 \<or> r = 0 \<and> riff_type (riff header') = ID_WAVE \<and>
      data_header_before f (data_chunk header') (file_pos f'))"
proof -
  define buf where "buf = take 256 (drop (file_pos f) (file_bytes f))"
  define f1 where "f1 = f\<lparr>file_pos := file_pos f + length buf\<rparr>"
  have fr: "fread 1 256 f = (buf, length buf, f1)" unfolding fread_bytes buf_def f1_def ..
  have f1: "file_bytes f1 = file_bytes f" by (simp add: f1_def)
  show ?thesis
  proof (cases "buf = []")
    case True
    then show ?thesis unfolding read_header_def fr using f1 by simp
  next
    case False
    obtain r1 l1 where s1: "search_ID ID_RIFF buf (int (length buf)) 0 = Some (r1, l1)"
      and h1: "r1 = -1 \<or> r1 = 0 \<and> 0 \<le> l1 \<and> nat l1 + 4 \<le> length buf"
      using search_step [of 0 "length buf" buf ID_RIFF 0] by auto
    define h where "h = header\<lparr>riff := riff_of (take 12 (drop (nat l1) buf))\<rparr>"
    show ?thesis
    proof (cases "r1 = -1 \<or> length buf - nat l1 < 12 \<or> riff_type (riff h) \<noteq> ID_WAVE")
      case True
      then show ?thesis unfolding read_header_def fr
        using s1 h1 f1 False by (auto simp: Let_def h_def)
    next
      case ok1: False
      then have b1: "nat l1 + 12 \<le> length buf" "r1 \<noteq> -1" "riff_type (riff h) = ID_WAVE" by auto
      let ?p = "nat l1 + 12"
      let ?m = "length buf - nat l1 - 12"
      obtain r2 l2 where s2: "search_ID ID_fmt (drop ?p buf) (int ?m) l1 = Some (r2, l2)"
        and h2: "r2 = -1 \<or> r2 = 0 \<and> 0 \<le> l2 \<and> nat l2 + 4 \<le> ?m"
        using search_step [of ?p ?m buf ID_fmt l1] b1(1) by auto
      have l1': "load (nat l1) 12 buf = Some (take 12 (drop (nat l1) buf))" using b1 by simp
      show ?thesis
      proof (cases "r2 = -1 \<or> ?m - nat l2 < 24")
        case True
        then show ?thesis unfolding read_header_def fr
          using s1 s2 h1 f1 False b1 ok1 l1' by (auto simp: Let_def h_def)
      next
        case ok2: False
        let ?q = "?p + nat l2 + 24"
        let ?n = "?m - nat l2 - 24"
        have b2: "?q \<le> length buf" "r2 \<noteq> -1" using ok2 b1 by auto
        obtain r3 l3 where s3: "search_ID ID_data (drop ?q buf) (int ?n) l2 = Some (r3, l3)"
          and h3: "r3 = -1 \<or> r3 = 0 \<and> 0 \<le> l3 \<and> nat l3 + 4 \<le> ?n \<and> sub_bytes (?q + nat l3) 4 buf = ID_data"
          using search_step [of ?q ?n buf ID_data l2] b2(1) by auto
        have l2': "load (?p + nat l2) 24 buf = Some (take 24 (drop (?p + nat l2) buf))" using b2 by simp
        show ?thesis
        proof (cases "r3 = -1 \<or> ?n - nat l3 < 8")
          case True
          then show ?thesis unfolding read_header_def fr
            using s1 s2 s3 h1 f1 False b1 ok1 ok2 l1' l2' by (auto simp: Let_def h_def)
        next
          case ok3: False
          let ?c = "take 8 (drop (?q + nat l3) buf)"
          have b3: "?q + nat l3 + 8 \<le> length buf" "r3 = 0" using ok3 b2 h3 by auto
          have l3': "load (?q + nat l3) 8 buf = Some ?c" using b3 by simp
          let ?f = "fseek_cur (- int (?n - nat l3 - 8)) f1"
          let ?h = "h\<lparr>format := format_of (take 24 (drop (?p + nat l2) buf)), data_chunk := data_of ?c\<rparr>"
          have "read_header header f = Some (0, ?h, ?f)" unfolding read_header_def fr
            using s1 s2 s3 h1 f1 False b1 ok1 ok2 ok3 l1' l2' l3' b3 by (simp add: Let_def h_def)
          moreover have pos: "file_pos ?f = file_pos f + (?q + nat l3 + 8)" "file_bytes ?f = file_bytes f"
            using b3 b1 b2 ok3 h1 h2 h3 by (auto simp: fseek_cur_def f1_def nat_add_distrib)
          moreover have "data_header_before f (data_of ?c) (file_pos f + (?q + nat l3 + 8))"
            using b3 h3 by (intro data_headerI [OF buf_def]) (simp_all add: sub_bytes_def)
          ultimately show ?thesis using b1 by (simp add: pos)
        qed
      qed
    qed
  qed
qed

section \<open>Properties\<close>

text \<open>
  The search for a chunk identifier always terminates without reading past the bytes of
  the buffer; it reports the first position where the identifier occurs, and -1, leaving
  \<open>*loc\<close> alone, when it does not occur.
\<close>

theorem search_ID_first:
  assumes "n \<le> length buf" and "ID \<noteq> []"
  shows "search_ID ID buf (int n) loc =
    (case find (\<lambda>k. take (length ID) (drop k buf) = ID) [0..<n + 1 - length ID] of
       None \<Rightarrow> Some (-1, loc) | Some k \<Rightarrow> Some (0, int k))"
  using search_ID_find [OF assms] by (simp add: occurs_at_def [abs_def])

theorem search_ID_first_witness:
  "search_ID [2, 3] [1, 2, 2, 3, 2, 3] 6 9 = Some (0, 2) \<and> search_ID [2, 3] [1, 2, 2, 3] 3 9 = Some (-1, 9)"
  using search_ID_first [of 6 "[1, 2, 2, 3, 2, 3]" "[2, 3]" 9] search_ID_first [of 3 "[1, 2, 2, 3]" "[2, 3]" 9]
  by (simp add: upt_conv_Cons)

text \<open>
  C33: Reading a header never reads outside the bytes it fetched and never changes the file.
  It fails with -1, or it returns 0 with type WAVE and a data chunk whose eight bytes are
  the ones just before the new file position, at most 256 bytes after the old one: the next
  read delivers the first sample.
\<close>

theorem read_header_position:
  "\<exists>r header' f'. read_header header f = Some (r, header', f') \<and> file_bytes f' = file_bytes f \<and>
    (r = -1 \<or> r = 0 \<and> riff_type (riff header') = ID_WAVE \<and>
      data_header_before f (data_chunk header') (file_pos f'))"
  by (rule read_header_cases)

text \<open>
  C34: A header with the four identifiers and fields in range that is written at the current
  position of a file is read back from there: reading returns 0, restores every field (the
  size of the format chunk is the 16 that writing stored) and leaves the file at the first
  sample, whatever the header variable held before.
\<close>

theorem wav_header_roundtrip:
  assumes "header_ok header" and "file_pos f \<le> length (file_bytes f)"
    and "write_header header f = (r, header', f1)"
  shows "read_header h0 (f1\<lparr>file_pos := file_pos f\<rparr>) = Some (0, header', f1) \<and> file_pos f1 = file_pos f + 44"
proof -
  let ?b = "header_bytes header"
  have f1: "f1 = fwrite ?b f" and h': "header' = header\<lparr>format := (format header)\<lparr>format_size := 16\<rparr>\<rparr>"
    using assms(3) by (auto simp: write_header_def header_bytes_def Let_def)
  then have "file_pos f1 = file_pos f + 44" by (simp add: fwrite_def length_header_bytes [OF assms(1)])
  moreover have "drop (file_pos f) (file_bytes f1) = ?b @ drop (file_pos f + length ?b) (file_bytes f)"
    using assms(2) by (simp add: f1 fwrite_def)
  ultimately show ?thesis
    using read_header_written [OF assms(1), of "f1\<lparr>file_pos := file_pos f\<rparr>"] by (simp add: h')
qed

theorem wav_header_roundtrip_witness:
  "let h = \<lparr>riff = \<lparr>riff_ID = ID_RIFF, riff_size = 44, riff_type = ID_WAVE\<rparr>,
            format = \<lparr>format_ID = ID_fmt, format_size = 16, format_tag = 1, channels = 1, sample_per_sec = 16000,
                      avg_bytes_per_sec = 32000, blockAlign = 2, bits_per_sample = 16\<rparr>,
            data_chunk = \<lparr>data_ID = ID_data, data_size = 8\<rparr>\<rparr>;
       f = \<lparr>file_bytes = [], file_pos = 0\<rparr>
   in \<exists>f1. write_header h f = (0, h, f1) \<and> read_header h (f1\<lparr>file_pos := 0\<rparr>) = Some (0, h, f1)"
proof -
  let ?h = "\<lparr>riff = \<lparr>riff_ID = ID_RIFF, riff_size = 44, riff_type = ID_WAVE\<rparr>,
            format = \<lparr>format_ID = ID_fmt, format_size = 16, format_tag = 1, channels = 1, sample_per_sec = 16000,
                      avg_bytes_per_sec = 32000, blockAlign = 2, bits_per_sample = 16\<rparr>,
            data_chunk = \<lparr>data_ID = ID_data, data_size = 8\<rparr>\<rparr>"
  let ?f = "\<lparr>file_bytes = [], file_pos = 0\<rparr>"
  have ok: "header_ok ?h" by (simp add: header_ok_def is_s32_def is_s16_def)
  obtain f1 where f1: "write_header ?h ?f = (0, ?h, f1)" by (simp add: write_header_def)
  show ?thesis unfolding Let_def
    using wav_header_roundtrip [OF ok _ f1, of ?h] f1 by (intro exI [of _ f1]) simp
qed

text \<open>
  Samples written to a file and read back from the same position are the same samples.
\<close>

theorem wav_samples_roundtrip:
  assumes "list_all is_s16 xs" and "length xs < 2147483648" and "file_pos f \<le> length (file_bytes f)"
    and "length xs \<le> length buf"
  shows "\<exists>f1. write_samples xs (length xs) f = Some (int (length xs), f1) \<and>
    read_samples buf (length xs) (f1\<lparr>file_pos := file_pos f\<rparr>) = Some (int (length xs), blit buf 0 xs, f1)"
proof -
  let ?b = "concat (map (le_bytes 2) xs)"
  have len: "length ?b = 2 * length xs" by (induction xs) simp_all
  have "write_samples xs (length xs) f = Some (int (length xs), fwrite ?b f)"
    using assms(2) by (simp add: write_samples_def)
  moreover have "fread 2 (length xs) ((fwrite ?b f)\<lparr>file_pos := file_pos f\<rparr>) = (?b, length xs, fwrite ?b f)"
    using assms(3) len by (simp add: fread_def fwrite_def Let_def)
  then have "read_samples buf (length xs) ((fwrite ?b f)\<lparr>file_pos := file_pos f\<rparr>) =
      Some (int (length xs), blit buf 0 xs, fwrite ?b f)"
    using assms by (simp add: read_samples_def shorts_of_samples)
  ultimately show ?thesis by blast
qed

theorem wav_samples_roundtrip_witness:
  "\<exists>f1. write_samples [-1, 32767, 256] 3 \<lparr>file_bytes = [1], file_pos = 1\<rparr> = Some (3, f1) \<and>
     read_samples [0, 0, 0, 5] 3 (f1\<lparr>file_pos := 1\<rparr>) = Some (3, [-1, 32767, 256, 5], f1)"
  using wav_samples_roundtrip [of "[-1, 32767, 256]" "\<lparr>file_bytes = [1], file_pos = 1\<rparr>" "[0, 0, 0, 5]"]
  by (simp add: is_s16_def blit_def numeral_3_eq_3)

end
