(* ===== verification/Bits.thy ===== *)
theory Bits
  imports Prelude "HOL-Library.Monad_Syntax"
begin

text \<open>
  Bit operations of the codecs in terms of arithmetic: masks of low and high bits, \<open>OR\<close> of
  disjoint parts, the conversions to eight bits.
\<close>

definition u8 :: "int \<Rightarrow> int" where
  "u8 x = x mod 256"

lemma u8_range: "0 \<le> u8 x" "u8 x < 256"
  by (simp_all add: u8_def)

lemma u8_id: "0 \<le> x \<Longrightarrow> x < 256 \<Longrightarrow> u8 x = x"
  by (simp add: u8_def)

lemma low_half: "0 \<le> (W::int) \<Longrightarrow> W AND 0x0000FFFF = W mod 65536"
  using take_bit_eq_mask [of 16 W] by (simp add: take_bit_eq_mod mask_eq_exp_minus_1)

lemma and_low_byte: "0 \<le> x \<Longrightarrow> x AND 0x00FF = x mod (256::int)"
  using take_bit_eq_mask [of 8 x] by (simp add: take_bit_eq_mod mask_eq_exp_minus_1)

lemma or_add:
  assumes "0 \<le> b" "b < (2::int) ^ k"
  shows "(a * 2 ^ k) OR b = a * 2 ^ k + b"
proof -
  have "push_bit k a AND b = 0"
  proof (rule bit_eqI)
    fix n
    have "take_bit k b = b" using assms by (simp add: take_bit_int_eq_self)
    then have "bit b n \<longleftrightarrow> n < k \<and> bit b n" by (metis bit_take_bit_iff)
    then show "bit (push_bit k a AND b) n = bit 0 n" by (auto simp: bit_simps)
  qed
  then show ?thesis by (simp add: push_bit_eq_mult disjunctive_add_eq_or)
qed

lemma and_high_byte:
  assumes "0 \<le> x" "x < (65536::int)"
  shows "x AND 0xFF00 = x div 256 * 256"
proof -
  have "x AND 0xFF00 = push_bit 8 (mask 8) AND x" by (simp add: push_bit_eq_mult mask_eq_exp_minus_1 and.commute)
  also have "\<dots> = push_bit 8 (mask 8 AND drop_bit 8 x)" by (rule bit_eqI) (auto simp: bit_simps)
  also have "mask 8 AND drop_bit 8 x = drop_bit 8 x"
  proof -
    have "0 \<le> drop_bit 8 x" "drop_bit 8 x < 2 ^ 8" using assms by (auto simp: drop_bit_eq_div)
    then show ?thesis by (simp add: and.commute [of "mask 8"] take_bit_int_eq_self flip: take_bit_eq_mask)
  qed
  finally show ?thesis by (simp add: push_bit_eq_mult drop_bit_eq_div)
qed

lemma bit_below:
  assumes "0 \<le> b" "b < (2::int) ^ k" "bit b n"
  shows "n < k"
proof -
  have "take_bit k b = b" using assms by (simp add: take_bit_int_eq_self)
  then show ?thesis using assms(3) by (metis bit_take_bit_iff)
qed

lemma bit_above:
  assumes "(2::int) ^ k dvd b" "bit b n"
  shows "k \<le> n"
proof (rule ccontr)
  assume "\<not> k \<le> n"
  moreover have "take_bit k b = 0" using assms(1) by (simp add: take_bit_eq_0_iff)
  ultimately show False using assms(2) bit_take_bit_iff [of k b n] by simp
qed

lemma s16_form: "\<exists>k. s16 x = x + k * 65536"
proof
  have "(x + 32768) mod 65536 = x + 32768 - (x + 32768) div 65536 * 65536"
    by (rule minus_div_mult_eq_mod [symmetric])
  then show "s16 x = x + (- ((x + 32768) div 65536)) * 65536" by (simp add: s16_def)
qed

lemma u16_s16: "u16 (s16 x) = u16 x"
  using s16_form [of x] by (auto simp: u16_def)

lemma s16_u16: "s16 (u16 x) = s16 x"
  unfolding u16_def by (rule i16.conv_eqI) (simp add: mod_eq_dvd_iff [symmetric])

lemma and_low: "x AND 0xFF = x mod (256 :: int)"
  using take_bit_eq_mask [of 8 x] by (simp add: take_bit_eq_mod mask_eq_exp_minus_1)

lemma and_high: "x AND 0xFF00 = u16 x div 256 * 256"
proof -
  have "x AND 0xFF00 = x AND (mask 16 AND 0xFF00)" by (simp add: mask_eq_exp_minus_1)
  also have "\<dots> = take_bit 16 x AND 0xFF00" by (simp add: take_bit_eq_mask and.assoc)
  also have "\<dots> = u16 x AND 0xFF00" by (simp add: take_bit_eq_mod u16_def)
  also have "\<dots> = u16 x div 256 * 256" by (rule and_high_byte) (auto simp: u16_def)
  finally show ?thesis .
qed

lemma u8_s16: "u8 (s16 x) = u8 x" "u8 (s16 x div 256) = u8 (x div 256)"
proof -
  obtain k where s: "s16 x = x + (k * 256) * 256" using s16_form [of x] by auto
  show "u8 (s16 x) = u8 x" unfolding s u8_def by (rule mod_mult_self1)
  have "(x + (k * 256) * 256) div 256 = k * 256 + x div 256" by (rule div_mult_self1) simp
  then have "s16 x div 256 = x div 256 + k * 256" unfolding s by simp
  then show "u8 (s16 x div 256) = u8 (x div 256)" unfolding u8_def by (simp only: mod_mult_self1)
qed

lemma u8_add: "u8 (a * 256 + v) = u8 v"
  by (simp add: u8_def)

lemma u16_div_256: "u16 x div 256 = u8 (x div 256)"
  using zmod_zmult2_eq [of 256 x 256] by (simp add: u16_def u8_def)

section \<open>Array elements\<close>

definition word_at :: "int list \<Rightarrow> nat \<Rightarrow> int option" where
  "word_at s p = (if p < length s then Some (s ! p) else None)"

definition put_word :: "int list \<Rightarrow> nat \<Rightarrow> int \<Rightarrow> int list option" where
  "put_word s p v = (if p < length s then Some (s[p := v]) else None)"

end
