(* ===== verification/IsacArith.thy ===== *)
theory IsacArith
  imports SplArith Bits
begin

text \<open>
  The entropy coder of the fixed-point iSAC codec (\<open>arith_routines_hist.c\<close>,
  \<open>arith_routines.c\<close>): arithmetic coding of symbols with tabulated cumulative frequencies.

  The encoder keeps the low end of the current interval in \<open>streamval\<close> and in the bytes
  already written (two to a 16-bit word, the high byte first), and the width in \<open>W_upper\<close>;
  a carry out of \<open>streamval\<close> runs backwards through the words.  The decoder keeps the
  distance of the code from the low end.  An access outside of the stream or of a table is
  None; a negative return value of the code is a result like any other.
\<close>

section \<open>State\<close>

record Bitstr_enc =
  enc_stream :: "int list"
  enc_W_upper :: uint32
  enc_streamval :: uint32
  enc_index :: nat
  enc_full :: int

record Bitstr_dec =
  dec_stream :: "int list"
  dec_W_upper :: uint32
  dec_streamval :: uint32
  dec_index :: nat
  dec_full :: int
  dec_size :: int

abbreviation (input) STREAM_MAXW16_60MS :: nat where "STREAM_MAXW16_60MS \<equiv> 200"
abbreviation (input) ISAC_DISALLOWED_BITSTREAM_LENGTH :: int where
  "ISAC_DISALLOWED_BITSTREAM_LENGTH \<equiv> 6440"

section \<open>Steps that encoder and decoder share\<close>

text \<open>The product of the width and a cumulative frequency, scaled by 2^16.\<close>

definition scaled_bound :: "uint32 \<Rightarrow> int \<Rightarrow> uint32" where
  "scaled_bound W c =
     (let W_upper_LSB = W AND 0x0000FFFF;
          W_upper_MSB = shr W 16
      in u32 (u32 (W_upper_MSB * c) + shr (u32 (W_upper_LSB * c)) 16))"

section \<open>The encoder\<close>

text \<open>\<open>while ( !(++(*--streamPtr)) )\<close>, from the word before \<open>p\<close>.\<close>

fun carry_back :: "nat \<Rightarrow> int list \<Rightarrow> int list option" where
  "carry_back 0 s = None"
| "carry_back (Suc p) s = do {
     v \<leftarrow> word_at s p;
     let v = u16 (v + 1);
     s \<leftarrow> put_word s p v;
     if v = 0 then carry_back p s else Some s }"

definition propagate_carry :: "int \<Rightarrow> nat \<Rightarrow> int list \<Rightarrow> int list option" where
  "propagate_carry full p s =
     (if full = 0
      then do {
        negCarry \<leftarrow> word_at s p;
        let negCarry = u16 (negCarry + 0x0100);
        s \<leftarrow> put_word s p negCarry;
        if negCarry = 0 then carry_back p s else Some s }
      else carry_back p s)"

text \<open>Writing the most significant byte of \<open>streamval\<close>: stream, position and flag.\<close>

definition put_byte :: "uint32 \<Rightarrow> int list \<times> nat \<times> int \<Rightarrow> (int list \<times> nat \<times> int) option" where
  "put_byte streamval st =
     (case st of (s, p, full) \<Rightarrow>
        if full = 0
        then do {
          v \<leftarrow> word_at s p;
          s \<leftarrow> put_word s p (u16 (v + u16 (shr streamval 24)));
          Some (s, p + 1, 1) }
        else do {
          s \<leftarrow> put_word s p (u16 (shr streamval 24 * 2 ^ 8));
          Some (s, p, 0) })"

text \<open>
  The renormalisation loop.  \<open>ok\<close> is False when the stream is full; the loop ends in any case,
  because every round fills a byte.
\<close>

function enc_renorm ::
    "int list \<times> nat \<times> int \<Rightarrow> uint32 \<Rightarrow> uint32 \<Rightarrow> (bool \<times> (int list \<times> nat \<times> int) \<times> uint32 \<times> uint32) option" where
  "enc_renorm st streamval W =
     (if W AND 0xFF000000 = 0
      then (let W = u32 (W * 2 ^ 8) in
            case put_byte streamval st of
              None \<Rightarrow> None
            | Some st \<Rightarrow>
                if fst (snd st) > STREAM_MAXW16_60MS - 1 then Some (False, st, streamval, W)
                else enc_renorm st (u32 (streamval * 2 ^ 8)) W)
      else Some (True, st, streamval, W))"
  by pat_completeness auto

lemma put_byte_progress:
  assumes "put_byte v (s, p, full) = Some (s', p', full')"
  shows "p' = p \<and> full \<noteq> 0 \<and> full' = 0 \<or> p' = p + 1 \<and> full = 0 \<and> full' = 1"
  using assms by (auto simp: put_byte_def word_at_def put_word_def split: if_splits)

termination enc_renorm
proof (relation "measure (\<lambda>((s, p, full), streamval, W). 2 * (200 - p) + (if full = 0 then 0 else 1))")
  fix st :: "int list \<times> nat \<times> int" and streamval W x st'
  assume "put_byte streamval st = Some st'" "\<not> fst (snd st') > STREAM_MAXW16_60MS - 1"
  then show "((st', u32 (streamval * 2 ^ 8), x), st, streamval, W) \<in>
      measure (\<lambda>((s, p, full), streamval, W). 2 * (200 - p) + (if full = 0 then 0 else 1))"
    using put_byte_progress [of streamval "fst st" "fst (snd st)" "snd (snd st)" "fst st'" "fst (snd st')" "snd (snd st')"]
    by (cases st; cases st') (auto split: if_splits)
qed simp

text \<open>
  One symbol with its two cumulative frequencies, from the update of the interval to the end of
  the renormalisation.
\<close>

definition enc_symbol ::
    "int \<Rightarrow> int \<Rightarrow> int list \<times> nat \<times> int \<Rightarrow> uint32 \<Rightarrow> uint32 \<Rightarrow>
     (bool \<times> (int list \<times> nat \<times> int) \<times> uint32 \<times> uint32) option" where
  "enc_symbol cdfLo cdfHi st streamval W_upper =
     (let W_lower = scaled_bound W_upper cdfLo;
          W_upper = scaled_bound W_upper cdfHi;
          W_lower = u32 (W_lower + 1);
          W_upper = u32 (W_upper - W_lower);
          streamval = u32 (streamval + W_lower)
      in case st of (s, p, full) \<Rightarrow>
           (case (if streamval < W_lower then propagate_carry full p s else Some s) of
              None \<Rightarrow> None
            | Some s \<Rightarrow> enc_renorm (s, p, full) streamval W_upper))"

text \<open>The loop over the symbols; each has its own table.\<close>

fun enc_hist_loop ::
    "(int \<times> int list) list \<Rightarrow> int list \<times> nat \<times> int \<Rightarrow> uint32 \<Rightarrow> uint32 \<Rightarrow>
     (bool \<times> (int list \<times> nat \<times> int) \<times> uint32 \<times> uint32) option" where
  "enc_hist_loop [] st streamval W = Some (True, st, streamval, W)"
| "enc_hist_loop ((d, cdf) # syms) st streamval W =
     (if d < 0 then None
      else case (word_at cdf (nat d), word_at cdf (nat d + 1)) of
             (Some cdfLo, Some cdfHi) \<Rightarrow>
               (case enc_symbol cdfLo cdfHi st streamval W of
                  None \<Rightarrow> None
                | Some (ok, st, streamval, W) \<Rightarrow>
                    if ok then enc_hist_loop syms st streamval W else Some (False, st, streamval, W))
           | _ \<Rightarrow> None)"

text \<open>\<open>data\<close> and \<open>cdf\<close> have \<open>lenData\<close> entries, here the list of their pairs.\<close>

definition WebRtcIsacfix_EncHistMulti ::
    "Bitstr_enc \<Rightarrow> (int \<times> int list) list \<Rightarrow> (int \<times> Bitstr_enc) option" where
  "WebRtcIsacfix_EncHistMulti streamData syms =
     (case enc_hist_loop syms (enc_stream streamData, enc_index streamData, enc_full streamData)
             (enc_streamval streamData) (enc_W_upper streamData) of
        None \<Rightarrow> None
      | Some (ok, (s, p, full), streamval, W) \<Rightarrow>
          let streamData = streamData\<lparr>enc_stream := s, enc_full := full, enc_streamval := streamval\<rparr>
          in if ok then Some (0, streamData\<lparr>enc_index := p, enc_W_upper := W\<rparr>)
             else Some (- ISAC_DISALLOWED_BITSTREAM_LENGTH, streamData))"

text \<open>Writing the last byte, and the last two bytes, of a finished code.\<close>

definition terminate_one :: "uint32 \<Rightarrow> int list \<times> nat \<times> int \<Rightarrow> (int list \<times> nat \<times> int) option" where
  "terminate_one streamval st = put_byte streamval st"

definition terminate_two :: "uint32 \<Rightarrow> int list \<times> nat \<times> int \<Rightarrow> (int list \<times> nat \<times> int) option" where
  "terminate_two streamval st =
     (case st of (s, p, full) \<Rightarrow>
        if full \<noteq> 0
        then do { s \<leftarrow> put_word s p (u16 (shr streamval 16)); Some (s, p + 1, full) }
        else do {
          v \<leftarrow> word_at s p;
          s \<leftarrow> put_word s p (v OR u16 (shr streamval 24));
          s \<leftarrow> put_word s (p + 1) (u16 (shr streamval 8) AND 0xFF00);
          Some (s, p + 1, full) })"

definition WebRtcIsacfix_EncTerminate :: "Bitstr_enc \<Rightarrow> (int \<times> Bitstr_enc) option" where
  "WebRtcIsacfix_EncTerminate streamData =
     (let s = enc_stream streamData; p = enc_index streamData; full = enc_full streamData;
          wide = enc_W_upper streamData > 0x01FFFFFF;
          step = (if wide then 0x01000000 else 0x00010000);
          streamval = u32 (enc_streamval streamData + step)
      in do {
        s \<leftarrow> (if streamval < step then propagate_carry full p s else Some s);
        (s, p, full) \<leftarrow> (if wide then terminate_one streamval (s, p, full)
                        else terminate_two streamval (s, p, full));
        Some (s16 (2 * int p + (if full = 0 then 1 else 0)),
              streamData\<lparr>enc_stream := s, enc_full := full, enc_streamval := streamval\<rparr>) })"

section \<open>The decoder\<close>

text \<open>The position in the stream: its words, the index of the current word and the flag.\<close>

definition get_byte :: "int list \<Rightarrow> nat \<times> int \<Rightarrow> (int \<times> nat \<times> int) option" where
  "get_byte s st =
     (case st of (p, full) \<Rightarrow> do {
        v \<leftarrow> word_at s p;
        Some (if full = 0 then (v AND 0x00FF, p + 1, 1) else (shr v 8, p, 0)) })"

function dec_renorm ::
    "int list \<Rightarrow> nat \<times> int \<Rightarrow> uint32 \<Rightarrow> uint32 \<Rightarrow> ((nat \<times> int) \<times> uint32 \<times> uint32) option" where
  "dec_renorm s st streamval W =
     (if W AND 0xFF000000 = 0
      then (case get_byte s st of
              None \<Rightarrow> None
            | Some (b, st) \<Rightarrow> dec_renorm s st (u32 (streamval * 2 ^ 8) OR b) (u32 (W * 2 ^ 8)))
      else Some (st, streamval, W))"
  by pat_completeness auto

lemma get_byte_progress:
  assumes "get_byte s (p, full) = Some (b, p', full')"
  shows "p < length s \<and> (p' = p \<and> full \<noteq> 0 \<and> full' = 0 \<or> p' = p + 1 \<and> full = 0 \<and> full' = 1)"
  using assms by (auto simp: get_byte_def word_at_def split: if_splits)

termination dec_renorm
proof (relation "measure (\<lambda>(s, (p, full), streamval, W). 2 * (length s - p) + (if full = 0 then 0 else 1))")
  fix s :: "int list" and st :: "nat \<times> int" and streamval W b x
  fix y :: "int \<times> nat \<times> int" and st'
  assume "get_byte s st = Some y" "(b, st') = y"
  then show "((s, st', u32 (streamval * 2 ^ 8) OR b, u32 (W * 2 ^ 8)), s, st, streamval, W) \<in>
      measure (\<lambda>(s, (p, full), streamval, W). 2 * (length s - p) + (if full = 0 then 0 else 1))"
    using get_byte_progress [of s "fst st" "snd st" b "fst st'" "snd st'"]
    by (cases st; cases st') (auto split: if_splits)
qed simp

text \<open>
  The start of a call: the first two words are read if nothing was read before.  A width of
  zero is refused with -2.
\<close>

definition dec_start :: "Bitstr_dec \<Rightarrow> ((nat \<times> int) \<times> uint32) option" where
  "dec_start d =
     (if dec_index d = 0
      then do {
        w0 \<leftarrow> word_at (dec_stream d) 0;
        w1 \<leftarrow> word_at (dec_stream d) 1;
        Some ((2, dec_full d), u32 (w0 * 2 ^ 16) OR w1) }
      else Some ((dec_index d, dec_full d), dec_streamval d))"

text \<open>The end of a call: the new state and the number of bytes of the code.\<close>

definition dec_finish :: "Bitstr_dec \<Rightarrow> nat \<times> int \<Rightarrow> uint32 \<Rightarrow> uint32 \<Rightarrow> int \<times> Bitstr_dec" where
  "dec_finish d st streamval W =
     (let d = d\<lparr>dec_index := fst st, dec_full := snd st, dec_W_upper := W, dec_streamval := streamval\<rparr>;
          open_word = (if snd st = 0 then 1 else 0 :: int)
      in (if W > 0x01FFFFFF then s16 (int (fst st) * 2 - 3 + open_word)
          else s16 (int (fst st) * 2 - 2 + open_word), d))"

text \<open>The result of a search: the symbol and the interval, or the error -3.\<close>

type_synonym search_result = "int + int \<times> uint32 \<times> uint32"

function step_up :: "int list \<Rightarrow> uint32 \<Rightarrow> uint32 \<Rightarrow> nat \<Rightarrow> uint32 \<Rightarrow> search_result option" where
  "step_up cdf W streamval i W_tmp =
     (case word_at cdf i of
        None \<Rightarrow> None
      | Some c \<Rightarrow>
          if c = 65535 then Some (Inl (-3))
          else case word_at cdf (i + 1) of
              None \<Rightarrow> None
            | Some c' \<Rightarrow>
                let W_lower = W_tmp; W_tmp = scaled_bound W c'
                in if streamval \<le> W_tmp then Some (Inr (int i, W_lower, W_tmp))
                   else step_up cdf W streamval (i + 1) W_tmp)"
  by pat_completeness auto

termination
  by (relation "measure (\<lambda>(cdf, W, v, i, t). length cdf - i)")
    (auto simp: word_at_def split: if_splits)

fun step_down :: "int list \<Rightarrow> uint32 \<Rightarrow> uint32 \<Rightarrow> nat \<Rightarrow> uint32 \<Rightarrow> search_result option" where
  "step_down cdf W streamval 0 W_tmp = Some (Inl (-3))"
| "step_down cdf W streamval (Suc i) W_tmp =
     (case word_at cdf i of
        None \<Rightarrow> None
      | Some c \<Rightarrow>
          let W_upper = W_tmp; W_tmp = scaled_bound W c
          in if streamval > W_tmp then Some (Inr (int i, W_tmp, W_upper))
             else step_down cdf W streamval i W_tmp)"

definition search_one_step :: "int list \<Rightarrow> nat \<Rightarrow> uint32 \<Rightarrow> uint32 \<Rightarrow> search_result option" where
  "search_one_step cdf init W streamval =
     (case word_at cdf init of
        None \<Rightarrow> None
      | Some c \<Rightarrow>
          let W_tmp = scaled_bound W c
          in if streamval > W_tmp then step_up cdf W streamval init W_tmp
             else step_down cdf W streamval init W_tmp)"

text \<open>The interval of the symbol becomes the interval of the decoder.\<close>

definition dec_narrow ::
    "int list \<Rightarrow> nat \<times> int \<Rightarrow> uint32 \<Rightarrow> uint32 \<Rightarrow> uint32 \<Rightarrow> ((nat \<times> int) \<times> uint32 \<times> uint32) option" where
  "dec_narrow s st streamval W_lower W_upper =
     (let W_lower = u32 (W_lower + 1);
          W_upper = u32 (W_upper - W_lower);
          streamval = u32 (streamval - W_lower)
      in dec_renorm s st streamval W_upper)"

text \<open>
  What the loops over the symbols return: the symbols decoded so far, the position, value
  and width, and an error code or 0.
\<close>

type_synonym dec_result = "int list \<times> (nat \<times> int) \<times> uint32 \<times> uint32 \<times> int"

definition add_symbol :: "int \<Rightarrow> dec_result \<Rightarrow> dec_result" where
  "add_symbol x r = (s16 x # fst r, snd r)"

fun dec_one_step_loop ::
    "int list \<Rightarrow> (nat \<times> int list) list \<Rightarrow> nat \<times> int \<Rightarrow> uint32 \<Rightarrow> uint32 \<Rightarrow> dec_result option" where
  "dec_one_step_loop s [] st streamval W = Some ([], st, streamval, W, 0)"
| "dec_one_step_loop s ((init, cdf) # tabs) st streamval W =
     (case search_one_step cdf init W streamval of
        None \<Rightarrow> None
      | Some (Inl e) \<Rightarrow> Some ([], st, streamval, W, e)
      | Some (Inr (x, W_lower, W_upper)) \<Rightarrow>
          (case dec_narrow s st streamval W_lower W_upper of
             None \<Rightarrow> None
           | Some (st, streamval, W) \<Rightarrow>
               map_option (add_symbol x) (dec_one_step_loop s tabs st streamval W)))"

text \<open>On an error the members of the structure keep their values, except for the flag.\<close>

definition dec_return :: "Bitstr_dec \<Rightarrow> dec_result \<Rightarrow> int list \<times> int \<times> Bitstr_dec" where
  "dec_return d r =
     (case r of (syms, st, streamval, W, e) \<Rightarrow>
        if e \<noteq> 0 then (syms, e, d\<lparr>dec_full := snd st\<rparr>)
        else (syms, dec_finish d st streamval W))"

text \<open>\<open>tabs\<close> pairs the initial table index and the table of each symbol.\<close>

definition WebRtcIsacfix_DecHistOneStepMulti ::
    "Bitstr_dec \<Rightarrow> (nat \<times> int list) list \<Rightarrow> (int list \<times> int \<times> Bitstr_dec) option" where
  "WebRtcIsacfix_DecHistOneStepMulti d tabs =
     (if dec_W_upper d = 0 then Some ([], -2, d)
      else case dec_start d of
          None \<Rightarrow> None
        | Some (st, streamval) \<Rightarrow>
            map_option (dec_return d) (dec_one_step_loop (dec_stream d) tabs st streamval (dec_W_upper d)))"

text \<open>
  The bisection for the table index \<open>i\<close>.  The bounds found so far are carried along; \<open>W_lower\<close>
  starts with the value the previous symbol left.
\<close>

function bisect :: "int list \<Rightarrow> uint32 \<Rightarrow> uint32 \<Rightarrow> nat \<Rightarrow> int \<Rightarrow> uint32 \<Rightarrow> uint32 \<Rightarrow>
    (int \<times> uint32 \<times> uint32) option" where
  "bisect cdf W streamval sizeTmp i W_lower W_upper =
     (if i < 0 then None
      else case word_at cdf (nat i) of
          None \<Rightarrow> None
        | Some c \<Rightarrow>
            let W_tmp = scaled_bound W c
            in if sizeTmp div 2 = 0
               then (if streamval > W_tmp then Some (i, W_tmp, W_upper) else Some (i - 1, W_lower, W_tmp))
               else if streamval > W_tmp
               then bisect cdf W streamval (sizeTmp div 2) (i + int (sizeTmp div 2)) W_tmp W_upper
               else bisect cdf W streamval (sizeTmp div 2) (i - int (sizeTmp div 2)) W_lower W_tmp)"
  by pat_completeness auto

termination
  by (relation "measure (\<lambda>(cdf, W, v, k, i, l, u). k)") auto

fun dec_bisect_loop ::
    "int list \<Rightarrow> (nat \<times> int list) list \<Rightarrow> nat \<times> int \<Rightarrow> uint32 \<Rightarrow> uint32 \<Rightarrow> uint32 \<Rightarrow> dec_result option" where
  "dec_bisect_loop s [] st streamval W W_lower = Some ([], st, streamval, W, 0)"
| "dec_bisect_loop s ((cdfSize, cdf) # tabs) st streamval W W_lower =
     (case bisect cdf W streamval (cdfSize div 2) (int (cdfSize div 2) - 1) W_lower W of
        None \<Rightarrow> None
      | Some (x, W_lower, W_upper) \<Rightarrow>
          (case dec_narrow s st streamval W_lower W_upper of
             None \<Rightarrow> None
           | Some (st, streamval, W) \<Rightarrow>
               if W = 0 then Some ([s16 x], st, streamval, W, -2)
               else map_option (add_symbol x)
                      (dec_bisect_loop s tabs st streamval W (u32 (W_lower + 1)))))"

text \<open>\<open>tabs\<close> pairs the size and the table of each symbol.\<close>

definition WebRtcIsacfix_DecHistBisectMulti ::
    "Bitstr_dec \<Rightarrow> (nat \<times> int list) list \<Rightarrow> (int list \<times> int \<times> Bitstr_dec) option" where
  "WebRtcIsacfix_DecHistBisectMulti d tabs =
     (if dec_W_upper d = 0 then Some ([], -2, d)
      else case dec_start d of
          None \<Rightarrow> None
        | Some (st, streamval) \<Rightarrow>
            map_option (dec_return d) (dec_bisect_loop (dec_stream d) tabs st streamval (dec_W_upper d) 0))"

text \<open>The loops are unfolded one round at a time.\<close>

declare enc_renorm.simps [simp del] dec_renorm.simps [simp del] step_up.simps [simp del] bisect.simps [simp del]

end
