(* ===== verification/IsacLogist.thy ===== *)
theory IsacLogist
  imports IsacArith
begin

text \<open>
  The logistic coder of fixed-point iSAC (\<open>arith_routines_logist.c\<close>): spectral samples are
  coded with a cumulative frequency that is a piecewise linear logistic function of the sample
  times the width of its distribution.  The encoder clips improbable samples; the decoder takes
  the widths as squares, draws their roots and searches for the sample outwards from a dither
  value.  Loops that need not end are partial functions: not returning is None, as is an access
  outside of an array or a division by zero.
\<close>

section \<open>The cumulative distribution\<close>

definition kHistEdges :: "int list" where
  "kHistEdges = [
    -327680, -314573, -301466, -288359, -275252, -262144, -249037, -235930, -222823, -209716,
    -196608, -183501, -170394, -157287, -144180, -131072, -117965, -104858, -91751, -78644,
    -65536, -52429, -39322, -26215, -13108, 0, 13107, 26214, 39321, 52428,
    65536, 78643, 91750, 104857, 117964, 131072, 144179, 157286, 170393, 183500,
    196608, 209715, 222822, 235929, 249036, 262144, 275251, 288358, 301465, 314572,
    327680]"

definition kCdfSlope :: "int list" where
  "kCdfSlope = [
    5, 5, 5, 5, 5, 5, 5, 5, 5, 5,
    5, 5, 13, 23, 47, 87, 154, 315, 700, 1088,
    2471, 6064, 14221, 21463, 36634, 36924, 19750, 13270, 5806, 2312,
    1095, 660, 316, 145, 86, 41, 32, 5, 5, 5,
    5, 5, 5, 5, 5, 5, 5, 5, 5, 2,
    0]"

definition kCdfLogistic :: "int list" where
  "kCdfLogistic = [
    0, 2, 4, 6, 8, 10, 12, 14, 16, 18,
    20, 22, 24, 29, 38, 57, 92, 153, 279, 559,
    994, 1983, 4408, 10097, 18682, 33336, 48105, 56005, 61313, 63636,
    64560, 64998, 65262, 65389, 65447, 65481, 65497, 65510, 65512, 65514,
    65516, 65518, 65520, 65522, 65524, 65526, 65528, 65530, 65532, 65534,
    65535]"

text \<open>\<open>WEBRTC_SPL_SAT\<close> clamps its second argument, \<open>WEBRTC_SPL_MUL_16_U16\<close> multiplies mixed signs.\<close>

definition SPL_SAT :: "int \<Rightarrow> int \<Rightarrow> int \<Rightarrow> int" where
  "SPL_SAT a b c = (if b > a then a else if b < c then c else b)"

definition MUL_16_U16 :: "int \<Rightarrow> int \<Rightarrow> int32" where
  "MUL_16_U16 a b = s32 (s16 a * u16 b)"

definition WebRtcIsacfix_Piecewise :: "int32 \<Rightarrow> int" where
  "WebRtcIsacfix_Piecewise xinQ15 =
     (let qtmp1 = SPL_SAT (kHistEdges ! 50) xinQ15 (kHistEdges ! 0);
          ind = nat (shr (s32 (5 * (qtmp1 - kHistEdges ! 0))) 16);
          qtmp1 = qtmp1 - kHistEdges ! ind;
          qtmp2 = u16 (shr (u32 (u32 qtmp1 * kCdfSlope ! ind)) 15)
      in u16 (kCdfLogistic ! ind + qtmp2))"

section \<open>The encoder\<close>

text \<open>The bounds of a sample, and the loop that moves it towards zero while they are too close.\<close>

definition cdf_below :: "int16 \<Rightarrow> int \<Rightarrow> int" where
  "cdf_below d e = WebRtcIsacfix_Piecewise (MUL_16_U16 (d - 64) e)"

definition cdf_above :: "int16 \<Rightarrow> int \<Rightarrow> int" where
  "cdf_above d e = WebRtcIsacfix_Piecewise (MUL_16_U16 (d + 64) e)"

partial_function (option) clip_sample :: "int \<Rightarrow> int16 \<Rightarrow> int \<Rightarrow> int \<Rightarrow> (int16 \<times> int \<times> int) option" where
  "clip_sample e d cdfLo cdfHi =
     (if cdfLo + 1 \<ge> cdfHi
      then if d > 0
           then clip_sample e (s16 (d - 128)) (cdf_below (s16 (d - 128)) e) cdfLo
           else clip_sample e (s16 (d + 128)) cdfHi (cdf_above (s16 (d + 128)) e)
      else Some (d, cdfLo, cdfHi))"

text \<open>
  The loop over the samples from index \<open>k\<close>; \<open>env\<close> is what \<open>envQ8\<close> points to, which moves on
  after every fourth sample.  The result adds the clipped samples.
\<close>

fun enc_logist_loop ::
    "nat \<Rightarrow> int16 list \<Rightarrow> int list \<Rightarrow> int list \<times> nat \<times> int \<Rightarrow> uint32 \<Rightarrow> uint32 \<Rightarrow>
     (int16 list \<times> bool \<times> (int list \<times> nat \<times> int) \<times> uint32 \<times> uint32) option" where
  "enc_logist_loop k [] env st streamval W = Some ([], True, st, streamval, W)"
| "enc_logist_loop k (d # data) env st streamval W =
     (case env of
        [] \<Rightarrow> None
      | e # es \<Rightarrow>
          (case clip_sample e d (cdf_below d e) (cdf_above d e) of
             None \<Rightarrow> None
           | Some (d, cdfLo, cdfHi) \<Rightarrow>
               (case enc_symbol cdfLo cdfHi st streamval W of
                  None \<Rightarrow> None
                | Some (ok, st, streamval, W) \<Rightarrow>
                    if ok
                    then map_option (\<lambda>(ds, r). (d # ds, r))
                           (enc_logist_loop (k + 1) data (if odd k \<and> odd (k div 2) then es else env) st streamval W)
                    else Some (d # data, False, st, streamval, W))))"

definition WebRtcIsacfix_EncLogisticMulti2 ::
    "Bitstr_enc \<Rightarrow> int16 list \<Rightarrow> int list \<Rightarrow> (int \<times> Bitstr_enc \<times> int16 list) option" where
  "WebRtcIsacfix_EncLogisticMulti2 streamData dataQ7 envQ8 =
     (case enc_logist_loop 0 dataQ7 envQ8 (enc_stream streamData, enc_index streamData, enc_full streamData)
             (enc_streamval streamData) (enc_W_upper streamData) of
        None \<Rightarrow> None
      | Some (dataQ7, ok, (s, p, full), streamval, W) \<Rightarrow>
          let streamData = streamData\<lparr>enc_stream := s, enc_full := full, enc_streamval := streamval\<rparr>
          in if ok then Some (0, streamData\<lparr>enc_index := p, enc_W_upper := W\<rparr>, dataQ7)
             else Some (- ISAC_DISALLOWED_BITSTREAM_LENGTH, streamData, dataQ7))"

section \<open>The decoder\<close>

text \<open>The root of a width: at most eleven more steps of Newton's iteration from \<open>newRes\<close>.\<close>

fun root_loop :: "int32 \<Rightarrow> int32 \<Rightarrow> nat \<Rightarrow> (int32 \<times> int32) option" where
  "root_loop inSqrt newRes i =
     (let res = newRes
      in if res = 0 then None
         else let newRes = shr (s32 (cdiv inSqrt res + res)) 1
              in if newRes \<noteq> res \<and> i > 0 then root_loop inSqrt newRes (i - 1) else Some (res, newRes))"

definition root_step :: "int32 \<Rightarrow> int32 \<Rightarrow> (int32 \<times> int32) option" where
  "root_step env res =
     (let inSqrt = (if env < 0 then s32 (- env) else env)
      in if res = 0 then None else root_loop inSqrt (shr (s32 (cdiv inSqrt res + res)) 1) 10)"

definition first_root :: "int32 \<Rightarrow> int32" where
  "first_root env = 2 ^ nat (shr (WebRtcSpl_GetSizeInBits (u32 env)) 1)"

text \<open>
  The search outwards from the first candidate \<open>candQ7\<close>, upwards and downwards: the last two
  bounds and the candidate, or the error -1 when two bounds are equal.
\<close>

definition cand_bound :: "uint32 \<Rightarrow> int \<Rightarrow> int16 \<Rightarrow> uint32" where
  "cand_bound W e c = scaled_bound W (WebRtcIsacfix_Piecewise (MUL_16_U16 c e))"

partial_function (option) logist_up ::
    "uint32 \<Rightarrow> int \<Rightarrow> uint32 \<Rightarrow> int16 \<Rightarrow> uint32 \<Rightarrow> uint32 \<Rightarrow> search_result option" where
  "logist_up W e streamVal candQ7 W_lower W_tmp =
     (if streamVal > W_tmp
      then if W_tmp = cand_bound W e (s16 (candQ7 + 128)) then Some (Inl (-1))
           else logist_up W e streamVal (s16 (candQ7 + 128)) W_tmp (cand_bound W e (s16 (candQ7 + 128)))
      else Some (Inr (s16 (candQ7 - 64), W_lower, W_tmp)))"

partial_function (option) logist_down ::
    "uint32 \<Rightarrow> int \<Rightarrow> uint32 \<Rightarrow> int16 \<Rightarrow> uint32 \<Rightarrow> uint32 \<Rightarrow> search_result option" where
  "logist_down W e streamVal candQ7 W_upper W_tmp =
     (if \<not> streamVal > W_tmp
      then if W_tmp = cand_bound W e (s16 (candQ7 - 128)) then Some (Inl (-1))
           else logist_down W e streamVal (s16 (candQ7 - 128)) W_tmp (cand_bound W e (s16 (candQ7 - 128)))
      else Some (Inr (s16 (candQ7 + 64), W_tmp, W_upper)))"

definition logist_search :: "uint32 \<Rightarrow> int \<Rightarrow> uint32 \<Rightarrow> int16 \<Rightarrow> search_result option" where
  "logist_search W e streamVal dither =
     (let candQ7 = s16 (- dither + 64);
          W_tmp = cand_bound W e candQ7
      in if streamVal > W_tmp
         then let candQ7 = s16 (candQ7 + 128) in logist_up W e streamVal candQ7 W_tmp (cand_bound W e candQ7)
         else let candQ7 = s16 (candQ7 - 128) in logist_down W e streamVal candQ7 W_tmp (cand_bound W e candQ7))"

text \<open>
  The position is \<open>streamPtr\<close>, the number \<open>offset\<close> of steps past the end of the stream and the
  flag.  Behind the last of \<open>sz\<close> words zeros are read.
\<close>

type_synonym logist_pos = "nat \<times> nat \<times> int"

definition next_byte :: "int list \<Rightarrow> int \<Rightarrow> logist_pos \<Rightarrow> (int \<times> logist_pos) option" where
  "next_byte s sz st =
     (case st of (p, offset, full) \<Rightarrow>
        if int p < sz
        then do {
          v \<leftarrow> word_at s p;
          Some (if full = 0 then (v AND 0x00FF, p + 1, offset, 1) else (shr v 8, p, offset, 0)) }
        else Some (0, p, if full = 0 then offset + 1 else offset, if full = 0 then 1 else 0))"

partial_function (option) logist_renorm ::
    "int list \<Rightarrow> int \<Rightarrow> logist_pos \<Rightarrow> uint32 \<Rightarrow> uint32 \<Rightarrow> (logist_pos \<times> uint32 \<times> uint32) option" where
  "logist_renorm s sz st streamVal W =
     (if W AND 0xFF000000 = 0
      then Option.bind (next_byte s sz st)
             (\<lambda>(b, st). logist_renorm s sz st (u32 (streamVal * 2 ^ 8) OR b) (u32 (W * 2 ^ 8)))
      else Some (st, streamVal, W))"

text \<open>The samples of one group share a width; the result lists those decoded.\<close>

fun dec_logist_group ::
    "int list \<Rightarrow> int \<Rightarrow> int \<Rightarrow> int16 list \<Rightarrow> logist_pos \<Rightarrow> uint32 \<Rightarrow> uint32 \<Rightarrow>
     (int16 list \<times> logist_pos \<times> uint32 \<times> uint32 \<times> int) option" where
  "dec_logist_group s sz e [] st streamVal W = Some ([], st, streamVal, W, 0)"
| "dec_logist_group s sz e (dither # ds) st streamVal W =
     (case logist_search W e streamVal dither of
        None \<Rightarrow> None
      | Some (Inl err) \<Rightarrow> Some (dither # ds, st, streamVal, W, err)
      | Some (Inr (x, W_lower, W_upper)) \<Rightarrow>
          let W_lower = u32 (W_lower + 1);
              W_upper = u32 (W_upper - W_lower);
              streamVal = u32 (streamVal - W_lower)
          in (case logist_renorm s sz st streamVal W_upper of
                None \<Rightarrow> None
              | Some (st, streamVal, W) \<Rightarrow>
                  map_option (\<lambda>(xs, r). (x # xs, r)) (dec_logist_group s sz e ds st streamVal W)))"

fun dec_logist_loop ::
    "int list \<Rightarrow> int \<Rightarrow> int32 \<Rightarrow> int32 list \<Rightarrow> int16 list \<Rightarrow> logist_pos \<Rightarrow> uint32 \<Rightarrow> uint32 \<Rightarrow>
     (int16 list \<times> logist_pos \<times> uint32 \<times> uint32 \<times> int) option" where
  "dec_logist_loop s sz res env [] st streamVal W = Some ([], st, streamVal, W, 0)"
| "dec_logist_loop s sz res (e # es) (d0 # d1 # d2 # d3 # ds) st streamVal W =
     (case root_step e res of
        None \<Rightarrow> None
      | Some (res, newRes) \<Rightarrow>
          (case dec_logist_group s sz (u16 newRes) [d0, d1, d2, d3] st streamVal W of
             None \<Rightarrow> None
           | Some (xs, st, streamVal, W, err) \<Rightarrow>
               if err \<noteq> 0 then Some (xs @ ds, st, streamVal, W, err)
               else map_option (\<lambda>(ys, r). (xs @ ys, r)) (dec_logist_loop s sz res es ds st streamVal W)))"
| "dec_logist_loop s sz res env ds st streamVal W = None"

text \<open>The result is the return value, the stream and \<open>dataQ7\<close>.\<close>

definition WebRtcIsacfix_DecLogisticMulti2 ::
    "int16 list \<Rightarrow> Bitstr_dec \<Rightarrow> int32 list \<Rightarrow> (int \<times> Bitstr_dec \<times> int16 list) option" where
  "WebRtcIsacfix_DecLogisticMulti2 dataQ7 d envQ8 =
     do {
       (st, streamVal) \<leftarrow> dec_start d;
       env0 \<leftarrow> word_at envQ8 0;
       (xs, st, streamVal, W, err) \<leftarrow>
         dec_logist_loop (dec_stream d) (dec_size d) (first_root env0) envQ8 dataQ7
           (fst st, 0, snd st) streamVal (dec_W_upper d);
       (case st of (p, offset, full) \<Rightarrow>
          if err \<noteq> 0 then Some (err, d\<lparr>dec_full := full\<rparr>, xs)
          else Some ((case dec_finish d (p + offset, full) streamVal W of (n, d) \<Rightarrow> (n, d, xs)))) }"

end
