(* ===== verification/IsacLossless.thy ===== *)
theory IsacLossless
  imports IsacArith
begin

text \<open>
  The arithmetic coder of \<open>IsacArith\<close> is lossless.  A stream of words is read as one number
  (\<open>bval\<close>), the state of the encoder as the number \<open>code_value\<close> of the bytes written followed
  by \<open>streamval\<close>; a symbol adds the scaled lower bound to it, and renormalisation multiplies
  it by a power of 256, whatever carries run through the words.  The intervals are nested, so
  the finished code lies in the interval of every symbol, and the decoder, whose \<open>streamval\<close>
  is the distance of the code from \<open>code_value\<close>, finds each symbol again.
\<close>

section \<open>Arithmetic of the interval\<close>

lemma split_product: "(h * 65536 + l) * c = l * c + (h * c) * (65536::int)"
  by (simp add: algebra_simps)

lemma scaled_bound_div:
  assumes "0 \<le> W" "W < 4294967296" "0 \<le> c" "c < 65536"
  shows "scaled_bound W c = W * c div 65536"
proof -
  let ?h = "W div 65536" and ?l = "W mod 65536"
  have h: "0 \<le> ?h" "?h < 65536" and l: "0 \<le> ?l" "?l < 65536" using assms by auto
  have "?h * c \<le> 65535 * 65535" "?l * c \<le> 65535 * 65535"
    using h l assms by (intro mult_mono; linarith)+
  then have u: "u32 (?h * c) = ?h * c" "u32 (?l * c) = ?l * c" using h l assms by auto
  have "W = ?h * 65536 + ?l" by simp
  then have "W * c = (?h * 65536 + ?l) * c" by (rule arg_cong [where f = "\<lambda>x. x * c"])
  also have "\<dots> = ?l * c + (?h * c) * 65536" by (rule split_product)
  finally have eq: "W * c div 65536 = ?h * c + ?l * c div 65536" by simp
  have "W * c \<le> 4294967295 * 65535" using assms by (intro mult_mono) auto
  then have "W * c div 65536 \<le> 4294967295" by linarith
  moreover have "0 \<le> W * c div 65536" using assms by (simp add: pos_imp_zdiv_nonneg_iff)
  ultimately show ?thesis
    by (simp add: scaled_bound_def low_half [OF assms(1)] u eq Let_def)
qed

abbreviation bnd :: "int \<Rightarrow> int \<Rightarrow> int" where
  "bnd W c \<equiv> W * c div 65536"

lemma bnd_mono: "0 \<le> W \<Longrightarrow> c \<le> c' \<Longrightarrow> bnd W c \<le> bnd W c'"
  by (intro zdiv_mono1 mult_left_mono) auto

lemma bnd_gap:
  assumes "16777216 \<le> W" "c < (c'::int)"
  shows "bnd W c + 256 \<le> bnd W c'"
proof -
  have "W * c + 16777216 \<le> W * (c + 1)" using assms by (simp add: distrib_left)
  also have "\<dots> \<le> W * c'" using assms by (intro mult_left_mono) auto
  finally have "W * c + 256 * 65536 \<le> W * c'" by simp
  then show ?thesis by linarith
qed

lemma bnd_le:
  assumes "0 \<le> W" "c < 65536"
  shows "bnd W c \<le> W"
proof -
  have "W * c \<le> W * 65536" using assms by (intro mult_left_mono) auto
  then show ?thesis by linarith
qed

lemma high_byte_zero: "0 \<le> (W::int) \<Longrightarrow> W < 4294967296 \<Longrightarrow> (W AND 0xFF000000 = 0) = (W < 16777216)"
  using mask_U32_tests(2) [of W] by (simp add: and.commute)

text \<open>The number of bytes the renormalisation moves.\<close>

definition shifts :: "int \<Rightarrow> nat" where
  "shifts W = (if W < 256 then 3 else if W < 65536 then 2 else if W < 16777216 then 1 else 0)"

lemma shifts_step: "0 < W \<Longrightarrow> W < 16777216 \<Longrightarrow> shifts W = Suc (shifts (W * 256))"
  by (auto simp: shifts_def)

lemma shifts_range:
  assumes "0 < W" "W < 4294967296"
  shows "16777216 \<le> W * 256 ^ shifts W" "W * 256 ^ shifts W < 4294967296"
  using assms by (auto simp: shifts_def)

section \<open>The value of a stream\<close>

definition wval :: "int list \<Rightarrow> int" where
  "wval ws = foldl (\<lambda>a w. a * 65536 + w) 0 ws"

lemma wval_Nil [simp]: "wval [] = 0"
  by (simp add: wval_def)

lemma wval_snoc [simp]: "wval (ws @ [w]) = wval ws * 65536 + w"
  by (simp add: wval_def)

lemma wval_take_Suc: "p < length s \<Longrightarrow> wval (take (Suc p) s) = wval (take p s) * 65536 + s ! p"
  by (simp add: take_Suc_conv_app_nth)

definition words :: "int list \<Rightarrow> bool" where
  "words s \<longleftrightarrow> (\<forall>w\<in>set s. 0 \<le> w \<and> w < 65536)"

lemma words_nth: "words s \<Longrightarrow> p < length s \<Longrightarrow> 0 \<le> s ! p \<and> s ! p < 65536"
  by (simp add: words_def)

lemma words_update: "words s \<Longrightarrow> 0 \<le> w \<Longrightarrow> w < 65536 \<Longrightarrow> words (s[p := w])"
  by (auto simp: words_def dest: set_update_subset_insert [THEN subsetD])

text \<open>The first \<open>n\<close> bytes of a stream as a number.\<close>

definition bval :: "int list \<Rightarrow> nat \<Rightarrow> int" where
  "bval s n = (if even n then wval (take (n div 2) s)
               else wval (take (n div 2) s) * 256 + s ! (n div 2) div 256)"

definition nbytes :: "nat \<times> int \<Rightarrow> nat" where
  "nbytes st = 2 * fst st + (if snd st = 0 then 1 else 0)"

lemma bval_Suc:
  assumes "words s" "n < 2 * length s"
  shows "\<exists>b. bval s (Suc n) = bval s n * 256 + b \<and> 0 \<le> b \<and> b < 256"
proof (cases "even n")
  case True
  then obtain k where "n = 2 * k" by (auto elim: evenE)
  then show ?thesis using words_nth [OF assms(1), of k] assms(2) by (auto simp: bval_def)
next
  case False
  then obtain k where "n = 2 * k + 1" by (auto elim: oddE)
  then have "bval s (Suc n) = bval s n * 256 + s ! k mod 256"
    using assms(2) by (simp add: bval_def wval_take_Suc)
  then show ?thesis by auto
qed

lemma bval_bounds:
  assumes "words s" "n + k \<le> 2 * length s"
  shows "bval s n * 256 ^ k \<le> bval s (n + k) \<and> bval s (n + k) < (bval s n + 1) * 256 ^ k"
  using assms(2)
proof (induction k)
  case (Suc k)
  obtain b where "bval s (Suc (n + k)) = bval s (n + k) * 256 + b" "0 \<le> b" "b < 256"
    using bval_Suc [OF assms(1), of "n + k"] Suc.prems by auto
  then show ?case using Suc by (simp add: algebra_simps)
qed simp

lemma bval_nonneg: "words s \<Longrightarrow> n \<le> 2 * length s \<Longrightarrow> 0 \<le> bval s n"
  using bval_bounds [of s 0 n] by (simp add: bval_def)

section \<open>Carries and bytes\<close>

lemma carry_back_value:
  assumes "p \<le> length s" "words s" "wval (take p s) + 1 < 65536 ^ p"
  shows "\<exists>s'. carry_back p s = Some s' \<and> length s' = length s \<and> words s' \<and>
    wval (take p s') = wval (take p s) + 1 \<and> (\<forall>i\<ge>p. s' ! i = s ! i)"
  using assms
proof (induction p arbitrary: s)
  case (Suc p)
  have p: "p < length s" using Suc.prems(1) by simp
  have v: "0 \<le> s ! p" "s ! p < 65536" using words_nth [OF Suc.prems(2) p] by auto
  show ?case
  proof (cases "s ! p = 65535")
    case False
    then have u: "u16 (s ! p + 1) = s ! p + 1" using v by (simp add: u16_def)
    let ?s = "s[p := s ! p + 1]"
    have "words ?s" using Suc.prems(2) v False by (intro words_update) auto
    moreover have "carry_back (Suc p) s = Some ?s"
      using p u v by (simp add: word_at_def put_word_def)
    ultimately show ?thesis using p by (auto simp: wval_take_Suc)
  next
    case True
    let ?s = "s[p := 0]"
    have u: "u16 (s ! p + 1) = 0" using True by (simp add: u16_def)
    have w: "words ?s" using Suc.prems(2) by (intro words_update) auto
    have lt: "wval (take p ?s) + 1 < 65536 ^ p"
      using Suc.prems(3) True p by (simp add: wval_take_Suc)
    obtain s' where s': "carry_back p ?s = Some s'" "length s' = length s" "words s'"
      "wval (take p s') = wval (take p ?s) + 1" "\<forall>i\<ge>p. s' ! i = ?s ! i"
      using Suc.IH [OF _ w lt] p by auto
    have "carry_back (Suc p) s = Some s'"
      using p u s'(1) by (simp add: word_at_def put_word_def)
    then show ?thesis using s' p True by (auto simp: wval_take_Suc)
  qed
qed simp

type_synonym enc_pos = "int list \<times> nat \<times> int"

definition enc_value :: "enc_pos \<Rightarrow> int" where
  "enc_value st = bval (fst st) (nbytes (snd st))"

definition enc_ok :: "enc_pos \<Rightarrow> bool" where
  "enc_ok st \<longleftrightarrow> (case st of (s, p, full) \<Rightarrow>
     words s \<and> length s = 200 \<and> p < 200 \<and> (full = 0 \<and> s ! p mod 256 = 0 \<or> full = 1))"

lemma bval_nbytes:
  "bval s (nbytes (p, full)) =
    (if full = 0 then wval (take p s) * 256 + s ! p div 256 else wval (take p s))"
  by (simp add: bval_def nbytes_def)

lemma enc_value_eq:
  "enc_value (s, p, full) =
    (if full = 0 then wval (take p s) * 256 + s ! p div 256 else wval (take p s))"
  by (simp add: enc_value_def bval_nbytes)

lemma propagate_value:
  assumes ok: "enc_ok (s, p, full)" and room: "enc_value (s, p, full) + 1 < 256 ^ nbytes (p, full)"
  shows "\<exists>s'. propagate_carry full p s = Some s' \<and> enc_ok (s', p, full) \<and>
    enc_value (s', p, full) = enc_value (s, p, full) + 1"
proof -
  have s: "words s" "length s = 200" "p < 200" using ok by (auto simp: enc_ok_def)
  have pow: "(256::int) ^ (2 * p) = 65536 ^ p" by (simp add: power_mult)
  show ?thesis
  proof (cases "full = 0")
    case False
    then have lt: "wval (take p s) + 1 < 65536 ^ p"
      using room by (simp add: enc_value_eq nbytes_def pow)
    obtain s' where "carry_back p s = Some s'" "length s' = length s" "words s'"
      "wval (take p s') = wval (take p s) + 1" "\<forall>i\<ge>p. s' ! i = s ! i"
      using carry_back_value [OF _ s(1) lt] s by auto
    then show ?thesis using False s ok
      by (auto simp: propagate_carry_def enc_value_eq enc_ok_def)
  next
    case True
    have v: "0 \<le> s ! p" "s ! p < 65536" "s ! p mod 256 = 0"
      using words_nth [OF s(1), of p] s ok True by (auto simp: enc_ok_def)
    show ?thesis
    proof (cases "s ! p + 256 < 65536")
      case less: True
      then have u: "u16 (s ! p + 256) = s ! p + 256" using v by (simp add: u16_def)
      let ?s = "s[p := s ! p + 256]"
      have "words ?s" using s v less by (intro words_update) auto
      moreover have "propagate_carry full p s = Some ?s"
        using True s u v by (simp add: propagate_carry_def word_at_def put_word_def)
      ultimately show ?thesis using True s v
        by (auto simp: enc_value_eq enc_ok_def)
    next
      case False
      then have top: "s ! p = 65280" using v by presburger
      then have u: "u16 (s ! p + 256) = 0" by (simp add: u16_def)
      let ?s = "s[p := 0]"
      have w: "words ?s" using s by (intro words_update) auto
      have "wval (take p s) * 256 + 256 < 256 ^ (2 * p + 1)"
        using room True top by (simp add: enc_value_eq nbytes_def)
      then have lt: "wval (take p ?s) + 1 < 65536 ^ p" by (simp add: pow)
      obtain s' where "carry_back p ?s = Some s'" "length s' = length s" "words s'"
        "wval (take p s') = wval (take p ?s) + 1" "\<forall>i\<ge>p. s' ! i = ?s ! i"
        using carry_back_value [OF _ w lt] s by auto
      then show ?thesis using True s top u
        by (auto simp: propagate_carry_def word_at_def put_word_def enc_value_eq enc_ok_def)
    qed
  qed
qed

lemma put_byte_full:
  assumes ok: "enc_ok (s, p, 0)" and b: "0 \<le> b" "b < 256" "shr v 24 = b"
  shows "put_byte v (s, p, 0) = Some (s[p := s ! p + b], p + 1, 1)" "words (s[p := s ! p + b])"
    "enc_value (s[p := s ! p + b], p + 1, 1) = enc_value (s, p, 0) * 256 + b"
proof -
  have s: "words s" "length s = 200" "p < 200" "s ! p mod 256 = 0" using ok by (auto simp: enc_ok_def)
  have w: "0 \<le> s ! p" "s ! p < 65536" using words_nth [OF s(1), of p] s by auto
  have "256 dvd s ! p" using s(4) by (simp add: dvd_eq_mod_eq_0)
  then obtain k where k: "s ! p = 256 * k" by (elim dvdE)
  then have q: "s ! p div 256 * 256 = s ! p" by simp
  have "k \<le> 255" using w(2) unfolding k by linarith
  then have lt: "s ! p + b < 65536" using b(2) unfolding k by linarith
  have u: "u16 b = b" "u16 (s ! p + b) = s ! p + b" using lt b w by (simp_all add: u16_def)
  show "put_byte v (s, p, 0) = Some (s[p := s ! p + b], p + 1, 1)"
    unfolding put_byte_def prod.case b(3) using s u by (simp add: word_at_def put_word_def)
  show "words (s[p := s ! p + b])" using s w b lt by (intro words_update) auto
  show "enc_value (s[p := s ! p + b], p + 1, 1) = enc_value (s, p, 0) * 256 + b"
    using s q by (simp add: enc_value_eq wval_take_Suc)
qed

lemma put_byte_empty:
  assumes ok: "enc_ok (s, p, 1)" and b: "0 \<le> b" "b < 256" "shr v 24 = b"
  shows "put_byte v (s, p, 1) = Some (s[p := b * 256], p, 0)" "words (s[p := b * 256])"
    "enc_value (s[p := b * 256], p, 0) = enc_value (s, p, 1) * 256 + b"
proof -
  have s: "words s" "length s = 200" "p < 200" using ok by (auto simp: enc_ok_def)
  have u: "u16 (b * 256) = b * 256" using b by (simp add: u16_def)
  show "put_byte v (s, p, 1) = Some (s[p := b * 256], p, 0)"
    unfolding put_byte_def prod.case b(3) using s u by (simp add: put_word_def)
  show "words (s[p := b * 256])" using s b by (intro words_update) auto
  show "enc_value (s[p := b * 256], p, 0) = enc_value (s, p, 1) * 256 + b"
    using s by (simp add: enc_value_eq)
qed

lemma put_byte_value:
  assumes ok: "enc_ok (s, p, full)" and v: "0 \<le> v" "v < 4294967296"
  shows "\<exists>s' p' full'. put_byte v (s, p, full) = Some (s', p', full') \<and>
    nbytes (p', full') = Suc (nbytes (p, full)) \<and> words s' \<and> length s' = 200 \<and>
    (p' < 200 \<longrightarrow> enc_ok (s', p', full')) \<and>
    enc_value (s', p', full') = enc_value (s, p, full) * 256 + v div 16777216"
proof -
  define b where "b = v div 16777216"
  have b: "0 \<le> b" "b < 256" "shr v 24 = b" using v by (auto simp: b_def)
  have s: "length s = 200" "p < 200" using ok by (auto simp: enc_ok_def)
  consider "full = 0" | "full = 1" using ok by (auto simp: enc_ok_def)
  then show ?thesis
  proof cases
    case 1
    then show ?thesis
      using put_byte_full [OF ok [unfolded 1] b] s
      by (intro exI [of _ "s[p := s ! p + b]"] exI [of _ "p + 1"] exI [of _ 1]) (simp add: enc_ok_def nbytes_def b_def [symmetric])
  next
    case 2
    then show ?thesis
      using put_byte_empty [OF ok [unfolded 2] b] s
      by (intro exI [of _ "s[p := b * 256]"] exI [of _ p] exI [of _ 0]) (simp add: enc_ok_def nbytes_def b_def [symmetric])
  qed
qed

section \<open>The encoder as a coder on integers\<close>

text \<open>The whole code so far: the bytes written followed by \<open>streamval\<close>.\<close>

definition code_value :: "enc_pos \<Rightarrow> int \<Rightarrow> int" where
  "code_value st v = enc_value st * 4294967296 + v"

definition enc_inv :: "enc_pos \<Rightarrow> int \<Rightarrow> int \<Rightarrow> bool" where
  "enc_inv st v W \<longleftrightarrow> enc_ok st \<and> 0 \<le> v \<and> v < 4294967296 \<and> 0 < W \<and> W < 4294967296 \<and>
     code_value st v + W \<le> 256 ^ nbytes (snd st) * 4294967296"

lemma shift_word:
  assumes "0 \<le> v" "v < 4294967296"
  shows "u32 (v * 256) = v mod 16777216 * 256" "v div 16777216 * 4294967296 + v mod 16777216 * 256 = v * 256"
proof -
  show "v div 16777216 * 4294967296 + v mod 16777216 * 256 = v * 256"
  proof -
    have "v = v div 16777216 * 16777216 + v mod 16777216" by simp
    then show ?thesis by presburger
  qed
  show "u32 (v * 256) = v mod 16777216 * 256"
    using mult_mod_right [of 256 v 16777216] by (simp add: u32_def mult.commute)
qed

lemma enc_renorm_value:
  "enc_inv st v W \<Longrightarrow>
   \<exists>ok st' v' W'. enc_renorm st v W = Some (ok, st', v', W') \<and>
     (ok \<longrightarrow> enc_inv st' v' W' \<and> nbytes (snd st') = nbytes (snd st) + shifts W \<and>
        code_value st' v' = code_value st v * 256 ^ shifts W \<and> W' = W * 256 ^ shifts W)"
proof (induction st v W rule: enc_renorm.induct)
  case (1 st v W)
  obtain s p full where st: "st = (s, p, full)" by (cases st)
  have inv: "enc_ok (s, p, full)" "0 \<le> v" "v < 4294967296" "0 < W" "W < 4294967296"
    "code_value st v + W \<le> 256 ^ nbytes (p, full) * 4294967296"
    using "1.prems" by (auto simp: enc_inv_def st)
  note test = high_byte_zero [of W]
  show ?case
  proof (cases "W < 16777216")
    case False
    then have "shifts W = 0" by (simp add: shifts_def)
    then show ?thesis using "1.prems" False test inv
      by (subst enc_renorm.simps) (auto intro: exI [of _ True])
  next
    case True
    obtain s' p' full' where put: "put_byte v (s, p, full) = Some (s', p', full')"
      "nbytes (p', full') = Suc (nbytes (p, full))" "p' < 200 \<longrightarrow> enc_ok (s', p', full')"
      "enc_value (s', p', full') = enc_value (s, p, full) * 256 + v div 16777216"
      using put_byte_value [OF inv(1-3)] by blast
    have W: "u32 (W * 256) = W * 256" using True inv by simp
    show ?thesis
    proof (cases "p' < 200")
      case False
      then show ?thesis using True test inv put(1) st
        by (subst enc_renorm.simps) (auto intro: exI [of _ False])
    next
      case p': True
      have val: "code_value (s', p', full') (v mod 16777216 * 256) = code_value st v * 256"
        using shift_word(2) [OF inv(2,3)] put(4) by (simp add: code_value_def st distrib_right)
      have "enc_inv (s', p', full') (v mod 16777216 * 256) (W * 256)"
        using put p' True inv val by (simp add: enc_inv_def)
      then obtain ok st2 v2 W2 where "enc_renorm (s', p', full') (v mod 16777216 * 256) (W * 256) = Some (ok, st2, v2, W2)"
        "ok \<longrightarrow> enc_inv st2 v2 W2 \<and> nbytes (snd st2) = nbytes (p', full') + shifts (W * 256) \<and>
          code_value st2 v2 = code_value (s', p', full') (v mod 16777216 * 256) * 256 ^ shifts (W * 256) \<and>
          W2 = W * 256 * 256 ^ shifts (W * 256)"
        using "1.IH" [of "W * 256" "(s', p', full')"] True test inv W put(1) st p' shift_word(1) [OF inv(2,3)]
        by auto
      then show ?thesis
        using True test inv W put st p' shift_word(1) [OF inv(2,3)] val shifts_step [OF inv(4) True]
        by (subst enc_renorm.simps) (auto simp: mult.assoc)
    qed
  qed
qed
lemma u32_wrap:
  assumes "4294967296 \<le> x" "x < 8589934592"
  shows "u32 x = x - 4294967296"
proof -
  have "u32 x = (x - 4294967296) mod 4294967296" by (simp add: u32_def)
  also have "\<dots> = x - 4294967296" using assms by (intro mod_pos_pos_trivial) auto
  finally show ?thesis .
qed

lemma carry_room:
  "e * 4294967296 + x + w \<le> n * (4294967296::int) \<Longrightarrow> 4294967296 \<le> x \<Longrightarrow> 0 < w \<Longrightarrow>
   e + 1 < n"
  by linarith

lemma code_add:
  assumes ok: "enc_ok (s, p, full)" and v: "0 \<le> v" "v < 4294967296" and l: "0 < l" "l < 4294967296"
    and room: "code_value (s, p, full) v + l < 256 ^ nbytes (p, full) * 4294967296"
  shows "\<exists>s1. (if u32 (v + l) < l then propagate_carry full p s else Some s) = Some s1 \<and>
    enc_ok (s1, p, full) \<and> 0 \<le> u32 (v + l) \<and> u32 (v + l) < 4294967296 \<and>
    code_value (s1, p, full) (u32 (v + l)) = code_value (s, p, full) v + l"
proof -
  have range: "0 \<le> u32 (v + l)" "u32 (v + l) < 4294967296" by (auto simp: u32_def)
  show ?thesis
  proof (cases "v + l < 4294967296")
    case True
    then have "u32 (v + l) = v + l" using v l by simp
    then show ?thesis using True v l ok by (simp add: code_value_def)
  next
    case False
    then have u: "u32 (v + l) = v + l - 4294967296" "u32 (v + l) < l" using v l by (auto simp: u32_wrap)
    have "enc_value (s, p, full) * 4294967296 + (v + l) + 1 \<le> 256 ^ nbytes (p, full) * 4294967296"
      using room by (simp add: code_value_def)
    then have "enc_value (s, p, full) + 1 < 256 ^ nbytes (p, full)"
      by (rule carry_room) (use False in auto)
    from propagate_value [OF ok this] show ?thesis using u range by (auto simp: code_value_def)
  qed
qed

lemma enc_symbol_renorm:
  assumes inv: "enc_inv st v W" and W: "16777216 \<le> W" and c: "0 \<le> lo" "lo < hi" "hi < 65536"
  shows "\<exists>s1. let l = bnd W lo + 1; w = bnd W hi - l in
    enc_symbol lo hi st v W = enc_renorm (s1, snd st) (u32 (v + l)) w \<and> enc_inv (s1, snd st) (u32 (v + l)) w \<and>
    code_value (s1, snd st) (u32 (v + l)) = code_value st v + l \<and> 0 < w \<and> w < 4294967296"
proof -
  obtain s p full where st: "st = (s, p, full)" by (cases st)
  define l where "l = bnd W lo + 1"
  define w where "w = bnd W hi - l"
  have i: "enc_ok (s, p, full)" "0 \<le> v" "v < 4294967296" "W < 4294967296"
    "code_value st v + W \<le> 256 ^ nbytes (p, full) * 4294967296"
    using inv by (auto simp: enc_inv_def st)
  have b: "0 \<le> bnd W lo" "bnd W lo + 256 \<le> bnd W hi" "bnd W hi \<le> W"
    using W c bnd_gap [OF W c(2)] bnd_le [of W hi] by (auto simp: pos_imp_zdiv_nonneg_iff)
  then have lw: "0 < l" "0 < w" "l + w \<le> W" "l < 4294967296" "w < 4294967296"
    using i(4) by (auto simp: l_def w_def)
  have sb: "scaled_bound W lo = bnd W lo" "scaled_bound W hi = bnd W hi"
    using W c i(4) by (auto intro!: scaled_bound_div)
  have u: "u32 (bnd W lo + 1) = l" "u32 (bnd W hi - l) = w"
    using b lw i(4) by (auto simp: l_def w_def)
  have val: "code_value st v + l + w \<le> 256 ^ nbytes (p, full) * 4294967296" using i(5) lw by linarith
  then have "code_value (s, p, full) v + l < 256 ^ nbytes (p, full) * 4294967296" using lw by (simp add: st)
  from code_add [OF i(1-3) lw(1,4) this] obtain s1 where
    s1: "(if u32 (v + l) < l then propagate_carry full p s else Some s) = Some s1"
      "enc_ok (s1, p, full)" "0 \<le> u32 (v + l)" "u32 (v + l) < 4294967296"
      "code_value (s1, p, full) (u32 (v + l)) = code_value st v + l"
    unfolding st by blast
  have "enc_inv (s1, p, full) (u32 (v + l)) w"
    using s1 lw val by (simp add: enc_inv_def)
  moreover have "enc_symbol lo hi st v W = enc_renorm (s1, p, full) (u32 (v + l)) w"
    unfolding enc_symbol_def sb Let_def u st prod.case s1(1) by simp
  ultimately show ?thesis
    using s1(5) lw(2,5) unfolding l_def [symmetric] w_def [symmetric] Let_def by (auto simp: st)
qed

lemma enc_symbol_value:
  assumes inv: "enc_inv st v W" and W: "16777216 \<le> W" and c: "0 \<le> lo" "lo < hi" "hi < 65536"
  shows "\<exists>ok st' v' W'. enc_symbol lo hi st v W = Some (ok, st', v', W') \<and>
    (ok \<longrightarrow> (let l = bnd W lo + 1; w = bnd W hi - l; r = shifts w in
       enc_inv st' v' W' \<and> 16777216 \<le> W' \<and> nbytes (snd st') = nbytes (snd st) + r \<and>
       code_value st' v' = (code_value st v + l) * 256 ^ r \<and> W' = w * 256 ^ r))"
proof -
  obtain s1 where s1: "enc_symbol lo hi st v W = enc_renorm (s1, snd st) (u32 (v + (bnd W lo + 1))) (bnd W hi - (bnd W lo + 1))"
    "enc_inv (s1, snd st) (u32 (v + (bnd W lo + 1))) (bnd W hi - (bnd W lo + 1))"
    "code_value (s1, snd st) (u32 (v + (bnd W lo + 1))) = code_value st v + (bnd W lo + 1)"
    "0 < bnd W hi - (bnd W lo + 1)" "bnd W hi - (bnd W lo + 1) < 4294967296"
    using enc_symbol_renorm [OF assms] unfolding Let_def by blast
  show ?thesis
    using enc_renorm_value [OF s1(2)] s1(3) shifts_range(1) [OF s1(4,5)] unfolding s1(1) Let_def by auto
qed

section \<open>Termination of the code\<close>

text \<open>What the terminated stream says: \<open>n\<close> bytes, \<open>k\<close> of them new.\<close>

definition ends_code :: "int list \<Rightarrow> nat \<Rightarrow> nat \<Rightarrow> int \<Rightarrow> bool" where
  "ends_code s n k c \<longleftrightarrow> words s \<and> length s = 200 \<and> bval s (n + k) = c div 256 ^ (4 - k)"

lemma terminate_one_value:
  assumes ok: "enc_ok (s, p, full)" and v: "0 \<le> v" "v < 4294967296"
  shows "\<exists>s' p' full'. terminate_one v (s, p, full) = Some (s', p', full') \<and>
    nbytes (p', full') = nbytes (p, full) + 1 \<and>
    ends_code s' (nbytes (p, full)) 1 (code_value (s, p, full) v)"
proof -
  obtain s' p' full' where put: "put_byte v (s, p, full) = Some (s', p', full')"
    "nbytes (p', full') = Suc (nbytes (p, full))" "words s'" "length s' = 200"
    "enc_value (s', p', full') = enc_value (s, p, full) * 256 + v div 16777216"
    using put_byte_value [OF ok v] by blast
  have "code_value (s, p, full) v = v + enc_value (s, p, full) * 256 * 16777216"
    by (simp add: code_value_def)
  then have "code_value (s, p, full) v div 16777216 = enc_value (s, p, full) * 256 + v div 16777216"
    by (simp only: div_mult_self1)
  then show ?thesis using put by (simp add: terminate_one_def ends_code_def enc_value_def)
qed

lemma terminate_two_value:
  assumes ok: "enc_ok (s, p, full)" and v: "0 \<le> v" "v < 4294967296" and room: "full = 0 \<longrightarrow> p < 199"
  shows "\<exists>s' p' full'. terminate_two v (s, p, full) = Some (s', p', full') \<and>
    nbytes (p', full') = nbytes (p, full) + 2 \<and>
    ends_code s' (nbytes (p, full)) 2 (code_value (s, p, full) v)"
proof -
  have s: "words s" "length s = 200" "p < 200" using ok by (auto simp: enc_ok_def)
  have "code_value (s, p, full) v = v + enc_value (s, p, full) * 65536 * 65536"
    by (simp add: code_value_def)
  then have code: "code_value (s, p, full) v div 65536 = enc_value (s, p, full) * 65536 + v div 65536"
    by (simp only: div_mult_self1)
  define x where "x = v div 65536"
  have x: "0 \<le> x" "x < 65536" using v by (auto simp: x_def)
  consider "full = 0" | "full = 1" using ok by (auto simp: enc_ok_def)
  then show ?thesis
  proof cases
    case 2
    let ?s = "s[p := x]"
    have "u16 x = x" using x by (simp add: u16_def)
    then have "terminate_two v (s, p, full) = Some (?s, p + 1, full)"
      using 2 s by (simp add: terminate_two_def put_word_def x_def)
    moreover have "words ?s" using s x by (intro words_update) auto
    moreover have "bval ?s (2 * p + 2) = enc_value (s, p, full) * 65536 + x"
      using 2 s bval_nbytes [of ?s "p + 1" 1] by (simp add: nbytes_def wval_take_Suc enc_value_eq)
    ultimately show ?thesis using 2 s code
      by (auto simp: ends_code_def nbytes_def x_def)
  next
    case 1
    have w: "0 \<le> s ! p" "s ! p < 65536" "s ! p mod 256 = 0"
      using words_nth [OF s(1), of p] s ok 1 by (auto simp: enc_ok_def)
    then have "256 dvd s ! p" by (simp add: dvd_eq_mod_eq_0)
    then obtain k where k: "s ! p = k * 256" by (metis dvdE mult.commute)
    define hi lo where "hi = x div 256" and "lo = x mod 256"
    have hl: "0 \<le> hi" "hi < 256" "0 \<le> lo" "lo < 256" "x = hi * 256 + lo"
      using x by (auto simp: hi_def lo_def)
    have u1: "v div 16777216 = hi" by (simp add: hi_def x_def flip: zdiv_zmult2_eq)
    have "u16 (v div 256) = 256 * (v div 65536 mod 256) + v div 256 mod 256"
      using zmod_zmult2_eq [of 256 "v div 256" 256] by (simp add: u16_def flip: zdiv_zmult2_eq)
    then have "u16 (v div 256) div 256 = lo" by (simp add: lo_def x_def)
    moreover have "0 \<le> u16 (v div 256)" "u16 (v div 256) < 65536" by (auto simp: u16_def)
    ultimately have u2: "u16 (v div 256) AND 0xFF00 = lo * 256" by (simp add: and_high_byte)
    have uh: "u16 hi = hi" using hl by (simp add: u16_def)
    have o: "s ! p OR hi = k * 256 + hi" using or_add [of hi 8 k] hl unfolding k by simp
    let ?s = "s[p := k * 256 + hi, p + 1 := lo * 256]"
    have p: "p + 1 < length s" using room 1 s by simp
    have run: "terminate_two v (s, p, full) = Some (?s, p + 1, full)"
      using 1 s p by (simp add: terminate_two_def word_at_def put_word_def u1 u2 uh o)
    have "k \<le> 255" "0 \<le> k" using w(1,2) unfolding k by linarith+
    then have "words ?s" using s hl by (intro words_update) auto
    moreover have "bval ?s (2 * p + 3) = enc_value (s, p, full) * 65536 + x"
    proof -
      have "bval ?s (nbytes (p + 1, 0)) = wval (take (p + 1) ?s) * 256 + lo"
        unfolding bval_nbytes using p by simp
      also have "wval (take (p + 1) ?s) = wval (take p s) * 65536 + (k * 256 + hi)"
        using p by (simp add: wval_take_Suc)
      finally show ?thesis using 1 hl(5) k by (simp add: nbytes_def enc_value_eq eval_nat_numeral)
    qed
    ultimately show ?thesis using run 1 s code
      by (auto simp: ends_code_def nbytes_def x_def eval_nat_numeral)
  qed
qed

section \<open>The bytes of the code\<close>

definition bytes_of :: "int list \<Rightarrow> int list" where
  "bytes_of s = concat (map (\<lambda>w. [w div 256, w mod 256]) s)"

definition bytes_val :: "int list \<Rightarrow> int" where
  "bytes_val bs = foldl (\<lambda>a b. a * 256 + b) 0 bs"

lemma bytes_val_snoc [simp]: "bytes_val (bs @ [b]) = bytes_val bs * 256 + b" "bytes_val [] = 0"
  by (simp_all add: bytes_val_def)

lemma length_bytes_of [simp]: "length (bytes_of s) = 2 * length s"
  by (induction s) (simp_all add: bytes_of_def)

lemma bytes_of_append [simp]: "bytes_of (a @ b) = bytes_of a @ bytes_of b"
  by (simp add: bytes_of_def)

lemma take_bytes_of: "take (2 * p) (bytes_of s) = bytes_of (take p s)"
proof (cases "p \<le> length s")
  case True
  have "bytes_of s = bytes_of (take p s) @ bytes_of (drop p s)" by (simp flip: bytes_of_append)
  then show ?thesis using True by simp
qed simp

lemma wval_bytes: "wval ws = bytes_val (bytes_of ws)"
proof (induction ws rule: rev_induct)
  case (snoc w ws)
  have "bytes_of (ws @ [w]) = (bytes_of ws @ [w div 256]) @ [w mod 256]" by (simp add: bytes_of_def)
  then have "bytes_val (bytes_of (ws @ [w])) = (bytes_val (bytes_of ws) * 256 + w div 256) * 256 + w mod 256"
    by (simp only: bytes_val_snoc)
  then show ?case using snoc by simp
qed (simp add: bytes_of_def)

lemma bytes_of_split:
  assumes "p < length s"
  shows "bytes_of s = bytes_of (take p s) @ [s ! p div 256, s ! p mod 256] @ bytes_of (drop (Suc p) s)"
proof -
  have "bytes_of s = bytes_of (take p s @ [s ! p] @ drop (Suc p) s)"
    using id_take_nth_drop [OF assms] by simp
  then show ?thesis by (simp add: bytes_of_def)
qed

text \<open>The value of a prefix depends on its bytes only.\<close>

lemma bval_bytes:
  assumes "n \<le> 2 * length s"
  shows "bval s n = bytes_val (take n (bytes_of s))"
proof (cases "even n")
  case True
  then show ?thesis by (auto simp: bval_def wval_bytes take_bytes_of elim!: evenE)
next
  case False
  then obtain p where p: "n = 2 * p + 1" by (elim oddE)
  then have "p < length s" using assms by simp
  then have "bytes_of s = bytes_of (take p s) @ [s ! p div 256, s ! p mod 256] @ bytes_of (drop (Suc p) s)"
    by (rule bytes_of_split)
  then have "take n (bytes_of s) = bytes_of (take p s) @ [s ! p div 256]"
    using \<open>p < length s\<close> p by (simp add: min_absorb2)
  then show ?thesis using p by (simp add: bval_def wval_bytes)
qed

section \<open>The code lies in the last interval\<close>

definition code_in :: "int list \<Rightarrow> nat \<Rightarrow> int \<Rightarrow> int \<Rightarrow> bool" where
  "code_in S m c W \<longleftrightarrow> c \<le> bval S (m + 4) \<and> bval S (m + 4) < c + W"

lemma rounded_up:
  assumes "0 < (d::int)" "q = (c + d) div d"
  shows "c < q * d" "q * d \<le> c + d"
proof -
  have "c + d = q * d + (c + d) mod d" unfolding assms(2) by (rule div_mult_mod_eq [symmetric])
  moreover have "0 \<le> (c + d) mod d" "(c + d) mod d < d" using assms(1) by auto
  ultimately show "c < q * d" "q * d \<le> c + d" by linarith+
qed

lemma ends_code_in:
  assumes S: "words S" "m + 4 \<le> 2 * length S" "bval S (m + k) = bval s (m + k)" and k: "k = 1 \<or> k = 2"
    and ends: "ends_code s m k (c + 256 ^ (4 - k))" and W: "2 * 256 ^ (4 - k) \<le> W"
  shows "code_in S m c W"
proof -
  let ?d = "256 ^ (4 - k) :: int"
  define q where "q = (c + ?d) div ?d"
  have q: "bval S (m + k) = q" using ends S(3) by (simp add: ends_code_def q_def)
  have "m + 4 = (m + k) + (4 - k)" using k by auto
  then have "q * ?d \<le> bval S (m + 4)" "bval S (m + 4) < (q + 1) * ?d"
    using bval_bounds [OF S(1), of "m + k" "4 - k"] S(2) q by auto
  moreover have "c < q * ?d" "q * ?d \<le> c + ?d" by (rule rounded_up [OF _ q_def], simp)+
  moreover have "(q + 1) * ?d = q * ?d + ?d" by (simp add: distrib_right)
  ultimately show ?thesis using W unfolding code_in_def by linarith
qed

lemma EncTerminate_value:
  assumes inv: "enc_inv (enc_stream e, enc_index e, enc_full e) (enc_streamval e) (enc_W_upper e)"
    and W: "16777216 \<le> enc_W_upper e" and room: "enc_index e < 199"
  shows "\<exists>len e'. WebRtcIsacfix_EncTerminate e = Some (len, e') \<and>
    len = int (nbytes (enc_index e, enc_full e)) + (if enc_W_upper e > 33554431 then 1 else 2) \<and>
    (\<forall>S. words S \<and> nbytes (enc_index e, enc_full e) + 4 \<le> 2 * length S \<and>
       take (nat len) (bytes_of S) = take (nat len) (bytes_of (enc_stream e')) \<longrightarrow>
       code_in S (nbytes (enc_index e, enc_full e))
         (code_value (enc_stream e, enc_index e, enc_full e) (enc_streamval e)) (enc_W_upper e))"
proof -
  let ?s = "enc_stream e" and ?p = "enc_index e" and ?f = "enc_full e" and ?v = "enc_streamval e"
  let ?W = "enc_W_upper e" and ?m = "nbytes (enc_index e, enc_full e)"
  let ?c = "code_value (?s, ?p, ?f) ?v"
  define k :: nat where "k = (if ?W > 33554431 then 1 else 2)"
  define step :: int where "step = (if ?W > 33554431 then 16777216 else 65536)"
  have k: "k = 1 \<or> k = 2" "step = 256 ^ (4 - k)" "2 * 256 ^ (4 - k) \<le> ?W"
    using W by (auto simp: k_def step_def)
  have i: "enc_ok (?s, ?p, ?f)" "0 \<le> ?v" "?v < 4294967296" "?c + ?W \<le> 256 ^ ?m * 4294967296"
    using inv by (auto simp: enc_inv_def)
  have st: "0 < step" "step < 4294967296" "step < ?W" using W by (auto simp: step_def)
  then have "?c + step < 256 ^ ?m * 4294967296" using i(4) by linarith
  from code_add [OF i(1-3) st(1,2) this] obtain s1 where
    s1: "(if u32 (?v + step) < step then propagate_carry ?f ?p ?s else Some ?s) = Some s1"
      "enc_ok (s1, ?p, ?f)" "0 \<le> u32 (?v + step)" "u32 (?v + step) < 4294967296"
      "code_value (s1, ?p, ?f) (u32 (?v + step)) = ?c + step" by blast
  obtain s2 p2 f2 where
    fin: "(if ?W > 33554431 then terminate_one (u32 (?v + step)) (s1, ?p, ?f)
           else terminate_two (u32 (?v + step)) (s1, ?p, ?f)) = Some (s2, p2, f2)"
      "nbytes (p2, f2) = ?m + k" "ends_code s2 ?m k (?c + step)"
    using terminate_one_value [OF s1(2-4)] terminate_two_value [OF s1(2-4)] room s1(5)
    by (cases "?W > 33554431") (auto simp: k_def)
  let ?e = "e\<lparr>enc_stream := s2, enc_full := f2, enc_streamval := u32 (?v + step)\<rparr>"
  have nb: "?m \<le> 397" using room by (simp add: nbytes_def)
  have "2 * int p2 + (if f2 = 0 then 1 else 0) = int (nbytes (p2, f2))" by (simp add: nbytes_def)
  then have len: "s16 (2 * int p2 + (if f2 = 0 then 1 else 0)) = int (?m + k)"
    using fin(2) nb k(1) by auto
  have run: "WebRtcIsacfix_EncTerminate e = Some (int (?m + k), ?e)"
    using s1(1) fin(1) len
    unfolding WebRtcIsacfix_EncTerminate_def Let_def step_def [symmetric]
    by (simp add: step_def split: if_splits)
  moreover have "code_in S ?m ?c ?W" if S: "words S" "?m + 4 \<le> 2 * length S"
      "take (?m + k) (bytes_of S) = take (?m + k) (bytes_of s2)" for S
  proof -
    have "length s2 = 200" using fin(3) by (simp add: ends_code_def)
    then have "bval S (?m + k) = bval s2 (?m + k)"
      using S(2,3) nb k(1) by (subst (1 2) bval_bytes) auto
    then show ?thesis using ends_code_in [OF S(1,2) _ k(1) _ k(3)] fin(3) k(2) by simp
  qed
  ultimately show ?thesis by (auto simp: k_def nat_add_distrib)
qed

end
