(* ===== verification/IsacRoundTrip.thy ===== *)
theory IsacRoundTrip imports IsacLossless begin

text \<open>
  The decoder of \<open>IsacArith\<close> inverts the encoder: the searches find the symbol whose interval
  holds the code, the decoder follows the encoder byte by byte, and an encoded and terminated
  list of symbols is read back from every stream that starts with its bytes.
\<close>

section \<open>Reading bytes\<close>

lemma get_byte_value:
  assumes "words S" "nbytes (p, full) < 2 * length S" "full = 0 \<or> full = 1"
  shows "\<exists>b p' full'. get_byte S (p, full) = Some (b, p', full') \<and> (full' = 0 \<or> full' = 1) \<and>
    nbytes (p', full') = Suc (nbytes (p, full)) \<and> 0 \<le> b \<and> b < 256 \<and>
    bval S (Suc (nbytes (p, full))) = bval S (nbytes (p, full)) * 256 + b"
proof (cases "full = 0")
  case True
  then have "p < length S" using assms(2) by (simp add: nbytes_def)
  then show ?thesis using True words_nth [OF assms(1), of p]
    by (simp add: get_byte_def word_at_def nbytes_def bval_def and_low_byte wval_take_Suc)
next
  case False
  then have "full = 1" "p < length S" using assms(2,3) by (auto simp: nbytes_def)
  then show ?thesis using words_nth [OF assms(1), of p]
    by (auto simp: get_byte_def word_at_def nbytes_def bval_def)
qed

lemma dec_renorm_value:
  "\<lbrakk>words S; nbytes st + shifts W \<le> 2 * length S; snd st = 0 \<or> snd st = 1;
    0 \<le> D; D < W; W < 4294967296\<rbrakk> \<Longrightarrow>
   \<exists>st'. dec_renorm S st D W = Some (st', D * 256 ^ shifts W + (bval S (nbytes st + shifts W)
       - bval S (nbytes st) * 256 ^ shifts W), W * 256 ^ shifts W) \<and>
     nbytes st' = nbytes st + shifts W \<and> (snd st' = 0 \<or> snd st' = 1)"
proof (induction S st D W rule: dec_renorm.induct)
  case (1 S st D W)
  note test = high_byte_zero [of W]
  show ?case
  proof (cases "W < 16777216")
    case False
    then have "shifts W = 0" by (simp add: shifts_def)
    then show ?thesis using "1.prems" False test
      by (subst dec_renorm.simps) auto
  next
    case True
    have sh: "shifts W = Suc (shifts (W * 256))" using shifts_step "1.prems" True by simp
    obtain p full where st: "st = (p, full)" by (cases st)
    obtain b p' full' where b: "get_byte S (p, full) = Some (b, p', full')" "full' = 0 \<or> full' = 1"
      "nbytes (p', full') = Suc (nbytes (p, full))" "0 \<le> b" "b < 256"
      "bval S (Suc (nbytes (p, full))) = bval S (nbytes (p, full)) * 256 + b"
      using get_byte_value [OF "1.prems"(1), of p full] "1.prems"(2,3) sh st by auto
    have W: "u32 (W * 256) = W * 256" "u32 (D * 256) = D * 256" using True "1.prems" by simp_all
    have D: "u32 (D * 2 ^ 8) OR b = D * 256 + b" using or_add [of b 8 D] b(4,5) W(2) by simp
    have "\<exists>st'. dec_renorm S (p', full') (D * 256 + b) (W * 256) =
        Some (st', (D * 256 + b) * 256 ^ shifts (W * 256) + (bval S (nbytes (p', full') + shifts (W * 256))
          - bval S (nbytes (p', full')) * 256 ^ shifts (W * 256)), W * 256 * 256 ^ shifts (W * 256)) \<and>
        nbytes st' = nbytes (p', full') + shifts (W * 256) \<and> (snd st' = 0 \<or> snd st' = 1)"
      using "1.IH" [of "(b, p', full')" b "(p', full')"] "1.prems" True test b sh st W D
      by (simp del: power_numeral_even)
    moreover have "dec_renorm S st D W = dec_renorm S (p', full') (D * 256 + b) (W * 256)"
      using "1.prems" True test b(1) st W D by (subst dec_renorm.simps) simp
    ultimately show ?thesis using b(3,6) sh st by (auto simp: algebra_simps)
  qed
qed

section \<open>The searches\<close>

text \<open>A table of cumulative frequencies, and the symbols it can code.\<close>

definition cdf_table :: "int list \<Rightarrow> bool" where
  "cdf_table cdf \<longleftrightarrow> sorted cdf \<and> (\<forall>c\<in>set cdf. 0 \<le> c \<and> c < 65536)"

definition codable :: "int list \<Rightarrow> nat \<Rightarrow> bool" where
  "codable cdf d \<longleftrightarrow> cdf_table cdf \<and> d + 1 < length cdf \<and> cdf ! d < cdf ! (d + 1)"

text \<open>The value \<open>D\<close> lies in the interval of the symbol \<open>d\<close>.\<close>

definition hits :: "int list \<Rightarrow> int \<Rightarrow> int \<Rightarrow> nat \<Rightarrow> bool" where
  "hits cdf W D d \<longleftrightarrow> codable cdf d \<and> 0 \<le> W \<and> W < 4294967296 \<and>
     bnd W (cdf ! d) < D \<and> D \<le> bnd W (cdf ! (d + 1))"

lemma hits_side:
  assumes "hits cdf W D d" "i < length cdf"
  shows "bnd W (cdf ! i) < D \<longleftrightarrow> i \<le> d"
proof -
  have s: "sorted cdf" "d + 1 < length cdf" using assms by (auto simp: hits_def codable_def cdf_table_def)
  show ?thesis
  proof (cases "i \<le> d")
    case True
    then have "cdf ! i \<le> cdf ! d" using s by (simp add: sorted_nth_mono)
    then have "bnd W (cdf ! i) \<le> bnd W (cdf ! d)" using assms by (intro bnd_mono) (auto simp: hits_def)
    then show ?thesis using assms True by (auto simp: hits_def)
  next
    case False
    then have "cdf ! (d + 1) \<le> cdf ! i" using s assms by (intro sorted_nth_mono) auto
    then have "bnd W (cdf ! (d + 1)) \<le> bnd W (cdf ! i)" using assms by (intro bnd_mono) (auto simp: hits_def)
    then show ?thesis using assms False by (auto simp: hits_def)
  qed
qed

lemma hits_bound:
  assumes "hits cdf W D d" "i < length cdf"
  shows "scaled_bound W (cdf ! i) = bnd W (cdf ! i)"
  using assms by (intro scaled_bound_div) (auto simp: hits_def codable_def cdf_table_def)

lemma hits_length: "hits cdf W D d \<Longrightarrow> d + 1 < length cdf"
  by (simp add: hits_def codable_def)

lemma hits_below_top:
  assumes "hits cdf W D d" "i \<le> d"
  shows "cdf ! i \<noteq> 65535"
proof -
  have s: "sorted cdf" "d + 1 < length cdf" "cdf ! d < cdf ! (d + 1)" "cdf ! (d + 1) < 65536"
    using assms by (auto simp: hits_def codable_def cdf_table_def)
  have "cdf ! i \<le> cdf ! d" using s assms(2) by (simp add: sorted_nth_mono)
  then show ?thesis using s by simp
qed

lemma step_up_finds:
  assumes "hits cdf W D d" "i \<le> d"
  shows "step_up cdf W D i (bnd W (cdf ! i)) =
    Some (Inr (int d, bnd W (cdf ! d), bnd W (cdf ! (d + 1))))"
  using assms(2)
proof (induction "d - i" arbitrary: i)
  case 0
  then show ?case
    using hits_below_top [OF assms(1), of i] hits_side [OF assms(1), of "d + 1"] hits_length [OF assms(1)]
      hits_bound [OF assms(1), of "d + 1"]
    by (subst step_up.simps) (simp add: word_at_def)
next
  case (Suc n)
  then have "i + 1 \<le> d" "n = d - (i + 1)" by simp_all
  then show ?case
    using Suc.hyps(1) [of "i + 1"] hits_below_top [OF assms(1), of i] hits_side [OF assms(1), of "i + 1"]
      hits_length [OF assms(1)] hits_bound [OF assms(1), of "i + 1"]
    by (subst step_up.simps) (simp add: word_at_def)
qed

lemma step_down_finds:
  assumes "hits cdf W D d"
  shows "d < i \<Longrightarrow> i < length cdf \<Longrightarrow> step_down cdf W D i (bnd W (cdf ! i)) =
    Some (Inr (int d, bnd W (cdf ! d), bnd W (cdf ! (d + 1))))"
proof (induction i)
  case (Suc i)
  then show ?case
    using hits_side [OF assms, of i] hits_bound [OF assms, of i]
    by (cases "i = d") (simp_all add: word_at_def)
qed simp

lemma search_one_step_finds:
  assumes "hits cdf W D d" "init < length cdf"
  shows "search_one_step cdf init W D = Some (Inr (int d, bnd W (cdf ! d), bnd W (cdf ! (d + 1))))"
  using assms hits_side [OF assms] hits_bound [OF assms] step_up_finds [OF assms(1), of init]
    step_down_finds [OF assms(1), of init]
  by (simp add: search_one_step_def word_at_def Let_def)

text \<open>
  The bisection keeps the symbol in a window of twice \<open>sizeTmp\<close> around \<open>i\<close>, whose ends are the
  bounds found so far.
\<close>

lemma bisect_finds:
  assumes "hits cdf W D d"
  shows "i - 2 ^ j \<le> int d \<Longrightarrow> int d < i + 2 ^ j \<Longrightarrow> 0 \<le> i \<Longrightarrow> i + 2 ^ j \<le> int (length cdf) \<Longrightarrow>
    - 1 \<le> i - 2 ^ j \<Longrightarrow>
    (0 \<le> i - 2 ^ j \<Longrightarrow> L = bnd W (cdf ! nat (i - 2 ^ j))) \<Longrightarrow>
    (i + 2 ^ j < int (length cdf) \<Longrightarrow> U = bnd W (cdf ! nat (i + 2 ^ j))) \<Longrightarrow>
    bisect cdf W D (2 ^ j) i L U = Some (int d, bnd W (cdf ! d), bnd W (cdf ! (d + 1)))"
proof (induction j arbitrary: i L U)
  case 0
  show ?case
  proof (cases "int d = i")
    case True
    then have "nat (i + 1) = d + 1" "nat i = d" by simp_all
    then show ?thesis
      using 0 True hits_side [OF assms, of d] hits_bound [OF assms, of d] hits_length [OF assms]
      by (subst bisect.simps) (simp add: word_at_def)
  next
    case False
    then have "int d = i - 1" using 0 by simp
    then have "nat (i - 1) = d" "nat i = d + 1" "i = int d + 1" by simp_all
    then show ?thesis
      using 0 hits_side [OF assms, of "d + 1"] hits_bound [OF assms, of "d + 1"] hits_length [OF assms]
      by (subst bisect.simps) (simp add: word_at_def)
  qed
next
  case (Suc j)
  have "(0::int) < 2 ^ Suc j" by simp
  then have i: "0 \<le> i" "nat i < length cdf" using Suc.prems(3,4) by linarith+
  have pw: "(2::nat) ^ Suc j div 2 = 2 ^ j" "int (2 ^ j) = 2 ^ j" by simp_all
  have run: "bisect cdf W D (2 ^ Suc j) i L U =
     (if nat i \<le> d then bisect cdf W D (2 ^ j) (i + 2 ^ j) (bnd W (cdf ! nat i)) U
      else bisect cdf W D (2 ^ j) (i - 2 ^ j) L (bnd W (cdf ! nat i)))"
    using i hits_side [OF assms i(2)] hits_bound [OF assms i(2)] pw
    by (subst bisect.simps) (simp add: word_at_def Let_def del: power_Suc)
  show ?case
  proof (cases "nat i \<le> d")
    case True
    have "bisect cdf W D (2 ^ j) (i + 2 ^ j) (bnd W (cdf ! nat i)) U =
        Some (int d, bnd W (cdf ! d), bnd W (cdf ! (d + 1)))"
      by (rule Suc.IH) (use Suc.prems True i in \<open>auto simp: algebra_simps\<close>)
    then show ?thesis using run True by simp
  next
    case False
    have "bisect cdf W D (2 ^ j) (i - 2 ^ j) L (bnd W (cdf ! nat i)) =
        Some (int d, bnd W (cdf ! d), bnd W (cdf ! (d + 1)))"
      by (rule Suc.IH) (use Suc.prems False i in \<open>auto simp: algebra_simps\<close>)
    then show ?thesis using run False by simp
  qed
qed

lemma bisect_symbol:
  assumes "hits cdf W D d" "length cdf = 2 ^ Suc k - 1"
  shows "bisect cdf W D (2 ^ Suc k div 2) (int (2 ^ Suc k div 2) - 1) L U =
    Some (int d, bnd W (cdf ! d), bnd W (cdf ! (d + 1)))"
proof -
  have "int (length cdf) = 2 * 2 ^ k - 1" using assms(2) by (simp add: of_nat_diff)
  then have "bisect cdf W D (2 ^ k) (2 ^ k - 1) L U = Some (int d, bnd W (cdf ! d), bnd W (cdf ! (d + 1)))"
    using hits_length [OF assms(1)] by (intro bisect_finds [OF assms(1)]) auto
  then show ?thesis by simp
qed

section \<open>The decoder follows the encoder\<close>

lemma code_in_back:
  assumes "words S" "m + 4 + r \<le> 2 * length S" "code_in S (m + r) (c * 256 ^ r) (w * 256 ^ r)"
  shows "code_in S m c w"
proof -
  let ?R = "256 ^ r :: int"
  have "bval S (m + 4) * ?R \<le> bval S (m + 4 + r)" "bval S (m + 4 + r) < (bval S (m + 4) + 1) * ?R"
    using bval_bounds [OF assms(1), of "m + 4" r] assms(2) by auto
  moreover have "c * ?R \<le> bval S (m + 4 + r)" "bval S (m + 4 + r) < (c + w) * ?R"
    using assms(3) by (auto simp: code_in_def distrib_right ac_simps)
  ultimately have "c * ?R < (bval S (m + 4) + 1) * ?R" "bval S (m + 4) * ?R < (c + w) * ?R" by linarith+
  then show ?thesis by (simp add: code_in_def)
qed

definition dec_at :: "nat \<times> int \<Rightarrow> nat \<Rightarrow> bool" where
  "dec_at st m \<longleftrightarrow> nbytes st = m + 4 \<and> (snd st = 0 \<or> snd st = 1)"

lemma dec_narrow_value:
  assumes "words S" "dec_at st m" "hits cdf W D d" "16777216 \<le> W"
    and "l = bnd W (cdf ! d) + 1" "w = bnd W (cdf ! (d + 1)) - l" "r = shifts w"
    and "D = bval S (m + 4) - c" "D < l + w" "m + 4 + r \<le> 2 * length S"
  shows "\<exists>st'. dec_narrow S st D (bnd W (cdf ! d)) (bnd W (cdf ! (d + 1))) =
      Some (st', bval S (m + r + 4) - (c + l) * 256 ^ r, w * 256 ^ r) \<and> dec_at st' (m + r)"
proof -
  have h: "0 \<le> cdf ! d" "cdf ! d < cdf ! (d + 1)" "cdf ! (d + 1) < 65536" "W < 4294967296" "l \<le> D"
    using assms(3,5) by (auto simp: hits_def codable_def cdf_table_def)
  have b: "0 \<le> bnd W (cdf ! d)" "bnd W (cdf ! d) + 256 \<le> bnd W (cdf ! (d + 1))" "bnd W (cdf ! (d + 1)) \<le> W"
    using assms(4) h bnd_gap [OF assms(4) h(2)] bnd_le [of W "cdf ! (d + 1)"] by (auto simp: pos_imp_zdiv_nonneg_iff)
  have u: "u32 (bnd W (cdf ! d) + 1) = l" "u32 (bnd W (cdf ! (d + 1)) - l) = w" "u32 (D - l) = D - l"
    using b h assms(5,6,9) by auto
  have lw: "0 \<le> D - l" "D - l < w" "w < 4294967296" using b h assms(5,6,9) by auto
  obtain st' where "dec_renorm S st (D - l) w = Some (st', (D - l) * 256 ^ r + (bval S (nbytes st + r)
       - bval S (nbytes st) * 256 ^ r), w * 256 ^ r)" "nbytes st' = nbytes st + r" "snd st' = 0 \<or> snd st' = 1"
    using dec_renorm_value [OF assms(1) _ _ lw, of st] assms(2,7,10) by (auto simp: dec_at_def)
  moreover have "(D - l) * 256 ^ r + (bval S (m + 4 + r) - bval S (m + 4) * 256 ^ r) =
      bval S (m + r + 4) - (c + l) * 256 ^ r"
    unfolding assms(8) by (simp add: algebra_simps)
  moreover have "dec_narrow S st D (bnd W (cdf ! d)) (bnd W (cdf ! (d + 1))) = dec_renorm S st (D - l) w"
    unfolding dec_narrow_def Let_def u ..
  ultimately show ?thesis using assms(2) by (intro exI [of _ st']) (auto simp: dec_at_def)
qed

section \<open>New coders\<close>

definition new_encoder :: "int list \<Rightarrow> Bitstr_enc" where
  "new_encoder s = \<lparr>enc_stream = s, enc_W_upper = 0xFFFFFFFF, enc_streamval = 0, enc_index = 0, enc_full = 1\<rparr>"

definition new_decoder :: "int list \<Rightarrow> Bitstr_dec" where
  "new_decoder S = \<lparr>dec_stream = S, dec_W_upper = 0xFFFFFFFF, dec_streamval = 0, dec_index = 0,
     dec_full = 1, dec_size = int (length S)\<rparr>"

text \<open>The stream \<open>S\<close> starts with the first \<open>n\<close> bytes of the stream \<open>s\<close> and can be read past them.\<close>

definition carries :: "int list \<Rightarrow> nat \<Rightarrow> int list \<Rightarrow> bool" where
  "carries S n s \<longleftrightarrow> words S \<and> n + 3 \<le> 2 * length S \<and> take n (bytes_of S) = take n (bytes_of s)"

lemma dec_start_new:
  assumes "words S" "4 \<le> 2 * length S"
  shows "dec_start (new_decoder S) = Some ((2, 1), bval S 4)"
proof -
  have l: "0 < length S" "1 < length S" using assms(2) by linarith+
  have w: "0 \<le> S ! 0" "S ! 0 < 65536" "0 \<le> S ! 1" "S ! 1 < 65536"
    using words_nth [OF assms(1) l(1)] words_nth [OF assms(1) l(2)] by simp_all
  then have "u32 (S ! 0 * 65536) = S ! 0 * 65536" by simp
  then have "u32 (S ! 0 * 2 ^ 16) OR S ! 1 = S ! 0 * 65536 + S ! 1" using or_add [of "S ! 1" 16 "S ! 0"] w by simp
  moreover have "take 2 S = [S ! 0, S ! 1]" using assms(2) by (cases S; cases "tl S") auto
  ultimately show ?thesis using l
    by (simp add: dec_start_def new_decoder_def word_at_def bval_def wval_def)
qed

lemma dec_finish_length:
  assumes "dec_at st m" "m \<le> 399"
  shows "fst (dec_finish d st D W) = int m + (if W > 33554431 then 1 else 2)"
proof -
  have "2 * int (fst st) + (if snd st = 0 then 1 else 0) = int m + 4"
    using assms(1) by (auto simp: dec_at_def nbytes_def)
  then show ?thesis using assms(2) by (auto simp: dec_finish_def Let_def)
qed

section \<open>The decoder follows the encoder, symbol by symbol\<close>

text \<open>A stream from which the decoder can go on, and the value that it holds then.\<close>

definition follows :: "enc_pos \<Rightarrow> int \<Rightarrow> int \<Rightarrow> int list \<Rightarrow> bool" where
  "follows st v W S \<longleftrightarrow> words S \<and> nbytes (snd st) + 4 \<le> 2 * length S \<and>
     code_in S (nbytes (snd st)) (code_value st v) W"

definition distance :: "int list \<Rightarrow> enc_pos \<Rightarrow> int \<Rightarrow> int" where
  "distance S st v = bval S (nbytes (snd st) + 4) - code_value st v"

lemma narrow_follows:
  assumes ok: "codable cdf d" and inv: "enc_inv st v W" "16777216 \<le> W"
    and step: "enc_symbol (cdf ! d) (cdf ! (d + 1)) st v W = Some (True, st1, v1, W1)"
  shows "enc_inv st1 v1 W1" "16777216 \<le> W1" "nbytes (snd st) \<le> nbytes (snd st1)"
    and "follows st1 v1 W1 S \<Longrightarrow> follows st v W S"
    and "follows st1 v1 W1 S \<Longrightarrow> dec_at dst (nbytes (snd st)) \<Longrightarrow> hits cdf W (distance S st v) d \<and>
      (\<exists>dst1. dec_narrow S dst (distance S st v) (bnd W (cdf ! d)) (bnd W (cdf ! (d + 1))) =
          Some (dst1, distance S st1 v1, W1) \<and> dec_at dst1 (nbytes (snd st1)))"
proof -
  let ?cdf = cdf and ?m = "nbytes (snd st)" and ?c = "code_value st v"
  define l where "l = bnd W (?cdf ! d) + 1"
  define w where "w = bnd W (?cdf ! (d + 1)) - l"
  define r where "r = shifts w"
  have c: "0 \<le> ?cdf ! d" "?cdf ! d < ?cdf ! (d + 1)" "?cdf ! (d + 1) < 65536"
    using ok by (auto simp: codable_def cdf_table_def)
  have e: "enc_inv st1 v1 W1" "16777216 \<le> W1" "nbytes (snd st1) = ?m + r"
    "code_value st1 v1 = (?c + l) * 256 ^ r" "W1 = w * 256 ^ r"
    using enc_symbol_value [OF inv c] step
    unfolding l_def [symmetric] Let_def w_def [symmetric] r_def [symmetric] by auto
  show "enc_inv st1 v1 W1" "16777216 \<le> W1" "?m \<le> nbytes (snd st1)" using e by simp_all
  have W: "W < 4294967296" using inv by (auto simp: enc_inv_def)
  have b: "0 \<le> bnd W (?cdf ! d)" "bnd W (?cdf ! (d + 1)) \<le> W"
    using inv c bnd_le [of W "?cdf ! (d + 1)"] by (auto simp: pos_imp_zdiv_nonneg_iff)
  have D: "?c + l \<le> bval S (?m + 4)" "bval S (?m + 4) < ?c + l + w" "?m + 4 + r \<le> 2 * length S" "words S"
    if f: "follows st1 v1 W1 S"
    using code_in_back [of S ?m r "?c + l" w] f unfolding follows_def e(3-5) by (auto simp: code_in_def)
  show "follows st v W S" if f: "follows st1 v1 W1 S"
    using D [OF f] b unfolding follows_def code_in_def l_def w_def by linarith
  show "hits ?cdf W (distance S st v) d \<and>
      (\<exists>dst1. dec_narrow S dst (distance S st v) (bnd W (?cdf ! d)) (bnd W (?cdf ! (d + 1))) =
          Some (dst1, distance S st1 v1, W1) \<and> dec_at dst1 (nbytes (snd st1)))"
    if f: "follows st1 v1 W1 S" and dst: "dec_at dst ?m"
  proof -
    have hit: "hits ?cdf W (distance S st v) d"
      using ok W inv D [OF f] unfolding hits_def l_def w_def distance_def by (simp; linarith)
    have "distance S st v < l + w" using D [OF f] by (simp add: distance_def)
    from dec_narrow_value [OF D(4) dst hit inv(2) l_def w_def r_def distance_def this D(3), OF f f]
    show ?thesis using hit unfolding distance_def e(3-5) by blast
  qed
qed

text \<open>The end of a code: every stream that carries it can be followed.\<close>

lemma terminate_follows:
  assumes e: "e = \<lparr>enc_stream = s2, enc_W_upper = W2, enc_streamval = v2, enc_index = p2, enc_full = f2\<rparr>"
    and inv: "enc_inv (s2, p2, f2) v2 W2" "16777216 \<le> W2" and room: "p2 < 199"
  shows "\<exists>n e'. WebRtcIsacfix_EncTerminate e = Some (int n, e') \<and>
    n = nbytes (p2, f2) + (if W2 > 33554431 then 1 else 2) \<and>
    (\<forall>S. carries S n (enc_stream e') \<longrightarrow> follows (s2, p2, f2) v2 W2 S)"
proof -
  let ?m = "nbytes (p2, f2)" and ?k = "if W2 > 33554431 then 1 else 2 :: nat"
  have "enc_inv (enc_stream e, enc_index e, enc_full e) (enc_streamval e) (enc_W_upper e)"
    "16777216 \<le> enc_W_upper e" "enc_index e < 199" using inv room by (simp_all add: e)
  from EncTerminate_value [OF this] obtain len e' where
    len: "WebRtcIsacfix_EncTerminate e = Some (len, e')" "len = int ?m + (if W2 > 33554431 then 1 else 2)"
    and code: "\<And>S. words S \<Longrightarrow> ?m + 4 \<le> 2 * length S \<Longrightarrow>
      take (nat len) (bytes_of S) = take (nat len) (bytes_of (enc_stream e')) \<Longrightarrow>
      code_in S ?m (code_value (s2, p2, f2) v2) W2"
    by (auto simp: e)
  have n: "len = int (?m + ?k)" using len(2) by simp
  then have nn: "nat len = ?m + ?k" by simp
  have "follows (s2, p2, f2) v2 W2 S" if S: "carries S (?m + ?k) (enc_stream e')" for S
  proof -
    have S1: "words S" "?m + 4 \<le> 2 * length S" using S by (auto simp: carries_def split: if_splits)
    then show ?thesis using code [OF S1] S nn by (simp add: follows_def carries_def)
  qed
  then show ?thesis using len(1) unfolding n by blast
qed

text \<open>
  What both decoders do with a symbol they find: they narrow the interval and go on.  \<open>'x\<close> is
  what a decoder carries from symbol to symbol besides.
\<close>

locale symbol_decoder =
  fixes decode :: "int list \<Rightarrow> 'tab list \<Rightarrow> nat \<times> int \<Rightarrow> uint32 \<Rightarrow> uint32 \<Rightarrow> 'x \<Rightarrow> dec_result option"
    and cdf_of :: "'tab \<Rightarrow> int list" and table_ok :: "'tab \<Rightarrow> bool"
  assumes decode_Nil: "decode S [] st D W x = Some ([], st, D, W, 0)"
    and decode_Cons: "table_ok t \<Longrightarrow> hits (cdf_of t) W D d \<Longrightarrow> 0 < W' \<Longrightarrow>
      dec_narrow S st D (bnd W (cdf_of t ! d)) (bnd W (cdf_of t ! (d + 1))) = Some (st', D', W') \<Longrightarrow>
      \<exists>x'. decode S (t # ts) st D W x = map_option (add_symbol (int d)) (decode S ts st' D' W' x')"
begin

definition encodable :: "nat \<times> 'tab \<Rightarrow> bool" where
  "encodable y \<longleftrightarrow> codable (cdf_of (snd y)) (fst y) \<and> table_ok (snd y) \<and> fst y < 32768"

definition for_encoder :: "nat \<times> 'tab \<Rightarrow> int \<times> int list" where
  "for_encoder y = (int (fst y), cdf_of (snd y))"

lemma decode_symbol:
  assumes ok: "encodable (d, t)" and inv: "enc_inv st v W" "16777216 \<le> W"
    and step: "enc_symbol (cdf_of t ! d) (cdf_of t ! (d + 1)) st v W = Some (True, st1, v1, W1)"
  shows "follows st1 v1 W1 S \<Longrightarrow> dec_at dst (nbytes (snd st)) \<Longrightarrow>
      \<exists>dst1 x'. decode S (t # ts) dst (distance S st v) W x =
        map_option (add_symbol (int d)) (decode S ts dst1 (distance S st1 v1) W1 x') \<and>
        dec_at dst1 (nbytes (snd st1))"
proof -
  assume f: "follows st1 v1 W1 S" and dst: "dec_at dst (nbytes (snd st))"
  have c: "codable (cdf_of t) d" "table_ok t" using ok by (simp_all add: encodable_def)
  from narrow_follows(5) [OF c(1) inv step f dst] obtain dst1 where
    hit: "hits (cdf_of t) W (distance S st v) d"
    and d1: "dec_narrow S dst (distance S st v) (bnd W (cdf_of t ! d)) (bnd W (cdf_of t ! (d + 1))) =
      Some (dst1, distance S st1 v1, W1)" "dec_at dst1 (nbytes (snd st1))" by blast
  have "0 < W1" using narrow_follows(2) [OF c(1) inv step] by simp
  from decode_Cons [OF c(2) hit this d1(1), of ts x] d1(2) show ?thesis by blast
qed

lemma encode_decode:
  assumes "\<forall>y\<in>set ys. encodable y" "enc_inv st v W" "16777216 \<le> W"
    and "enc_hist_loop (map for_encoder ys) st v W = Some (True, st2, v2, W2)"
  shows "enc_inv st2 v2 W2 \<and> 16777216 \<le> W2 \<and>
    (follows st2 v2 W2 S \<longrightarrow> follows st v W S \<and>
      (\<forall>dst x. dec_at dst (nbytes (snd st)) \<longrightarrow>
       (\<exists>dst2. decode S (map snd ys) dst (distance S st v) W x =
          Some (map (int \<circ> fst) ys, dst2, distance S st2 v2, W2, 0) \<and>
          dec_at dst2 (nbytes (snd st2)))))"
  using assms
proof (induction ys arbitrary: st v W)
  case Nil
  then show ?case by (simp add: decode_Nil)
next
  case (Cons y ys)
  obtain d t where y: "y = (d, t)" by (cases y)
  have ok: "encodable (d, t)" and oks: "\<forall>y\<in>set ys. encodable y" using Cons.prems(1) by (simp_all add: y)
  from ok have len: "d + 1 < length (cdf_of t)" "s16 (int d) = int d" by (simp_all add: encodable_def codable_def)
  have fe: "for_encoder y = (int d, cdf_of t)" "nat (int d) + 1 = d + 1" by (simp_all add: for_encoder_def y)
  obtain st1 v1 W1 where step: "enc_symbol (cdf_of t ! d) (cdf_of t ! (d + 1)) st v W = Some (True, st1, v1, W1)"
    and rest: "enc_hist_loop (map for_encoder ys) st1 v1 W1 = Some (True, st2, v2, W2)"
    using Cons.prems(4) len by (auto simp: fe word_at_def split: option.splits if_splits)
  have cod: "codable (cdf_of t) d" using ok by (simp add: encodable_def)
  note sym = narrow_follows [OF cod Cons.prems(2,3) step] and dec = decode_symbol [OF ok Cons.prems(2,3) step]
  note ih = Cons.IH [OF oks sym(1,2) rest]
  show ?case
  proof (intro conjI impI allI)
    show "enc_inv st2 v2 W2" "16777216 \<le> W2" using ih by simp_all
    assume f: "follows st2 v2 W2 S"
    with ih have f1: "follows st1 v1 W1 S" by blast
    then show "follows st v W S" by (rule sym(4))
    fix dst x
    assume "dec_at dst (nbytes (snd st))"
    from dec [OF f1 this, of "map snd ys" x] obtain dst1 x' where
      1: "decode S (t # map snd ys) dst (distance S st v) W x =
        map_option (add_symbol (int d)) (decode S (map snd ys) dst1 (distance S st1 v1) W1 x')"
      "dec_at dst1 (nbytes (snd st1))" by blast
    with ih f obtain dst2 where "decode S (map snd ys) dst1 (distance S st1 v1) W1 x' =
        Some (map (int \<circ> fst) ys, dst2, distance S st2 v2, W2, 0)" "dec_at dst2 (nbytes (snd st2))" by blast
    with 1(1) len(2) show "\<exists>dst2. decode S (map snd (y # ys)) dst (distance S st v) W x =
          Some (map (int \<circ> fst) (y # ys), dst2, distance S st2 v2, W2, 0) \<and> dec_at dst2 (nbytes (snd st2))"
      by (simp add: y add_symbol_def)
  qed
qed

lemma encode_terminate_decode:
  assumes s: "words s" "length s = 200" and ys: "\<forall>y\<in>set ys. encodable y"
    and enc: "WebRtcIsacfix_EncHistMulti (new_encoder s) (map for_encoder ys) = Some (0, e)"
    and room: "enc_index e < 199"
  shows "\<exists>n e'. WebRtcIsacfix_EncTerminate e = Some (int n, e') \<and>
    (\<forall>S x. carries S n (enc_stream e') \<longrightarrow> dec_start (new_decoder S) = Some ((2, 1), bval S 4) \<and>
       (\<exists>st D W. decode S (map snd ys) (2, 1) (bval S 4) 0xFFFFFFFF x = Some (map (int \<circ> fst) ys, st, D, W, 0) \<and>
          fst (dec_finish (new_decoder S) st D W) = int n))"
proof -
  obtain s2 p2 f2 v2 W2 where loop: "enc_hist_loop (map for_encoder ys) (s, 0, 1) 0 0xFFFFFFFF = Some (True, (s2, p2, f2), v2, W2)"
    and e: "e = \<lparr>enc_stream = s2, enc_W_upper = W2, enc_streamval = v2, enc_index = p2, enc_full = f2\<rparr>"
    using enc by (auto simp: WebRtcIsacfix_EncHistMulti_def new_encoder_def Let_def split: option.splits if_splits)
  have inv: "enc_inv (s, 0, 1) 0 0xFFFFFFFF"
    using s by (simp add: enc_inv_def enc_ok_def code_value_def enc_value_eq nbytes_def)
  note follow = encode_decode [OF ys inv _ loop]
  let ?m = "nbytes (p2, f2)"
  have "enc_inv (s2, p2, f2) v2 W2" "16777216 \<le> W2" "p2 < 199" using follow room by (simp_all add: e)
  from terminate_follows [OF e this] obtain n e' where n: "WebRtcIsacfix_EncTerminate e = Some (int n, e')"
      "n = ?m + (if W2 > 33554431 then 1 else 2)" "\<And>S. carries S n (enc_stream e') \<Longrightarrow> follows (s2, p2, f2) v2 W2 S"
    by blast
  have m: "?m \<le> 399" using room by (simp add: e nbytes_def)
  have at: "dec_at (2, 1) (nbytes (snd (s, 0, 1)))" by (simp add: dec_at_def nbytes_def)
  show ?thesis
  proof (intro exI [of _ n] exI [of _ e'] conjI allI impI)
    show "WebRtcIsacfix_EncTerminate e = Some (int n, e')" by (rule n(1))
    fix S x assume S: "carries S n (enc_stream e')"
    then show "dec_start (new_decoder S) = Some ((2, 1), bval S 4)"
      using n(2) by (intro dec_start_new) (auto simp: carries_def split: if_splits)
    have "follows (s2, p2, f2) v2 W2 S" by (rule n(3) [OF S])
    with follow at obtain dst2 where "decode S (map snd ys) (2, 1) (distance S (s, 0, 1) 0) 0xFFFFFFFF x =
      Some (map (int \<circ> fst) ys, dst2, distance S (s2, p2, f2) v2, W2, 0)" "dec_at dst2 ?m"
      by fastforce
    moreover have "distance S (s, 0, 1) 0 = bval S 4"
      by (simp add: distance_def nbytes_def code_value_def enc_value_eq)
    ultimately show "\<exists>st D W. decode S (map snd ys) (2, 1) (bval S 4) 0xFFFFFFFF x = Some (map (int \<circ> fst) ys, st, D, W, 0) \<and>
          fst (dec_finish (new_decoder S) st D W) = int n"
      using dec_finish_length [OF _ m] n(2) by fastforce
  qed
qed

end

interpretation one_step: symbol_decoder
  "\<lambda>S tabs st D W (_ :: unit). dec_one_step_loop S tabs st D W" snd "\<lambda>t. fst t < length (snd t)"
proof
  fix t :: "nat \<times> int list" and W D d W' S st st' D' and ts :: "(nat \<times> int list) list" and x :: unit
  assume "fst t < length (snd t)" "hits (snd t) W D d"
    "dec_narrow S st D (bnd W (snd t ! d)) (bnd W (snd t ! (d + 1))) = Some (st', D', W')"
  then show "\<exists>x' :: unit. dec_one_step_loop S (t # ts) st D W =
      map_option (add_symbol (int d)) (dec_one_step_loop S ts st' D' W')"
    using search_one_step_finds [of "snd t" W D d "fst t"] by (cases t) simp
qed simp

interpretation bisection: symbol_decoder dec_bisect_loop snd
  "\<lambda>t. \<exists>k. fst t = 2 ^ Suc k \<and> length (snd t) = 2 ^ Suc k - 1"
proof
  fix t :: "nat \<times> int list" and W D d W' S st st' D' and ts :: "(nat \<times> int list) list" and x
  assume a: "\<exists>k. fst t = 2 ^ Suc k \<and> length (snd t) = 2 ^ Suc k - 1" "hits (snd t) W D d" "0 < W'"
    "dec_narrow S st D (bnd W (snd t ! d)) (bnd W (snd t ! (d + 1))) = Some (st', D', W')"
  then obtain k where k: "fst t = 2 ^ Suc k" "length (snd t) = 2 ^ Suc k - 1" by blast
  show "\<exists>x'. dec_bisect_loop S (t # ts) st D W x =
      map_option (add_symbol (int d)) (dec_bisect_loop S ts st' D' W' x')"
    using bisect_symbol [OF a(2) k(2), of x W] a(3,4) k(1) by (cases t) (auto simp del: power_Suc)
qed simp


section \<open>The round trip\<close>

text \<open>
  C14: Symbols coded by \<open>EncHistMulti\<close> and \<open>EncTerminate\<close> are read back by \<open>DecHistOneStepMulti\<close>
  from every stream that starts with the \<open>n\<close> bytes of the code, and the decoder returns their
  number.  \<open>ys\<close> lists the symbols with their initial table index and table.
\<close>

theorem Isac_one_step_lossless:
  assumes "words s" "length s = 200"
    and "\<forall>(d, init, cdf)\<in>set ys. codable cdf d \<and> init < length cdf \<and> d < 32768"
    and "WebRtcIsacfix_EncHistMulti (new_encoder s) (map (\<lambda>(d, init, cdf). (int d, cdf)) ys) = Some (0, e)"
    and "enc_index e < 199"
  shows "\<exists>n e'. WebRtcIsacfix_EncTerminate e = Some (int n, e') \<and>
    (\<forall>S. carries S n (enc_stream e') \<longrightarrow>
      (\<exists>d. WebRtcIsacfix_DecHistOneStepMulti (new_decoder S) (map snd ys) = Some (map (int \<circ> fst) ys, int n, d)))"
proof -
  have map: "map (\<lambda>(d, init, cdf). (int d, cdf)) ys = map one_step.for_encoder ys"
    by (auto simp: one_step.for_encoder_def)
  have "\<forall>y\<in>set ys. one_step.encodable y" using assms(3) by (auto simp: one_step.encodable_def)
  from one_step.encode_terminate_decode [OF assms(1,2) this assms(4) [unfolded map] assms(5)]
  obtain n e' where "WebRtcIsacfix_EncTerminate e = Some (int n, e')"
    and dec: "\<And>S. carries S n (enc_stream e') \<Longrightarrow> dec_start (new_decoder S) = Some ((2, 1), bval S 4) \<and>
       (\<exists>st D W. dec_one_step_loop S (map snd ys) (2, 1) (bval S 4) 0xFFFFFFFF = Some (map (int \<circ> fst) ys, st, D, W, 0) \<and>
          fst (dec_finish (new_decoder S) st D W) = int n)" by blast
  moreover have "\<exists>d. WebRtcIsacfix_DecHistOneStepMulti (new_decoder S) (map snd ys) = Some (map (int \<circ> fst) ys, int n, d)"
    if "carries S n (enc_stream e')" for S
    using dec [OF that] by (auto simp: WebRtcIsacfix_DecHistOneStepMulti_def dec_return_def new_decoder_def prod_eq_iff)
  ultimately show ?thesis by blast
qed

text \<open>C15: The same with bisection, for tables of \<open>cdfSize - 1\<close> entries and \<open>cdfSize\<close> a power of two.\<close>

theorem Isac_bisection_lossless:
  assumes "words s" "length s = 200"
    and "\<forall>(d, n, cdf)\<in>set ys. codable cdf d \<and> (\<exists>k. n = 2 ^ Suc k \<and> length cdf = 2 ^ Suc k - 1) \<and> d < 32768"
    and "WebRtcIsacfix_EncHistMulti (new_encoder s) (map (\<lambda>(d, n, cdf). (int d, cdf)) ys) = Some (0, e)"
    and "enc_index e < 199"
  shows "\<exists>n e'. WebRtcIsacfix_EncTerminate e = Some (int n, e') \<and>
    (\<forall>S. carries S n (enc_stream e') \<longrightarrow>
      (\<exists>d. WebRtcIsacfix_DecHistBisectMulti (new_decoder S) (map snd ys) = Some (map (int \<circ> fst) ys, int n, d)))"
proof -
  have map: "map (\<lambda>(d, n, cdf). (int d, cdf)) ys = map bisection.for_encoder ys"
    by (auto simp: bisection.for_encoder_def)
  have "\<forall>y\<in>set ys. bisection.encodable y" using assms(3) by (auto simp: bisection.encodable_def simp del: power_Suc One_nat_def)
  from bisection.encode_terminate_decode [OF assms(1,2) this assms(4) [unfolded map] assms(5)]
  obtain n e' where "WebRtcIsacfix_EncTerminate e = Some (int n, e')"
    and dec: "\<And>S. carries S n (enc_stream e') \<Longrightarrow> dec_start (new_decoder S) = Some ((2, 1), bval S 4) \<and>
       (\<exists>st D W. dec_bisect_loop S (map snd ys) (2, 1) (bval S 4) 0xFFFFFFFF 0 = Some (map (int \<circ> fst) ys, st, D, W, 0) \<and>
          fst (dec_finish (new_decoder S) st D W) = int n)" by blast
  moreover have "\<exists>d. WebRtcIsacfix_DecHistBisectMulti (new_decoder S) (map snd ys) = Some (map (int \<circ> fst) ys, int n, d)"
    if "carries S n (enc_stream e')" for S
    using dec [OF that] by (auto simp: WebRtcIsacfix_DecHistBisectMulti_def dec_return_def new_decoder_def prod_eq_iff)
  ultimately show ?thesis by blast
qed

section \<open>Examples\<close>

lemma Isac_example_table: "codable [0, 20000, 20001, 65535] d \<longleftrightarrow> d < 3"
proof -
  have "cdf_table [0, 20000, 20001, 65535]" by (auto simp: cdf_table_def)
  then show ?thesis by (auto simp: codable_def nth_Cons' less_Suc_eq)
qed

lemma Isac_example_bisection: "codable [0, 30000, 65535] d \<longleftrightarrow> d < 2"
proof -
  have "cdf_table [0, 30000, 65535]" by (auto simp: cdf_table_def)
  then show ?thesis by (auto simp: codable_def nth_Cons' less_Suc_eq)
qed

lemma Isac_example_encoded:
  "map_option (\<lambda>(r, e). (r, enc_index e)) (WebRtcIsacfix_EncHistMulti (new_encoder (replicate 200 0))
     (map (\<lambda>(d, init, cdf). (int d, cdf)) [(1 :: nat, 0 :: nat, [0, 20000, 20001, 65535]), (2, 3, [0, 20000, 20001, 65535])])) = Some (0, 1)"
  by code_simp

lemma Isac_example_bisected:
  "map_option (\<lambda>(r, e). (r, enc_index e)) (WebRtcIsacfix_EncHistMulti (new_encoder (replicate 200 0))
     (map (\<lambda>(d, init, cdf). (int d, cdf)) [(1 :: nat, 4 :: nat, [0, 30000, 65535]), (0, 4, [0, 30000, 65535])])) = Some (0, 0)"
  by code_simp

theorem Isac_one_step_lossless_witness:
  "\<exists>e n e'. WebRtcIsacfix_EncHistMulti (new_encoder (replicate 200 0)) [(1, [0, 20000, 20001, 65535]), (2, [0, 20000, 20001, 65535])] = Some (0, e) \<and>
    WebRtcIsacfix_EncTerminate e = Some (int n, e') \<and>
    (\<forall>S. carries S n (enc_stream e') \<longrightarrow>
      (\<exists>d. WebRtcIsacfix_DecHistOneStepMulti (new_decoder S) [(0, [0, 20000, 20001, 65535]), (3, [0, 20000, 20001, 65535])] = Some ([1, 2], int n, d)))"
proof -
  let ?ys = "[(1 :: nat, 0 :: nat, [0, 20000, 20001, 65535 :: int]), (2, 3, [0, 20000, 20001, 65535])]"
  obtain e where e: "WebRtcIsacfix_EncHistMulti (new_encoder (replicate 200 0)) (map (\<lambda>(d, init, cdf). (int d, cdf)) ?ys) = Some (0, e)"
    "enc_index e = 1" using Isac_example_encoded by (auto simp del: list.map)
  have "\<exists>n e'. WebRtcIsacfix_EncTerminate e = Some (int n, e') \<and>
    (\<forall>S. carries S n (enc_stream e') \<longrightarrow>
      (\<exists>d. WebRtcIsacfix_DecHistOneStepMulti (new_decoder S) (map snd ?ys) = Some (map (int \<circ> fst) ?ys, int n, d)))"
    by (rule Isac_one_step_lossless [OF _ _ _ e(1)]) (simp_all add: words_def Isac_example_table e(2))
  then show ?thesis using e(1) by auto
qed

theorem Isac_bisection_lossless_witness:
  "\<exists>e n e'. WebRtcIsacfix_EncHistMulti (new_encoder (replicate 200 0)) [(1, [0, 30000, 65535]), (0, [0, 30000, 65535])] = Some (0, e) \<and>
    WebRtcIsacfix_EncTerminate e = Some (int n, e') \<and>
    (\<forall>S. carries S n (enc_stream e') \<longrightarrow>
      (\<exists>d. WebRtcIsacfix_DecHistBisectMulti (new_decoder S) [(4, [0, 30000, 65535]), (4, [0, 30000, 65535])] = Some ([1, 0], int n, d)))"
proof -
  let ?ys = "[(1 :: nat, 4 :: nat, [0, 30000, 65535 :: int]), (0, 4, [0, 30000, 65535])]"
  obtain e where e: "WebRtcIsacfix_EncHistMulti (new_encoder (replicate 200 0)) (map (\<lambda>(d, n, cdf). (int d, cdf)) ?ys) = Some (0, e)"
    "enc_index e = 0" using Isac_example_bisected by (auto simp del: list.map)
  have size: "\<exists>k. (4::nat) = 2 ^ Suc k \<and> Suc (Suc (Suc 0)) = 2 ^ Suc k - (1::nat)" by (rule exI [of _ 1]) simp
  have "\<exists>n e'. WebRtcIsacfix_EncTerminate e = Some (int n, e') \<and>
    (\<forall>S. carries S n (enc_stream e') \<longrightarrow>
      (\<exists>d. WebRtcIsacfix_DecHistBisectMulti (new_decoder S) (map snd ?ys) = Some (map (int \<circ> fst) ?ys, int n, d)))"
    by (rule Isac_bisection_lossless [OF _ _ _ e(1)])
      (use size in \<open>simp_all add: words_def Isac_example_bisection e(2) del: power_Suc\<close>)
  then show ?thesis using e(1) by auto
qed

section \<open>Full streams\<close>

text \<open>
  C19: The encoder never leaves its stream: a call returns 0, or the error when the stream is full.
\<close>

theorem EncHistMulti_in_bounds:
  assumes "enc_inv (enc_stream e, enc_index e, enc_full e) (enc_streamval e) (enc_W_upper e)" "16777216 \<le> enc_W_upper e"
    and "\<forall>(d, cdf)\<in>set syms. 0 \<le> d \<and> codable cdf (nat d)"
  shows "\<exists>r e'. WebRtcIsacfix_EncHistMulti e syms = Some (r, e') \<and> (r = 0 \<or> r = - 6440)"
proof -
  have "\<exists>ok st' v' W'. enc_hist_loop syms st v W = Some (ok, st', v', W')"
    if "enc_inv st v W" "16777216 \<le> W" "\<forall>(d, cdf)\<in>set syms. 0 \<le> d \<and> codable cdf (nat d)" for st v W
    using that
  proof (induction syms arbitrary: st v W)
    case (Cons y syms)
    obtain d cdf where y: "y = (d, cdf)" by (cases y)
    have c: "0 \<le> d" "0 \<le> cdf ! nat d" "cdf ! nat d < cdf ! (nat d + 1)" "cdf ! (nat d + 1) < 65536" "nat d + 1 < length cdf"
      using Cons.prems(3) by (auto simp: codable_def cdf_table_def y)
    obtain ok st' v' W' where step: "enc_symbol (cdf ! nat d) (cdf ! (nat d + 1)) st v W = Some (ok, st', v', W')"
      "ok \<longrightarrow> enc_inv st' v' W' \<and> 16777216 \<le> W'"
      using enc_symbol_value [OF Cons.prems(1,2) c(2-4)] by (auto simp: Let_def)
    then have "ok \<Longrightarrow> \<exists>ok st2 v2 W2. enc_hist_loop syms st' v' W' = Some (ok, st2, v2, W2)"
      using Cons.IH Cons.prems(3) by simp
    then show ?case using step(1) c by (cases ok; cases st') (auto simp: y word_at_def)
  qed (auto intro: prod_cases3)
  from this [OF assms] show ?thesis by (auto simp: WebRtcIsacfix_EncHistMulti_def Let_def)
qed

theorem EncHistMulti_in_bounds_witness:
  "\<exists>r e'. WebRtcIsacfix_EncHistMulti (new_encoder (replicate 200 0)) (replicate 4000 (1, [0, 20000, 20001, 65535])) = Some (r, e') \<and> (r = 0 \<or> r = - 6440)"
  by (rule EncHistMulti_in_bounds)
    (simp_all add: new_encoder_def enc_inv_def enc_ok_def words_def code_value_def enc_value_eq nbytes_def Isac_example_table)

text \<open>
  C20: The termination does: when the last word of the stream is half full and two bytes are left
  to write, the second goes to the word after the stream.
\<close>

theorem EncTerminate_overflow:
  assumes "length (enc_stream e) = 200" "enc_index e = 199" "enc_full e = 0"
    and "0 \<le> enc_W_upper e" "enc_W_upper e \<le> 33554431"
  shows "WebRtcIsacfix_EncTerminate e = None"
proof -
  have "terminate_two v (s, 199, 0) = None" if "length s = 200" for v s
    using that by (simp add: terminate_two_def word_at_def put_word_def)
  moreover have "length s' = 200" if "propagate_carry 0 199 s = Some s'" "length s = 200" for s s'
  proof -
    have "carry_back p u = Some u' \<Longrightarrow> length u' = length u" for p u u'
      by (induction p arbitrary: u) (auto simp: word_at_def put_word_def Let_def split: if_splits)
    then show ?thesis using that
      by (auto simp: propagate_carry_def word_at_def put_word_def Let_def split: if_splits)
  qed
  ultimately show ?thesis using assms
    by (auto simp: WebRtcIsacfix_EncTerminate_def Let_def split: Option.bind_split)
qed

theorem EncTerminate_overflow_witness:
  "WebRtcIsacfix_EncTerminate \<lparr>enc_stream = replicate 200 256, enc_W_upper = 16777216, enc_streamval = 5, enc_index = 199, enc_full = 0\<rparr> = None"
  by (rule EncTerminate_overflow) simp_all

text \<open>
  The decoders test for a width of zero after the renormalisation only.  The renormalisation
  does not end for a width of zero: it reads on to the end of the stream and past it.
\<close>

theorem dec_renorm_zero_width: "dec_renorm S st streamval 0 = None"
proof (induction "2 * (length S - fst st) + (if snd st = 0 then 0 else 1 :: nat)" arbitrary: st streamval rule: less_induct)
  case less
  show ?case
  proof (cases "get_byte S st")
    case (Some y)
    obtain b p full where y: "y = (b, p, full)" by (cases y)
    obtain p0 full0 where st: "st = (p0, full0)" by (cases st)
    from get_byte_progress [of S p0 full0 b p full] Some y st
    have "2 * (length S - p) + (if full = 0 then 0 else 1) < 2 * (length S - p0) + (if full0 = 0 then 0 else 1 :: nat)"
      by (auto split: if_splits)
    then have "dec_renorm S (p, full) x 0 = None" for x using less [of "(p, full)"] st by simp
    then show ?thesis using Some y by (subst dec_renorm.simps) simp
  qed (subst dec_renorm.simps, simp)
qed

end
