(* ===== verification/IsacLogistic.thy ===== *)
theory IsacLogistic
  imports IsacLogist IsacRoundTrip
begin

text \<open>
  The logistic coder of \<open>IsacLogist\<close> is correct: its distribution function is monotone, the
  encoder's clipping ends with a sample of the same residue that can be told from its
  neighbours, and the decoder finds every such sample again, reading zeros behind the last word.
\<close>

section \<open>The distribution function\<close>

definition seg :: "int \<Rightarrow> nat" where
  "seg x = nat (5 * (x + 327680) div 65536)"

definition ramp :: "int \<Rightarrow> nat \<Rightarrow> int" where
  "ramp x i = kCdfLogistic ! i + (x - kHistEdges ! i) * kCdfSlope ! i div 32768"

lemma table_lengths: "length kHistEdges = 51" "length kCdfSlope = 51" "length kCdfLogistic = 51"
  by (simp_all add: kHistEdges_def kCdfSlope_def kCdfLogistic_def)

lemma edge_ends: "kHistEdges ! 0 = - 327680" "kHistEdges ! 50 = 327680"
  by (simp_all add: kHistEdges_def)

text \<open>The edges are where the index changes, and a ramp ends below the start of the next.\<close>

lemma edge_table:
  "list_all (\<lambda>i. 5 * (kHistEdges ! i + 327680) < 65536 * int i + 5 \<and> 65536 * int i \<le> 5 * (kHistEdges ! i + 327680) + 5 \<and>
     0 \<le> kCdfSlope ! i \<and> kCdfSlope ! i < 65536 \<and> 0 \<le> kCdfLogistic ! i \<and> kCdfLogistic ! i < 65536) [0..<51]"
  by code_simp

lemma ramp_table:
  "list_all (\<lambda>i. kHistEdges ! i \<le> kHistEdges ! Suc i \<and>
     ramp (kHistEdges ! Suc i) i \<le> kCdfLogistic ! Suc i) [0..<50]"
  by code_simp

lemma edge_facts:
  assumes "i \<le> 50"
  shows "5 * (kHistEdges ! i + 327680) < 65536 * int i + 5" "65536 * int i \<le> 5 * (kHistEdges ! i + 327680) + 5"
    "0 \<le> kCdfSlope ! i" "kCdfSlope ! i < 65536" "0 \<le> kCdfLogistic ! i" "kCdfLogistic ! i < 65536"
proof -
  have "i \<in> set [0..<51]" using assms by simp
  from bspec [OF edge_table [unfolded list_all_iff] this]
  show "5 * (kHistEdges ! i + 327680) < 65536 * int i + 5" "65536 * int i \<le> 5 * (kHistEdges ! i + 327680) + 5"
    "0 \<le> kCdfSlope ! i" "kCdfSlope ! i < 65536" "0 \<le> kCdfLogistic ! i" "kCdfLogistic ! i < 65536" by blast+
qed

lemma edge_below: "5 * (e + c) < w + (5::int) \<Longrightarrow> w \<le> 5 * (x + c) \<Longrightarrow> e \<le> x"
  by (simp add: distrib_left)

lemma edge_above: "w \<le> 5 * (e + c) + (5::int) \<Longrightarrow> 5 * (x + c) < w \<Longrightarrow> x \<le> e"
  by (simp add: distrib_left)

lemma seg_floor:
  assumes "- 327680 \<le> x"
  shows "65536 * int (seg x) \<le> 5 * (x + 327680)" "5 * (x + 327680) < 65536 * int (seg x) + 65536"
proof -
  define w where "w = 5 * (x + 327680)"
  have "int (seg x) = w div 65536" using assms by (simp add: seg_def w_def)
  then show "65536 * int (seg x) \<le> w" "w < 65536 * int (seg x) + 65536" by linarith+
qed

lemma seg_top: "65536 * i \<le> 5 * (x + 327680) \<Longrightarrow> x \<le> 327680 \<Longrightarrow> i \<le> (50::int)"
  by (simp add: distrib_left)

lemma seg_bounds:
  assumes "- 327680 \<le> x" "x \<le> 327680"
  shows "seg x \<le> 50" "kHistEdges ! seg x \<le> x" "seg x < 50 \<Longrightarrow> x \<le> kHistEdges ! Suc (seg x)"
proof -
  note f = seg_floor [OF assms(1)]
  show 50: "seg x \<le> 50" using seg_top [OF f(1) assms(2)] by simp
  show "kHistEdges ! seg x \<le> x" by (rule edge_below [OF edge_facts(1) [OF 50] f(1)])
  show "x \<le> kHistEdges ! Suc (seg x)" if "seg x < 50"
  proof (rule edge_above [OF edge_facts(2)])
    show "Suc (seg x) \<le> 50" using that by simp
    show "5 * (x + 327680) < 65536 * int (Suc (seg x))" using f(2) by simp
  qed
qed

lemma ramp_mono: "i \<le> 50 \<Longrightarrow> x \<le> y \<Longrightarrow> ramp x i \<le> ramp y i"
  using edge_facts(3) [of i] by (simp add: ramp_def zdiv_mono1 mult_right_mono)

lemma ramp_start: "ramp (kHistEdges ! i) i = kCdfLogistic ! i"
  by (simp add: ramp_def)

lemma logistic_step: "i < 50 \<Longrightarrow> kHistEdges ! i \<le> kHistEdges ! Suc i \<and> ramp (kHistEdges ! Suc i) i \<le> kCdfLogistic ! Suc i"
  using bspec [OF ramp_table [unfolded list_all_iff], of i] by simp

lemma logistic_mono: "j \<le> 50 \<Longrightarrow> i \<le> j \<Longrightarrow> kCdfLogistic ! i \<le> kCdfLogistic ! j"
proof (induction j)
  case (Suc j)
  show ?case
  proof (cases "i = Suc j")
    case False
    then have "kCdfLogistic ! i \<le> kCdfLogistic ! j" using Suc by simp
    also have "\<dots> \<le> ramp (kHistEdges ! Suc j) j"
      using ramp_mono [of j "kHistEdges ! j" "kHistEdges ! Suc j"] logistic_step [of j] Suc.prems by (simp add: ramp_start)
    also have "\<dots> \<le> kCdfLogistic ! Suc j" using logistic_step [of j] Suc.prems by simp
    finally show ?thesis .
  qed simp
qed simp

lemma ramp_range:
  assumes "- 327680 \<le> x" "x \<le> 327680"
  shows "kCdfLogistic ! seg x \<le> ramp x (seg x)" "seg x < 50 \<Longrightarrow> ramp x (seg x) \<le> kCdfLogistic ! Suc (seg x)"
    "0 \<le> ramp x (seg x)" "ramp x (seg x) < 65536"
proof -
  note b = seg_bounds [OF assms]
  show lo: "kCdfLogistic ! seg x \<le> ramp x (seg x)" using ramp_mono [OF b(1,2)] by (simp add: ramp_start)
  show hi: "ramp x (seg x) \<le> kCdfLogistic ! Suc (seg x)" if "seg x < 50"
    using ramp_mono [OF b(1) b(3) [OF that]] logistic_step [OF that] by linarith
  show "0 \<le> ramp x (seg x)" using lo edge_facts(5) [OF b(1)] by linarith
  show "ramp x (seg x) < 65536"
  proof (cases "seg x < 50")
    case True
    then show ?thesis using hi [OF True] edge_facts(6) [of "Suc (seg x)"] by simp
  next
    case False
    then have "seg x = 50" using b(1) by simp
    moreover have "kCdfSlope ! 50 = 0" "kCdfLogistic ! 50 = 65535" by (simp_all add: kCdfSlope_def kCdfLogistic_def)
    ultimately show ?thesis by (simp add: ramp_def)
  qed
qed

definition clamp15 :: "int \<Rightarrow> int" where
  "clamp15 x = max (- 327680) (min 327680 x)"

lemma clamp15_range: "- 327680 \<le> clamp15 x" "clamp15 x \<le> 327680"
  by (auto simp: clamp15_def)

lemma Piecewise_eq: "WebRtcIsacfix_Piecewise x = ramp (clamp15 x) (seg (clamp15 x))"
proof -
  define q where "q = clamp15 x"
  note r = clamp15_range [of x, folded q_def]
  note b = seg_bounds [OF r] and v = ramp_range [OF r]
  have sat: "SPL_SAT (kHistEdges ! 50) x (kHistEdges ! 0) = q"
    by (auto simp: SPL_SAT_def edge_ends q_def clamp15_def)
  have "s32 (5 * (q - kHistEdges ! 0)) = 5 * (q + 327680)" using r by (simp add: edge_ends)
  then have i: "nat (shr (s32 (5 * (q - kHistEdges ! 0))) 16) = seg q" by (simp add: seg_def)
  define t where "t = q - kHistEdges ! seg q"
  have t: "0 \<le> t" "t < 65536" using b edge_facts(1,2) [OF b(1)] r
    unfolding t_def by (simp, cases "seg q < 50") (use edge_facts(1) [of "Suc (seg q)"] edge_facts(2) [OF b(1)] r in simp_all)
  have sl: "0 \<le> kCdfSlope ! seg q" "kCdfSlope ! seg q < 65536" using edge_facts [OF b(1)] by simp_all
  have "t * kCdfSlope ! seg q \<le> 65535 * 65535" using t sl by (intro mult_mono) simp_all
  then have p: "u32 (u32 t * kCdfSlope ! seg q) = t * kCdfSlope ! seg q" using t sl by simp
  have e: "ramp q (seg q) = kCdfLogistic ! seg q + t * kCdfSlope ! seg q div 32768" by (simp add: ramp_def t_def)
  have "0 \<le> t * kCdfSlope ! seg q div 32768" using t sl by (simp add: pos_imp_zdiv_nonneg_iff)
  moreover have "t * kCdfSlope ! seg q div 32768 < 65536" using v(4) e edge_facts(5) [OF b(1)] by simp
  ultimately have "u16 (t * kCdfSlope ! seg q div 32768) = t * kCdfSlope ! seg q div 32768" by (simp add: u16_def)
  moreover have "u16 (ramp q (seg q)) = ramp q (seg q)" using v(3,4) by (simp add: u16_def)
  ultimately show ?thesis
    unfolding WebRtcIsacfix_Piecewise_def Let_def sat i t_def [symmetric] p q_def [symmetric] using e by simp
qed

lemma Piecewise_range: "0 \<le> WebRtcIsacfix_Piecewise x \<and> WebRtcIsacfix_Piecewise x < 65536"
  using ramp_range [OF clamp15_range, of x] by (simp add: Piecewise_eq)

lemma Piecewise_mono:
  assumes "x \<le> y"
  shows "WebRtcIsacfix_Piecewise x \<le> WebRtcIsacfix_Piecewise y"
proof -
  define a b where "a = clamp15 x" and "b = clamp15 y"
  have ab: "a \<le> b" using assms by (auto simp: a_def b_def clamp15_def)
  note ra = clamp15_range [of x, folded a_def] and rb = clamp15_range [of y, folded b_def]
  have s: "seg a \<le> seg b" using ab unfolding seg_def by (intro nat_mono zdiv_mono1) simp_all
  have "ramp a (seg a) \<le> ramp b (seg b)"
  proof (cases "seg a = seg b")
    case True
    then show ?thesis using ramp_mono [OF seg_bounds(1) [OF rb] ab] by simp
  next
    case False
    then have l: "seg a < seg b" using s by simp
    then have "ramp a (seg a) \<le> kCdfLogistic ! Suc (seg a)" using ramp_range(2) [OF ra] seg_bounds(1) [OF rb] by simp
    also have "\<dots> \<le> kCdfLogistic ! seg b" using l by (intro logistic_mono seg_bounds(1) [OF rb]) simp
    also have "\<dots> \<le> ramp b (seg b)" by (rule ramp_range(1) [OF rb])
    finally show ?thesis .
  qed
  then show ?thesis by (simp add: Piecewise_eq a_def b_def)
qed

section \<open>Clipping\<close>

definition logistic :: "int \<Rightarrow> int \<Rightarrow> int" where
  "logistic e c = WebRtcIsacfix_Piecewise (c * e)"

lemma logistic_range: "0 \<le> logistic e c" "logistic e c < 65536"
  using Piecewise_range [of "c * e"] by (simp_all add: logistic_def)

lemma logistic_rises: "0 \<le> e \<Longrightarrow> a \<le> b \<Longrightarrow> logistic e a \<le> logistic e b"
  unfolding logistic_def by (intro Piecewise_mono mult_right_mono)

lemma product_fits:
  assumes "- 32768 \<le> c" "c < 32768" "0 \<le> e" "e < 65536"
  shows "MUL_16_U16 c e = c * e"
proof -
  have "- 32768 * 65535 \<le> c * e" using mult_mono [of "- c" 32768 e 65535] mult_nonneg_nonneg [of c e] assms by (cases "c \<le> 0") auto
  moreover have "c * e \<le> 32767 * 65535" using mult_mono [of c 32767 e 65535] mult_nonpos_nonneg [of c e] assms by (cases "0 \<le> c") auto
  ultimately show ?thesis using assms by (simp add: MUL_16_U16_def u16_def)
qed

lemma cdf_logistic:
  assumes "- 32704 \<le> d" "d < 32704" "0 \<le> e" "e < 65536"
  shows "cdf_below d e = logistic e (d - 64)" "cdf_above d e = logistic e (d + 64)"
  using assms by (simp_all add: cdf_below_def cdf_above_def logistic_def product_fits)

text \<open>A sample whose interval is wide enough to be coded.\<close>

definition wide :: "int \<Rightarrow> int \<Rightarrow> bool" where
  "wide e d \<longleftrightarrow> logistic e (d - 64) + 2 \<le> logistic e (d + 64)"

definition clip :: "int \<Rightarrow> int \<Rightarrow> (int \<times> int \<times> int) option" where
  "clip e d = clip_sample e d (logistic e (d - 64)) (logistic e (d + 64))"

lemma clip_step:
  assumes "0 \<le> e" "e < 65536" "- 32000 \<le> d" "d \<le> 32000"
  shows "wide e d \<Longrightarrow> clip e d = Some (d, logistic e (d - 64), logistic e (d + 64))"
    and "\<not> wide e d \<Longrightarrow> 0 < d \<Longrightarrow> clip e d = clip e (d - 128)"
    and "\<not> wide e d \<Longrightarrow> d \<le> 0 \<Longrightarrow> clip e d = clip e (d + 128)"
proof -
  show "clip e d = Some (d, logistic e (d - 64), logistic e (d + 64))" if "wide e d"
    using that unfolding clip_def wide_def by (subst clip_sample.simps) simp
  show "clip e d = clip e (d - 128)" if "\<not> wide e d" "0 < d"
    using that assms cdf_logistic(1) [of "d - 128" e] unfolding clip_def wide_def
    by (subst clip_sample.simps) simp
  show "clip e d = clip e (d + 128)" if n: "\<not> wide e d" "d \<le> 0"
  proof -
    have "d + 128 - 64 = d + 64" by simp
    then have "clip e (d + 128) = clip_sample e (d + 128) (logistic e (d + 64)) (cdf_above (d + 128) e)"
      using assms n cdf_logistic(2) [of "d + 128" e] by (simp only: clip_def)
    moreover have "clip e d = clip_sample e (d + 128) (logistic e (d + 64)) (cdf_above (d + 128) e)"
      using n assms unfolding clip_def wide_def by (subst clip_sample.simps) simp
    ultimately show ?thesis by simp
  qed
qed

lemma centre: "WebRtcIsacfix_Piecewise (- 64) + 100 \<le> WebRtcIsacfix_Piecewise 64"
  by code_simp

text \<open>Next to the centre one of two neighbours is wide.\<close>

lemma wide_centre:
  assumes "0 < e" "0 < d" "d \<le> 128"
  shows "wide e d \<or> wide e (d - 128)"
proof -
  have "logistic e (d - 192) \<le> WebRtcIsacfix_Piecewise (- 64)"
    unfolding logistic_def
  proof (rule Piecewise_mono)
    have "(d - 192) * e \<le> - 64 * e" using assms by (intro mult_right_mono) auto
    then show "(d - 192) * e \<le> - 64" using assms by linarith
  qed
  moreover have "WebRtcIsacfix_Piecewise 64 \<le> logistic e (d + 64)"
    unfolding logistic_def
  proof (rule Piecewise_mono)
    have "64 * e \<le> (d + 64) * e" using assms by (intro mult_right_mono) auto
    then show "64 \<le> (d + 64) * e" using assms by linarith
  qed
  moreover have "logistic e (d - 128 - 64) = logistic e (d - 192)" "logistic e (d - 128 + 64) = logistic e (d - 64)"
    by (simp_all add: logistic_def)
  ultimately have "\<not> wide e d \<Longrightarrow> wide e (d - 128)" using centre unfolding wide_def by linarith
  then show ?thesis by blast
qed

definition clipped :: "int \<Rightarrow> int \<Rightarrow> int \<Rightarrow> bool" where
  "clipped e d d' \<longleftrightarrow> clip e d = Some (d', logistic e (d' - 64), logistic e (d' + 64)) \<and> wide e d' \<and>
     128 dvd d - d' \<and> - 32000 \<le> d' \<and> d' \<le> 32000 \<and> (wide e d \<longrightarrow> d' = d)"

lemma clipped_wide:
  assumes "0 \<le> e" "e < 65536" "- 32000 \<le> d" "d \<le> 32000" "wide e d"
  shows "clipped e d d"
  using clip_step(1) [OF assms] assms by (simp add: clipped_def)

lemma clipped_next:
  assumes "clipped e d1 d'" "clip e d = clip e d1" "\<not> wide e d" "128 dvd d - d1"
  shows "clipped e d d'"
  using assms dvd_add [of 128 "d - d1" "d1 - d'"] by (simp add: clipped_def)

lemma clip_positive:
  assumes e: "0 < e" "e < 65536"
  shows "0 < d \<Longrightarrow> d \<le> 32000 \<Longrightarrow> \<exists>d'. clipped e d d'"
proof (induction "nat d" arbitrary: d rule: less_induct)
  case less
  show ?case
  proof (cases "wide e d")
    case False
    have "\<exists>d'. clipped e (d - 128) d'"
    proof (cases "d \<le> 128")
      case True
      then have "wide e (d - 128)" using wide_centre [OF e(1) less.prems(1)] False by simp
      then show ?thesis using clipped_wide [of e "d - 128"] e less.prems by auto
    qed (use less in simp)
    then show ?thesis using clipped_next [of e "d - 128" _ d] clip_step(2) [of e d] e less.prems False by auto
  qed (use clipped_wide [of e d] e less.prems in auto)
qed

lemma clip_negative:
  assumes e: "0 < e" "e < 65536"
  shows "d \<le> 0 \<Longrightarrow> - 32000 \<le> d \<Longrightarrow> \<exists>d'. clipped e d d'"
proof (induction "nat (- d)" arbitrary: d rule: less_induct)
  case less
  show ?case
  proof (cases "wide e d")
    case False
    have "\<exists>d'. clipped e (d + 128) d'"
    proof (cases "d + 128 \<le> 0")
      case False
      then have "0 < d + 128" "d + 128 \<le> 128" using less.prems by simp_all
      from wide_centre [OF e(1) this] show ?thesis
        using clipped_wide [of e "d + 128"] \<open>\<not> wide e d\<close> e less.prems by auto
    qed (use less in simp)
    then show ?thesis using clipped_next [of e "d + 128" _ d] clip_step(3) [of e d] e less.prems False by auto
  qed (use clipped_wide [of e d] e less.prems in auto)
qed

lemma clip_total:
  assumes "0 < e" "e < 65536" "- 32000 \<le> d" "d \<le> 32000"
  shows "\<exists>d'. clip_sample e d (cdf_below d e) (cdf_above d e) =
      Some (d', cdf_below d' e, cdf_above d' e) \<and> clipped e d d'"
proof -
  obtain d' where d': "clipped e d d'"
    using clip_positive [OF assms(1,2), of d] clip_negative [OF assms(1,2), of d] assms by (cases "0 < d") auto
  then show ?thesis using cdf_logistic [of d e] cdf_logistic [of d' e] assms
    by (auto simp: clipped_def clip_def)
qed

text \<open>A width of zero makes all bounds equal, and the loop does not end.\<close>

lemma clip_zero:
  assumes "clip_sample e d lo hi = Some r"
  shows "\<not> (e = 0 \<and> lo = WebRtcIsacfix_Piecewise 0 \<and> hi = WebRtcIsacfix_Piecewise 0)"
proof (rule clip_sample.raw_induct [OF _ assms])
  fix clip e d lo hi r
  assume IH: "\<And>e d lo hi r. clip e d lo hi = Some r \<Longrightarrow>
      \<not> (e = 0 \<and> lo = WebRtcIsacfix_Piecewise 0 \<and> hi = WebRtcIsacfix_Piecewise 0)"
    and step: "(if hi \<le> lo + 1
      then if 0 < d then clip e (s16 (d - 128)) (cdf_below (s16 (d - 128)) e) lo
        else clip e (s16 (d + 128)) hi (cdf_above (s16 (d + 128)) e)
      else Some (d, lo, hi)) = Some r"
  have same: "cdf_below x 0 = WebRtcIsacfix_Piecewise 0" "cdf_above x 0 = WebRtcIsacfix_Piecewise 0" for x
    by (simp_all add: cdf_below_def cdf_above_def MUL_16_U16_def u16_def)
  show "\<not> (e = 0 \<and> lo = WebRtcIsacfix_Piecewise 0 \<and> hi = WebRtcIsacfix_Piecewise 0)"
    using IH [of 0 "s16 (d - 128)" "WebRtcIsacfix_Piecewise 0" "WebRtcIsacfix_Piecewise 0" r]
      IH [of 0 "s16 (d + 128)" "WebRtcIsacfix_Piecewise 0" "WebRtcIsacfix_Piecewise 0" r] step same
    by (cases "0 < d") auto
qed

section \<open>The search\<close>

declare logist_up.simps [simp del] logist_down.simps [simp del] logist_renorm.simps [simp del]

text \<open>
  The candidates are \<open>128 * j\<close> from the first, and a sample lies between the candidates
  \<open>n - 1\<close> and \<open>n\<close>.  The search gives up where two candidates have one bound, so the candidates
  on its way to the sample have to differ.
\<close>

definition cand :: "int \<Rightarrow> int \<Rightarrow> int" where
  "cand dither j = 64 - dither + 128 * j"

definition apart :: "int \<Rightarrow> int \<Rightarrow> int \<Rightarrow> bool" where
  "apart e dither n \<longleftrightarrow>
     list_all (\<lambda>j. logistic e (cand dither j) < logistic e (cand dither (j + 1))) ([1..n - 1] @ [n - 1..- 2])"

definition searchable :: "int \<Rightarrow> int \<Rightarrow> int \<Rightarrow> bool" where
  "searchable e dither d \<longleftrightarrow> 0 < e \<and> e < 65536 \<and> - 128 \<le> dither \<and> dither \<le> 128 \<and>
     - 32000 \<le> d \<and> d \<le> 32000 \<and> 128 dvd d + dither \<and> wide e d \<and> apart e dither ((d + dither) div 128)"

lemma apart_up: "apart e dither n \<Longrightarrow> 1 \<le> j \<Longrightarrow> j < n \<Longrightarrow>
    logistic e (cand dither j) < logistic e (cand dither (j + 1))"
  by (auto simp: apart_def list_all_iff)

lemma apart_down: "apart e dither n \<Longrightarrow> n \<le> j \<Longrightarrow> j \<le> - 1 \<Longrightarrow>
    logistic e (cand dither (j - 1)) < logistic e (cand dither j)"
  using bspec [of "set [n - 1..- 2]" "\<lambda>j. logistic e (cand dither j) < logistic e (cand dither (j + 1))" "j - 1"]
  by (auto simp: apart_def list_all_iff)

lemma cand_next: "cand dither j + 128 = cand dither (j + 1)" "cand dither j - 128 = cand dither (j - 1)"
  by (simp_all add: cand_def)

abbreviation lbnd :: "int \<Rightarrow> int \<Rightarrow> int \<Rightarrow> int" where
  "lbnd W e c \<equiv> bnd W (logistic e c)"

lemma cand_bound_logistic:
  assumes "0 \<le> W" "W < 4294967296" "0 \<le> e" "e < 65536" "- 32768 \<le> c" "c < 32768"
  shows "cand_bound W e c = lbnd W e c"
  using assms scaled_bound_div [OF assms(1,2) logistic_range, of e c] product_fits [of c e]
  by (simp add: cand_bound_def logistic_def)

lemma bound_rises:
  assumes "16777216 \<le> W" "logistic e a < logistic e b"
  shows "lbnd W e a \<noteq> lbnd W e b"
  using bnd_gap [OF assms] by simp

lemma up_finds:
  assumes W: "16777216 \<le> W" "W < 4294967296" and e: "0 < e" "e < 65536"
    and n: "- 128 \<le> dither" "dither \<le> 128" "cand dither n \<le> 32064" "apart e dither n"
    and D: "lbnd W e (cand dither (n - 1)) < D" "D \<le> lbnd W e (cand dither n)"
  shows "1 \<le> j \<Longrightarrow> j \<le> n \<Longrightarrow>
    logist_up W e D (cand dither j) (lbnd W e (cand dither (j - 1))) (lbnd W e (cand dither j)) =
      Some (Inr (cand dither n - 64, lbnd W e (cand dither (n - 1)), lbnd W e (cand dither n)))"
proof (induction "nat (n - j)" arbitrary: j)
  case 0
  then have "j = n" by simp
  then show ?case using n D 0 by (subst logist_up.simps) (simp add: cand_def)
next
  case (Suc m)
  then have j: "1 \<le> j" "j + 1 \<le> n" "m = nat (n - (j + 1))" by simp_all
  have "lbnd W e (cand dither j) \<le> lbnd W e (cand dither (n - 1))"
    using W e j by (intro bnd_mono logistic_rises) (auto simp: cand_def)
  then have above: "D > lbnd W e (cand dither j)" using D by simp
  have r: "- 32768 \<le> cand dither (j + 1)" "cand dither (j + 1) < 32768"
    using n j by (auto simp: cand_def)
  have b: "cand_bound W e (cand dither (j + 1)) = lbnd W e (cand dither (j + 1))"
    using cand_bound_logistic [OF _ _ _ _ r] W e by simp
  have "lbnd W e (cand dither j) \<noteq> lbnd W e (cand dither (j + 1))"
    using apart_up [OF n(4) j(1)] j(2) by (intro bound_rises W) simp
  then show ?case
    using Suc.hyps(1) [OF j(3) _ j(2)] j above r b
    by (subst logist_up.simps) (simp add: cand_next)
qed

lemma down_finds:
  assumes W: "16777216 \<le> W" "W < 4294967296" and e: "0 < e" "e < 65536"
    and n: "- 128 \<le> dither" "dither \<le> 128" "- 32064 \<le> cand dither (n - 1)" "apart e dither n"
    and D: "lbnd W e (cand dither (n - 1)) < D" "D \<le> lbnd W e (cand dither n)"
  shows "j \<le> - 1 \<Longrightarrow> n - 1 \<le> j \<Longrightarrow>
    logist_down W e D (cand dither j) (lbnd W e (cand dither (j + 1))) (lbnd W e (cand dither j)) =
      Some (Inr (cand dither (n - 1) + 64, lbnd W e (cand dither (n - 1)), lbnd W e (cand dither n)))"
proof (induction "nat (j - (n - 1))" arbitrary: j)
  case 0
  then have "j = n - 1" by simp
  then show ?case using n D 0 by (subst logist_down.simps) (simp add: cand_def)
next
  case (Suc m)
  then have j: "j \<le> - 1" "n - 1 \<le> j - 1" "n \<le> j" "j - 1 \<le> - 1" "m = nat (j - 1 - (n - 1))" by simp_all
  have "lbnd W e (cand dither n) \<le> lbnd W e (cand dither j)"
    using W e j by (intro bnd_mono logistic_rises) (auto simp: cand_def)
  then have below: "\<not> D > lbnd W e (cand dither j)" using D by simp
  have r: "- 32768 \<le> cand dither (j - 1)" "cand dither (j - 1) < 32768"
    using n j by (auto simp: cand_def)
  have b: "cand_bound W e (cand dither (j - 1)) = lbnd W e (cand dither (j - 1))"
    using cand_bound_logistic [OF _ _ _ _ r] W e by simp
  have "lbnd W e (cand dither j) \<noteq> lbnd W e (cand dither (j - 1))"
    using apart_down [OF n(4) j(3,1)] bound_rises [OF W(1)] by metis
  then show ?case
    using Suc.hyps(1) [OF j(5,4,2)] j below r b
    by (subst logist_down.simps) (simp add: cand_next)
qed

lemma search_finds:
  assumes W: "16777216 \<le> W" "W < 4294967296" and s: "searchable e dither d"
    and D: "lbnd W e (d - 64) < D" "D \<le> lbnd W e (d + 64)"
  shows "logist_search W e D dither = Some (Inr (d, lbnd W e (d - 64), lbnd W e (d + 64)))"
proof -
  define n where "n = (d + dither) div 128"
  have s': "0 < e" "e < 65536" "- 128 \<le> dither" "dither \<le> 128" "- 32000 \<le> d" "d \<le> 32000" "apart e dither n"
    "128 dvd d + dither"
    using s by (simp_all add: searchable_def n_def)
  then have "128 * n = d + dither" by (simp add: n_def)
  then have cn: "cand dither n = d + 64" "cand dither (n - 1) = d - 64" by (simp_all add: cand_def)
  note up = up_finds [OF W s'(1-4) _ s'(7), unfolded cn, OF _ D, of 1]
  note down = down_finds [OF W s'(1-4) _ s'(7), unfolded cn, OF _ D, of "- 1"]
  have c: "s16 (- dither + 64) = cand dither 0" "s16 (cand dither 0 + 128) = cand dither 1"
    "s16 (cand dither 0 - 128) = cand dither (- 1)"
    using s' by (simp_all add: cand_def)
  have b: "cand_bound W e (cand dither j) = lbnd W e (cand dither j)" if "j \<in> {- 1, 0, 1}" for j
    using that s' W by (intro cand_bound_logistic) (auto simp: cand_def)
  note b3 = b [of 0, simplified] b [of 1, simplified] b [of "- 1", simplified]
  show ?thesis
  proof (cases "1 \<le> n")
    case True
    have "lbnd W e (cand dither 0) \<le> lbnd W e (d - 64)"
      unfolding cn(2) [symmetric] using W s' True by (intro bnd_mono logistic_rises) (auto simp: cand_def)
    then have "D > lbnd W e (cand dither 0)" using D by simp
    then show ?thesis using up True s' unfolding logist_search_def Let_def c b3 by simp
  next
    case False
    have "lbnd W e (d + 64) \<le> lbnd W e (cand dither 0)"
      unfolding cn(1) [symmetric] using W s' False by (intro bnd_mono logistic_rises) (auto simp: cand_def)
    then have "\<not> D > lbnd W e (cand dither 0)" using D by simp
    then show ?thesis using down False s' unfolding logist_search_def Let_def c b3 by simp
  qed
qed

text \<open>Equal bounds on the way end the search, whatever lies behind them.\<close>

lemma up_gives_up:
  assumes W: "0 \<le> W" "W < 4294967296" and e: "0 < e" "e < 65536"
    and n: "- 128 \<le> dither" "dither \<le> 128" "cand dither (n + 1) \<le> 32064"
      "logistic e (cand dither n) = logistic e (cand dither (n + 1))"
    and D: "lbnd W e (cand dither n) < D"
  shows "1 \<le> j \<Longrightarrow> j \<le> n \<Longrightarrow> logist_up W e D (cand dither j) l (lbnd W e (cand dither j)) = Some (Inl (- 1))"
proof (induction "nat (n - j)" arbitrary: j l)
  case 0
  then have j: "j = n" by simp
  have "cand_bound W e (cand dither (n + 1)) = lbnd W e (cand dither n)"
    using cand_bound_logistic [of W e "cand dither (n + 1)"] W e n 0 j by (auto simp: cand_def)
  then show ?case using n D 0 j by (subst logist_up.simps) (simp add: cand_def)
next
  case (Suc m)
  then have j: "1 \<le> j" "j + 1 \<le> n" "m = nat (n - (j + 1))" by simp_all
  have "lbnd W e (cand dither j) \<le> lbnd W e (cand dither n)"
    using W e j by (intro bnd_mono logistic_rises) (auto simp: cand_def)
  then have above: "D > lbnd W e (cand dither j)" using D by simp
  have r: "- 32768 \<le> cand dither (j + 1)" "cand dither (j + 1) < 32768" using n j by (auto simp: cand_def)
  have b: "cand_bound W e (cand dither (j + 1)) = lbnd W e (cand dither (j + 1))"
    using cand_bound_logistic [OF _ _ _ _ r] W e by simp
  show ?case
    using Suc.hyps(1) [OF j(3) _ j(2)] j above r b by (subst logist_up.simps) (simp add: cand_next)
qed

lemma down_gives_up:
  assumes W: "0 \<le> W" "W < 4294967296" and e: "0 < e" "e < 65536"
    and n: "- 128 \<le> dither" "dither \<le> 128" "- 32064 \<le> cand dither (n - 1)"
      "logistic e (cand dither (n - 1)) = logistic e (cand dither n)"
    and D: "\<not> D > lbnd W e (cand dither n)"
  shows "j \<le> - 1 \<Longrightarrow> n \<le> j \<Longrightarrow> logist_down W e D (cand dither j) u (lbnd W e (cand dither j)) = Some (Inl (- 1))"
proof (induction "nat (j - n)" arbitrary: j u)
  case 0
  then have j: "j = n" by simp
  have "cand_bound W e (cand dither (n - 1)) = lbnd W e (cand dither n)"
    using cand_bound_logistic [of W e "cand dither (n - 1)"] W e n 0 j by (auto simp: cand_def)
  then show ?case using n D 0 j by (subst logist_down.simps) (simp add: cand_def)
next
  case (Suc m)
  then have j: "j \<le> - 1" "n \<le> j - 1" "j - 1 \<le> - 1" "m = nat (j - 1 - n)" by simp_all
  have "lbnd W e (cand dither n) \<le> lbnd W e (cand dither j)"
    using W e j by (intro bnd_mono logistic_rises) (auto simp: cand_def)
  then have below: "\<not> D > lbnd W e (cand dither j)" using D by simp
  have r: "- 32768 \<le> cand dither (j - 1)" "cand dither (j - 1) < 32768" using n j by (auto simp: cand_def)
  have b: "cand_bound W e (cand dither (j - 1)) = lbnd W e (cand dither (j - 1))"
    using cand_bound_logistic [OF _ _ _ _ r] W e by simp
  show ?case
    using Suc.hyps(1) [OF j(4) j(3,2)] j below r b by (subst logist_down.simps) (simp add: cand_next)
qed

text \<open>Where two candidates on the way to a sample coincide.\<close>

lemma not_apart:
  assumes "\<not> apart e dither n" "0 \<le> e"
  obtains k where "1 \<le> k" "k < n" "logistic e (cand dither k) = logistic e (cand dither (k + 1))"
  | k where "k \<le> - 1" "n \<le> k" "logistic e (cand dither (k - 1)) = logistic e (cand dither k)"
proof -
  obtain j where j: "j \<in> set ([1..n - 1] @ [n - 1..- 2])" "\<not> logistic e (cand dither j) < logistic e (cand dither (j + 1))"
    using assms(1) unfolding apart_def list_all_iff by blast
  have "logistic e (cand dither j) \<le> logistic e (cand dither (j + 1))"
    using assms(2) by (intro logistic_rises) (simp_all add: cand_def)
  then have eq: "logistic e (cand dither j) = logistic e (cand dither (j + 1))" using j(2) by simp
  show thesis
  proof (cases "1 \<le> j \<and> j < n")
    case True
    then show thesis using that(1) eq by blast
  next
    case False
    then have "j + 1 \<le> - 1" "n \<le> j + 1" using j(1) by auto
    then show thesis using that(2) [of "j + 1"] eq by simp
  qed
qed

lemma search_gives_up:
  assumes W: "16777216 \<le> W" "W < 4294967296" and e: "0 < e" "e < 65536"
    and d: "- 128 \<le> dither" "dither \<le> 128" "- 32000 \<le> d" "d \<le> 32000" "128 dvd d + dither"
    and far: "\<not> apart e dither ((d + dither) div 128)"
    and D: "lbnd W e (d - 64) < D" "D \<le> lbnd W e (d + 64)"
  shows "logist_search W e D dither = Some (Inl (- 1))"
proof -
  define n where "n = (d + dither) div 128"
  have "128 * n = d + dither" using d(5) by (simp add: n_def)
  then have cn: "cand dither n = d + 64" "cand dither (n - 1) = d - 64" by (simp_all add: cand_def)
  have c: "s16 (- dither + 64) = cand dither 0" "s16 (cand dither 0 + 128) = cand dither 1"
    "s16 (cand dither 0 - 128) = cand dither (- 1)"
    using d by (simp_all add: cand_def)
  have b: "cand_bound W e (cand dither j) = lbnd W e (cand dither j)" if "j \<in> {- 1, 0, 1}" for j
    using that d W e by (intro cand_bound_logistic) (auto simp: cand_def)
  note b3 = b [of 0, simplified] b [of 1, simplified] b [of "- 1", simplified]
  have W0: "0 \<le> W" using W by simp
  from far [folded n_def] order_less_imp_le [OF e(1)] show ?thesis
  proof (cases rule: not_apart)
    case (1 k)
    have "lbnd W e (cand dither i) < D" if "i \<le> k" for i
    proof -
      have "lbnd W e (cand dither i) \<le> lbnd W e (d - 64)"
        unfolding cn(2) [symmetric] using W e that 1(2) by (intro bnd_mono logistic_rises) (auto simp: cand_def)
      then show ?thesis using D by simp
    qed
    note below = this
    have "cand dither (k + 1) \<le> 32064" using 1(2) cn(1) d(4) by (simp add: cand_def)
    from up_gives_up [OF W0 W(2) e d(1,2) this 1(3) below [OF order_refl] order_refl 1(1)]
    show ?thesis using below [of 0] 1 unfolding logist_search_def Let_def c b3 by simp
  next
    case (2 k)
    have "\<not> D > lbnd W e (cand dither i)" if "k \<le> i" for i
    proof -
      have "lbnd W e (d + 64) \<le> lbnd W e (cand dither i)"
        unfolding cn(1) [symmetric] using W e that 2(2) by (intro bnd_mono logistic_rises) (auto simp: cand_def)
      then show ?thesis using D by simp
    qed
    note above = this
    have "- 32064 \<le> cand dither (k - 1)" using 2(2) cn(2) d(3) by (simp add: cand_def)
    from down_gives_up [OF W0 W(2) e d(1,2) this 2(3) above [OF order_refl] order_refl 2(1)]
    show ?thesis using above [of 0] 2 unfolding logist_search_def Let_def c b3 by simp
  qed
qed

section \<open>Reading past the end\<close>

text \<open>
  The decoder reads \<open>S\<close> as the coders of \<open>IsacArith\<close> read \<open>S\<close> with zeros behind it, the steps
  past the end counted apart.
\<close>

definition padded :: "int list \<Rightarrow> int list" where
  "padded S = S @ replicate 200 0"

definition pos_of :: "int list \<Rightarrow> logist_pos \<Rightarrow> nat \<times> int \<Rightarrow> bool" where
  "pos_of S st dst \<longleftrightarrow> (case st of (p, offset, full) \<Rightarrow>
     dst = (p + offset, full) \<and> p \<le> length S \<and> (0 < offset \<longrightarrow> p = length S))"

lemma next_byte_padded:
  assumes "pos_of S st dst" "get_byte (padded S) dst = Some (b, dst')"
  shows "\<exists>st'. next_byte S (int (length S)) st = Some (b, st') \<and> pos_of S st' dst'"
proof -
  obtain p offset full where st: "st = (p, offset, full)" by (cases st)
  then show ?thesis
    using assms by (auto simp: pos_of_def get_byte_def next_byte_def word_at_def padded_def nth_append
        split: if_splits)
qed

lemma renorm_padded:
  "\<lbrakk>dec_renorm S' dst D W = Some (dst', D', W'); S' = padded S; pos_of S st dst\<rbrakk> \<Longrightarrow>
   \<exists>st'. logist_renorm S (int (length S)) st D W = Some (st', D', W') \<and> pos_of S st' dst'"
proof (induction S' dst D W arbitrary: st rule: dec_renorm.induct)
  case (1 S' dst D W)
  show ?case
  proof (cases "W AND 0xFF000000 = 0")
    case False
    then show ?thesis using "1.prems" by (subst logist_renorm.simps) (simp add: dec_renorm.simps [of "padded S" dst D W])
  next
    case True
    obtain b dst1 where b: "get_byte (padded S) dst = Some (b, dst1)"
      "dec_renorm S' dst1 (u32 (D * 2 ^ 8) OR b) (u32 (W * 2 ^ 8)) = Some (dst', D', W')"
      using "1.prems" True by (auto simp: dec_renorm.simps [of "padded S" dst D W] split: option.splits)
    obtain st1 where st1: "next_byte S (int (length S)) st = Some (b, st1)" "pos_of S st1 dst1"
      using next_byte_padded [OF "1.prems"(3) b(1)] by blast
    have "\<exists>st'. logist_renorm S (int (length S)) st1 (u32 (D * 2 ^ 8) OR b) (u32 (W * 2 ^ 8)) = Some (st', D', W') \<and>
        pos_of S st' dst'"
      by (rule "1.IH" [OF True _ refl b(2) "1.prems"(2) st1(2)]) (use b(1) "1.prems"(2) in simp)
    then show ?thesis using True st1(1) by (subst logist_renorm.simps) simp
  qed
qed

section \<open>The decoder follows the encoder\<close>

text \<open>The samples of one width.\<close>

fun enc_group :: "int \<Rightarrow> int list \<Rightarrow> enc_pos \<Rightarrow> int \<Rightarrow> int \<Rightarrow>
    (int list \<times> bool \<times> enc_pos \<times> int \<times> int) option" where
  "enc_group e [] st v W = Some ([], True, st, v, W)"
| "enc_group e (d # ds) st v W =
     (case clip_sample e d (cdf_below d e) (cdf_above d e) of
        None \<Rightarrow> None
      | Some (d', lo, hi) \<Rightarrow>
          (case enc_symbol lo hi st v W of
             None \<Rightarrow> None
           | Some (ok, st, v, W) \<Rightarrow>
               if ok then map_option (\<lambda>(xs, r). (d' # xs, r)) (enc_group e ds st v W)
               else Some (d' # ds, False, st, v, W)))"

lemma enc_loop_group:
  "xs \<noteq> [] \<Longrightarrow> length xs + k mod 4 = 4 \<Longrightarrow>
   enc_logist_loop k (xs @ ds) (e # es) st v W =
     (case enc_group e xs st v W of
        None \<Rightarrow> None
      | Some (ys, ok, st, v, W) \<Rightarrow>
          if ok then map_option (\<lambda>(zs, r). (ys @ zs, r)) (enc_logist_loop (k + length xs) ds es st v W)
          else Some (ys @ ds, False, st, v, W))"
proof (induction xs arbitrary: k st v W)
  case (Cons x xs)
  show ?case
  proof (cases "xs = []")
    case True
    then have "k mod 4 = 3" using Cons.prems by simp
    then have "odd k \<and> odd (k div 2)" by presburger
    then show ?thesis using True by (auto split: option.splits if_splits)
  next
    case False
    then have "length xs \<noteq> 0" by simp
    then have k: "k mod 4 < 3" using Cons.prems(2) unfolding list.size by linarith
    then have "\<not> (odd k \<and> odd (k div 2))" "Suc k mod 4 = Suc (k mod 4)" by presburger+
    then have "length xs + Suc k mod 4 = 4" using Cons.prems(2) by simp
    from Cons.IH [OF False this] show ?thesis using \<open>\<not> (odd k \<and> odd (k div 2))\<close>
      by (auto split: option.splits if_splits simp: option.map_comp comp_def case_prod_unfold)
  qed
qed simp

text \<open>\<open>S\<close> is what the decoder has, and \<open>st\<close> where it is when the encoder is at \<open>m\<close> bytes.\<close>

definition logist_at :: "int list \<Rightarrow> logist_pos \<Rightarrow> nat \<Rightarrow> bool" where
  "logist_at S st m \<longleftrightarrow> (\<exists>dst. pos_of S st dst \<and> dec_at dst m)"

lemma sample_follows:
  assumes inv: "enc_inv st v W" "16777216 \<le> W" and s: "searchable e t d"
    and step: "enc_symbol (logistic e (d - 64)) (logistic e (d + 64)) st v W = Some (True, st1, v1, W1)"
  shows "enc_inv st1 v1 W1" "16777216 \<le> W1" "nbytes (snd st) \<le> nbytes (snd st1)"
    and "follows st1 v1 W1 (padded S) \<Longrightarrow> follows st v W (padded S)"
    and "follows st1 v1 W1 (padded S) \<Longrightarrow> logist_at S q (nbytes (snd st)) \<Longrightarrow>
      \<exists>q1. dec_logist_group S (int (length S)) e (t # ts) q (distance (padded S) st v) W =
          map_option (\<lambda>(xs, r). (d # xs, r))
            (dec_logist_group S (int (length S)) e ts q1 (distance (padded S) st1 v1) W1) \<and>
        logist_at S q1 (nbytes (snd st1))"
proof -
  define lo where "lo = logistic e (d - 64)"
  define hi where "hi = logistic e (d + 64)"
  have ok: "codable [lo, hi] 0"
    using s logistic_range [of e] by (auto simp: codable_def cdf_table_def searchable_def wide_def lo_def hi_def)
  have step': "enc_symbol ([lo, hi] ! 0) ([lo, hi] ! (0 + 1)) st v W = Some (True, st1, v1, W1)"
    using step by (simp add: lo_def hi_def)
  note nf = narrow_follows [OF ok inv step']
  show "enc_inv st1 v1 W1" "16777216 \<le> W1" "nbytes (snd st) \<le> nbytes (snd st1)"
    "follows st1 v1 W1 (padded S) \<Longrightarrow> follows st v W (padded S)" by (fact nf)+
  assume f: "follows st1 v1 W1 (padded S)" and q: "logist_at S q (nbytes (snd st))"
  obtain dst where dst: "pos_of S q dst" "dec_at dst (nbytes (snd st))" using q by (auto simp: logist_at_def)
  obtain dst1 where hit: "hits [lo, hi] W (distance (padded S) st v) 0"
    and d1: "dec_narrow (padded S) dst (distance (padded S) st v) (bnd W lo) (bnd W hi) =
      Some (dst1, distance (padded S) st1 v1, W1)" "dec_at dst1 (nbytes (snd st1))"
    using nf(5) [OF f dst(2)] by auto
  have W: "W < 4294967296" "bnd W lo < distance (padded S) st v" "distance (padded S) st v \<le> bnd W hi"
    using hit by (auto simp: hits_def)
  have found: "logist_search W e (distance (padded S) st v) t = Some (Inr (d, bnd W lo, bnd W hi))"
    using search_finds [OF inv(2) W(1) s] W unfolding lo_def hi_def by simp
  obtain q1 where "logist_renorm S (int (length S)) q
      (u32 (distance (padded S) st v - u32 (bnd W lo + 1))) (u32 (bnd W hi - u32 (bnd W lo + 1))) =
        Some (q1, distance (padded S) st1 v1, W1)" and q1: "pos_of S q1 dst1"
    using renorm_padded [OF d1(1) [unfolded dec_narrow_def Let_def] refl dst(1)] by blast
  moreover have "logist_at S q1 (nbytes (snd st1))" using q1 d1(2) unfolding logist_at_def by blast
  ultimately show "\<exists>q1. dec_logist_group S (int (length S)) e (t # ts) q (distance (padded S) st v) W =
          map_option (\<lambda>(xs, r). (d # xs, r))
            (dec_logist_group S (int (length S)) e ts q1 (distance (padded S) st1 v1) W1) \<and>
        logist_at S q1 (nbytes (snd st1))"
    using found by (intro exI [of _ q1]) (simp add: Let_def)
qed

lemma group_follows:
  assumes e: "0 < e" "e < 65536"
  shows "\<lbrakk>enc_group e ds st v W = Some (ds', True, st1, v1, W1); enc_inv st v W; 16777216 \<le> W;
    \<forall>d\<in>set ds. - 32000 \<le> d \<and> d \<le> 32000; list_all2 (searchable e) ts ds'\<rbrakk> \<Longrightarrow>
    enc_inv st1 v1 W1 \<and> 16777216 \<le> W1 \<and> nbytes (snd st) \<le> nbytes (snd st1) \<and>
    (follows st1 v1 W1 (padded S) \<longrightarrow> follows st v W (padded S) \<and>
      (logist_at S q (nbytes (snd st)) \<longrightarrow>
       (\<exists>q1. dec_logist_group S (int (length S)) e ts q (distance (padded S) st v) W =
          Some (ds', q1, distance (padded S) st1 v1, W1, 0) \<and> logist_at S q1 (nbytes (snd st1)))))"
proof (induction ds arbitrary: ts ds' st v W q)
  case Nil
  then show ?case by auto
next
  case (Cons d ds)
  obtain x where x: "clip_sample e d (cdf_below d e) (cdf_above d e) = Some (x, cdf_below x e, cdf_above x e)"
    "clipped e d x" using clip_total [OF e, of d] Cons.prems(4) by auto
  then have "cdf_below x e = logistic e (x - 64)" "cdf_above x e = logistic e (x + 64)"
    using cdf_logistic [of x e] e by (auto simp: clipped_def)
  with x(1) Cons.prems(1) obtain st0 v0 W0 xs where
    step: "enc_symbol (logistic e (x - 64)) (logistic e (x + 64)) st v W = Some (True, st0, v0, W0)"
    and rest: "enc_group e ds st0 v0 W0 = Some (xs, True, st1, v1, W1)" "ds' = x # xs"
    by (auto split: option.splits prod.splits if_splits)
  from Cons.prems(5) rest(2) obtain t ts0 where ts: "ts = t # ts0" "searchable e t x" "list_all2 (searchable e) ts0 xs"
    by (auto simp: list_all2_Cons2)
  note s = sample_follows [OF Cons.prems(2,3) ts(2) step]
  have ih: "enc_inv st1 v1 W1 \<and> 16777216 \<le> W1 \<and> nbytes (snd st0) \<le> nbytes (snd st1) \<and>
    (follows st1 v1 W1 (padded S) \<longrightarrow> follows st0 v0 W0 (padded S) \<and>
      (logist_at S q1 (nbytes (snd st0)) \<longrightarrow>
       (\<exists>q2. dec_logist_group S (int (length S)) e ts0 q1 (distance (padded S) st0 v0) W0 =
          Some (xs, q2, distance (padded S) st1 v1, W1, 0) \<and> logist_at S q2 (nbytes (snd st1)))))" for q1
    using Cons.IH [OF rest(1) s(1,2) _ ts(3), of q1] Cons.prems(4) by simp
  show ?case
  proof (intro conjI impI)
    show "enc_inv st1 v1 W1" "16777216 \<le> W1" using ih [of q] by simp_all
    show "nbytes (snd st) \<le> nbytes (snd st1)" using ih [of q] le_trans [OF s(3)] by simp
    assume f: "follows st1 v1 W1 (padded S)"
    show "follows st v W (padded S)" using ih f s(4) by blast
    assume q: "logist_at S q (nbytes (snd st))"
    obtain q1 where q1: "dec_logist_group S (int (length S)) e (t # ts0) q (distance (padded S) st v) W =
          map_option (\<lambda>(xs, r). (x # xs, r))
            (dec_logist_group S (int (length S)) e ts0 q1 (distance (padded S) st0 v0) W0)"
        "logist_at S q1 (nbytes (snd st0))"
      using s(5) [OF _ q, of ts0] ih f by blast
    then show "\<exists>q1. dec_logist_group S (int (length S)) e ts q (distance (padded S) st v) W =
          Some (ds', q1, distance (padded S) st1 v1, W1, 0) \<and> logist_at S q1 (nbytes (snd st1))"
      using ih [of q1] f unfolding ts(1) rest(2) q1(1) by auto
  qed
qed

text \<open>The widths the decoder derives, and the samples it can find.\<close>

fun widths :: "int32 list \<Rightarrow> int32 \<Rightarrow> int list option" where
  "widths [] res = Some []"
| "widths (e # es) res =
     (case root_step e res of
        None \<Rightarrow> None
      | Some (res, newRes) \<Rightarrow> map_option ((#) (u16 newRes)) (widths es res))"

fun all_searchable :: "int list \<Rightarrow> int list \<Rightarrow> int list \<Rightarrow> bool" where
  "all_searchable [] [] [] = True"
| "all_searchable (e # es) (t0 # t1 # t2 # t3 # ts) (d0 # d1 # d2 # d3 # ds) =
     (list_all2 (searchable e) [t0, t1, t2, t3] [d0, d1, d2, d3] \<and> all_searchable es ts ds)"
| "all_searchable _ _ _ = False"

lemma all_searchable_width: "all_searchable es ts ds \<Longrightarrow> e \<in> set es \<Longrightarrow> 0 < e \<and> e < 65536"
  by (induction es ts ds rule: all_searchable.induct) (auto simp: searchable_def)

lemma enc_group_length: "enc_group e ds st v W = Some (xs, r) \<Longrightarrow> length xs = length ds"
  by (induction ds arbitrary: st v W xs r) (auto split: option.splits if_splits)

lemma four: "length xs = 4 * Suc n \<Longrightarrow> \<exists>a b c d ys. xs = [a, b, c, d] @ ys \<and> length ys = 4 * n"
  by (cases xs; cases "tl xs"; cases "tl (tl xs)"; cases "tl (tl (tl xs))") auto

lemma loop_follows:
  "\<lbrakk>widths sq res = Some es; all_searchable es ts data'; length data = 4 * length sq;
    \<forall>d\<in>set data. - 32000 \<le> d \<and> d \<le> 32000; k mod 4 = 0;
    enc_logist_loop k data es st v W = Some (data', True, st1, v1, W1); enc_inv st v W; 16777216 \<le> W\<rbrakk> \<Longrightarrow>
    enc_inv st1 v1 W1 \<and> 16777216 \<le> W1 \<and> nbytes (snd st) \<le> nbytes (snd st1) \<and>
    (follows st1 v1 W1 (padded S) \<longrightarrow> follows st v W (padded S) \<and>
      (logist_at S q (nbytes (snd st)) \<longrightarrow>
       (\<exists>q1. dec_logist_loop S (int (length S)) res sq ts q (distance (padded S) st v) W =
          Some (data', q1, distance (padded S) st1 v1, W1, 0) \<and> logist_at S q1 (nbytes (snd st1)))))"
proof (induction sq arbitrary: res es ts data data' k st v W q)
  case Nil
  then have "es = []" "data = []" "data' = []" by auto
  moreover from this Nil have "ts = []" by (cases ts) auto
  ultimately show ?case using Nil by auto
next
  case (Cons s sq)
  obtain res1 w es1 where root: "root_step s res = Some (res1, w)" "widths sq res1 = Some es1" "es = u16 w # es1"
    using Cons.prems(1) by (auto split: option.splits)
  define e where "e = u16 w"
  obtain d0 d1 d2 d3 ds where data: "data = [d0, d1, d2, d3] @ ds" "length ds = 4 * length sq"
    using four [of data "length sq"] Cons.prems(3) by auto
  let ?ds = "[d0, d1, d2, d3]"
  have k: "length ?ds + k mod 4 = 4" "(k + length ?ds) mod 4 = 0" using Cons.prems(5) by simp_all
  note run = Cons.prems(6) [unfolded data(1) root(3) e_def [symmetric]
    enc_loop_group [OF list.distinct(2) k(1), of ds e es1 st v W]]
  from run obtain xs st2 v2 W2 ys where
    group: "enc_group e ?ds st v W = Some (xs, True, st2, v2, W2)"
    and rest: "enc_logist_loop (k + length ?ds) ds es1 st2 v2 W2 = Some (ys, True, st1, v1, W1)"
      "data' = xs @ ys"
    by (auto simp del: enc_group.simps enc_logist_loop.simps split: option.splits if_splits)
  obtain x0 x1 x2 x3 where xs: "xs = [x0, x1, x2, x3]"
    using enc_group_length [OF group] four [of xs 0] by auto
  obtain t0 t1 t2 t3 ts1 where ts: "ts = t0 # t1 # t2 # t3 # ts1"
    "list_all2 (searchable e) [t0, t1, t2, t3] xs" "all_searchable es1 ts1 ys"
    using Cons.prems(2) unfolding root(3) rest(2) xs e_def [symmetric]
    by (cases ts; cases "tl ts"; cases "tl (tl ts)"; cases "tl (tl (tl ts))") auto
  have er: "0 < e" "e < 65536" using all_searchable_width [OF Cons.prems(2), of e] by (simp_all add: root(3) e_def)
  have b: "\<forall>d\<in>set ?ds. - 32000 \<le> d \<and> d \<le> 32000" "\<forall>d\<in>set ds. - 32000 \<le> d \<and> d \<le> 32000"
    using Cons.prems(4) by (simp_all add: data(1))
  note g = group_follows [OF er group Cons.prems(7,8) b(1) ts(2)]
  have g2: "enc_inv st2 v2 W2" "16777216 \<le> W2" using g by blast+
  note ih = Cons.IH [OF root(2) ts(3) data(2) b(2) k(2) rest(1) g2]
  show ?case
  proof (intro conjI impI)
    show "enc_inv st1 v1 W1" "16777216 \<le> W1" using ih by blast+
    have "nbytes (snd st) \<le> nbytes (snd st2)" "nbytes (snd st2) \<le> nbytes (snd st1)" using g ih by blast+
    then show "nbytes (snd st) \<le> nbytes (snd st1)" by (rule le_trans)
    assume f: "follows st1 v1 W1 (padded S)"
    then show "follows st v W (padded S)" using ih g by blast
    assume "logist_at S q (nbytes (snd st))"
    with g ih f obtain q1 where q1: "dec_logist_group S (int (length S)) e [t0, t1, t2, t3] q (distance (padded S) st v) W =
        Some (xs, q1, distance (padded S) st2 v2, W2, 0)" "logist_at S q1 (nbytes (snd st2))" by blast
    with ih f obtain q2 where "dec_logist_loop S (int (length S)) res1 sq ts1 q1 (distance (padded S) st2 v2) W2 =
        Some (ys, q2, distance (padded S) st1 v1, W1, 0)" "logist_at S q2 (nbytes (snd st1))" by blast
    with root(1) q1(1) show "\<exists>q1. dec_logist_loop S (int (length S)) res (s # sq) ts q (distance (padded S) st v) W =
          Some (data', q1, distance (padded S) st1 v1, W1, 0) \<and> logist_at S q1 (nbytes (snd st1))"
      unfolding ts(1) rest(2) e_def by (auto simp del: dec_logist_group.simps)
  qed
qed

text \<open>
  The decoder has the bytes of the code and, since it reads two words at the start, at least
  these; it needs nothing behind the code.
\<close>

definition holds_code :: "int list \<Rightarrow> nat \<Rightarrow> int list \<Rightarrow> bool" where
  "holds_code S n s \<longleftrightarrow> words S \<and> 2 \<le> length S \<and> n \<le> 2 * length S \<and>
     take n (bytes_of S) = take n (bytes_of s)"

lemma holds_code_padded: "holds_code S n s \<Longrightarrow> carries (padded S) n s"
  by (auto simp: holds_code_def carries_def padded_def words_def)

lemma logistic_round_trip:
  assumes s: "words s" "length s = 200" and sq: "widths sq (first_root (hd sq)) = Some es" "sq \<noteq> []"
    and data: "length data = 4 * length sq" "\<forall>d\<in>set data. - 32000 \<le> d \<and> d \<le> 32000"
    and enc: "WebRtcIsacfix_EncLogisticMulti2 (new_encoder s) data es = Some (0, e, data')" "enc_index e < 199"
    and found: "all_searchable es dither data'"
  shows "\<exists>n e'. WebRtcIsacfix_EncTerminate e = Some (int n, e') \<and>
    (\<forall>S. holds_code S n (enc_stream e') \<longrightarrow>
      (\<exists>d. WebRtcIsacfix_DecLogisticMulti2 dither (new_decoder S) sq = Some (int n, d, data')))"
proof -
  obtain s2 p2 f2 v2 W2 where loop: "enc_logist_loop 0 data es (s, 0, 1) 0 0xFFFFFFFF = Some (data', True, (s2, p2, f2), v2, W2)"
    and e: "e = \<lparr>enc_stream = s2, enc_W_upper = W2, enc_streamval = v2, enc_index = p2, enc_full = f2\<rparr>"
    using enc(1) by (auto simp: WebRtcIsacfix_EncLogisticMulti2_def new_encoder_def Let_def split: option.splits if_splits)
  have inv: "enc_inv (s, 0, 1) 0 0xFFFFFFFF"
    using s by (simp add: enc_inv_def enc_ok_def code_value_def enc_value_eq nbytes_def)
  note follow = loop_follows [OF sq(1) found data _ loop inv, simplified]
  let ?m = "nbytes (p2, f2)"
  have "enc_inv (s2, p2, f2) v2 W2" "16777216 \<le> W2" "p2 < 199" using follow enc(2) by (simp_all add: e)
  from terminate_follows [OF e this] obtain n e' where n: "WebRtcIsacfix_EncTerminate e = Some (int n, e')"
      "n = ?m + (if W2 > 33554431 then 1 else 2)" "\<And>S. carries S n (enc_stream e') \<Longrightarrow> follows (s2, p2, f2) v2 W2 S"
    by blast
  have m: "?m \<le> 399" using enc(2) by (simp add: e nbytes_def)
  have "\<exists>d. WebRtcIsacfix_DecLogisticMulti2 dither (new_decoder S) sq = Some (int n, d, data')"
    if S: "holds_code S n (enc_stream e')" for S
  proof -
    have S2: "words S" "2 \<le> length S" using S by (simp_all add: holds_code_def)
    have start: "dec_start (new_decoder S) = Some ((2, 1), bval S 4)" using S2 by (intro dec_start_new) simp_all
    have "logist_at S (2, 0, 1) 0"
      using S2 by (auto simp: logist_at_def pos_of_def dec_at_def nbytes_def)
    with follow n(3) [OF holds_code_padded [OF S]] obtain q1 where
      run: "dec_logist_loop S (int (length S)) (first_root (hd sq)) sq dither (2, 0, 1) (distance (padded S) (s, 0, 1) 0) 0xFFFFFFFF =
        Some (data', q1, distance (padded S) (s2, p2, f2) v2, W2, 0)" "logist_at S q1 ?m"
      by (fastforce simp: nbytes_def)
    have "distance (padded S) (s, 0, 1) 0 = bval S 4"
      using S2 by (simp add: distance_def nbytes_def code_value_def enc_value_eq bval_def padded_def)
    moreover obtain p offset full where q1: "q1 = (p, offset, full)" by (cases q1)
    moreover have at: "dec_at (p + offset, full) ?m" using run(2) by (auto simp: logist_at_def pos_of_def q1)
    moreover obtain d where "dec_finish (new_decoder S) (p + offset, full) (distance (padded S) (s2, p2, f2) v2) W2 = (int n, d)"
      using dec_finish_length [OF at m, of "new_decoder S" "distance (padded S) (s2, p2, f2) v2" W2] n(2)
      by (auto simp: prod_eq_iff)
    ultimately show ?thesis
      using run(1) start sq(2)
      by (simp add: WebRtcIsacfix_DecLogisticMulti2_def new_decoder_def word_at_def hd_conv_nth)
  qed
  then show ?thesis using n(1) by blast
qed

section \<open>Properties\<close>

text \<open>
  C16: Samples coded by \<open>EncLogisticMulti2\<close> and \<open>EncTerminate\<close> are read back by
  \<open>DecLogisticMulti2\<close>.
\<close>

theorem Isac_logistic_lossless:
  assumes "words s" "length s = 200"
    and "widths sq (first_root (hd sq)) = Some es" "sq \<noteq> []"
    and "length data = 4 * length sq" "\<forall>d\<in>set data. - 32000 \<le> d \<and> d \<le> 32000"
    and "WebRtcIsacfix_EncLogisticMulti2 (new_encoder s) data es = Some (0, e, data')" "enc_index e < 199"
    and "all_searchable es dither data'"
  shows "\<exists>n e'. WebRtcIsacfix_EncTerminate e = Some (int n, e') \<and>
    (\<forall>S. holds_code S n (enc_stream e') \<longrightarrow>
      (\<exists>d. WebRtcIsacfix_DecLogisticMulti2 dither (new_decoder S) sq = Some (int n, d, data')))"
  using logistic_round_trip [OF assms] .

text \<open>
  C17: The clipping loop of \<open>EncLogisticMulti2\<close> ends exactly for widths other than zero.
\<close>

theorem Isac_clipping_ends:
  assumes "0 \<le> e" "e < 65536" "- 32000 \<le> d" "d \<le> 32000"
  shows "(clip_sample e d (cdf_below d e) (cdf_above d e) = None \<longleftrightarrow> e = 0) \<and>
    (0 < e \<longrightarrow> (\<exists>d'. clip_sample e d (cdf_below d e) (cdf_above d e) = Some (d', cdf_below d' e, cdf_above d' e) \<and>
      cdf_below d' e + 2 \<le> cdf_above d' e \<and> 128 dvd d - d' \<and>
      (cdf_below d e + 2 \<le> cdf_above d e \<longrightarrow> d' = d)))"
proof (cases "e = 0")
  case True
  have "cdf_below d 0 = WebRtcIsacfix_Piecewise 0" "cdf_above d 0 = WebRtcIsacfix_Piecewise 0"
    by (simp_all add: cdf_below_def cdf_above_def MUL_16_U16_def u16_def)
  then show ?thesis using clip_zero [of 0 d "cdf_below d 0" "cdf_above d 0"] True
    by (cases "clip_sample 0 d (cdf_below d 0) (cdf_above d 0)") auto
next
  case False
  then obtain d' where d': "clip_sample e d (cdf_below d e) (cdf_above d e) = Some (d', cdf_below d' e, cdf_above d' e)"
    "clipped e d d'" using clip_total [of e d] assms by auto
  have "cdf_below d e = logistic e (d - 64)" "cdf_above d e = logistic e (d + 64)"
    "cdf_below d' e = logistic e (d' - 64)" "cdf_above d' e = logistic e (d' + 64)"
    using cdf_logistic [of d e] cdf_logistic [of d' e] assms d'(2) by (simp_all add: clipped_def)
  then show ?thesis using d' False assms(1) by (simp add: clipped_def wide_def)
qed

theorem Isac_clipping_ends_witness:
  "clip_sample 0 4000 (cdf_below 4000 0) (cdf_above 4000 0) = None \<and>
   (\<exists>d'. clip_sample 256 4000 (cdf_below 4000 256) (cdf_above 4000 256) = Some (d', cdf_below d' 256, cdf_above d' 256) \<and>
      cdf_below d' 256 + 2 \<le> cdf_above d' 256 \<and> 128 dvd 4000 - d')"
  using Isac_clipping_ends [of 0 4000] Isac_clipping_ends [of 256 4000] by auto

text \<open>The witness of the round trip: two widths and their samples, two of which are clipped.\<close>

declare clip_sample.simps [code] logist_up.simps [code] logist_down.simps [code] logist_renorm.simps [code]

lemma Isac_logistic_example:
  "(case WebRtcIsacfix_EncLogisticMulti2 (new_encoder (replicate 200 0)) [128, - 49, 30, 4000, 0, 1280, - 5, - 256] [256, 100] of
      Some (r, e, data) \<Rightarrow> r = 0 \<and> enc_index e < 199 \<and>
        all_searchable [256, 100] [0, 49, - 30, 96, 0, 0, 5, 0] data
    | None \<Rightarrow> False) \<and>
   widths [65536, 10000] (first_root 65536) = Some [256, 100]"
  by code_simp

theorem Isac_logistic_lossless_witness:
  "\<exists>e data n e'. WebRtcIsacfix_EncLogisticMulti2 (new_encoder (replicate 200 0)) [128, - 49, 30, 4000, 0, 1280, - 5, - 256] [256, 100] =
      Some (0, e, data) \<and> WebRtcIsacfix_EncTerminate e = Some (int n, e') \<and>
    (\<forall>S. holds_code S n (enc_stream e') \<longrightarrow>
      (\<exists>d. WebRtcIsacfix_DecLogisticMulti2 [0, 49, - 30, 96, 0, 0, 5, 0] (new_decoder S) [65536, 10000] = Some (int n, d, data)))"
proof -
  obtain e data where e: "WebRtcIsacfix_EncLogisticMulti2 (new_encoder (replicate 200 0))
      [128, - 49, 30, 4000, 0, 1280, - 5, - 256] [256, 100] = Some (0, e, data)" "enc_index e < 199"
    "all_searchable [256, 100] [0, 49, - 30, 96, 0, 0, 5, 0] data"
    using Isac_logistic_example by (auto simp del: all_searchable.simps split: option.splits)
  have w: "widths [65536, 10000] (first_root (hd [65536, 10000])) = Some [256, 100]"
    using Isac_logistic_example by (simp del: widths.simps)
  have "\<exists>n e'. WebRtcIsacfix_EncTerminate e = Some (int n, e') \<and>
    (\<forall>S. holds_code S n (enc_stream e') \<longrightarrow>
      (\<exists>d. WebRtcIsacfix_DecLogisticMulti2 [0, 49, - 30, 96, 0, 0, 5, 0] (new_decoder S) [65536, 10000] = Some (int n, d, data)))"
    by (rule Isac_logistic_lossless [OF _ _ w _ _ _ e]) (simp_all add: words_def)
  then show ?thesis using e(1) by blast
qed

text \<open>
  C18: The error check of \<open>DecLogisticMulti2\<close>, exactly.  Take any width from 1 to 65535, any dither
  within 128, any sample within 32000 that lies on the grid of this dither and that the encoder codes
  without clipping, and any value of the stream in the interval of the sample.  The search returns the sample and its bounds if the
  values of the distribution function differ at the neighbouring candidates that the search compares
  before it reaches the sample, and -1 otherwise, so that a coded sample is refused.
\<close>

theorem Isac_search_exact:
  assumes "16777216 \<le> W" "W < 4294967296" "0 < e" "e < 65536" "- 128 \<le> dither" "dither \<le> 128"
    and "- 32000 \<le> d" "d \<le> 32000" "128 dvd d + dither" "cdf_below d e + 2 \<le> cdf_above d e"
    and "scaled_bound W (cdf_below d e) < D" "D \<le> scaled_bound W (cdf_above d e)"
  shows "logist_search W e D dither =
    Some (if apart e dither ((d + dither) div 128)
          then Inr (d, scaled_bound W (cdf_below d e), scaled_bound W (cdf_above d e)) else Inl (- 1))"
proof -
  have cdf: "cdf_below d e = logistic e (d - 64)" "cdf_above d e = logistic e (d + 64)"
    using cdf_logistic [of d e] assms(3,4,7,8) by simp_all
  have b: "scaled_bound W (logistic e c) = lbnd W e c" for c
    using scaled_bound_div [OF _ assms(2) logistic_range] assms(1) by simp
  note D = assms(11,12) [unfolded cdf b]
  show ?thesis
  proof (cases "apart e dither ((d + dither) div 128)")
    case True
    then have "searchable e dither d" using assms(3-10) by (simp add: searchable_def wide_def cdf)
    from search_finds [OF assms(1,2) this D] show ?thesis using True by (simp add: cdf b)
  next
    case False
    from search_gives_up [OF assms(1-9) False D] show ?thesis using False by simp
  qed
qed

theorem Isac_search_exact_witness:
  "\<not> apart 7 49 148 \<and> logist_search 0xFFFFFFFF 7 (scaled_bound 0xFFFFFFFF (cdf_above 18895 7)) 49 = Some (Inl (- 1)) \<and>
   apart 256 49 4 \<and> logist_search 0xFFFFFFFF 256 (scaled_bound 0xFFFFFFFF (cdf_above 463 256)) 49 =
     Some (Inr (463, scaled_bound 0xFFFFFFFF (cdf_below 463 256), scaled_bound 0xFFFFFFFF (cdf_above 463 256)))"
proof -
  have far: "\<not> apart 7 49 148" and near: "apart 256 49 4" by code_simp+
  have c: "cdf_below 18895 7 + 2 \<le> cdf_above 18895 7"
    "scaled_bound 0xFFFFFFFF (cdf_below 18895 7) < scaled_bound 0xFFFFFFFF (cdf_above 18895 7)"
    "cdf_below 463 256 + 2 \<le> cdf_above 463 256"
    "scaled_bound 0xFFFFFFFF (cdf_below 463 256) < scaled_bound 0xFFFFFFFF (cdf_above 463 256)" by code_simp+
  show ?thesis
    using Isac_search_exact [of "0xFFFFFFFF" 7 49 18895, OF _ _ _ _ _ _ _ _ _ c(1,2) order_refl]
      Isac_search_exact [of "0xFFFFFFFF" 256 49 463, OF _ _ _ _ _ _ _ _ _ c(3,4) order_refl] far near by simp
qed

text \<open>
  A frame that is coded and refused: the sample 18895 of width 7 is coded without clipping, and the
  decoder answers -1, because two candidates before the sample share a bound.
\<close>

theorem Isac_logistic_refused:
  "\<exists>e n e' d xs. WebRtcIsacfix_EncLogisticMulti2 (new_encoder (replicate 200 0)) [18895, - 49, - 49, - 49] [7] =
      Some (0, e, [18895, - 49, - 49, - 49]) \<and>
    WebRtcIsacfix_EncTerminate e = Some (n, e') \<and> widths [49] (first_root 49) = Some [7] \<and>
    WebRtcIsacfix_DecLogisticMulti2 [49, 49, 49, 49] (new_decoder (take 10 (enc_stream e'))) [49] = Some (- 1, d, xs)"
proof -
  have "case WebRtcIsacfix_EncLogisticMulti2 (new_encoder (replicate 200 0)) [18895, - 49, - 49, - 49] [7] of
      Some (r, e, data) \<Rightarrow> r = 0 \<and> data = [18895, - 49, - 49, - 49] \<and>
        (case WebRtcIsacfix_EncTerminate e of
           Some (n, e') \<Rightarrow> map_option fst (WebRtcIsacfix_DecLogisticMulti2 [49, 49, 49, 49]
             (new_decoder (take 10 (enc_stream e'))) [49]) = Some (- 1)
         | None \<Rightarrow> False)
    | None \<Rightarrow> False"
    by code_simp
  moreover have "widths [49] (first_root 49) = Some [7]" by code_simp
  ultimately show ?thesis by (auto split: option.splits)
qed

text \<open>\<open>WebRtcIsacfix_Piecewise\<close> is a distribution function: it rises from 0 to 65535.\<close>

theorem Isac_Piecewise_monotone:
  assumes "x \<le> y"
  shows "0 \<le> WebRtcIsacfix_Piecewise x \<and> WebRtcIsacfix_Piecewise x \<le> WebRtcIsacfix_Piecewise y \<and>
    WebRtcIsacfix_Piecewise y < 65536 \<and> (x \<le> - 327680 \<longrightarrow> WebRtcIsacfix_Piecewise x = 0) \<and>
    (327680 \<le> y \<longrightarrow> WebRtcIsacfix_Piecewise y = 65535)"
proof -
  have "WebRtcIsacfix_Piecewise x = 0" if "x \<le> - 327680"
  proof -
    have "clamp15 x = - 327680" using that by (simp add: clamp15_def)
    then show ?thesis by (simp add: Piecewise_eq seg_def ramp_def kCdfLogistic_def kHistEdges_def kCdfSlope_def)
  qed
  moreover have "WebRtcIsacfix_Piecewise y = 65535" if "327680 \<le> y"
  proof -
    have "clamp15 y = 327680" using that by (simp add: clamp15_def)
    then show ?thesis by (simp add: Piecewise_eq seg_def ramp_def kCdfLogistic_def kHistEdges_def kCdfSlope_def)
  qed
  ultimately show ?thesis using Piecewise_range [of x] Piecewise_range [of y] Piecewise_mono [OF assms] by auto
qed

theorem Isac_Piecewise_monotone_witness:
  "WebRtcIsacfix_Piecewise (- 400000) = 0 \<and> WebRtcIsacfix_Piecewise 400000 = 65535"
  using Isac_Piecewise_monotone [of "- 400000" 400000] by simp

end
