(* ===== verification/SplLpc.thy ===== *)
theory SplLpc
  imports SplArith
begin

text \<open>
  Reflection coefficients of the signal processing library: \<open>WebRtcSpl_AutoCorrToReflCoef\<close>, the
  Schur recursion from an autocorrelation to reflection coefficients, and
  \<open>WebRtcSpl_ReflCoefToLpc\<close>, from these to a prediction filter.  The working arrays of the
  recursion are lists that get shorter with every order, since the code does not read the
  entries behind them again.
\<close>

section \<open>From autocorrelation to reflection coefficients\<close>

text \<open>The division of two fractions, 15 bits of the quotient.\<close>

fun refl_div :: "nat \<Rightarrow> int16 \<Rightarrow> int32 \<Rightarrow> int32 \<Rightarrow> int16" where
  "refl_div 0 K L_num L_den = K"
| "refl_div (Suc i) K L_num L_den =
     (let K = s16 (K * 2); L_num = s32 (L_num * 2)
      in if L_num \<ge> L_den then refl_div i (s16 (K + 1)) (s32 (L_num - L_den)) L_den
         else refl_div i K L_num L_den)"

definition round15 :: "int16 \<Rightarrow> int16 \<Rightarrow> int16" where
  "round15 x K = s16 (shr (x * K + 16384) 15)"

text \<open>
  The coefficients of the orders that are left, at least one; \<open>P\<close> starts with \<open>P[0]\<close>, \<open>W\<close>
  with \<open>W[1]\<close>.
\<close>

fun refl_loop :: "nat \<Rightarrow> int16 list \<Rightarrow> int16 list \<Rightarrow> int16 list" where
  "refl_loop 0 P W = []"
| "refl_loop (Suc r) P W =
     (let tmp = s16 (ABS_W16 (P ! 1))
      in if P ! 0 < tmp then replicate (Suc r) 0
         else let K = (if tmp \<noteq> 0 then refl_div 15 0 tmp (P ! 0) else 0);
                  K = (if tmp \<noteq> 0 \<and> P ! 1 > 0 then s16 (- K) else K)
              in if r = 0 then [K]
                 else K # refl_loop r
                   (WebRtcSpl_AddSatW16 (P ! 0) (round15 (P ! 1) K) #
                      map (\<lambda>i. WebRtcSpl_AddSatW16 (P ! (i + 1)) (round15 (W ! (i - 1)) K)) [1..<r + 1])
                   (map (\<lambda>i. WebRtcSpl_AddSatW16 (W ! (i - 1)) (round15 (P ! (i + 1)) K)) [1..<r + 1]))"

definition WebRtcSpl_AutoCorrToReflCoef :: "int32 list \<Rightarrow> nat \<Rightarrow> int16 list" where
  "WebRtcSpl_AutoCorrToReflCoef R use_order =
     (let tmp = nat (WebRtcSpl_NormW32 (R ! 0));
          ACF = map (\<lambda>i. s16 (shr (s32 (R ! i * 2 ^ tmp)) 16)) [0..<use_order + 1]
      in refl_loop use_order ACF (drop 1 ACF))"

section \<open>From reflection coefficients to a filter\<close>

text \<open>The filter of order \<open>m\<close> with one more coefficient.\<close>

definition lpc_step :: "int16 list \<Rightarrow> nat \<Rightarrow> int16 \<Rightarrow> int16 list" where
  "lpc_step a m k =
     a ! 0 # map (\<lambda>i. s16 (a ! (1 + i) + s16 (MUL_16_16_RSFT (a ! (m - i)) k 15))) [0..<m] @ [shr k 3]"

definition WebRtcSpl_ReflCoefToLpc :: "int16 list \<Rightarrow> nat \<Rightarrow> int16 list" where
  "WebRtcSpl_ReflCoefToLpc k use_order =
     foldl (\<lambda>a m. lpc_step a m (k ! m)) [4096, shr (k ! 0) 3] [1..<use_order]"

section \<open>Properties\<close>

text \<open>The quotient is that of the fraction, below one even for equal operands.\<close>

lemma refl_div_correct:
  assumes "0 \<le> num" "num \<le> den" "0 < den" "den < 32768" "0 \<le> K" "(K + 1) * 2 ^ n \<le> 32768"
  shows "refl_div n K num den = K * 2 ^ n + min (2 ^ n - 1) (num * 2 ^ n div den)"
  using assms
proof (induction n arbitrary: K num)
  case (Suc n)
  have "2 * (K + 1) \<le> 2 ^ Suc n * (K + 1)" using Suc.prems(5) by (intro mult_right_mono) auto
  then have K: "2 * K + 1 \<le> 32767" using Suc.prems(6) by (simp add: algebra_simps)
  have u: "s16 (K * 2) = 2 * K" "s16 (2 * K + 1) = 2 * K + 1" "s32 (num * 2) = 2 * num" "s32 (2 * num - den) = 2 * num - den"
    using K Suc.prems by simp_all
  show ?case
  proof (cases "2 * num \<ge> den")
    case True
    have "(2 * num - den) * 2 ^ n div den = num * 2 ^ Suc n div den - 2 ^ n"
    proof -
      have "num * 2 ^ Suc n = (2 * num - den) * 2 ^ n + 2 ^ n * den" by (simp add: algebra_simps)
      then show ?thesis using Suc.prems(3) by simp
    qed
    moreover have "refl_div n (2 * K + 1) (2 * num - den) den =
        (2 * K + 1) * 2 ^ n + min (2 ^ n - 1) ((2 * num - den) * 2 ^ n div den)"
      using Suc.prems True K by (intro Suc.IH) (simp_all add: algebra_simps)
    moreover have "refl_div (Suc n) K num den = refl_div n (2 * K + 1) (2 * num - den) den"
      unfolding refl_div.simps Let_def u using True by simp
    ultimately show ?thesis by (simp add: distrib_right min_def)
  next
    case False
    have "refl_div n (2 * K) (2 * num) den = 2 * K * 2 ^ n + min (2 ^ n - 1) (2 * num * 2 ^ n div den)"
    proof (rule Suc.IH)
      have "(0::int) \<le> 2 ^ n" by simp
      then show "(2 * K + 1) * 2 ^ n \<le> 32768" using Suc.prems(6) unfolding power_Suc distrib_right by linarith
    qed (use Suc.prems False in simp_all)
    moreover have "2 * num * 2 ^ n div den < 2 ^ n"
    proof -
      have "2 * num * 2 ^ n < 2 ^ n * den" using False by simp
      then show ?thesis using Suc.prems(3) by (simp add: div_less_iff)
    qed
    moreover have "refl_div (Suc n) K num den = refl_div n (2 * K) (2 * num) den"
      unfolding refl_div.simps Let_def u using False by simp
    moreover have "num * 2 ^ Suc n div den = 2 * num * 2 ^ n div den" by (simp add: ac_simps)
    moreover have "min (2 ^ n - 1) q = q \<and> min (2 ^ Suc n - 1) q = q" if "q < 2 ^ n" for q :: int
    proof -
      have "(0::int) < 2 ^ n" by simp
      then show ?thesis using that by (simp add: min_def; linarith)
    qed
    moreover have "2 * K * 2 ^ n = K * 2 ^ Suc n" by simp
    ultimately show ?thesis by presburger
  qed
qed (simp add: min_def pos_imp_zdiv_nonneg_iff)

lemma refl_loop_length [c_shape]: "length (refl_loop r P W) = r"
  by (induction r P W rule: refl_loop.induct) (simp_all add: Let_def)

lemma AutoCorrToReflCoef_length [c_shape]: "length (WebRtcSpl_AutoCorrToReflCoef R n) = n"
  by (simp add: WebRtcSpl_AutoCorrToReflCoef_def Let_def refl_loop_length)

lemma lpc_step_length: "length (lpc_step a m k) = m + 2"
  by (simp add: lpc_step_def)

lemma ReflCoefToLpc_length [c_shape]:
  assumes "0 < n"
  shows "length (WebRtcSpl_ReflCoefToLpc k n) = n + 1"
proof -
  have "length (foldl (\<lambda>a m. lpc_step a m (k ! m)) [4096, shr (k ! 0) 3] [1..<Suc m]) = m + 2" for m
    by (cases m) (simp_all add: lpc_step_length)
  from this [of "n - 1"] show ?thesis using assms by (simp add: WebRtcSpl_ReflCoefToLpc_def)
qed

lemma refl_loop_s16: "x \<in> set (refl_loop r P W) \<Longrightarrow> is_s16 x"
proof (induction r P W rule: refl_loop.induct)
  case (2 r P W)
  have d: "is_s16 (refl_div n K a b)" if "is_s16 K" for n K a b
    using that by (induction n K a b rule: refl_div.induct) (simp_all add: Let_def)
  have z: "is_s16 0" by (simp add: is_s16_def)
  then have "is_s16 (refl_div 15 0 a b)" for a b by (rule d)
  with 2 z show ?case by (auto simp: Let_def split: if_splits)
qed simp

end
