(* ===== verification/IsacSpectrum.thy ===== *)
theory IsacSpectrum
  imports IsacLogist SplLpc
begin

text \<open>
  The spectrum coder of fixed-point iSAC (\<open>entropy_coding.c\<close>): the spectrum is quantised with a
  dither both sides can derive, its envelope is described by quantised reflection coefficients
  and a gain, and the logistic coder writes the samples with the widths that follow from the
  quantised envelope.  Tables are those of \<open>spectrum_ar_model_tables.c\<close>.
\<close>

section \<open>Tables\<close>

definition WebRtcIsacfix_kRc1Cdf :: "int list" where
  "WebRtcIsacfix_kRc1Cdf = [
    0, 2, 4, 129, 7707, 57485, 65495, 65527, 65529, 65531, 65533, 65535]"

definition WebRtcIsacfix_kRc2Cdf :: "int list" where
  "WebRtcIsacfix_kRc2Cdf = [
    0, 2, 4, 7, 531, 25298, 64525, 65526, 65529, 65531, 65533, 65535]"

definition WebRtcIsacfix_kRc3Cdf :: "int list" where
  "WebRtcIsacfix_kRc3Cdf = [
    0, 2, 4, 6, 620, 22898, 64843, 65527, 65529, 65531, 65533, 65535]"

definition WebRtcIsacfix_kRc4Cdf :: "int list" where
  "WebRtcIsacfix_kRc4Cdf = [
    0, 2, 4, 6, 35, 10034, 60733, 65506, 65529, 65531, 65533, 65535]"

definition WebRtcIsacfix_kRc5Cdf :: "int list" where
  "WebRtcIsacfix_kRc5Cdf = [
    0, 2, 4, 6, 36, 7567, 56727, 65385, 65529, 65531, 65533, 65535]"

definition WebRtcIsacfix_kRc6Cdf :: "int list" where
  "WebRtcIsacfix_kRc6Cdf = [
    0, 2, 4, 6, 14, 6579, 57360, 65409, 65529, 65531, 65533, 65535]"

definition WebRtcIsacfix_kRc1Levels :: "int list" where
  "WebRtcIsacfix_kRc1Levels = [
    - 32104, - 29007, - 23202, - 15496, - 9279, - 2577, 5934, 17535, 24512, 29503, 32104]"

definition WebRtcIsacfix_kRc2Levels :: "int list" where
  "WebRtcIsacfix_kRc2Levels = [
    - 32104, - 29503, - 23494, - 15261, - 7309, - 1399, 6158, 16381, 24512, 29503, 32104]"

definition WebRtcIsacfix_kRc3Levels :: "int list" where
  "WebRtcIsacfix_kRc3Levels = [
    - 32104, - 29503, - 23157, - 15186, - 7347, - 1359, 5829, 17535, 24512, 29503, 32104]"

definition WebRtcIsacfix_kRc4Levels :: "int list" where
  "WebRtcIsacfix_kRc4Levels = [
    - 32104, - 29503, - 24512, - 15362, - 6665, - 342, 6596, 14585, 24512, 29503, 32104]"

definition WebRtcIsacfix_kRc5Levels :: "int list" where
  "WebRtcIsacfix_kRc5Levels = [
    - 32104, - 29503, - 24512, - 15005, - 6564, - 106, 7123, 14920, 24512, 29503, 32104]"

definition WebRtcIsacfix_kRc6Levels :: "int list" where
  "WebRtcIsacfix_kRc6Levels = [
    - 32104, - 29503, - 24512, - 15096, - 6656, - 37, 7036, 14847, 24512, 29503, 32104]"

definition WebRtcIsacfix_kRcBound :: "int list" where
  "WebRtcIsacfix_kRcBound = [
    - 32768, - 31441, - 27566, - 21458, - 13612, - 4663, 4663, 13612, 21458, 27566, 31441,
    32767]"

definition WebRtcIsacfix_kRcInitInd :: "nat list" where
  "WebRtcIsacfix_kRcInitInd = [
    5, 5, 5, 5, 5, 5]"

definition WebRtcIsacfix_kGainCdf :: "int list" where
  "WebRtcIsacfix_kGainCdf = [
    0, 2, 4, 6, 8, 10, 12, 14, 16, 1172, 11119, 29411, 51699, 64445, 65527, 65529, 65531,
    65533, 65535]"

definition WebRtcIsacfix_kGain2Lev :: "int list" where
  "WebRtcIsacfix_kGain2Lev = [
    128, 128, 128, 128, 128, 215, 364, 709, 1268, 1960, 3405, 6078, 11286, 17827, 51918,
    134498, 487432, 2048000]"

definition WebRtcIsacfix_kGain2Bound :: "int list" where
  "WebRtcIsacfix_kGain2Bound = [
    0, 21, 35, 59, 99, 166, 280, 475, 815, 1414, 2495, 4505, 8397, 16405, 34431, 81359,
    240497, 921600, 2147483647]"

definition WebRtcIsacfix_kGainInitInd :: "nat list" where
  "WebRtcIsacfix_kGainInitInd = [
    11]"

definition WebRtcIsacfix_kCos :: "int list list" where
  "WebRtcIsacfix_kCos = [
    [
      512, 512, 511, 510, 508, 507, 505, 502, 499, 496, 493, 489, 485, 480, 476, 470, 465,
      459, 453, 447, 440, 433, 426, 418, 410, 402, 394, 385, 376, 367, 357, 348, 338, 327,
      317, 306, 295, 284, 273, 262, 250, 238, 226, 214, 202, 190, 177, 165, 152, 139, 126,
      113, 100, 87, 73, 60, 47, 33, 20, 7],
    [
      512, 510, 508, 503, 498, 491, 483, 473, 462, 450, 437, 422, 406, 389, 371, 352, 333,
      312, 290, 268, 244, 220, 196, 171, 145, 120, 93, 67, 40, 13, - 13, - 40, - 67, - 93,
      - 120, - 145, - 171, - 196, - 220, - 244, - 268, - 290, - 312, - 333, - 352, - 371,
      - 389, - 406, - 422, - 437, - 450, - 462, - 473, - 483, - 491, - 498, - 503, - 508,
      - 510, - 512],
    [
      512, 508, 502, 493, 480, 465, 447, 426, 402, 376, 348, 317, 284, 250, 214, 177, 139,
      100, 60, 20, - 20, - 60, - 100, - 139, - 177, - 214, - 250, - 284, - 317, - 348, - 376,
      - 402, - 426, - 447, - 465, - 480, - 493, - 502, - 508, - 512, - 512, - 508, - 502,
      - 493, - 480, - 465, - 447, - 426, - 402, - 376, - 348, - 317, - 284, - 250, - 214,
      - 177, - 139, - 100, - 60, - 20],
    [
      511, 506, 495, 478, 456, 429, 398, 362, 322, 279, 232, 183, 133, 80, 27, - 27, - 80,
      - 133, - 183, - 232, - 279, - 322, - 362, - 398, - 429, - 456, - 478, - 495, - 506,
      - 511, - 511, - 506, - 495, - 478, - 456, - 429, - 398, - 362, - 322, - 279, - 232,
      - 183, - 133, - 80, - 27, 27, 80, 133, 183, 232, 279, 322, 362, 398, 429, 456, 478,
      495, 506, 511],
    [
      511, 502, 485, 459, 426, 385, 338, 284, 226, 165, 100, 33, - 33, - 100, - 165, - 226,
      - 284, - 338, - 385, - 426, - 459, - 485, - 502, - 511, - 511, - 502, - 485, - 459,
      - 426, - 385, - 338, - 284, - 226, - 165, - 100, - 33, 33, 100, 165, 226, 284, 338,
      385, 426, 459, 485, 502, 511, 511, 502, 485, 459, 426, 385, 338, 284, 226, 165, 100, 33],
    [
      510, 498, 473, 437, 389, 333, 268, 196, 120, 40, - 40, - 120, - 196, - 268, - 333,
      - 389, - 437, - 473, - 498, - 510, - 510, - 498, - 473, - 437, - 389, - 333, - 268,
      - 196, - 120, - 40, 40, 120, 196, 268, 333, 389, 437, 473, 498, 510, 510, 498, 473,
      437, 389, 333, 268, 196, 120, 40, - 40, - 120, - 196, - 268, - 333, - 389, - 437,
      - 473, - 498, - 510]]"

definition WebRtcIsacfix_kRcCdfPtr :: "int list list" where
  "WebRtcIsacfix_kRcCdfPtr = [
    WebRtcIsacfix_kRc1Cdf, WebRtcIsacfix_kRc2Cdf, WebRtcIsacfix_kRc3Cdf,
    WebRtcIsacfix_kRc4Cdf, WebRtcIsacfix_kRc5Cdf, WebRtcIsacfix_kRc6Cdf]"

definition WebRtcIsacfix_kRcLevPtr :: "int list list" where
  "WebRtcIsacfix_kRcLevPtr = [
    WebRtcIsacfix_kRc1Levels, WebRtcIsacfix_kRc2Levels, WebRtcIsacfix_kRc3Levels,
    WebRtcIsacfix_kRc4Levels, WebRtcIsacfix_kRc5Levels, WebRtcIsacfix_kRc6Levels]"

definition WebRtcIsacfix_kGainPtr :: "int list list" where
  "WebRtcIsacfix_kGainPtr = [WebRtcIsacfix_kGainCdf]"

abbreviation (input) FRAMESAMPLES :: nat where "FRAMESAMPLES \<equiv> 480"
abbreviation (input) AR_ORDER :: nat where "AR_ORDER \<equiv> 6"
abbreviation (input) ISAC_RANGE_ERROR_DECODE_SPECTRUM :: int where
  "ISAC_RANGE_ERROR_DECODE_SPECTRUM \<equiv> 6690"

definition sum32 :: "int32 \<Rightarrow> int32 list \<Rightarrow> int32" where
  "sum32 a xs = foldl (\<lambda>s x. s32 (s + x)) a xs"

section \<open>Envelope\<close>

definition CalcCorrelation :: "int32 list \<Rightarrow> int32 list" where
  "CalcCorrelation PSpecQ12 =
     (let summ = map (\<lambda>k. shr (s32 (s32 (PSpecQ12 ! k + PSpecQ12 ! (119 - k)) + 16)) 5) [0..<60];
          diff = map (\<lambda>k. shr (s32 (s32 (PSpecQ12 ! k - PSpecQ12 ! (119 - k)) + 16)) 5) [0..<60];
          row = (\<lambda>k xs. sum32 0 (map2 (\<lambda>c x. shr (s32 (s32 (c * x) + 256)) 9) (WebRtcIsacfix_kCos ! k) xs))
      in [sum32 2 summ, row 0 diff, row 1 summ, row 2 diff, row 3 summ, row 4 diff, row 5 summ])"

text \<open>
  The part that \<open>CalcInvArSpec\<close> and \<open>CalcRootInvArSpec\<close> share, line by line: the correlation of
  the filter, scaled by the gain, and its even and odd cosine sums with the shift of the latter.
\<close>

definition inv_ar_corr :: "int16 list \<Rightarrow> int32 \<Rightarrow> int32 list" where
  "inv_ar_corr ARCoefQ12 gainQ10 =
     (let sum = sum32 0 (map (\<lambda>a. s32 (a * a)) (take 7 ARCoefQ12));
          sum = shr (s32 (s32 (shr sum 6 * 65) + 32768)) 16;
          large = gainQ10 > 400000;
          tmpGain = (if large then shr gainQ10 3 else gainQ10);
          rnd = (if large then 32 else 256);
          shftVal = (if large then 6 else 9)
      in shr (s32 (s32 (sum * gainQ10) + 256)) 9 #
         map (\<lambda>k. let sum = shr (sum32 16384 (map (\<lambda>n. s32 (ARCoefQ12 ! (n - k) * ARCoefQ12 ! n)) [k..<7])) 15
                  in shr (s32 (s32 (sum * tmpGain) + rnd)) shftVal) [1..<7])"

definition cos_term :: "int \<Rightarrow> int32 \<Rightarrow> int32" where
  "cos_term c x = shr (s32 (s32 (c * x) + 2)) 2"

definition inv_ar_even :: "int32 list \<Rightarrow> int32 list" where
  "inv_ar_even CorrQ11 =
     (let add = (\<lambda>k xs. map2 (\<lambda>x c. s32 (x + cos_term c (CorrQ11 ! (k + 1)))) xs (WebRtcIsacfix_kCos ! k))
      in add 5 (add 3 (add 1 (replicate 60 (s32 (CorrQ11 ! 0 * 2 ^ 7))))))"

definition inv_ar_shift :: "int32 list \<Rightarrow> nat" where
  "inv_ar_shift CorrQ11 =
     (let sh = (if CorrQ11 ! 1 = 0 then WebRtcSpl_NormW32 (CorrQ11 ! 2) else WebRtcSpl_NormW32 (CorrQ11 ! 1))
      in if sh < 9 then nat (9 - sh) else 0)"

definition inv_ar_odd :: "int32 list \<Rightarrow> nat \<Rightarrow> int32 list" where
  "inv_ar_odd CorrQ11 shftVal =
     (let add = (\<lambda>k xs. map2 (\<lambda>x c. s32 (x + cos_term c (shr (CorrQ11 ! (k + 1)) shftVal))) xs (WebRtcIsacfix_kCos ! k))
      in add 4 (add 2 (map (\<lambda>c. cos_term c (shr (CorrQ11 ! 1) shftVal)) (WebRtcIsacfix_kCos ! 0))))"

text \<open>The power spectrum, for the decoder.\<close>

definition CalcInvArSpec :: "int16 list \<Rightarrow> int32 \<Rightarrow> int32 list" where
  "CalcInvArSpec ARCoefQ12 gainQ10 =
     (let CorrQ11 = inv_ar_corr ARCoefQ12 gainQ10;
          CurveQ16 = inv_ar_even CorrQ11;
          shftVal = inv_ar_shift CorrQ11;
          diffQ16 = inv_ar_odd CorrQ11 shftVal
      in map2 (\<lambda>c d. s32 (c + s32 (d * 2 ^ shftVal))) CurveQ16 diffQ16 @
         rev (map2 (\<lambda>c d. s32 (c - s32 (d * 2 ^ shftVal))) CurveQ16 diffQ16))"

text \<open>Its roots, for the encoder; None is a division by zero.\<close>

fun root_curve :: "int32 \<Rightarrow> int32 list \<Rightarrow> int list option" where
  "root_curve res [] = Some []"
| "root_curve res (in_sqrt # ins) =
     (let in_sqrt = (if in_sqrt < 0 then s32 (- in_sqrt) else in_sqrt)
      in if res = 0 then None
         else case root_loop in_sqrt (shr (s32 (cdiv in_sqrt res + res)) 1) 10 of
                None \<Rightarrow> None
              | Some (res, newRes) \<Rightarrow> map_option ((#) (u16 (s16 newRes))) (root_curve res ins))"

definition CalcRootInvArSpec :: "int16 list \<Rightarrow> int32 \<Rightarrow> int list option" where
  "CalcRootInvArSpec ARCoefQ12 gainQ10 =
     (let CorrQ11 = inv_ar_corr ARCoefQ12 gainQ10;
          summQ16 = inv_ar_even CorrQ11;
          shftVal = inv_ar_shift CorrQ11;
          diffQ16 = inv_ar_odd CorrQ11 shftVal;
          in_sqrt = s32 (summQ16 ! 0 + s32 (diffQ16 ! 0 * 2 ^ shftVal));
          res = 2 ^ nat (shr (WebRtcSpl_GetSizeInBits (u32 in_sqrt)) 1)
      in root_curve res
           (map (\<lambda>k. s32 (summQ16 ! k + s32 (diffQ16 ! k * 2 ^ shftVal))) [0..<60] @
            map (\<lambda>k. s32 (summQ16 ! (119 - k) - s32 (diffQ16 ! (119 - k) * 2 ^ shftVal))) [60..<120]))"

section \<open>Dither\<close>

definition next_seed :: "uint32 \<Rightarrow> uint32" where
  "next_seed seed = u32 (u32 (seed * 196314165) + 907633515)"

definition dither1 :: "uint32 \<Rightarrow> int16" where
  "dither1 seed = s16 (shr (s32 (s32 seed + 16777216)) 25)"

definition dither2 :: "uint32 \<Rightarrow> int16" where
  "dither2 seed = s16 (shr (u32 (seed + 16777216)) 25)"

text \<open>Three samples of which one is zero, and two of which one is zero.\<close>

fun dither_by_3 :: "nat \<Rightarrow> uint32 \<Rightarrow> int16 list" where
  "dither_by_3 0 seed = []"
| "dither_by_3 (Suc n) seed =
     (let seed1 = next_seed seed; d1 = dither1 seed1;
          seed2 = next_seed seed1; d2 = dither2 seed2;
          shft = s16 (shr seed2 25 AND 15)
      in (if shft < 5 then [d1, d2, 0] else if shft < 10 then [d1, 0, d2] else [0, d1, d2]) @
         dither_by_3 n seed2)"

fun dither_by_2 :: "nat \<Rightarrow> int16 \<Rightarrow> uint32 \<Rightarrow> int16 list" where
  "dither_by_2 0 dither_gain_Q14 seed = []"
| "dither_by_2 (Suc n) dither_gain_Q14 seed =
     (let seed = next_seed seed;
          d = s16 (shr (dither_gain_Q14 * dither1 seed + 8192) 14);
          shft = shr seed 25 AND 1
      in (if shft = 0 then [d, 0] else [0, d]) @ dither_by_2 n dither_gain_Q14 seed)"

text \<open>\<open>bufQ7\<close> has \<open>len\<close> entries, a multiple of 6.\<close>

definition GenerateDitherQ7 :: "uint32 \<Rightarrow> nat \<Rightarrow> int16 \<Rightarrow> int16 list" where
  "GenerateDitherQ7 seed len AvgPitchGain_Q12 =
     (if AvgPitchGain_Q12 < 614 then dither_by_3 (len div 3) seed
      else dither_by_2 (len div 2) (s16 (22528 - s32 (10 * AvgPitchGain_Q12))) seed)"

section \<open>Quantised parameters\<close>

text \<open>\<open>while (x > bound[index + 1]) index++\<close> and \<open>while (x < bound[--index])\<close>.\<close>

function quant_up :: "int \<Rightarrow> int list \<Rightarrow> nat \<Rightarrow> nat option" where
  "quant_up x bound index =
     (case word_at bound (index + 1) of
        None \<Rightarrow> None
      | Some b \<Rightarrow> if x > b then quant_up x bound (index + 1) else Some index)"
  by pat_completeness auto

termination
  by (relation "measure (\<lambda>(x, bound, index). length bound - index)") (auto simp: word_at_def split: if_splits)

fun quant_down :: "int \<Rightarrow> int list \<Rightarrow> nat \<Rightarrow> nat option" where
  "quant_down x bound 0 = None"
| "quant_down x bound (Suc index) =
     (case word_at bound index of
        None \<Rightarrow> None
      | Some b \<Rightarrow> if x < b then quant_down x bound index else Some index)"

definition quantise :: "int \<Rightarrow> int list \<Rightarrow> nat \<Rightarrow> nat option" where
  "quantise x bound index =
     (case word_at bound index of
        None \<Rightarrow> None
      | Some b \<Rightarrow> if x > b then quant_up x bound index else quant_down x bound index)"

fun quantise_rc :: "int16 list \<Rightarrow> nat list \<Rightarrow> nat list option" where
  "quantise_rc (r # rs) (i # is) =
     (case (quantise r WebRtcIsacfix_kRcBound i, quantise_rc rs is) of
        (Some d, Some ds) \<Rightarrow> Some (d # ds)
      | _ \<Rightarrow> None)"
| "quantise_rc _ _ = Some []"

definition WebRtcIsacfix_EncodeRcCoef :: "int16 list \<Rightarrow> Bitstr_enc \<Rightarrow> (int \<times> int16 list \<times> Bitstr_enc) option" where
  "WebRtcIsacfix_EncodeRcCoef RCQ15 streamdata =
     (case quantise_rc RCQ15 WebRtcIsacfix_kRcInitInd of
        None \<Rightarrow> None
      | Some index \<Rightarrow>
          map_option (\<lambda>(status, streamdata). (status, map2 (!) WebRtcIsacfix_kRcLevPtr index, streamdata))
            (WebRtcIsacfix_EncHistMulti streamdata (zip (map int index) WebRtcIsacfix_kRcCdfPtr)))"

text \<open>The error, or 0 and the coefficients.\<close>

definition WebRtcIsacfix_DecodeRcCoef :: "Bitstr_dec \<Rightarrow> (int \<times> int16 list \<times> Bitstr_dec) option" where
  "WebRtcIsacfix_DecodeRcCoef streamdata =
     (case WebRtcIsacfix_DecHistOneStepMulti streamdata (zip WebRtcIsacfix_kRcInitInd WebRtcIsacfix_kRcCdfPtr) of
        None \<Rightarrow> None
      | Some (index, err, streamdata) \<Rightarrow>
          if err < 0 then Some (err, [], streamdata)
          else Some (0, map2 (\<lambda>lev i. lev ! nat i) WebRtcIsacfix_kRcLevPtr index, streamdata))"

definition WebRtcIsacfix_EncodeGain2 :: "int32 \<Rightarrow> Bitstr_enc \<Rightarrow> (int \<times> int32 \<times> Bitstr_enc) option" where
  "WebRtcIsacfix_EncodeGain2 gainQ10 streamdata =
     (case quantise gainQ10 WebRtcIsacfix_kGain2Bound (WebRtcIsacfix_kGainInitInd ! 0) of
        None \<Rightarrow> None
      | Some index \<Rightarrow>
          map_option (\<lambda>(status, streamdata). (status, WebRtcIsacfix_kGain2Lev ! index, streamdata))
            (WebRtcIsacfix_EncHistMulti streamdata (zip [int index] WebRtcIsacfix_kGainPtr)))"

definition WebRtcIsacfix_DecodeGain2 :: "Bitstr_dec \<Rightarrow> (int \<times> int32 \<times> Bitstr_dec) option" where
  "WebRtcIsacfix_DecodeGain2 streamdata =
     (case WebRtcIsacfix_DecHistOneStepMulti streamdata (zip WebRtcIsacfix_kGainInitInd WebRtcIsacfix_kGainPtr) of
        None \<Rightarrow> None
      | Some (index, err, streamdata) \<Rightarrow>
          if err < 0 then Some (err, 0, streamdata)
          else Some (0, WebRtcIsacfix_kGain2Lev ! nat (index ! 0), streamdata))"

section \<open>The decoder\<close>

text \<open>The scaling of one group of four samples, and of the frame: \<open>frQ7\<close> and \<open>fiQ7\<close>.\<close>

definition spec_gain :: "int16 \<Rightarrow> int32 \<Rightarrow> int16" where
  "spec_gain AvgPitchGain_Q12 p =
     (if AvgPitchGain_Q12 \<le> 614
      then WebRtcSpl_DivW32W16ResW16 (30 * 2 ^ 10) (s16 (shr (u32 (p + 2195456)) 16))
      else WebRtcSpl_DivW32W16ResW16 (36 * 2 ^ 10) (s16 (shr (u32 (p + 2654208)) 16)))"

fun scale_spec :: "int16 \<Rightarrow> int32 list \<Rightarrow> int16 list \<Rightarrow> int16 list \<times> int16 list" where
  "scale_spec g (p # ps) (d0 # d1 # d2 # d3 # ds) =
     (let gainQ10 = spec_gain g p;
          sc = (\<lambda>d. s16 (shr (d * gainQ10 + 512) 10))
      in case scale_spec g ps ds of (fr, fi) \<Rightarrow> (sc d0 # sc d2 # fr, sc d1 # sc d3 # fi))"
| "scale_spec g _ _ = ([], [])"

text \<open>The result is the number of bytes or the error, \<open>frQ7\<close> and \<open>fiQ7\<close>, and the stream.\<close>

definition WebRtcIsacfix_DecodeSpec ::
    "Bitstr_dec \<Rightarrow> int16 \<Rightarrow> (int \<times> (int16 list \<times> int16 list) \<times> Bitstr_dec) option" where
  "WebRtcIsacfix_DecodeSpec streamdata AvgPitchGain_Q12 =
     (let data = GenerateDitherQ7 (dec_W_upper streamdata) FRAMESAMPLES AvgPitchGain_Q12;
          failed = (\<lambda>d. Some (- ISAC_RANGE_ERROR_DECODE_SPECTRUM, ([], []), d))
      in case WebRtcIsacfix_DecodeRcCoef streamdata of
           None \<Rightarrow> None
         | Some (err, RCQ15, streamdata) \<Rightarrow>
             if err < 0 then failed streamdata
             else let ARCoefQ12 = WebRtcSpl_ReflCoefToLpc RCQ15 AR_ORDER
                  in (case WebRtcIsacfix_DecodeGain2 streamdata of
                        None \<Rightarrow> None
                      | Some (err, gain2_Q10, streamdata) \<Rightarrow>
                          if err < 0 then failed streamdata
                          else let invARSpec2_Q16 = CalcInvArSpec ARCoefQ12 gain2_Q10
                               in (case WebRtcIsacfix_DecLogisticMulti2 data streamdata invARSpec2_Q16 of
                                     None \<Rightarrow> None
                                   | Some (len, streamdata, data) \<Rightarrow>
                                       if len < 1 then failed streamdata
                                       else Some (len, scale_spec AvgPitchGain_Q12 invARSpec2_Q16 data, streamdata))))"

section \<open>The encoder\<close>

text \<open>Quantisation of one sample of the spectrum with its dither.\<close>

definition add_dither :: "int16 \<Rightarrow> int16 \<Rightarrow> int16" where
  "add_dither f dither = s16 (((f + dither + 64) AND 0xFF80) - dither)"

text \<open>The quantised spectrum and its power, four samples at a time.\<close>

definition spec_power :: "int16 list \<Rightarrow> int32" where
  "spec_power vs = s32 (shr (foldl (\<lambda>s v. u32 (s + u32 (u32 v * u32 v))) 0 vs) 2)"

definition quantise_4 :: "int16 list \<Rightarrow> int16 list \<Rightarrow> int16 list \<Rightarrow> int16 list" where
  "quantise_4 fr fi dither =
     [add_dither (fr ! 0) (dither ! 0), add_dither (fi ! 0) (dither ! 1),
      add_dither (fr ! 1) (dither ! 2), add_dither (fi ! 1) (dither ! 3)]"

fun quantise_spec :: "nat \<Rightarrow> int16 list \<Rightarrow> int16 list \<Rightarrow> int16 list \<Rightarrow> int16 list \<times> int32 list" where
  "quantise_spec 0 fr fi dither = ([], [])"
| "quantise_spec (Suc n) fr fi dither =
     (let vs = quantise_4 fr fi dither
      in case quantise_spec n (drop 2 fr) (drop 2 fi) (drop 4 dither) of
           (ws, ps) \<Rightarrow> (vs @ ws, spec_power vs # ps))"

text \<open>The shift that normalises the correlation to 14 bits, and the normalised correlation.\<close>

definition corr_shift :: "int32 list \<Rightarrow> int16" where
  "corr_shift CorrQ7 = s16 (WebRtcSpl_NormW32 (CorrQ7 ! 0) - 18)"

definition normalise_corr :: "int16 \<Rightarrow> int32 list \<Rightarrow> int32 list" where
  "normalise_corr lft_shft CorrQ7 =
     (if lft_shft > 0 then map (\<lambda>c. s32 (c * 2 ^ nat lft_shft)) CorrQ7
      else map (\<lambda>c. shr c (nat (- lft_shft))) CorrQ7)"

text \<open>The energy of the residual, and the squared gain.\<close>

definition residual_energy :: "int16 list \<Rightarrow> int32 list \<Rightarrow> int16 \<Rightarrow> int32" where
  "residual_energy ARCoefQ12 CorrQ7_norm lft_shft =
     (let trm = (\<lambda>j n. shr (s32 (s32 (ARCoefQ12 ! j *
            shr (s32 (s32 (CorrQ7_norm ! (if n \<le> j then j - n else n - j) * ARCoefQ12 ! n) + 256)) 9) + 4)) 3);
          nrg = sum32 0 (concat (map (\<lambda>j. map (trm j) [0..<AR_ORDER + 1]) [0..<AR_ORDER + 1]))
      in if lft_shft > 0 then shr nrg (nat lft_shft) else s32 (nrg * 2 ^ nat (- lft_shft)))"

definition residual_gain :: "int32 \<Rightarrow> int32" where
  "residual_gain nrg = (if nrg > 131072 then WebRtcSpl_DivResultInQ31 120 nrg else 120)"

text \<open>
  The result adds what the local arrays of the function hold at its end: the quantised samples,
  the widths, the quantised reflection coefficients and the quantised gain; an array that
  was not reached is empty and an unset gain is 0.
\<close>

definition encode_spec ::
    "int16 list \<Rightarrow> int16 list \<Rightarrow> Bitstr_enc \<Rightarrow> int16 \<Rightarrow>
     (int \<times> Bitstr_enc \<times> int16 list \<times> int list \<times> int16 list \<times> int32) option" where
  "encode_spec fr fi streamdata AvgPitchGain_Q12 =
     (let dither = GenerateDitherQ7 (enc_W_upper streamdata) FRAMESAMPLES AvgPitchGain_Q12;
          (dataQ7, PSpec) = quantise_spec (FRAMESAMPLES div 4) fr fi dither;
          CorrQ7 = CalcCorrelation PSpec;
          lft_shft = corr_shift CorrQ7;
          CorrQ7_norm = normalise_corr lft_shft CorrQ7
      in do {
        (status, RCQ15, streamdata) \<leftarrow>
          WebRtcIsacfix_EncodeRcCoef (WebRtcSpl_AutoCorrToReflCoef CorrQ7_norm AR_ORDER) streamdata;
        if status < 0 then Some (status, streamdata, dataQ7, [], RCQ15, 0)
        else let ARCoefQ12 = WebRtcSpl_ReflCoefToLpc RCQ15 AR_ORDER;
                 nrg = residual_energy ARCoefQ12 CorrQ7_norm lft_shft
             in do {
               (status, gain2_Q10, streamdata) \<leftarrow> WebRtcIsacfix_EncodeGain2 (residual_gain nrg) streamdata;
               if status \<noteq> 0 then Some (- 1, streamdata, dataQ7, [], RCQ15, gain2_Q10)
               else do {
                 invARSpecQ8 \<leftarrow> CalcRootInvArSpec ARCoefQ12 gain2_Q10;
                 (status, streamdata, dataQ7) \<leftarrow> WebRtcIsacfix_EncLogisticMulti2 streamdata dataQ7 invARSpecQ8;
                 Some (status, streamdata, dataQ7, invARSpecQ8, RCQ15, gain2_Q10) } } })"

definition WebRtcIsacfix_EncodeSpec ::
    "int16 list \<Rightarrow> int16 list \<Rightarrow> Bitstr_enc \<Rightarrow> int16 \<Rightarrow> (int \<times> Bitstr_enc) option" where
  "WebRtcIsacfix_EncodeSpec fr fi streamdata AvgPitchGain_Q12 =
     map_option (\<lambda>(status, streamdata, _). (status, streamdata)) (encode_spec fr fi streamdata AvgPitchGain_Q12)"

end
