(* ===== verification/IsacSpecTrip.thy ===== *)
theory IsacSpecTrip
  imports IsacLogistic IsacSpectrum
begin

text \<open>
  The spectrum coder of \<open>IsacSpectrum\<close> is correct: both sides derive the same widths and the
  same dither, the quantised parameters are read back as they were quantised, and the decoder
  returns the quantised spectrum.  The coders of \<open>IsacRoundTrip\<close> and \<open>IsacLogistic\<close> are
  composed by the relation \<open>in_step\<close> of the two streams.
\<close>

section \<open>The widths of encoder and decoder\<close>

lemma kCos_shape: "length WebRtcIsacfix_kCos = 6" "i < 6 \<Longrightarrow> length (WebRtcIsacfix_kCos ! i) = 60"
proof -
  have "list_all (\<lambda>r. length r = 60) WebRtcIsacfix_kCos \<and> length WebRtcIsacfix_kCos = 6" by code_simp
  then show "length WebRtcIsacfix_kCos = 6" "i < 6 \<Longrightarrow> length (WebRtcIsacfix_kCos ! i) = 60"
    by (auto simp: list_all_length)
qed

lemma inv_ar_length: "length (inv_ar_even c) = 60" "length (inv_ar_odd c s) = 60"
  by (simp_all add: inv_ar_even_def inv_ar_odd_def Let_def kCos_shape)

lemma u16_of_s16: "u16 (s16 x) = u16 x"
proof (rule n16.conv_eqI)
  show "65535 - 0 + 1 dvd s16 x - x" using i16.conv_dvd [of x] by simp
qed

declare root_loop.simps [simp del]

lemma map_upt_reversed: "map (\<lambda>k. f (119 - k)) [60..<120] = rev (map f [0..<60 :: nat])"
  by (rule nth_equalityI) (simp_all add: rev_nth del: upt_rec_numeral)

lemma map2_upt: "length xs = n \<Longrightarrow> length ys = n \<Longrightarrow> map2 f xs ys = map (\<lambda>k. f (xs ! k) (ys ! k)) [0..<n]"
  by (rule nth_equalityI) simp_all

lemma root_curve_widths: "root_curve res xs = widths xs res"
proof (induction xs arbitrary: res)
  case (Cons x xs)
  then show ?case
    unfolding root_curve.simps widths.simps root_step_def Let_def u16_of_s16
    by (cases "res = 0") (auto split: option.split)
qed simp

lemma curve_widths:
  "CalcRootInvArSpec ARCoefQ12 gainQ10 =
     widths (CalcInvArSpec ARCoefQ12 gainQ10) (first_root (hd (CalcInvArSpec ARCoefQ12 gainQ10))) \<and>
   length (CalcInvArSpec ARCoefQ12 gainQ10) = 120"
proof -
  define c where "c = inv_ar_corr ARCoefQ12 gainQ10"
  define ev where "ev = inv_ar_even c"
  define sh where "sh = inv_ar_shift c"
  define od where "od = inv_ar_odd c sh"
  have len: "length ev = 60" "length od = 60" by (simp_all add: ev_def od_def inv_ar_length)
  have curve: "CalcInvArSpec ARCoefQ12 gainQ10 =
      map2 (\<lambda>c d. s32 (c + s32 (d * 2 ^ sh))) ev od @ rev (map2 (\<lambda>c d. s32 (c - s32 (d * 2 ^ sh))) ev od)"
    by (simp add: CalcInvArSpec_def Let_def c_def ev_def sh_def od_def)
  have "hd (CalcInvArSpec ARCoefQ12 gainQ10) = s32 (ev ! 0 + s32 (od ! 0 * 2 ^ sh))"
    using len unfolding curve by (cases ev; cases od) auto
  then have first: "first_root (hd (CalcInvArSpec ARCoefQ12 gainQ10)) =
      2 ^ nat (shr (WebRtcSpl_GetSizeInBits (u32 (s32 (ev ! 0 + s32 (od ! 0 * 2 ^ sh))))) 1)"
    by (simp only: first_root_def)
  have "CalcRootInvArSpec ARCoefQ12 gainQ10 =
      root_curve (first_root (hd (CalcInvArSpec ARCoefQ12 gainQ10))) (CalcInvArSpec ARCoefQ12 gainQ10)"
    unfolding first unfolding curve map2_upt [OF len] map_upt_reversed [symmetric]
    by (simp only: CalcRootInvArSpec_def Let_def c_def ev_def sh_def od_def)
  moreover have "length (CalcInvArSpec ARCoefQ12 gainQ10) = 120"
    unfolding curve by (simp add: len)
  ultimately show ?thesis unfolding root_curve_widths by blast
qed

text \<open>
  C11: The widths with which the encoder writes are the roots the decoder derives from its curve.
\<close>

theorem Isac_widths_agree:
  "CalcRootInvArSpec ARCoefQ12 gainQ10 =
     widths (CalcInvArSpec ARCoefQ12 gainQ10) (first_root (hd (CalcInvArSpec ARCoefQ12 gainQ10))) \<and>
   length (CalcInvArSpec ARCoefQ12 gainQ10) = 120"
  by (rule curve_widths)

section \<open>Dither and quantisation of the spectrum\<close>

lemma dither1_range: "- 64 \<le> dither1 s \<and> dither1 s \<le> 63"
proof -
  define x where "x = s32 (s32 s + 16777216)"
  have "- 2147483648 \<le> x" "x \<le> 2147483647" using i32.conv_range unfolding x_def by blast+
  then have "- 64 \<le> x div 33554432" "x div 33554432 \<le> 63" by linarith+
  then show ?thesis by (simp add: dither1_def x_def [symmetric])
qed

lemma dither2_range: "0 \<le> dither2 s \<and> dither2 s \<le> 127"
proof -
  define x where "x = u32 (s + 16777216)"
  have "0 \<le> x" "x \<le> 4294967295" using n32.conv_range unfolding x_def by blast+
  then have "0 \<le> x div 33554432" "x div 33554432 \<le> 127" by linarith+
  then show ?thesis by (simp add: dither2_def x_def [symmetric])
qed

lemma gain_dither_range:
  assumes "is_s16 g" "- 64 \<le> d" "d \<le> 63"
  shows "- 128 \<le> s16 (shr (g * d + 8192) 14) \<and> s16 (shr (g * d + 8192) 14) \<le> 128"
proof -
  have "\<bar>g * d\<bar> \<le> 32768 * 64" using assms by (intro abs_mult_le) (auto simp: is_s16_def)
  then have "- 2097152 \<le> g * d" "g * d \<le> 2097152" by linarith+
  then have "- 128 \<le> (g * d + 8192) div 16384" "(g * d + 8192) div 16384 \<le> 128" by linarith+
  then show ?thesis by simp
qed

lemma dither_by_3_range: "t \<in> set (dither_by_3 n s) \<Longrightarrow> - 128 \<le> t \<and> t \<le> 128"
proof (induction n s rule: dither_by_3.induct)
  case (2 n s)
  then show ?case
    using dither1_range [of "next_seed s"] dither2_range [of "next_seed (next_seed s)"]
    by (auto simp: Let_def split: if_splits)
qed simp

lemma dither_by_2_range: "is_s16 g \<Longrightarrow> t \<in> set (dither_by_2 n g s) \<Longrightarrow> - 128 \<le> t \<and> t \<le> 128"
proof (induction n g s rule: dither_by_2.induct)
  case (2 n g s)
  then show ?case
    using gain_dither_range [of g "dither1 (next_seed s)"] dither1_range [of "next_seed s"]
    by (auto simp: Let_def split: if_splits)
qed simp

lemma dither_lengths: "length (dither_by_3 n s) = 3 * n" "length (dither_by_2 n g s) = 2 * n"
  by (induction n arbitrary: s) (simp_all add: Let_def)

lemma GenerateDither_range:
  assumes "t \<in> set (GenerateDitherQ7 s n g)"
  shows "- 128 \<le> t \<and> t \<le> 128"
  using assms dither_by_3_range dither_by_2_range [of "s16 (22528 - s32 (10 * g))"]
  by (auto simp: GenerateDitherQ7_def split: if_splits)

lemma GenerateDither_length: "length (GenerateDitherQ7 s 480 g) = 480"
  by (simp add: GenerateDitherQ7_def dither_lengths)

lemma and_FF80: "x AND 0xFF80 = x mod 65536 - x mod (128::int)"
proof -
  have "x AND 0xFF80 = (x AND 0xFFFF) - (x AND 0x7F)"
  proof -
    have "(x AND 0xFFFF) = (x AND 0xFF80) OR (x AND 0x7F)"
      by (simp flip: bit.conj_disj_distrib add: and.left_commute)
    moreover have "(x AND 0xFF80) AND (x AND 0x7F) = 0"
      by (simp add: and.assoc and.left_commute [of 65408 x])
    ultimately show ?thesis by (simp add: disjunctive_add_eq_or [symmetric])
  qed
  then show ?thesis
    using take_bit_eq_mask [of 16 x] take_bit_eq_mask [of 7 x] by (simp add: take_bit_eq_mod mask_eq_exp_minus_1)
qed

lemma add_dither_eq:
  assumes "- 32704 \<le> f" "f \<le> 32703"
  shows "add_dither f t = f + 64 - (f + t + 64) mod 128"
proof -
  define x where "x = f + t + 64"
  have r: "0 \<le> x mod 128" "x mod 128 < 128" by simp_all
  have "s16 (x mod 65536 - x mod 128 - t) = s16 (x - x mod 128 - t)"
  proof (rule i16.conv_eqI)
    have "65536 dvd x mod 65536 - x" by (metis dvd_minus_iff dvd_minus_mod minus_diff_eq)
    then show "32767 - - 32768 + 1 dvd x mod 65536 - x mod 128 - t - (x - x mod 128 - t)" by simp
  qed
  also have "\<dots> = x - x mod 128 - t" using r assms by (intro s16_id) (auto simp: x_def)
  finally show ?thesis by (simp add: add_dither_def and_FF80 x_def)
qed

text \<open>The sum of a quantised sample and its dither is a multiple of the step.\<close>

lemma add_dither_quantised:
  assumes "- 32704 \<le> f" "f \<le> 32703"
  shows "128 dvd add_dither f t + t" "\<bar>add_dither f t - f\<bar> \<le> 64"
proof -
  have "add_dither f t + t = (f + t + 64) - (f + t + 64) mod 128" using add_dither_eq [OF assms] by simp
  then show "128 dvd add_dither f t + t" by (simp only: dvd_minus_mod)
  have "0 \<le> (f + t + 64) mod 128" "(f + t + 64) mod 128 < 128" by simp_all
  then show "\<bar>add_dither f t - f\<bar> \<le> 64" using add_dither_eq [OF assms, of t] by linarith
qed

text \<open>Closer to the ends of the range of 16 bits the sum wraps around.\<close>

lemma add_dither_wraps: "add_dither 32767 0 = - 32768"
  by code_simp

section \<open>Coders in step\<close>

abbreviation enc_at :: "Bitstr_enc \<Rightarrow> enc_pos" where
  "enc_at e \<equiv> (enc_stream e, enc_index e, enc_full e)"

abbreviation enc_bytes :: "Bitstr_enc \<Rightarrow> nat" where
  "enc_bytes e \<equiv> nbytes (enc_index e, enc_full e)"

definition coding :: "Bitstr_enc \<Rightarrow> bool" where
  "coding e \<longleftrightarrow> enc_inv (enc_at e) (enc_streamval e) (enc_W_upper e) \<and> 16777216 \<le> enc_W_upper e"

definition followed :: "int list \<Rightarrow> Bitstr_enc \<Rightarrow> bool" where
  "followed S e \<longleftrightarrow> follows (enc_at e) (enc_streamval e) (enc_W_upper e) S"

definition in_step :: "int list \<Rightarrow> Bitstr_enc \<Rightarrow> Bitstr_dec \<Rightarrow> bool" where
  "in_step S e d \<longleftrightarrow> dec_stream d = S \<and> dec_size d = int (length S) \<and> dec_W_upper d = enc_W_upper e \<and>
     (\<exists>q. dec_start d = Some (q, distance S (enc_at e) (enc_streamval e)) \<and> dec_at q (enc_bytes e))"

lemma coding_bytes: "coding e \<Longrightarrow> enc_bytes e \<le> 399"
  by (auto simp: coding_def enc_inv_def enc_ok_def nbytes_def)

lemma in_step_finish:
  assumes "coding e" "dec_stream d = S" "dec_size d = int (length S)" "dec_at q (enc_bytes e)"
  shows "\<exists>n d'. dec_finish d q (distance S (enc_at e) (enc_streamval e)) (enc_W_upper e) = (int n, d') \<and>
    in_step S e d' \<and> n = enc_bytes e + (if enc_W_upper e > 33554431 then 1 else 2)"
proof -
  obtain n d' where d': "dec_finish d q (distance S (enc_at e) (enc_streamval e)) (enc_W_upper e) = (n, d')"
    by (cases "dec_finish d q (distance S (enc_at e) (enc_streamval e)) (enc_W_upper e)")
  have "n = int (enc_bytes e + (if enc_W_upper e > 33554431 then 1 else 2))"
    using dec_finish_length [OF assms(4) coding_bytes [OF assms(1)], of d "distance S (enc_at e) (enc_streamval e)" "enc_W_upper e"]
    by (simp add: d' split: if_splits)
  moreover have "d' = d\<lparr>dec_index := fst q, dec_full := snd q, dec_W_upper := enc_W_upper e,
      dec_streamval := distance S (enc_at e) (enc_streamval e)\<rparr>"
    using d' by (simp add: dec_finish_def Let_def split: if_splits)
  moreover have "fst q \<noteq> 0" using assms(4) by (auto simp: dec_at_def nbytes_def split: if_splits)
  ultimately show ?thesis using d' assms(2-4) by (cases q) (simp add: in_step_def dec_start_def)
qed

text \<open>A list of symbols, from any state in which the coders are in step.\<close>

lemma hist_in_step:
  assumes e: "coding e" and ys: "\<forall>y\<in>set ys. one_step.encodable y"
    and enc: "WebRtcIsacfix_EncHistMulti e (map one_step.for_encoder ys) = Some (0, e1)"
  shows "coding e1 \<and> (followed S e1 \<longrightarrow> followed S e \<and> (\<forall>d. in_step S e d \<longrightarrow>
     (\<exists>n d1. WebRtcIsacfix_DecHistOneStepMulti d (map snd ys) = Some (map (int \<circ> fst) ys, int n, d1) \<and> in_step S e1 d1)))"
proof -
  have loop: "enc_hist_loop (map one_step.for_encoder ys) (enc_at e) (enc_streamval e) (enc_W_upper e) =
      Some (True, enc_at e1, enc_streamval e1, enc_W_upper e1)"
    using enc by (auto simp: WebRtcIsacfix_EncHistMulti_def Let_def split: option.splits prod.splits if_splits)
  note ed = one_step.encode_decode [OF ys _ _ loop, unfolded snd_conv]
  have c1: "coding e1" using ed e by (simp add: coding_def)
  have W: "enc_W_upper e \<noteq> 0" using e by (auto simp: coding_def)
  show ?thesis
  proof (intro conjI impI allI)
    show "coding e1" by (rule c1)
    assume f: "followed S e1"
    then show "followed S e" using ed e by (simp add: coding_def followed_def)
    fix d assume d: "in_step S e d"
    then obtain q where q: "dec_start d = Some (q, distance S (enc_at e) (enc_streamval e))" "dec_at q (enc_bytes e)"
      by (auto simp: in_step_def)
    have "\<exists>q2. dec_one_step_loop S (map snd ys) q (distance S (enc_at e) (enc_streamval e)) (enc_W_upper e) =
        Some (map (int \<circ> fst) ys, q2, distance S (enc_at e1) (enc_streamval e1), enc_W_upper e1, 0) \<and> dec_at q2 (enc_bytes e1)"
      using ed [of S] e f q(2) unfolding coding_def followed_def by blast
    then obtain q2 where q2: "dec_one_step_loop S (map snd ys) q (distance S (enc_at e) (enc_streamval e)) (enc_W_upper e) =
        Some (map (int \<circ> fst) ys, q2, distance S (enc_at e1) (enc_streamval e1), enc_W_upper e1, 0)" "dec_at q2 (enc_bytes e1)"
      by blast
    have ds: "dec_stream d = S" "dec_size d = int (length S)" using d by (simp_all add: in_step_def)
    from in_step_finish [OF c1 ds q2(2)] obtain n d' where
      "dec_finish d q2 (distance S (enc_at e1) (enc_streamval e1)) (enc_W_upper e1) = (int n, d')" "in_step S e1 d'"
      by blast
    then show "\<exists>n d1. WebRtcIsacfix_DecHistOneStepMulti d (map snd ys) = Some (map (int \<circ> fst) ys, int n, d1) \<and> in_step S e1 d1"
      using q(1) q2(1) d W by (simp add: WebRtcIsacfix_DecHistOneStepMulti_def in_step_def dec_return_def)
  qed
qed

text \<open>The same for the logistic coder, if the stream has three bytes behind the code.\<close>

lemma bval_padded:
  assumes "k \<le> 2 * length S"
  shows "bval (padded S) k = bval S k"
proof (cases "even k")
  case True
  then show ?thesis using assms by (simp add: bval_def padded_def)
next
  case False
  then have "k div 2 < length S" using assms by (auto elim: oddE)
  then show ?thesis using False by (simp add: bval_def padded_def nth_append)
qed

lemma followed_padded:
  assumes "words S" "enc_bytes e + 4 \<le> 2 * length S"
  shows "followed (padded S) e \<longleftrightarrow> followed S e"
    and "distance (padded S) (enc_at e) v = distance S (enc_at e) v"
proof -
  have "words (padded S)" using assms(1) by (auto simp: words_def padded_def)
  moreover have "enc_bytes e + 4 \<le> 2 * length (padded S)" using assms(2) by (simp add: padded_def)
  ultimately show "followed (padded S) e \<longleftrightarrow> followed S e"
    using assms by (simp add: followed_def follows_def code_in_def bval_padded)
  show "distance (padded S) (enc_at e) v = distance S (enc_at e) v"
    using assms(2) by (simp add: distance_def bval_padded)
qed

lemma logistic_in_step:
  assumes e: "coding e" and sq: "widths sq (first_root (hd sq)) = Some es" "sq \<noteq> []"
    and data: "length data = 4 * length sq" "\<forall>d\<in>set data. - 32000 \<le> d \<and> d \<le> 32000"
    and enc: "WebRtcIsacfix_EncLogisticMulti2 e data es = Some (0, e1, data')"
    and found: "all_searchable es dither data'"
  shows "coding e1 \<and> enc_bytes e \<le> enc_bytes e1 \<and> (followed (padded S) e1 \<longrightarrow> followed (padded S) e \<and> (\<forall>d. in_step S e d \<and> followed S e \<longrightarrow>
     (\<exists>n d1. WebRtcIsacfix_DecLogisticMulti2 dither d sq = Some (int n, d1, data') \<and>
        n = enc_bytes e1 + (if enc_W_upper e1 > 33554431 then 1 else 2))))"
proof -
  have loop: "enc_logist_loop 0 data es (enc_at e) (enc_streamval e) (enc_W_upper e) =
      Some (data', True, enc_at e1, enc_streamval e1, enc_W_upper e1)"
    using enc by (auto simp: WebRtcIsacfix_EncLogisticMulti2_def Let_def split: option.splits prod.splits if_splits)
  note lf = loop_follows [OF sq(1) found data _ loop, unfolded snd_conv mod_0, OF refl]
  have c1: "coding e1" using lf e by (simp add: coding_def)
  show ?thesis
  proof (intro conjI impI allI)
    show "coding e1" by (rule c1)
    show "enc_bytes e \<le> enc_bytes e1" using lf e by (simp add: coding_def)
    assume f: "followed (padded S) e1"
    then show "followed (padded S) e" using lf e by (simp add: coding_def followed_def)
    fix d assume d: "in_step S e d \<and> followed S e"
    then have S: "words S" "enc_bytes e + 4 \<le> 2 * length S" by (simp_all add: followed_def follows_def)
    from d obtain q where q: "dec_start d = Some (q, distance S (enc_at e) (enc_streamval e))" "dec_at q (enc_bytes e)"
      by (auto simp: in_step_def)
    have at: "logist_at S (fst q, 0, snd q) (enc_bytes e)"
      unfolding logist_at_def
      by (rule exI [of _ q]) (use q(2) S in \<open>auto simp: pos_of_def dec_at_def nbytes_def\<close>)
    have "\<exists>q1. dec_logist_loop S (int (length S)) (first_root (hd sq)) sq dither (fst q, 0, snd q)
          (distance (padded S) (enc_at e) (enc_streamval e)) (enc_W_upper e) =
        Some (data', q1, distance (padded S) (enc_at e1) (enc_streamval e1), enc_W_upper e1, 0) \<and> logist_at S q1 (enc_bytes e1)"
      using lf [of S "(fst q, 0, snd q)"] e f at unfolding coding_def followed_def by blast
    then obtain p offset full where q1: "dec_logist_loop S (int (length S)) (first_root (hd sq)) sq dither (fst q, 0, snd q)
          (distance S (enc_at e) (enc_streamval e)) (enc_W_upper e) =
        Some (data', (p, offset, full), distance (padded S) (enc_at e1) (enc_streamval e1), enc_W_upper e1, 0)"
        "logist_at S (p, offset, full) (enc_bytes e1)"
      unfolding followed_padded(2) [OF S] by auto
    then have at1: "dec_at (p + offset, full) (enc_bytes e1)" by (auto simp: logist_at_def pos_of_def)
    obtain n d1 where n: "dec_finish d (p + offset, full) (distance (padded S) (enc_at e1) (enc_streamval e1)) (enc_W_upper e1) = (n, d1)"
      by (cases "dec_finish d (p + offset, full) (distance (padded S) (enc_at e1) (enc_streamval e1)) (enc_W_upper e1)")
    have "n = int (enc_bytes e1 + (if enc_W_upper e1 > 33554431 then 1 else 2))"
      using dec_finish_length [OF at1 coding_bytes [OF c1], of d "distance (padded S) (enc_at e1) (enc_streamval e1)" "enc_W_upper e1"]
      by (simp add: n split: if_splits)
    moreover have "word_at sq 0 = Some (hd sq)" using sq(2) by (simp add: word_at_def hd_conv_nth)
    ultimately show "\<exists>n d1. WebRtcIsacfix_DecLogisticMulti2 dither d sq = Some (int n, d1, data') \<and>
        n = enc_bytes e1 + (if enc_W_upper e1 > 33554431 then 1 else 2)"
      using q(1) q1(1) n d by (simp add: WebRtcIsacfix_DecLogisticMulti2_def in_step_def)
  qed
qed

section \<open>Quantised parameters\<close>

declare quant_up.simps [simp del]

lemma quant_up_cell:
  "quant_up x b i = Some j \<Longrightarrow> b ! i \<le> x \<Longrightarrow> j + 1 < length b \<and> b ! j \<le> x \<and> x \<le> b ! (j + 1)"
proof (induction x b i rule: quant_up.induct)
  case (1 x b i)
  then show ?case
    by (auto simp: quant_up.simps [of x b i] word_at_def split: if_splits)
qed

lemma quant_down_cell:
  "quant_down x b i = Some j \<Longrightarrow> i < length b \<Longrightarrow> x \<le> b ! i \<Longrightarrow> j + 1 < length b \<and> b ! j \<le> x \<and> x \<le> b ! (j + 1)"
  by (induction i) (auto simp: word_at_def split: if_splits)

lemma quantise_cell:
  assumes "quantise x b i = Some j"
  shows "j + 1 < length b \<and> b ! j \<le> x \<and> x \<le> b ! (j + 1)"
  using assms quant_up_cell [of x b i j] quant_down_cell [of x b i j]
  by (auto simp: quantise_def word_at_def split: if_splits)

text \<open>The last bound is reached and the first is not passed, so the searches end in the table.\<close>

lemma quant_up_total:
  "i < length b \<Longrightarrow> x \<le> last b \<Longrightarrow> i + 1 < length b \<Longrightarrow> \<exists>j. quant_up x b i = Some j"
proof (induction x b i rule: quant_up.induct)
  case (1 x b i)
  show ?case
  proof (cases "x > b ! (i + 1)")
    case True
    moreover have "last b = b ! (length b - 1)" using "1.prems"(1) by (intro last_conv_nth) auto
    ultimately have "i + 1 \<noteq> length b - 1" using "1.prems"(2) by auto
    then show ?thesis using 1 True by (subst quant_up.simps) (simp add: word_at_def)
  next
    case False
    then show ?thesis using "1.prems" by (subst quant_up.simps) (simp add: word_at_def)
  qed
qed

lemma quant_down_total: "0 < i \<Longrightarrow> i < length b \<Longrightarrow> b ! 0 \<le> x \<Longrightarrow> \<exists>j. quant_down x b i = Some j"
proof (induction i)
  case (Suc i)
  then show ?case by (cases "i = 0") (auto simp: word_at_def)
qed simp

lemma quantise_total:
  assumes "0 < i" "i + 1 < length b" "b ! 0 \<le> x" "x \<le> last b"
  shows "\<exists>j. quantise x b i = Some j"
  using assms quant_up_total [of i b x] quant_down_total [of i b x] by (simp add: quantise_def word_at_def)

lemma rc_tables:
  "length WebRtcIsacfix_kRcCdfPtr = 6" "length WebRtcIsacfix_kRcInitInd = 6" "length WebRtcIsacfix_kRcBound = 12"
  "length WebRtcIsacfix_kRcLevPtr = 6"
  by (simp_all add: WebRtcIsacfix_kRcCdfPtr_def WebRtcIsacfix_kRcInitInd_def WebRtcIsacfix_kRcBound_def WebRtcIsacfix_kRcLevPtr_def)

definition rising :: "int list \<Rightarrow> bool" where
  "rising cdf \<longleftrightarrow> sorted cdf \<and> list_all (\<lambda>c. 0 \<le> c \<and> c < 65536) cdf \<and> list_all (\<lambda>i. cdf ! i < cdf ! (i + 1)) [0..<length cdf - 1]"

lemma rising_codable: "rising cdf \<Longrightarrow> d + 1 < length cdf \<Longrightarrow> codable cdf d"
  by (auto simp: rising_def codable_def cdf_table_def list_all_iff)

lemma spec_tables:
  "list_all (\<lambda>c. rising c \<and> length c = 12) WebRtcIsacfix_kRcCdfPtr" "rising WebRtcIsacfix_kGainCdf"
  "length WebRtcIsacfix_kGainCdf = 19" "length WebRtcIsacfix_kGain2Bound = 19" "list_all (\<lambda>i. i = 5) WebRtcIsacfix_kRcInitInd"
  by code_simp+

lemma quantise_rc_length:
  "quantise_rc rs is = Some ds \<Longrightarrow> length ds = min (length rs) (length is)"
  by (induction rs "is" arbitrary: ds rule: quantise_rc.induct) (auto split: option.splits)

lemma quantise_rc_range:
  "quantise_rc rs is = Some ds \<Longrightarrow> d \<in> set ds \<Longrightarrow> d + 1 < 12"
proof (induction rs "is" arbitrary: ds rule: quantise_rc.induct)
  case (1 r rs i "is")
  then show ?case using quantise_cell [of r WebRtcIsacfix_kRcBound i] rc_tables(3)
    by (auto split: option.splits)
qed auto

lemma EncHist_status: "WebRtcIsacfix_EncHistMulti e ys = Some (s, e1) \<Longrightarrow> s = 0 \<or> s < 0"
  by (auto simp: WebRtcIsacfix_EncHistMulti_def Let_def split: option.splits prod.splits if_splits)

lemma for_encoder_zip:
  "length ds = length tabs \<Longrightarrow> length inits = length tabs \<Longrightarrow>
   map one_step.for_encoder (zip ds (zip inits tabs)) = zip (map int ds) tabs"
  by (rule nth_equalityI) (simp_all add: one_step.for_encoder_def)

lemma RcCoef_in_step:
  assumes e: "coding e" and rc: "length RC = 6"
    and enc: "WebRtcIsacfix_EncodeRcCoef RC e = Some (status, RC', e1)" "\<not> status < 0"
  shows "coding e1 \<and> (followed S e1 \<longrightarrow> followed S e \<and> (\<forall>d. in_step S e d \<longrightarrow>
     (\<exists>d1. WebRtcIsacfix_DecodeRcCoef d = Some (0, RC', d1) \<and> in_step S e1 d1)))"
proof -
  obtain index where ix: "quantise_rc RC WebRtcIsacfix_kRcInitInd = Some index"
    and hist: "WebRtcIsacfix_EncHistMulti e (zip (map int index) WebRtcIsacfix_kRcCdfPtr) = Some (status, e1)"
    and RC': "RC' = map2 (!) WebRtcIsacfix_kRcLevPtr index"
    using enc(1) by (auto simp: WebRtcIsacfix_EncodeRcCoef_def split: option.splits)
  have len: "length index = 6" using quantise_rc_length [OF ix] rc rc_tables by simp
  define ys where "ys = zip index (zip WebRtcIsacfix_kRcInitInd WebRtcIsacfix_kRcCdfPtr)"
  have fe: "map one_step.for_encoder ys = zip (map int index) WebRtcIsacfix_kRcCdfPtr"
    unfolding ys_def by (rule for_encoder_zip) (simp_all add: len rc_tables)
  have "status = 0" using EncHist_status [OF hist] enc(2) by auto
  with hist fe have hist: "WebRtcIsacfix_EncHistMulti e (map one_step.for_encoder ys) = Some (0, e1)" by simp
  have "one_step.encodable y" if "y \<in> set ys" for y
  proof -
    obtain i where "i < length ys" "y = ys ! i" using \<open>y \<in> set ys\<close> by (metis in_set_conv_nth)
    then have i: "i < 6" "y = (index ! i, WebRtcIsacfix_kRcInitInd ! i, WebRtcIsacfix_kRcCdfPtr ! i)"
      by (simp_all add: ys_def len rc_tables)
    have "rising (WebRtcIsacfix_kRcCdfPtr ! i) \<and> length (WebRtcIsacfix_kRcCdfPtr ! i) = 12"
      using spec_tables(1) i(1) rc_tables by (simp add: list_all_length)
    moreover have "WebRtcIsacfix_kRcInitInd ! i = 5" using spec_tables(5) i(1) rc_tables by (simp add: list_all_length)
    moreover have "index ! i + 1 < 12" using quantise_rc_range [OF ix, of "index ! i"] i(1) len by simp
    ultimately show ?thesis using i(2) rising_codable by (simp add: one_step.encodable_def)
  qed
  then have ok: "\<forall>y\<in>set ys. one_step.encodable y" by blast
  have tabs: "map snd ys = zip WebRtcIsacfix_kRcInitInd WebRtcIsacfix_kRcCdfPtr" "map (int \<circ> fst) ys = map int index"
    by (simp_all add: ys_def len rc_tables flip: map_map)
  have lev: "map2 (\<lambda>lev i. lev ! nat i) WebRtcIsacfix_kRcLevPtr (map int index) = RC'"
    unfolding RC' by (rule nth_equalityI) simp_all
  from hist_in_step [OF e ok hist, of S] show ?thesis
    unfolding tabs WebRtcIsacfix_DecodeRcCoef_def by (auto simp: lev)
qed

lemma Gain2_in_step:
  assumes e: "coding e" and enc: "WebRtcIsacfix_EncodeGain2 g e = Some (0, g', e1)"
  shows "coding e1 \<and> (followed S e1 \<longrightarrow> followed S e \<and> (\<forall>d. in_step S e d \<longrightarrow>
     (\<exists>d1. WebRtcIsacfix_DecodeGain2 d = Some (0, g', d1) \<and> in_step S e1 d1)))"
proof -
  obtain i where i: "quantise g WebRtcIsacfix_kGain2Bound (WebRtcIsacfix_kGainInitInd ! 0) = Some i"
    and hist: "WebRtcIsacfix_EncHistMulti e (zip [int i] WebRtcIsacfix_kGainPtr) = Some (0, e1)"
    and g': "g' = WebRtcIsacfix_kGain2Lev ! i"
    using enc by (auto simp: WebRtcIsacfix_EncodeGain2_def split: option.splits)
  define ys where "ys = [(i, 11 :: nat, WebRtcIsacfix_kGainCdf)]"
  have fe: "map one_step.for_encoder ys = zip [int i] WebRtcIsacfix_kGainPtr"
    by (simp add: ys_def one_step.for_encoder_def WebRtcIsacfix_kGainPtr_def)
  have "i + 1 < 19" using quantise_cell [OF i] spec_tables(4) by simp
  then have "\<forall>y\<in>set ys. one_step.encodable y"
    using rising_codable [OF spec_tables(2)] spec_tables(3) by (simp add: ys_def one_step.encodable_def)
  from hist_in_step [OF e this, of e1 S] hist fe
  show ?thesis
    by (auto simp: WebRtcIsacfix_DecodeGain2_def g' ys_def WebRtcIsacfix_kGainPtr_def WebRtcIsacfix_kGainInitInd_def)
qed

section \<open>The spectrum\<close>

text \<open>The neighbours of all candidates on the way to a sample differ, for every sample.\<close>

definition sample_apart :: "int \<Rightarrow> int \<Rightarrow> int \<Rightarrow> bool" where
  "sample_apart e t d \<longleftrightarrow> apart e t ((d + t) div 128)"

fun all_apart :: "int list \<Rightarrow> int list \<Rightarrow> int list \<Rightarrow> bool" where
  "all_apart [] [] [] = True"
| "all_apart (e # es) (t0 # t1 # t2 # t3 # ts) (d0 # d1 # d2 # d3 # ds) =
     (list_all2 (sample_apart e) [t0, t1, t2, t3] [d0, d1, d2, d3] \<and> all_apart es ts ds)"
| "all_apart _ _ _ = False"

definition dithered :: "int \<Rightarrow> int \<Rightarrow> bool" where
  "dithered t d \<longleftrightarrow> - 128 \<le> t \<and> t \<le> 128 \<and> 128 dvd d + t \<and> - 32000 \<le> d \<and> d \<le> 32000"

lemma clip_width: "clip_sample e d (cdf_below d e) (cdf_above d e) = Some r \<Longrightarrow> e \<noteq> 0"
  using clip_zero [of e d "cdf_below d e" "cdf_above d e" r]
  by (auto simp: cdf_below_def cdf_above_def MUL_16_U16_def u16_def)

text \<open>What the encoder clips, the decoder can find.\<close>

lemma clip_searchable:
  assumes "0 \<le> e" "e < 65536" "dithered t d" "sample_apart e t d'"
    and "clip_sample e d (cdf_below d e) (cdf_above d e) = Some (d', r)"
  shows "searchable e t d'"
proof -
  have e: "0 < e" using clip_width [OF assms(5)] assms(1) by simp
  obtain x where x: "clip_sample e d (cdf_below d e) (cdf_above d e) = Some (x, cdf_below x e, cdf_above x e)" "clipped e d x"
    using clip_total [OF e assms(2), of d] assms(3) by (auto simp: dithered_def)
  then have d': "x = d'" using assms(5) by simp
  have "128 dvd d + t" "128 dvd d - d'" using x(2) assms(3) unfolding d' clipped_def dithered_def by blast+
  then have "128 dvd (d + t) - (d - d')" by (rule dvd_diff)
  then have "128 dvd d' + t" by (simp add: algebra_simps)
  then show ?thesis using x(2) assms e unfolding d' by (simp add: searchable_def clipped_def dithered_def sample_apart_def)
qed

lemma group_searchable:
  "\<lbrakk>enc_group e ds st v W = Some (xs, True, r); 0 \<le> e; e < 65536; list_all2 dithered ts ds; list_all2 (sample_apart e) ts xs\<rbrakk> \<Longrightarrow>
   list_all2 (searchable e) ts xs"
proof (induction ds arbitrary: xs ts st v W)
  case (Cons d ds)
  obtain d' lo hi st1 v1 W1 ys where c: "clip_sample e d (cdf_below d e) (cdf_above d e) = Some (d', lo, hi)"
    "enc_group e ds st1 v1 W1 = Some (ys, True, r)" "xs = d' # ys"
    using Cons.prems(1) by (auto split: option.splits if_splits)
  obtain t ts1 where ts: "ts = t # ts1" "dithered t d" "list_all2 dithered ts1 ds" using Cons.prems(4) by (auto simp: list_all2_Cons2)
  have ap: "sample_apart e t d'" "list_all2 (sample_apart e) ts1 ys" using Cons.prems(5) by (simp_all add: ts(1) c(3))
  show ?case
    using clip_searchable [OF Cons.prems(2,3) ts(2) ap(1) c(1)] Cons.IH [OF c(2) Cons.prems(2,3) ts(3) ap(2)]
    by (simp add: ts(1) c(3))
qed auto

lemma loop_searchable:
  "\<lbrakk>enc_logist_loop k data es st v W = Some (data', True, r); k mod 4 = 0; all_apart es ts data';
    length data = 4 * length es; \<forall>e\<in>set es. 0 \<le> e \<and> e < 65536; list_all2 dithered ts data\<rbrakk> \<Longrightarrow>
   all_searchable es ts data'"
proof (induction es arbitrary: k data ts data' st v W)
  case Nil
  then show ?case by (cases ts; cases data') auto
next
  case (Cons e es)
  obtain d0 d1 d2 d3 ds where data: "data = [d0, d1, d2, d3] @ ds" "length ds = 4 * length es"
    using four [of data "length es"] Cons.prems(4) by auto
  let ?ds = "[d0, d1, d2, d3]"
  have k: "length ?ds + k mod 4 = 4" "(k + length ?ds) mod 4 = 0" using Cons.prems(2) by simp_all
  note run = Cons.prems(1) [unfolded data(1) enc_loop_group [OF list.distinct(2) k(1), of ds e es st v W]]
  from run obtain xs st2 v2 W2 ys where
    group: "enc_group e ?ds st v W = Some (xs, True, st2, v2, W2)"
    and rest: "enc_logist_loop (k + length ?ds) ds es st2 v2 W2 = Some (ys, True, r)" "data' = xs @ ys"
    by (auto simp del: enc_group.simps enc_logist_loop.simps split: option.splits if_splits)
  obtain x0 x1 x2 x3 where xs: "xs = [x0, x1, x2, x3]"
    using enc_group_length [OF group] four [of xs 0] by auto
  obtain t0 t1 t2 t3 ts1 where ts: "ts = t0 # t1 # t2 # t3 # ts1"
    "list_all2 dithered [t0, t1, t2, t3] ?ds" "list_all2 dithered ts1 ds"
    using Cons.prems(6) unfolding data(1) by (auto simp: list_all2_Cons2)
  have ap: "list_all2 (sample_apart e) [t0, t1, t2, t3] xs" "all_apart es ts1 ys"
    using Cons.prems(3) by (simp_all add: ts(1) rest(2) xs)
  have er: "0 \<le> e" "e < 65536" "\<forall>e\<in>set es. 0 \<le> e \<and> e < 65536" using Cons.prems(5) by simp_all
  show ?case
    using group_searchable [OF group er(1,2) ts(2) ap(1)] Cons.IH [OF rest(1) k(2) ap(2) data(2) er(3) ts(3)]
    by (simp add: ts(1) rest(2) xs)
qed

lemma quantise_4_dithered:
  assumes "- 31000 \<le> a \<and> a \<le> 31000" "- 31000 \<le> b \<and> b \<le> 31000" "- 31000 \<le> c \<and> c \<le> 31000" "- 31000 \<le> d \<and> d \<le> 31000"
    and "\<forall>t\<in>{t0, t1, t2, t3}. - 128 \<le> t \<and> t \<le> 128"
  shows "list_all2 dithered [t0, t1, t2, t3] (quantise_4 (a # b # fr) (c # d # fi) (t0 # t1 # t2 # t3 # ts))"
proof -
  have "dithered t (add_dither f t)" if "- 31000 \<le> f \<and> f \<le> 31000" "- 128 \<le> t \<and> t \<le> 128" for f t
    using that add_dither_quantised [of f t] by (auto simp: dithered_def abs_le_iff)
  then show ?thesis using assms by (simp add: quantise_4_def)
qed

lemma quantise_spec_dithered:
  "\<lbrakk>length fr = 2 * n; length fi = 2 * n; length ts = 4 * n; \<forall>f\<in>set fr \<union> set fi. - 31000 \<le> f \<and> f \<le> 31000;
    \<forall>t\<in>set ts. - 128 \<le> t \<and> t \<le> 128\<rbrakk> \<Longrightarrow>
   list_all2 dithered ts (fst (quantise_spec n fr fi ts))"
proof (induction n arbitrary: fr fi ts)
  case (Suc n)
  obtain a b fr' where fr: "fr = a # b # fr'" using Suc.prems(1) by (cases fr; cases "tl fr") auto
  obtain c d fi' where fi: "fi = c # d # fi'" using Suc.prems(2) by (cases fi; cases "tl fi") auto
  obtain t0 t1 t2 t3 ts' where ts: "ts = [t0, t1, t2, t3] @ ts'" using four [of ts n] Suc.prems(3) by auto
  have "list_all2 dithered [t0, t1, t2, t3] (quantise_4 fr fi ts)"
    unfolding fr fi ts append_Cons append_Nil using Suc.prems(4,5) by (intro quantise_4_dithered) (simp_all add: fr fi ts)
  moreover have "list_all2 dithered ts' (fst (quantise_spec n fr' fi' ts'))"
    using Suc.prems by (intro Suc.IH) (simp_all add: fr fi ts)
  ultimately show ?case
    by (simp add: fr fi ts Let_def case_prod_unfold list_all2_appendI [of dithered "[t0, t1, t2, t3]", simplified])
qed simp

lemma list_all2_right: "list_all2 P xs ys \<Longrightarrow> y \<in> set ys \<Longrightarrow> \<exists>x. P x y"
  by (metis in_set_conv_nth list_all2_conv_all_nth)

lemma widths_range: "widths sq res = Some es \<Longrightarrow> e \<in> set es \<Longrightarrow> 0 \<le> e \<and> e < 65536"
  by (induction sq arbitrary: res es) (auto simp: u16_def split: option.splits)

lemma widths_length: "widths sq res = Some es \<Longrightarrow> length es = length sq"
  by (induction sq arbitrary: res es) (auto split: option.splits)

lemma spec_in_step:
  assumes e: "coding e" and len: "length fr = 240" "length fi = 240"
    and range: "\<forall>f\<in>set fr \<union> set fi. - 31000 \<le> f \<and> f \<le> 31000"
    and enc: "encode_spec fr fi e g = Some (0, e1, data', es, RC, gain)"
    and apart: "all_apart es (GenerateDitherQ7 (enc_W_upper e) 480 g) data'"
  defines "sq \<equiv> CalcInvArSpec (WebRtcSpl_ReflCoefToLpc RC 6) gain"
  shows "coding e1 \<and> widths sq (first_root (hd sq)) = Some es \<and>
    (\<forall>S. words S \<and> enc_bytes e1 + 4 \<le> 2 * length S \<and> followed (padded S) e1 \<longrightarrow> followed S e \<and>
      (\<forall>d. in_step S e d \<longrightarrow> (\<exists>n d1 d2 d3. WebRtcIsacfix_DecodeRcCoef d = Some (0, RC, d1) \<and>
         WebRtcIsacfix_DecodeGain2 d1 = Some (0, gain, d2) \<and>
         WebRtcIsacfix_DecodeSpec d g = Some (int n, scale_spec g sq data', d3) \<and>
         n = enc_bytes e1 + (if enc_W_upper e1 > 33554431 then 1 else 2))))"
proof -
  define dither where "dither = GenerateDitherQ7 (enc_W_upper e) 480 g"
  define qs where "qs = quantise_spec 120 fr fi dither"
  define Corr where "Corr = CalcCorrelation (snd qs)"
  define lft where "lft = corr_shift Corr"
  define norm where "norm = normalise_corr lft Corr"
  obtain status e2 e3 where
    rc: "WebRtcIsacfix_EncodeRcCoef (WebRtcSpl_AutoCorrToReflCoef norm 6) e = Some (status, RC, e2)" "\<not> status < 0"
    and gain: "WebRtcIsacfix_EncodeGain2 (residual_gain (residual_energy (WebRtcSpl_ReflCoefToLpc RC 6) norm lft)) e2 = Some (0, gain, e3)"
    and root: "CalcRootInvArSpec (WebRtcSpl_ReflCoefToLpc RC 6) gain = Some es"
    and log: "WebRtcIsacfix_EncLogisticMulti2 e3 (fst qs) es = Some (0, e1, data')"
    using enc unfolding encode_spec_def
    by (auto simp: Let_def case_prod_unfold simp flip: dither_def qs_def Corr_def lft_def norm_def split: bind_splits if_splits)
  have sq: "widths sq (first_root (hd sq)) = Some es" "length sq = 120"
    using curve_widths [of "WebRtcSpl_ReflCoefToLpc RC 6" gain] root by (simp_all add: sq_def)
  have len_es: "length es = 120" using widths_length [OF sq(1)] sq(2) by simp
  have dith: "list_all2 dithered dither (fst qs)"
    unfolding qs_def using len range GenerateDither_range
    by (intro quantise_spec_dithered) (auto simp: dither_def GenerateDither_length)
  then have data: "length (fst qs) = 4 * length sq" "\<forall>d\<in>set (fst qs). - 32000 \<le> d \<and> d \<le> 32000"
    using list_all2_lengthD [OF dith] sq(2) list_all2_right [OF dith]
    by (auto simp: dither_def GenerateDither_length dithered_def)
  have loop: "enc_logist_loop 0 (fst qs) es (enc_at e3) (enc_streamval e3) (enc_W_upper e3) =
      Some (data', True, enc_at e1, enc_streamval e1, enc_W_upper e1)"
    using log by (auto simp: WebRtcIsacfix_EncLogisticMulti2_def Let_def split: option.splits prod.splits if_splits)
  have found: "all_searchable es dither data'"
    using loop_searchable [OF loop _ apart [folded dither_def] _ _ dith] data(1) len_es sq(2) widths_range [OF sq(1)] by simp
  note r = RcCoef_in_step [OF e _ rc]
  have e2: "coding e2" using r by (simp add: AutoCorrToReflCoef_length)
  note g = Gain2_in_step [OF e2 gain]
  have e3: "coding e3" using g by simp
  have "sq \<noteq> []" using sq(2) by auto
  note l = logistic_in_step [OF e3 sq(1) this data log found]
  show ?thesis
  proof (intro conjI allI impI)
    show "coding e1" using l by simp
    show "widths sq (first_root (hd sq)) = Some es" by (fact sq(1))
    fix S assume S: "words S \<and> enc_bytes e1 + 4 \<le> 2 * length S \<and> followed (padded S) e1"
    have "enc_bytes e3 \<le> enc_bytes e1" using l by blast
    then have "enc_bytes e3 + 4 \<le> 2 * length S" using S by linarith
    then have f3: "followed S e3" using l S followed_padded(1) [of S e3] by blast
    then have f2: "followed S e2" using g by blast
    show "followed S e" using r f2 by (simp add: AutoCorrToReflCoef_length)
    fix d assume d: "in_step S e d"
    obtain d1 where d1: "WebRtcIsacfix_DecodeRcCoef d = Some (0, RC, d1)" "in_step S e2 d1"
      using r [of S] f2 d by (auto simp: AutoCorrToReflCoef_length)
    obtain d2 where d2: "WebRtcIsacfix_DecodeGain2 d1 = Some (0, gain, d2)" "in_step S e3 d2"
      using g f3 d1(2) by blast
    obtain n d3 where d3: "WebRtcIsacfix_DecLogisticMulti2 dither d2 sq = Some (int n, d3, data')"
      "n = enc_bytes e1 + (if enc_W_upper e1 > 33554431 then 1 else 2)"
      using l S f3 d2(2) by blast
    then have "WebRtcIsacfix_DecodeSpec d g = Some (int n, scale_spec g sq data', d3)"
      using d1(1) d2(1) d by (simp add: WebRtcIsacfix_DecodeSpec_def Let_def in_step_def dither_def sq_def split: if_splits)
    then show "\<exists>n d1 d2 d3. WebRtcIsacfix_DecodeRcCoef d = Some (0, RC, d1) \<and>
         WebRtcIsacfix_DecodeGain2 d1 = Some (0, gain, d2) \<and>
         WebRtcIsacfix_DecodeSpec d g = Some (int n, scale_spec g sq data', d3) \<and>
         n = enc_bytes e1 + (if enc_W_upper e1 > 33554431 then 1 else 2)"
      using d1(1) d2(1) d3(2) by blast
  qed
qed

section \<open>The rate of the logistic coder\<close>

text \<open>The renormalisation succeeds while there is room, whatever is written.\<close>

lemma enc_renorm_room:
  "enc_inv st v W \<Longrightarrow> nbytes (snd st) + shifts W \<le> 399 \<Longrightarrow> enc_renorm st v W = Some (ok, st', v', W') \<Longrightarrow> ok"
proof (induction st v W rule: enc_renorm.induct)
  case (1 st v W)
  obtain s p full where st: "st = (s, p, full)" by (cases st)
  have inv: "enc_ok (s, p, full)" "0 \<le> v" "v < 4294967296" "0 < W" "W < 4294967296"
    using "1.prems"(1) by (auto simp: enc_inv_def st)
  note test = high_byte_zero [of W]
  show ?case
  proof (cases "W < 16777216")
    case False
    then show ?thesis using "1.prems"(3) test inv by (simp add: enc_renorm.simps [of st v W])
  next
    case True
    obtain s' p' full' where put: "put_byte v (s, p, full) = Some (s', p', full')"
      "nbytes (p', full') = Suc (nbytes (p, full))" "p' < 200 \<longrightarrow> enc_ok (s', p', full')"
      "enc_value (s', p', full') = enc_value (s, p, full) * 256 + v div 16777216"
      using put_byte_value [OF inv(1-3)] by blast
    have sh: "shifts W = Suc (shifts (W * 256))" using shifts_step inv(4) True by simp
    then have room: "nbytes (p', full') + shifts (W * 256) \<le> 399" using "1.prems"(2) put(2) st by simp
    then have p': "p' < 200" by (simp add: nbytes_def split: if_splits)
    have W: "u32 (W * 256) = W * 256" using True inv by simp
    have val: "code_value (s', p', full') (v mod 16777216 * 256) = code_value st v * 256"
      using shift_word(2) [OF inv(2,3)] put(4) by (simp add: code_value_def st distrib_right)
    have inv': "enc_inv (s', p', full') (v mod 16777216 * 256) (W * 256)"
      using put p' True "1.prems"(1) val by (simp add: enc_inv_def st)
    have run: "enc_renorm (s', p', full') (v mod 16777216 * 256) (W * 256) = Some (ok, st', v', W')"
      using "1.prems"(3) True test inv W put(1) p' shift_word(1) [OF inv(2,3)]
      by (simp add: enc_renorm.simps [of "(s, p, full)" v W] st)
    show ?thesis
      using "1.IH" [of "W * 256" "(s', p', full')"] True test inv W put(1) st p' shift_word(1) [OF inv(2,3)] inv' room run
      by simp
  qed
qed

text \<open>
  One symbol of at least \<open>2^(16 - b) + 1\<close> of the 65536 parts of the interval: the width shrinks
  by at most \<open>b\<close> bits.
\<close>

lemma symbol_width:
  assumes "16777216 \<le> W" "2 ^ (16 - b) + 1 \<le> hi - lo" "b \<le> 15"
  shows "W * 2 ^ (16 - b) \<le> (bnd W hi - (bnd W lo + 1)) * (65536 :: int)"
proof -
  have "W * lo div 65536 * 65536 \<le> W * lo" "W * hi < W * hi div 65536 * 65536 + 65536" by simp_all
  moreover have "W * (2 ^ (16 - b) + 1) \<le> W * (hi - lo)" using assms by (intro mult_left_mono) auto
  ultimately show ?thesis using assms(1) by (simp add: algebra_simps)
qed

definition rate_inv :: "nat \<Rightarrow> nat \<Rightarrow> nat \<Rightarrow> int \<Rightarrow> nat \<Rightarrow> bool" where
  "rate_inv b m0 i W m \<longleftrightarrow> m0 \<le> m \<and> 16777216 * 256 ^ (m - m0) \<le> W * 2 ^ (b * i)"

lemma rate_bound:
  assumes "rate_inv b m0 i W m" "0 < W" "W < 4294967296"
  shows "8 * m < 8 * m0 + b * i + 8"
proof -
  have "16777216 * 256 ^ (m - m0) \<le> W * 2 ^ (b * i)" "m0 \<le> m" using assms(1) by (simp_all add: rate_inv_def)
  moreover have "W * 2 ^ (b * i) < 4294967296 * 2 ^ (b * i)" using assms(3) by simp
  ultimately have "(256 :: int) ^ (m - m0) < 256 * 2 ^ (b * i)" by linarith
  moreover have "(256 :: int) ^ (m - m0) = 2 ^ (8 * (m - m0))" "256 * 2 ^ (b * i) = (2 :: int) ^ (8 + b * i)"
    by (simp_all add: power_mult power_add)
  ultimately have "(2 :: int) ^ (8 * (m - m0)) < 2 ^ (8 + b * i)" by simp
  then have "8 * (m - m0) < 8 + b * i" by (simp add: power_strict_increasing_iff)
  then show ?thesis using \<open>m0 \<le> m\<close> by simp
qed

lemma symbol_rate:
  assumes inv: "enc_inv st v W" "16777216 \<le> W" and r: "rate_inv b m0 i W (nbytes (snd st))"
    and c: "0 \<le> lo" "hi < 65536" "2 ^ (16 - b) + 1 \<le> hi - lo" "b \<le> 15"
    and room: "8 * m0 + b * (i + 1) + 8 \<le> 3192"
  shows "\<exists>st' v' W'. enc_symbol lo hi st v W = Some (True, st', v', W') \<and> enc_inv st' v' W' \<and> 16777216 \<le> W' \<and>
    rate_inv b m0 (i + 1) W' (nbytes (snd st'))"
proof -
  have lh: "lo < hi" using c(3) zero_less_power [of "2 :: int" "16 - b"] by linarith
  define l where "l = bnd W lo + 1"
  define w where "w = bnd W hi - l"
  define r where "r = shifts w"
  obtain s1 where s1: "enc_symbol lo hi st v W = enc_renorm (s1, snd st) (u32 (v + l)) w"
    "enc_inv (s1, snd st) (u32 (v + l)) w" "0 < w" "w < 4294967296"
    using enc_symbol_renorm [OF inv c(1) lh c(2)] unfolding Let_def l_def [symmetric] w_def [symmetric] by blast
  obtain ok st' v' W' where sym: "enc_renorm (s1, snd st) (u32 (v + l)) w = Some (ok, st', v', W')"
    "ok \<longrightarrow> enc_inv st' v' W' \<and> nbytes (snd st') = nbytes (snd st) + r \<and> W' = w * 256 ^ r"
    using enc_renorm_value [OF s1(2)] unfolding r_def by auto
  have W: "W < 4294967296" "0 \<le> W" using inv by (auto simp: enc_inv_def)
  have width: "W * 2 ^ (16 - b) \<le> w * 65536" using symbol_width [OF inv(2) c(3,4)] by (simp add: w_def l_def)
  have sh: "16777216 \<le> w * 256 ^ r" "w * 256 ^ r < 4294967296"
    using shifts_range [OF s1(3,4)] by (simp_all add: r_def)
  have pow: "(65536 :: int) = 2 ^ b * 2 ^ (16 - b)" using c(4) by (simp flip: power_add)
  have "W * 2 ^ (16 - b) \<le> (w * 2 ^ b) * 2 ^ (16 - b)" using width unfolding pow by (simp add: mult.assoc)
  then have step: "W \<le> w * 2 ^ b" by simp
  have rate: "rate_inv b m0 (i + 1) (w * 256 ^ r) (nbytes (snd st) + r)"
  proof -
    have m: "m0 \<le> nbytes (snd st)" "16777216 * 256 ^ (nbytes (snd st) - m0) \<le> W * 2 ^ (b * i)"
      using r by (simp_all add: rate_inv_def)
    have "nbytes (snd st) + r - m0 = nbytes (snd st) - m0 + r" using m(1) by simp
    then have "16777216 * 256 ^ (nbytes (snd st) + r - m0) = 16777216 * 256 ^ (nbytes (snd st) - m0) * (256 :: int) ^ r"
      by (simp only: power_add mult.assoc)
    also have "\<dots> \<le> (w * 2 ^ b) * 2 ^ (b * i) * 256 ^ r"
      using m(2) step by (intro mult_right_mono) (auto intro: order_trans mult_right_mono)
    also have "\<dots> = w * 256 ^ r * 2 ^ (b * (i + 1))" by (simp add: power_add ac_simps)
    finally show ?thesis using m(1) by (simp add: rate_inv_def)
  qed
  have "nbytes (snd st) + r \<le> 399" using rate_bound [OF rate] sh room by simp
  then have ok using enc_renorm_room [OF s1(2) _ sym(1)] by (simp add: r_def)
  then show ?thesis using sym rate sh(1) unfolding s1(1) by auto
qed

text \<open>
  A sample of probability \<open>2^-b\<close> under its width, a little more to make up for rounding.  The
  samples of a block and their widths, from the sample with index \<open>k\<close>.
\<close>

definition likely :: "nat \<Rightarrow> int \<Rightarrow> int \<Rightarrow> bool" where
  "likely b e d \<longleftrightarrow> 0 < e \<and> e < 65536 \<and> - 32000 \<le> d \<and> d \<le> 32000 \<and>
     2 ^ (16 - b) + 1 \<le> logistic e (d + 64) - logistic e (d - 64)"

fun all_likely :: "nat \<Rightarrow> nat \<Rightarrow> int list \<Rightarrow> int list \<Rightarrow> bool" where
  "all_likely b k [] env = True"
| "all_likely b k (d # data) [] = False"
| "all_likely b k (d # data) (e # es) =
     (likely b e d \<and> all_likely b (k + 1) data (if odd k \<and> odd (k div 2) then es else e # es))"

lemma likely_clip:
  assumes "likely b e d" "b \<le> 15"
  shows "clip_sample e d (cdf_below d e) (cdf_above d e) = Some (d, logistic e (d - 64), logistic e (d + 64))"
proof -
  have "(1 :: int) \<le> 2 ^ (16 - b)" by simp
  then have "wide e d" using assms(1) unfolding likely_def wide_def by linarith
  then show ?thesis
    using clip_step(1) [of e d] cdf_logistic [of d e] assms(1) by (simp add: clip_def likely_def)
qed

lemma loop_rate:
  "\<lbrakk>all_likely b k data env; b \<le> 15; enc_inv st v W; 16777216 \<le> W; rate_inv b m0 i W (nbytes (snd st));
    8 * m0 + b * (i + length data) + 8 \<le> 3192\<rbrakk> \<Longrightarrow>
   \<exists>st' v' W'. enc_logist_loop k data env st v W = Some (data, True, st', v', W') \<and> enc_inv st' v' W' \<and> 16777216 \<le> W' \<and>
     rate_inv b m0 (i + length data) W' (nbytes (snd st'))"
proof (induction b k data env arbitrary: st v W i rule: all_likely.induct)
  case (3 b k d data e es)
  have lk: "likely b e d" using "3.prems"(1) by simp
  have "0 \<le> logistic e (d - 64)" "logistic e (d + 64) < 65536" by (rule logistic_range)+
  moreover have "2 ^ (16 - b) + 1 \<le> logistic e (d + 64) - logistic e (d - 64)" using lk by (simp add: likely_def)
  moreover have "8 * m0 + b * (i + 1) + 8 \<le> 3192"
  proof -
    have "b * (i + 1) \<le> b * (i + length (d # data))" by (intro mult_le_mono) simp_all
    then show ?thesis using "3.prems"(6) by linarith
  qed
  ultimately obtain st1 v1 W1 where sym: "enc_symbol (logistic e (d - 64)) (logistic e (d + 64)) st v W = Some (True, st1, v1, W1)"
    "enc_inv st1 v1 W1" "16777216 \<le> W1" "rate_inv b m0 (i + 1) W1 (nbytes (snd st1))"
    using symbol_rate [OF "3.prems"(3,4,5) _ _ _ "3.prems"(2)] by blast
  have "8 * m0 + b * (i + 1 + length data) + 8 \<le> 3192" using "3.prems"(6) by simp
  moreover have "all_likely b (k + 1) data (if odd k \<and> odd (k div 2) then es else e # es)" using "3.prems"(1) by simp
  ultimately obtain st2 v2 W2 where rest: "enc_logist_loop (k + 1) data (if odd k \<and> odd (k div 2) then es else e # es) st1 v1 W1 =
      Some (data, True, st2, v2, W2)" "enc_inv st2 v2 W2" "16777216 \<le> W2"
    "rate_inv b m0 (i + 1 + length data) W2 (nbytes (snd st2))"
    using "3.IH" [OF _ "3.prems"(2) sym(2,3,4)] by blast
  have "enc_logist_loop k (d # data) (e # es) st v W = Some (d # data, True, st2, v2, W2)"
    using likely_clip [OF lk "3.prems"(2)] sym(1) rest(1) by simp
  then show ?case using rest(2-4) by auto
qed auto

lemma logistic_rate:
  assumes "coding e" "all_likely b 0 data es" "b \<le> 15" "8 * enc_bytes e + b * length data + 8 \<le> 3192"
  shows "\<exists>e1. WebRtcIsacfix_EncLogisticMulti2 e data es = Some (0, e1, data) \<and> coding e1 \<and>
    8 * enc_bytes e1 < 8 * enc_bytes e + b * length data + 8"
proof -
  have "rate_inv b (enc_bytes e) 0 (enc_W_upper e) (nbytes (snd (enc_at e)))" using assms(1) by (simp add: rate_inv_def coding_def)
  with assms obtain st' v' W' where run: "enc_logist_loop 0 data es (enc_at e) (enc_streamval e) (enc_W_upper e) = Some (data, True, st', v', W')"
    "enc_inv st' v' W'" "16777216 \<le> W'" "rate_inv b (enc_bytes e) (0 + length data) W' (nbytes (snd st'))"
    using loop_rate [of b 0 data es "enc_at e" "enc_streamval e" "enc_W_upper e" "enc_bytes e" 0] unfolding coding_def by auto
  obtain s p full where st': "st' = (s, p, full)" by (cases st')
  have "W' < 4294967296" using run(2) by (simp add: enc_inv_def)
  then have "8 * nbytes (snd st') < 8 * enc_bytes e + b * length data + 8" using rate_bound [OF run(4)] run(3) by simp
  then show ?thesis
    using run by (simp add: WebRtcIsacfix_EncLogisticMulti2_def Let_def st' coding_def)
qed

section \<open>Properties\<close>

lemma coding_new: "words s \<Longrightarrow> length s = 200 \<Longrightarrow> coding (new_encoder s)"
  by (simp add: coding_def new_encoder_def enc_inv_def enc_ok_def code_value_def enc_value_eq nbytes_def)

lemma in_step_new:
  assumes "words S" "4 \<le> 2 * length S"
  shows "in_step S (new_encoder s) (new_decoder S)"
  using dec_start_new [OF assms]
  by (simp add: in_step_def new_encoder_def new_decoder_def distance_def code_value_def enc_value_eq nbytes_def dec_at_def)

text \<open>
  C10: The spectrum coder is lossless.  \<open>EncodeSpec\<close>, called in any valid state of the encoder and
  followed by \<open>EncTerminate\<close>, and the decoder, called in the state that is in step with it on the
  final stream: the decoder reads back the quantised reflection coefficients and the quantised
  gain, derives the widths of the encoder from them, and returns the samples that the
  encoder quantised with the common dither and clipped, rescaled by \<open>scale_spec\<close>, and the number of
  bytes that \<open>EncTerminate\<close> returned.  Conditions: the encoder reports success and has room for
  the termination, the spectrum is within 31000 (closer to the ends of 16 bits \<open>add_dither\<close>
  wraps around), and at the widths of the frame the distribution function separates the
  candidates that the search passes; without the last the decoder refuses the frame
  (\<open>Isac_search_exact\<close>).
\<close>

theorem Isac_spectrum_lossless:
  assumes "coding e" "length fr = 240" "length fi = 240"
    and "\<forall>f\<in>set fr \<union> set fi. - 31000 \<le> f \<and> f \<le> 31000"
    and "encode_spec fr fi e g = Some (0, e1, data, es, RC, gain)" "enc_index e1 < 199"
    and "all_apart es (GenerateDitherQ7 (enc_W_upper e) 480 g) data"
  shows "\<exists>n e2. WebRtcIsacfix_EncTerminate e1 = Some (int n, e2) \<and>
    (let sq = CalcInvArSpec (WebRtcSpl_ReflCoefToLpc RC 6) gain
     in widths sq (first_root (hd sq)) = Some es \<and>
       (\<forall>S d. carries S n (enc_stream e2) \<and> in_step S e d \<longrightarrow>
         (\<exists>d1 d2 d3. WebRtcIsacfix_DecodeRcCoef d = Some (0, RC, d1) \<and>
            WebRtcIsacfix_DecodeGain2 d1 = Some (0, gain, d2) \<and>
            WebRtcIsacfix_DecodeSpec d g = Some (int n, scale_spec g sq data, d3))))"
proof -
  define sq where "sq = CalcInvArSpec (WebRtcSpl_ReflCoefToLpc RC 6) gain"
  note step = spec_in_step [OF assms(1-5,7), folded sq_def]
  have "e1 = \<lparr>enc_stream = enc_stream e1, enc_W_upper = enc_W_upper e1, enc_streamval = enc_streamval e1,
      enc_index = enc_index e1, enc_full = enc_full e1\<rparr>" by simp
  from terminate_follows [OF this _ _ assms(6)] step obtain n e2 where n: "WebRtcIsacfix_EncTerminate e1 = Some (int n, e2)"
      "n = enc_bytes e1 + (if enc_W_upper e1 > 33554431 then 1 else 2)"
      "\<And>S. carries S n (enc_stream e2) \<Longrightarrow> followed S e1"
    unfolding coding_def followed_def by blast
  have "\<exists>d1 d2 d3. WebRtcIsacfix_DecodeRcCoef d = Some (0, RC, d1) \<and> WebRtcIsacfix_DecodeGain2 d1 = Some (0, gain, d2) \<and>
      WebRtcIsacfix_DecodeSpec d g = Some (int n, scale_spec g sq data, d3)"
    if S: "carries S n (enc_stream e2)" and d: "in_step S e d" for S d
  proof -
    have S1: "words S" "enc_bytes e1 + 4 \<le> 2 * length S" using S n(2) by (auto simp: carries_def split: if_splits)
    have "carries (padded S) n (enc_stream e2)" using S by (auto simp: carries_def padded_def words_def)
    then have "followed (padded S) e1" by (rule n(3))
    then show ?thesis using step S1 d n(2) by blast
  qed
  then show ?thesis using n(1) step unfolding Let_def sq_def [symmetric] by blast
qed

text \<open>
  C12: Samples of probability at least \<open>2^-b\<close> are coded without clipping in at most \<open>b\<close> bits
  each, up to one byte for the whole, and the stream does not overflow if it has this room.
\<close>

theorem Isac_logistic_rate:
  assumes "coding e" "all_likely b 0 data es" "b \<le> 15" "8 * enc_bytes e + b * length data + 8 \<le> 3192"
  shows "\<exists>e1. WebRtcIsacfix_EncLogisticMulti2 e data es = Some (0, e1, data) \<and> coding e1 \<and>
    8 * enc_bytes e1 < 8 * enc_bytes e + b * length data + 8"
  using logistic_rate [OF assms] .

theorem Isac_logistic_rate_witness:
  "\<exists>e1. WebRtcIsacfix_EncLogisticMulti2 (new_encoder (replicate 200 0)) [0, 20, - 30, 0, 50] [256, 100] =
      Some (0, e1, [0, 20, - 30, 0, 50]) \<and> 8 * enc_bytes e1 < 23"
proof -
  have likely: "all_likely 3 0 [0, 20, - 30, 0, 50] [256, 100]" by code_simp
  have "coding (new_encoder (replicate 200 0))" by (rule coding_new) (simp_all add: words_def)
  from Isac_logistic_rate [OF this likely] show ?thesis by (auto simp: new_encoder_def nbytes_def)
qed

text \<open>
  C13: The quantised spectrum, which holds the real and imaginary parts in turn, is off by at most
  64, half a step of the quantiser, and each quantised sample plus its dither is a
  multiple of the step, for any dither and all samples at least 64 away from the ends of the
  range of 16 bits.  Closer to the ends the sum wraps around (\<open>add_dither_wraps\<close>).
\<close>

theorem Isac_quantisation_error:
  assumes "length fr = 2 * n" "length fi = 2 * n" "length dither = 4 * n"
    and "\<forall>f\<in>set fr \<union> set fi. - 32768 + 64 \<le> f \<and> f \<le> 32767 - 64"
  shows "list_all2 (\<lambda>(f, t) d. \<bar>d - f\<bar> \<le> 64 \<and> 128 dvd d + t)
    (zip (interleave fr fi) dither) (fst (quantise_spec n fr fi dither))"
  using assms
proof (induction n arbitrary: fr fi dither)
  case (Suc n)
  obtain a b fr' where fr: "fr = a # b # fr'" using Suc.prems(1) by (cases fr; cases "tl fr") auto
  obtain c d fi' where fi: "fi = c # d # fi'" using Suc.prems(2) by (cases fi; cases "tl fi") auto
  obtain t0 t1 t2 t3 ts' where ts: "dither = [t0, t1, t2, t3] @ ts'" using four [of dither n] Suc.prems(3) by auto
  let ?near = "\<lambda>(f, t) d. \<bar>d - f\<bar> \<le> 64 \<and> 128 dvd d + (t :: int)"
  have "list_all2 ?near (zip (interleave fr' fi') ts') (fst (quantise_spec n fr' fi' ts'))"
    using Suc.prems by (intro Suc.IH) (simp_all add: fr fi ts)
  moreover have "list_all2 ?near [(a, t0), (c, t1), (b, t2), (d, t3)] (quantise_4 fr fi dither)"
    using Suc.prems(4) add_dither_quantised by (simp add: quantise_4_def fr fi ts)
  ultimately show ?case
    by (simp add: fr fi ts Let_def case_prod_unfold
        list_all2_appendI [of _ "[(a, t0), (c, t1), (b, t2), (d, t3)]", simplified])
qed simp

theorem Isac_quantisation_error_witness:
  "list_all2 (\<lambda>(f, t) d. \<bar>d - f\<bar> \<le> 64 \<and> 128 dvd d + t)
    (zip (interleave [1000, - 500] [31, 32703]) [60, 0, - 33, 127]) (fst (quantise_spec 1 [1000, - 500] [31, 32703] [60, 0, - 33, 127]))"
  using Isac_quantisation_error [of "[1000, - 500]" 1 "[31, 32703]" "[60, 0, - 33, 127]"] by simp

text \<open>The second dither of a triple is never negative and can be twice as large as the first.\<close>

lemma dither2_large: "0 \<le> dither2 s \<and> dither2 4244635648 = 127"
  using dither2_range [of s] by (simp add: dither2_def)

text \<open>At a pitch gain of 614 dither and scaling follow different branches.\<close>

lemma threshold_614:
  "GenerateDitherQ7 s n 614 = dither_by_2 (n div 2) 16388 s \<and> GenerateDitherQ7 s n 613 = dither_by_3 (n div 3) s \<and>
   spec_gain 614 p = spec_gain 613 p"
  by (simp add: GenerateDitherQ7_def spec_gain_def)

section \<open>The witness of the round trip: a flat spectrum\<close>

text \<open>
  Real parts 300 and imaginary parts -200.  For a pitch gain of 2253 the dither is scaled down to
  zero, and the parts are quantised to 256 and -256; the search passes candidates on both
  sides of the centre.
\<close>

definition flat :: "nat \<Rightarrow> int list" where
  "flat n = concat (replicate n [256, - 256, 256, - 256])"

lemma flat_Suc: "flat (Suc n) = 256 # - 256 # 256 # - 256 # flat n"
  by (simp add: flat_def)

lemma length_flat: "length (flat n) = 4 * n"
  by (induction n) (simp_all add: flat_Suc, simp add: flat_def)

lemma dither_silent: "dither_by_2 n (- 2) s = replicate (2 * n) 0"
proof (induction n arbitrary: s)
  case (Suc n)
  have "shr (- 2 * dither1 (next_seed s) + 8192) 14 = 0" using dither1_range [of "next_seed s"] by simp
  then have "s16 (shr (- 2 * dither1 (next_seed s) + 8192) 14) = 0" by (simp only:) simp
  with Suc show ?case by (simp add: Let_def)
qed simp

lemma replicate_4: "replicate (4 * Suc n) x = x # x # x # x # replicate (4 * n) x"
proof -
  have "4 * Suc n = Suc (Suc (Suc (Suc (4 * n))))" by simp
  then show ?thesis by (simp only: replicate_Suc)
qed

lemma replicate_2: "replicate (2 * Suc n) x = x # x # replicate (2 * n) x"
proof -
  have "2 * Suc n = Suc (Suc (2 * n))" by simp
  then show ?thesis by (simp only: replicate_Suc)
qed

lemma quantise_spec_flat:
  "quantise_spec n (replicate (2 * n) 300) (replicate (2 * n) (- 200)) (replicate (4 * n) 0) = (flat n, replicate n 65536)"
proof (induction n)
  case (Suc n)
  have "quantise_4 (300 # 300 # fr) (- 200 # - 200 # fi) (0 # 0 # 0 # 0 # ts) = [256, - 256, 256, - 256]" for fr fi ts
    by (simp add: quantise_4_def add_dither_eq)
  moreover have "spec_power [256, - 256, 256, - 256] = 65536" by code_simp
  ultimately show ?case using Suc unfolding replicate_4 replicate_2 by (simp add: flat_Suc)
qed (simp add: flat_def)

text \<open>The widths of the frame are between 98 and 127.\<close>

definition flat_width :: "int \<Rightarrow> bool" where
  "flat_width e \<longleftrightarrow> likely 4 e 256 \<and> likely 4 e (- 256) \<and> sample_apart e 0 256 \<and> sample_apart e 0 (- 256)"

lemma flat_widths: "98 \<le> e \<Longrightarrow> e \<le> 127 \<Longrightarrow> flat_width e"
proof -
  have "list_all flat_width [98..127]" by code_simp
  then show "98 \<le> e \<Longrightarrow> e \<le> 127 \<Longrightarrow> flat_width e" by (simp add: list_all_iff del: upto_rec_numeral)
qed

lemma all_likely_flat: "list_all flat_width es \<Longrightarrow> all_likely 4 (4 * k) (flat (length es)) es"
proof (induction es arbitrary: k)
  case (Cons e es)
  have "all_likely 4 (4 * Suc k) (flat (length es)) es" using Cons.prems by (intro Cons.IH) simp
  moreover have four: "Suc (Suc (Suc (Suc (4 * k)))) = 4 + 4 * k" by simp
  moreover have "Suc (4 * k) div 2 = 2 * k" "Suc (Suc (Suc (4 * k))) div 2 = 2 * k + 1" by presburger+
  ultimately show ?case using Cons.prems by (simp add: flat_Suc flat_width_def four)
qed (simp add: flat_def)

lemma all_apart_flat: "list_all flat_width es \<Longrightarrow> all_apart es (replicate (4 * length es) 0) (flat (length es))"
proof (induction es)
  case (Cons e es)
  then show ?case unfolding length_Cons replicate_4 flat_Suc by (simp add: flat_width_def)
qed (simp add: flat_def)

lemma case_optionE: "(case x of None \<Rightarrow> False | Some y \<Rightarrow> P y) \<Longrightarrow> (\<And>y. x = Some y \<Longrightarrow> P y \<Longrightarrow> R) \<Longrightarrow> R"
  by (cases x) auto

abbreviation flat_corr :: "int list" where
  "flat_corr \<equiv> [245762, 0, 0, 0, 0, 0, 0]"

lemma flat_parameters:
  "case WebRtcIsacfix_EncodeRcCoef (WebRtcSpl_AutoCorrToReflCoef (normalise_corr (corr_shift flat_corr) flat_corr) 6)
       (new_encoder (replicate 200 0)) of
     None \<Rightarrow> False
   | Some (status, RC, e2) \<Rightarrow> status = 0 \<and>
       (case WebRtcIsacfix_EncodeGain2 (residual_gain (residual_energy (WebRtcSpl_ReflCoefToLpc RC 6)
           (normalise_corr (corr_shift flat_corr) flat_corr) (corr_shift flat_corr))) e2 of
          None \<Rightarrow> False
        | Some (status, g2, e3) \<Rightarrow> status = 0 \<and> enc_bytes e3 \<le> 20 \<and>
            (case CalcRootInvArSpec (WebRtcSpl_ReflCoefToLpc RC 6) g2 of
               None \<Rightarrow> False
             | Some es \<Rightarrow> length es = 120 \<and> list_all (\<lambda>e. 98 \<le> e \<and> e \<le> 127) es))"
  by code_simp

lemma flat_encoded:
  "\<exists>e es RC gain. encode_spec (replicate 240 300) (replicate 240 (- 200)) (new_encoder (replicate 200 0)) 2253 =
      Some (0, e, flat 120, es, RC, gain) \<and> enc_index e < 199 \<and>
    all_apart es (GenerateDitherQ7 (enc_W_upper (new_encoder (replicate 200 0))) 480 2253) (flat 120)"
proof -
  let ?norm = "normalise_corr (corr_shift flat_corr) flat_corr"
  have dither: "GenerateDitherQ7 s 480 2253 = replicate 480 0" for s
    using dither_silent [of 240 s] by (simp add: GenerateDitherQ7_def)
  have quant: "quantise_spec 120 (replicate 240 300) (replicate 240 (- 200)) (replicate 480 0) = (flat 120, replicate 120 65536)"
    using quantise_spec_flat [of 120] by simp
  have corr: "CalcCorrelation (replicate 120 65536) = flat_corr" by code_simp
  obtain RC e2 g2 e3 es where
    rc: "WebRtcIsacfix_EncodeRcCoef (WebRtcSpl_AutoCorrToReflCoef ?norm 6) (new_encoder (replicate 200 0)) = Some (0, RC, e2)"
    and gain: "WebRtcIsacfix_EncodeGain2 (residual_gain (residual_energy (WebRtcSpl_ReflCoefToLpc RC 6) ?norm (corr_shift flat_corr))) e2 = Some (0, g2, e3)"
    and root: "CalcRootInvArSpec (WebRtcSpl_ReflCoefToLpc RC 6) g2 = Some es"
    and es: "enc_bytes e3 \<le> 20" "length es = 120" "list_all (\<lambda>e. 98 \<le> e \<and> e \<le> 127) es"
    using flat_parameters by (elim case_optionE case_prodE conjE; hypsubst; blast)
  have "coding (new_encoder (replicate 200 0))" by (rule coding_new) (simp_all add: words_def)
  then have "coding e2" using RcCoef_in_step [OF _ _ rc] by (simp add: AutoCorrToReflCoef_length)
  then have e3: "coding e3" using Gain2_in_step [OF _ gain] by simp
  have ok: "list_all flat_width es" using es(3) flat_widths by (simp add: list_all_iff)
  have "all_likely 4 0 (flat 120) es" using all_likely_flat [OF ok, of 0] es(2) by simp
  from logistic_rate [OF e3 this] es(1) obtain e1 where
    e1: "WebRtcIsacfix_EncLogisticMulti2 e3 (flat 120) es = Some (0, e1, flat 120)"
    "8 * enc_bytes e1 < 8 * enc_bytes e3 + 4 * 480 + 8" by (auto simp: length_flat)
  have "encode_spec (replicate 240 300) (replicate 240 (- 200)) (new_encoder (replicate 200 0)) 2253 =
      Some (0, e1, flat 120, es, RC, g2)"
    by (simp add: encode_spec_def Let_def dither quant corr rc gain root e1(1))
  moreover have "enc_index e1 < 199" using e1(2) es(1) by (simp add: nbytes_def split: if_splits)
  moreover have "all_apart es (replicate 480 0) (flat 120)" using all_apart_flat [OF ok] es(2) by simp
  ultimately show ?thesis unfolding dither by blast
qed

theorem Isac_spectrum_lossless_witness:
  "\<exists>e1 es RC gain n e2. encode_spec (replicate 240 300) (replicate 240 (- 200)) (new_encoder (replicate 200 0)) 2253 =
      Some (0, e1, flat 120, es, RC, gain) \<and>
    WebRtcIsacfix_EncTerminate e1 = Some (int n, e2) \<and>
    (\<forall>S. carries S n (enc_stream e2) \<and> 2 \<le> length S \<longrightarrow>
      (\<exists>d1 d2 d3. WebRtcIsacfix_DecodeRcCoef (new_decoder S) = Some (0, RC, d1) \<and>
         WebRtcIsacfix_DecodeGain2 d1 = Some (0, gain, d2) \<and>
         WebRtcIsacfix_DecodeSpec (new_decoder S) 2253 =
           Some (int n, scale_spec 2253 (CalcInvArSpec (WebRtcSpl_ReflCoefToLpc RC 6) gain) (flat 120), d3)))"
proof -
  obtain e1 es RC gain where enc: "encode_spec (replicate 240 300) (replicate 240 (- 200)) (new_encoder (replicate 200 0)) 2253 =
        Some (0, e1, flat 120, es, RC, gain)" "enc_index e1 < 199"
      "all_apart es (GenerateDitherQ7 (enc_W_upper (new_encoder (replicate 200 0))) 480 2253) (flat 120)"
    using flat_encoded by blast
  have c: "coding (new_encoder (replicate 200 0))" by (rule coding_new) (simp_all add: words_def)
  have start: "in_step S (new_encoder (replicate 200 0)) (new_decoder S)" if "carries S n (enc_stream e2)" "2 \<le> length S" for S n e2
    using that by (intro in_step_new) (simp_all add: carries_def)
  from Isac_spectrum_lossless [OF c _ _ _ enc] obtain n e2 where "WebRtcIsacfix_EncTerminate e1 = Some (int n, e2)"
      "\<forall>S d. carries S n (enc_stream e2) \<and> in_step S (new_encoder (replicate 200 0)) d \<longrightarrow>
         (\<exists>d1 d2 d3. WebRtcIsacfix_DecodeRcCoef d = Some (0, RC, d1) \<and> WebRtcIsacfix_DecodeGain2 d1 = Some (0, gain, d2) \<and>
            WebRtcIsacfix_DecodeSpec d 2253 =
              Some (int n, scale_spec 2253 (CalcInvArSpec (WebRtcSpl_ReflCoefToLpc RC 6) gain) (flat 120), d3))"
    by (auto simp: Let_def)
  with enc(1) start show ?thesis by blast
qed

end
