(* ===== verification/G711.thy ===== *)
theory G711
  imports Bits
begin

text \<open>
  The G.711 companding codecs (\<open>g711.h\<close>, \<open>g711.c\<close>, \<open>g711_interface.c\<close>): the search for the
  top bit, conversion of a sample to \<open>\<mu>\<close>-law and A-law and back, the transcoding tables, and
  the packing of two codes into a 16-bit word (little-endian machines).
\<close>

section \<open>Bit searches\<close>

definition top_step :: "int \<Rightarrow> int \<Rightarrow> int \<times> int \<Rightarrow> int \<times> int" where
  "top_step msk k st =
     (case st of (bits, i) \<Rightarrow>
        if bits AND msk \<noteq> 0 then (bits AND msk, i + k) else (bits, i))"

definition top_bit :: "uint32 \<Rightarrow> int" where
  "top_bit bits =
     (if bits = 0 then - 1
      else snd (top_step 0xAAAAAAAA 1 (top_step 0xCCCCCCCC 2 (top_step 0xF0F0F0F0 4
             (top_step 0xFF00FF00 8 (top_step 0xFFFF0000 16 (bits, 0)))))))"

definition bottom_bit :: "uint32 \<Rightarrow> int" where
  "bottom_bit bits =
     (if bits = 0 then - 1
      else snd (top_step 0x55555555 (- 1) (top_step 0x33333333 (- 2) (top_step 0x0F0F0F0F (- 4)
             (top_step 0x00FF00FF (- 8) (top_step 0x0000FFFF (- 16) (bits, 32)))))))"

section \<open>Samples\<close>

abbreviation (input) ULAW_BIAS :: int where "ULAW_BIAS \<equiv> 0x84"
abbreviation (input) ALAW_AMI_MASK :: int where "ALAW_AMI_MASK \<equiv> 0x55"

definition linear_to_ulaw :: "int \<Rightarrow> int" where
  "linear_to_ulaw linear =
     (let (linear, msk) =
            (if linear < 0 then (ULAW_BIAS - linear - 1, 0x7F) else (ULAW_BIAS + linear, 0xFF));
          seg = top_bit (linear OR 0xFF) - 7
      in if seg \<ge> 8 then u8 (0x7F XOR msk)
         else u8 (((seg * 2 ^ 4) OR (shr linear (nat (seg + 3)) AND 0xF)) XOR msk))"

definition ulaw_to_linear :: "int \<Rightarrow> int16" where
  "ulaw_to_linear ulaw =
     (let ulaw = u8 (NOT ulaw);
          t = ((ulaw AND 0x0F) * 2 ^ 3 + ULAW_BIAS) * 2 ^ nat (shr (ulaw AND 0x70) 4)
      in s16 (if ulaw AND 0x80 \<noteq> 0 then ULAW_BIAS - t else t - ULAW_BIAS))"

definition linear_to_alaw :: "int \<Rightarrow> int" where
  "linear_to_alaw linear =
     (let (linear, msk) =
            (if linear \<ge> 0 then (linear, ALAW_AMI_MASK OR 0x80) else (- linear - 1, ALAW_AMI_MASK));
          seg = top_bit (linear OR 0xFF) - 7
      in if seg \<ge> 8
         then (if linear \<ge> 0 then u8 (0x7F XOR msk) else u8 (0x00 XOR msk))
         else u8 (((seg * 2 ^ 4) OR (shr linear (if seg \<noteq> 0 then nat (seg + 3) else 4) AND 0x0F)) XOR msk))"

definition alaw_to_linear :: "int \<Rightarrow> int16" where
  "alaw_to_linear alaw =
     (let alaw = alaw XOR ALAW_AMI_MASK;
          i = (alaw AND 0x0F) * 2 ^ 4;
          seg = shr (alaw AND 0x70) 4;
          i = (if seg \<noteq> 0 then (i + 0x108) * 2 ^ nat (seg - 1) else i + 8)
      in s16 (if alaw AND 0x80 \<noteq> 0 then i else - i))"

section \<open>Transcoding\<close>

definition ulaw_to_alaw_table :: "int list" where
  "ulaw_to_alaw_table = [
     42, 43, 40, 41, 46, 47, 44, 45, 34, 35, 32, 33, 38, 39, 36, 37,
     58, 59, 56, 57, 62, 63, 60, 61, 50, 51, 48, 49, 54, 55, 52, 53,
     10, 11, 8, 9, 14, 15, 12, 13, 2, 3, 0, 1, 6, 7, 4, 26,
     27, 24, 25, 30, 31, 28, 29, 18, 19, 16, 17, 22, 23, 20, 21, 106,
     104, 105, 110, 111, 108, 109, 98, 99, 96, 97, 102, 103, 100, 101, 122, 120,
     126, 127, 124, 125, 114, 115, 112, 113, 118, 119, 116, 117, 75, 73, 79, 77,
     66, 67, 64, 65, 70, 71, 68, 69, 90, 91, 88, 89, 94, 95, 92, 93,
     82, 82, 83, 83, 80, 80, 81, 81, 86, 86, 87, 87, 84, 84, 85, 85,
     170, 171, 168, 169, 174, 175, 172, 173, 162, 163, 160, 161, 166, 167, 164, 165,
     186, 187, 184, 185, 190, 191, 188, 189, 178, 179, 176, 177, 182, 183, 180, 181,
     138, 139, 136, 137, 142, 143, 140, 141, 130, 131, 128, 129, 134, 135, 132, 154,
     155, 152, 153, 158, 159, 156, 157, 146, 147, 144, 145, 150, 151, 148, 149, 234,
     232, 233, 238, 239, 236, 237, 226, 227, 224, 225, 230, 231, 228, 229, 250, 248,
     254, 255, 252, 253, 242, 243, 240, 241, 246, 247, 244, 245, 203, 201, 207, 205,
     194, 195, 192, 193, 198, 199, 196, 197, 218, 219, 216, 217, 222, 223, 220, 221,
     210, 210, 211, 211, 208, 208, 209, 209, 214, 214, 215, 215, 212, 212, 213, 213]"

definition alaw_to_ulaw_table :: "int list" where
  "alaw_to_ulaw_table = [
     42, 43, 40, 41, 46, 47, 44, 45, 34, 35, 32, 33, 38, 39, 36, 37,
     57, 58, 55, 56, 61, 62, 59, 60, 49, 50, 47, 48, 53, 54, 51, 52,
     10, 11, 8, 9, 14, 15, 12, 13, 2, 3, 0, 1, 6, 7, 4, 5,
     26, 27, 24, 25, 30, 31, 28, 29, 18, 19, 16, 17, 22, 23, 20, 21,
     98, 99, 96, 97, 102, 103, 100, 101, 93, 93, 92, 92, 95, 95, 94, 94,
     116, 118, 112, 114, 124, 126, 120, 122, 106, 107, 104, 105, 110, 111, 108, 109,
     72, 73, 70, 71, 76, 77, 74, 75, 64, 65, 63, 63, 68, 69, 66, 67,
     86, 87, 84, 85, 90, 91, 88, 89, 79, 79, 78, 78, 82, 83, 80, 81,
     170, 171, 168, 169, 174, 175, 172, 173, 162, 163, 160, 161, 166, 167, 164, 165,
     185, 186, 183, 184, 189, 190, 187, 188, 177, 178, 175, 176, 181, 182, 179, 180,
     138, 139, 136, 137, 142, 143, 140, 141, 130, 131, 128, 129, 134, 135, 132, 133,
     154, 155, 152, 153, 158, 159, 156, 157, 146, 147, 144, 145, 150, 151, 148, 149,
     226, 227, 224, 225, 230, 231, 228, 229, 221, 221, 220, 220, 223, 223, 222, 222,
     244, 246, 240, 242, 252, 254, 248, 250, 234, 235, 232, 233, 238, 239, 236, 237,
     200, 201, 198, 199, 204, 205, 202, 203, 192, 193, 191, 191, 196, 197, 194, 195,
     214, 215, 212, 213, 218, 219, 216, 217, 207, 207, 206, 206, 210, 211, 208, 209]"

definition alaw_to_ulaw :: "int \<Rightarrow> int" where
  "alaw_to_ulaw alaw = alaw_to_ulaw_table ! nat alaw"

definition ulaw_to_alaw :: "int \<Rightarrow> int" where
  "ulaw_to_alaw ulaw = ulaw_to_alaw_table ! nat ulaw"


section \<open>Buffers\<close>

text \<open>
  Two codes share a word of the encoded buffer, the first in the low byte.  \<open>n\<close> is the index
  of the sample, the last argument but two the number of samples left.
\<close>

fun g711_encode :: "(int \<Rightarrow> int) \<Rightarrow> int list \<Rightarrow> nat \<Rightarrow> nat \<Rightarrow> int list \<Rightarrow> int list option" where
  "g711_encode code speechIn n 0 encoded = Some encoded"
| "g711_encode code speechIn n (Suc k) encoded = do {
     x \<leftarrow> word_at speechIn n;
     let tempVal = code x;
     encoded \<leftarrow> (if odd n
       then do { v \<leftarrow> word_at encoded (n div 2); put_word encoded (n div 2) (s16 (v OR tempVal * 2 ^ 8)) }
       else put_word encoded (n div 2) tempVal);
     g711_encode code speechIn (n + 1) k encoded }"

fun g711_decode :: "(int \<Rightarrow> int) \<Rightarrow> int list \<Rightarrow> nat \<Rightarrow> nat \<Rightarrow> int list \<Rightarrow> int list option" where
  "g711_decode linear encoded n 0 decoded = Some decoded"
| "g711_decode linear encoded n (Suc k) decoded = do {
     v \<leftarrow> word_at encoded (n div 2);
     let tempVal = u16 (if odd n then shr v 8 else v AND 0xFF);
     decoded \<leftarrow> put_word decoded n (linear (u8 tempVal));
     g711_decode linear encoded (n + 1) k decoded }"

definition WebRtcG711_EncodeA :: "int list \<Rightarrow> int16 \<Rightarrow> int list \<Rightarrow> (int16 \<times> int list) option" where
  "WebRtcG711_EncodeA speechIn len encoded =
     (if len < 0 then Some (- 1, encoded)
      else map_option (Pair len) (g711_encode linear_to_alaw speechIn 0 (nat len) encoded))"

definition WebRtcG711_EncodeU :: "int list \<Rightarrow> int16 \<Rightarrow> int list \<Rightarrow> (int16 \<times> int list) option" where
  "WebRtcG711_EncodeU speechIn len encoded =
     (if len < 0 then Some (- 1, encoded)
      else map_option (Pair len) (g711_encode linear_to_ulaw speechIn 0 (nat len) encoded))"

text \<open>The decoders return the length, the samples and the speech type; it is not set on an error.\<close>

definition WebRtcG711_DecodeA ::
    "int list \<Rightarrow> int16 \<Rightarrow> int list \<Rightarrow> int16 \<Rightarrow> (int16 \<times> int list \<times> int16) option" where
  "WebRtcG711_DecodeA encoded len decoded speechType =
     (if len < 0 then Some (- 1, decoded, speechType)
      else map_option (\<lambda>d. (len, d, 1)) (g711_decode alaw_to_linear encoded 0 (nat len) decoded))"

definition WebRtcG711_DecodeU ::
    "int list \<Rightarrow> int16 \<Rightarrow> int list \<Rightarrow> int16 \<Rightarrow> (int16 \<times> int list \<times> int16) option" where
  "WebRtcG711_DecodeU encoded len decoded speechType =
     (if len < 0 then Some (- 1, decoded, speechType)
      else map_option (\<lambda>d. (len, d, 1)) (g711_decode ulaw_to_linear encoded 0 (nat len) decoded))"


section \<open>The searches are correct\<close>

text \<open>The masks select the odd (even) blocks of \<open>w\<close> bits.\<close>

lemma mask_bits:
  assumes "0 \<le> M" "M < (4294967296 :: int)" "list_all (\<lambda>n. bit M n = P n) [0..<32]"
  shows "bit M n \<longleftrightarrow> n < 32 \<and> P n"
proof (cases "n < 32")
  case False
  then show ?thesis using bit_below [of M 32 n] assms(1,2) by auto
qed (use assms(3) in \<open>auto simp: list_all_iff\<close>)

lemma odd_masks:
  "bit (0xFFFF0000 :: int) n \<longleftrightarrow> n < 32 \<and> odd (n div 16)" "bit (0xFF00FF00 :: int) n \<longleftrightarrow> n < 32 \<and> odd (n div 8)"
  "bit (0xF0F0F0F0 :: int) n \<longleftrightarrow> n < 32 \<and> odd (n div 4)" "bit (0xCCCCCCCC :: int) n \<longleftrightarrow> n < 32 \<and> odd (n div 2)"
  "bit (0xAAAAAAAA :: int) n \<longleftrightarrow> n < 32 \<and> odd (n div 1)"
  by (rule mask_bits; code_simp)+

lemma even_masks:
  "bit (0x0000FFFF :: int) n \<longleftrightarrow> n < 32 \<and> even (n div 16)" "bit (0x00FF00FF :: int) n \<longleftrightarrow> n < 32 \<and> even (n div 8)"
  "bit (0x0F0F0F0F :: int) n \<longleftrightarrow> n < 32 \<and> even (n div 4)" "bit (0x33333333 :: int) n \<longleftrightarrow> n < 32 \<and> even (n div 2)"
  "bit (0x55555555 :: int) n \<longleftrightarrow> n < 32 \<and> even (n div 1)"
  by (rule mask_bits; code_simp)+

text \<open>A block of \<open>2 * w\<close> bits from \<open>i\<close> on, cut to its upper or to its lower half.\<close>

lemma block_half:
  fixes i w n :: nat
  assumes "2 * w dvd i" "i \<le> n" "n < i + 2 * w"
  shows "odd (n div w) \<longleftrightarrow> i + w \<le> n"
proof -
  obtain q where q: "i = 2 * w * q" using assms(1) by (elim dvdE)
  have w: "0 < w" using assms(2,3) by (cases w) auto
  show ?thesis
  proof (cases "i + w \<le> n")
    case True
    then have "n div w = 2 * q + 1" using assms(3) q w by (intro div_nat_eqI) (auto simp: algebra_simps)
    then show ?thesis using True by simp
  next
    case False
    then have "n div w = 2 * q" using assms(2) q w by (intro div_nat_eqI) (auto simp: algebra_simps)
    then show ?thesis using False by simp
  qed
qed

lemma and_upper_half:
  assumes M: "\<And>n. bit M n \<longleftrightarrow> n < 32 \<and> odd (n div w)" and i: "2 * w dvd i" "i + 2 * w \<le> 32"
    and b: "0 \<le> b" "b < 2 ^ (i + 2 * w)"
  shows "(b div 2 ^ i * 2 ^ i) AND M = b div 2 ^ (i + w) * (2 ^ (i + w) :: int)"
proof (rule bit_eqI)
  fix n
  have "bit (push_bit i (drop_bit i b) AND M) n = bit (push_bit (i + w) (drop_bit (i + w) b)) n"
    using block_half [OF i(1), of n] bit_below [OF b, of n] i(2) by (auto simp: bit_simps M)
  then show "bit ((b div 2 ^ i * 2 ^ i) AND M) n = bit (b div 2 ^ (i + w) * (2 ^ (i + w) :: int)) n"
    by (simp add: push_bit_eq_mult drop_bit_eq_div)
qed

lemma and_lower_half:
  assumes M: "\<And>n. bit M n \<longleftrightarrow> n < 32 \<and> even (n div w)" and i: "2 * w dvd i" "i + 2 * w \<le> 32"
    and b: "2 ^ i dvd b"
  shows "(b mod 2 ^ (i + 2 * w)) AND M = b mod (2 ^ (i + w) :: int)"
proof (rule bit_eqI)
  fix n
  have "bit (take_bit (i + 2 * w) b AND M) n = bit (take_bit (i + w) b) n"
    using block_half [OF i(1), of n] bit_above [OF b, of n] i(2) by (auto simp: bit_simps M)
  then show "bit (b mod 2 ^ (i + 2 * w) AND M) n = bit (b mod (2 ^ (i + w) :: int)) n"
    by (simp add: take_bit_eq_mod)
qed

text \<open>The state of the search in a block of \<open>w\<close> bits from \<open>i\<close> on.\<close>

definition top_in :: "int \<Rightarrow> nat \<Rightarrow> int \<times> int \<Rightarrow> bool" where
  "top_in b w st \<longleftrightarrow> (\<exists>i. st = (b div 2 ^ i * 2 ^ i, int i) \<and> w dvd i \<and> i + w \<le> 32 \<and> 2 ^ i \<le> b \<and> b < 2 ^ (i + w))"

lemma top_step_in:
  assumes M: "\<And>n. bit M n \<longleftrightarrow> n < 32 \<and> odd (n div w)" and st: "top_in b (2 * w) st"
  shows "top_in b w (top_step M (int w) st)"
proof -
  obtain i where i: "st = (b div 2 ^ i * 2 ^ i, int i)" "2 * w dvd i" "i + 2 * w \<le> 32" "2 ^ i \<le> b" "b < 2 ^ (i + 2 * w)"
    using st by (auto simp: top_in_def)
  have "0 \<le> b" using i(4) by (smt (verit) zero_le_power)
  then have a: "(b div 2 ^ i * 2 ^ i) AND M = b div 2 ^ (i + w) * 2 ^ (i + w)"
    using and_upper_half [OF M i(2,3)] i(5) by blast
  have "b div 2 ^ (i + w) = 0 \<longleftrightarrow> b < 2 ^ (i + w)"
    using \<open>0 \<le> b\<close> by (auto simp: zdiv_eq_0_iff)
  moreover have "w dvd i" "w dvd i + w" using i(2) by (auto elim: dvd_mult_right)
  ultimately show ?thesis using i a unfolding top_in_def top_step_def
    by (cases "b < 2 ^ (i + w)") (auto intro!: exI [of _ i] exI [of _ "i + w"] simp: algebra_simps)
qed

text \<open>\<open>top_bit\<close> is the binary logarithm.\<close>

theorem top_bit_log:
  assumes "0 < bits" "bits < 4294967296"
  shows "0 \<le> top_bit bits \<and> 2 ^ nat (top_bit bits) \<le> bits \<and> bits < 2 ^ (nat (top_bit bits) + 1)"
proof -
  have "top_in bits 32 (bits, 0)" using assms by (auto simp: top_in_def intro!: exI [of _ 0])
  then have "top_in bits 1 (top_step 0xAAAAAAAA 1 (top_step 0xCCCCCCCC 2 (top_step 0xF0F0F0F0 4
             (top_step 0xFF00FF00 8 (top_step 0xFFFF0000 16 (bits, 0))))))"
    using top_step_in [OF odd_masks(1)] top_step_in [OF odd_masks(2)] top_step_in [OF odd_masks(3)]
      top_step_in [OF odd_masks(4)] top_step_in [OF odd_masks(5)] by simp
  then show ?thesis using assms by (auto simp: top_in_def top_bit_def)
qed

definition bottom_in :: "int \<Rightarrow> nat \<Rightarrow> int \<times> int \<Rightarrow> bool" where
  "bottom_in b w st \<longleftrightarrow> (\<exists>i. st = (b mod 2 ^ (i + w), int (i + w)) \<and> w dvd i \<and> i + w \<le> 32 \<and>
     2 ^ i dvd b \<and> \<not> 2 ^ (i + w) dvd b)"

lemma bottom_step_in:
  assumes M: "\<And>n. bit M n \<longleftrightarrow> n < 32 \<and> even (n div w)" and st: "bottom_in b (2 * w) st"
  shows "bottom_in b w (top_step M (- int w) st)"
proof -
  obtain i where i: "st = (b mod 2 ^ (i + 2 * w), int (i + 2 * w))" "2 * w dvd i" "i + 2 * w \<le> 32"
    "2 ^ i dvd b" "\<not> 2 ^ (i + 2 * w) dvd b"
    using st by (auto simp: bottom_in_def)
  have a: "(b mod 2 ^ (i + 2 * w)) AND M = b mod 2 ^ (i + w)"
    using and_lower_half [OF M i(2,3,4)] .
  have "w dvd i" "w dvd i + w" using i(2) by (auto elim: dvd_mult_right)
  moreover have "b mod 2 ^ (i + w) = 0 \<longleftrightarrow> 2 ^ (i + w) dvd b" by (rule dvd_eq_mod_eq_0 [symmetric])
  ultimately show ?thesis using i a unfolding bottom_in_def top_step_def
    by (cases "2 ^ (i + w) dvd b") (auto intro!: exI [of _ i] exI [of _ "i + w"] simp: algebra_simps)
qed

text \<open>
  \<open>bottom_bit\<close> is documented to be the number of the lowest set bit, as its assembly variants
  are; the portable variant returns one more.
\<close>

theorem bottom_bit_off_by_one:
  assumes "0 < bits" "bits < 4294967296"
  shows "1 \<le> bottom_bit bits \<and> 2 ^ nat (bottom_bit bits - 1) dvd bits \<and> \<not> 2 ^ nat (bottom_bit bits) dvd bits"
proof -
  have "bottom_in bits 32 (bits, 32)"
    using assms zdvd_imp_le [of 4294967296 bits] by (auto simp: bottom_in_def intro!: exI [of _ 0])
  then have "bottom_in bits 1 (top_step 0x55555555 (- 1) (top_step 0x33333333 (- 2) (top_step 0x0F0F0F0F (- 4)
             (top_step 0x00FF00FF (- 8) (top_step 0x0000FFFF (- 16) (bits, 32))))))"
    using bottom_step_in [OF even_masks(1)] bottom_step_in [OF even_masks(2)] bottom_step_in [OF even_masks(3)]
      bottom_step_in [OF even_masks(4)] bottom_step_in [OF even_masks(5)] by simp
  then show ?thesis using assms by (auto simp: bottom_in_def bottom_bit_def nat_add_distrib)
qed

section \<open>Companding\<close>

lemma or_ones:
  assumes "0 \<le> (m :: int)"
  shows "m OR 255 = m div 256 * 256 + 255"
proof -
  have "list_all (\<lambda>r :: int. r OR 255 = 255) [0..255]" by code_simp
  then have r: "m mod 256 OR 255 = 255" by (simp add: list_all_iff)
  have "m = m div 256 * 2 ^ 8 OR m mod 256" using or_add [of "m mod 256" 8 "m div 256"] by simp
  then have "m OR 255 = m div 256 * 2 ^ 8 OR 255" using r by (metis or.assoc)
  also have "\<dots> = m div 256 * 256 + 255" using or_add [of 255 8 "m div 256"] by simp
  finally show ?thesis .
qed

lemma mod_16: "16 \<le> x \<Longrightarrow> x < 32 \<Longrightarrow> x mod 16 = x - (16 :: int)"
  by presburger

lemma log_unique:
  assumes "2 ^ a \<le> x" "x < (2::int) ^ (a + 1)" "2 ^ b \<le> x" "x < 2 ^ (b + 1)"
  shows "a = b"
proof -
  have "(2::int) ^ a < 2 ^ (b + 1)" "(2::int) ^ b < 2 ^ (a + 1)" using assms by linarith+
  then have "a < b + 1" "b < a + 1" by (simp_all only: power_strict_increasing_iff one_less_numeral_iff semiring_norm)
  then show ?thesis by simp
qed

lemma top_bit_eq:
  assumes "2 ^ k \<le> x" "x < (2::int) ^ (k + 1)" "x < 4294967296"
  shows "top_bit x = int k"
proof -
  have "0 < x" using assms(1) by (smt (verit) zero_less_power)
  from top_bit_log [OF this assms(3)] have "nat (top_bit x) = k" "0 \<le> top_bit x"
    using log_unique [of "nat (top_bit x)" x k] assms by auto
  then show ?thesis by simp
qed

lemma top_bit_segment:
  assumes "2 ^ (s + 7) \<le> m" "m < (2::int) ^ (s + 8)" "s \<le> 8"
  shows "top_bit (m OR 0xFF) = int s + 7"
proof -
  have m: "0 \<le> m" using assms(1) by (smt (verit) zero_le_power)
  have e: "(2::int) ^ (s + 8) = 256 * 2 ^ s" by (simp add: power_add)
  have "m div 256 < 2 ^ s" using assms(2) by (simp add: e div_less_iff mult.commute)
  then have "256 * (m div 256) + 256 \<le> 256 * 2 ^ s" by simp
  then have "m OR 255 < 2 ^ (s + 8)" unfolding or_ones [OF m] e by (simp add: mult.commute)
  moreover have "m \<le> m OR 255" using m by (simp add: or_ones)
  moreover have "(2::int) ^ (s + 8) \<le> 2 ^ 16" using assms(3) by (intro power_increasing) auto
  ultimately show ?thesis using assms(1) top_bit_eq [of "s + 7" "m OR 255"] by (simp add: add.commute)
qed

lemma top_bit_small: "0 \<le> m \<Longrightarrow> m < 256 \<Longrightarrow> top_bit (m OR 0xFF) = 7"
  using top_bit_eq [of 7 255] by (simp add: or_ones)

lemma xor_ones:
  assumes "0 \<le> c" "c < (128 :: int)"
  shows "c XOR 255 = 255 - c" "c XOR 127 = 127 - c" "c XOR 213 = 213 - c + 2 * (c AND 42)" "c XOR 85 = (c XOR 213) - 128"
proof -
  have "list_all (\<lambda>c :: int. c XOR 255 = 255 - c \<and> c XOR 127 = 127 - c \<and>
      c XOR 213 = 213 - c + 2 * (c AND 42) \<and> c XOR 85 = (c XOR 213) - 128) [0..127]" by code_simp
  then show "c XOR 255 = 255 - c" "c XOR 127 = 127 - c" "c XOR 213 = 213 - c + 2 * (c AND 42)"
    "c XOR 85 = (c XOR 213) - 128" using assms by (auto simp: list_all_iff)
qed

text \<open>The code of a magnitude in segment \<open>s\<close>, before the mask is applied.\<close>

lemma segment_code:
  assumes "2 ^ (s + 7) \<le> m" "m < (2::int) ^ (s + 8)" "s \<le> 7"
  shows "(int s * 2 ^ 4) OR (shr m (s + 3) AND 0xF) = 16 * int s + (shr m (s + 3) - 16)"
    and "16 \<le> shr m (s + 3)" "shr m (s + 3) < 32"
proof -
  have e: "(2::int) ^ (s + 7) = 16 * 2 ^ (s + 3)" "(2::int) ^ (s + 8) = 32 * 2 ^ (s + 3)"
    by (simp_all add: power_add)
  show r: "16 \<le> shr m (s + 3)" "shr m (s + 3) < 32"
    using assms(1,2) unfolding e by (simp_all only: le_shr_iff shr_less_iff)
  have "shr m (s + 3) AND 15 = shr m (s + 3) mod 16"
    using take_bit_eq_mask [of 4 "shr m (s + 3)"] by (simp add: take_bit_eq_mod mask_eq_exp_minus_1)
  also have "\<dots> = shr m (s + 3) - 16" using r by (rule mod_16)
  finally show "(int s * 2 ^ 4) OR (shr m (s + 3) AND 0xF) = 16 * int s + (shr m (s + 3) - 16)"
    using or_add [of "shr m (s + 3) - 16" 4 "int s"] r by simp
qed

lemma ulaw_decode_code:
  assumes "0 \<le> c" "c < 128"
  shows "ulaw_to_linear (255 - c) = (c mod 16 * 8 + 132) * 2 ^ nat (c div 16) - 132"
    and "ulaw_to_linear (127 - c) = 132 - (c mod 16 * 8 + 132) * 2 ^ nat (c div 16)"
proof -
  have "list_all (\<lambda>c. ulaw_to_linear (255 - c) = (c mod 16 * 8 + 132) * 2 ^ nat (c div 16) - 132 \<and>
      ulaw_to_linear (127 - c) = 132 - (c mod 16 * 8 + 132) * 2 ^ nat (c div 16)) [0..127]" by code_simp
  then show "ulaw_to_linear (255 - c) = (c mod 16 * 8 + 132) * 2 ^ nat (c div 16) - 132"
    "ulaw_to_linear (127 - c) = 132 - (c mod 16 * 8 + 132) * 2 ^ nat (c div 16)"
    using assms by (auto simp: list_all_iff)
qed

lemma alaw_decode_code:
  assumes "0 \<le> c" "c < 128"
  shows "alaw_to_linear (c XOR 213) = (if c < 16 then c * 16 + 8 else (c mod 16 * 16 + 264) * 2 ^ nat (c div 16 - 1))"
    and "alaw_to_linear (c XOR 85) = - alaw_to_linear (c XOR 213)"
proof -
  have "list_all (\<lambda>c. alaw_to_linear (c XOR 213) = (if c < 16 then c * 16 + 8 else (c mod 16 * 16 + 264) * 2 ^ nat (c div 16 - 1)) \<and>
      alaw_to_linear (c XOR 85) = - alaw_to_linear (c XOR 213)) [0..127]" by code_simp
  then show "alaw_to_linear (c XOR 213) = (if c < 16 then c * 16 + 8 else (c mod 16 * 16 + 264) * 2 ^ nat (c div 16 - 1))"
    "alaw_to_linear (c XOR 85) = - alaw_to_linear (c XOR 213)"
    using assms by (auto simp: list_all_iff)
qed

text \<open>What is left of a magnitude: the middle of its interval, \<open>2 ^ (s + 3)\<close> wide.\<close>

definition level :: "int \<Rightarrow> int" where
  "level m =
     (if m < 256 then m div 8 * 8 + 4 else if m < 512 then m div 16 * 16 + 8
      else if m < 1024 then m div 32 * 32 + 16 else if m < 2048 then m div 64 * 64 + 32
      else if m < 4096 then m div 128 * 128 + 64 else if m < 8192 then m div 256 * 256 + 128
      else if m < 16384 then m div 512 * 512 + 256 else if m < 32768 then m div 1024 * 1024 + 512
      else 32256)"

definition alaw_level :: "int \<Rightarrow> int" where
  "alaw_level m = (if m < 256 then m div 16 * 16 + 8 else level m)"

lemma segment_cases:
  assumes "128 \<le> m" "m < (32768 :: int)"
  obtains s where "s \<le> 7" "2 ^ (s + 7) \<le> m" "m < 2 ^ (s + 8)"
    "level m = shr m (s + 3) * 2 ^ (s + 3) + 4 * 2 ^ s"
proof -
  consider "m < 256" | "256 \<le> m" "m < 512" | "512 \<le> m" "m < 1024" | "1024 \<le> m" "m < 2048"
    | "2048 \<le> m" "m < 4096" | "4096 \<le> m" "m < 8192" | "8192 \<le> m" "m < 16384" | "16384 \<le> m"
    by linarith
  then show ?thesis
  proof cases
    case 1 then show ?thesis using that [of 0] assms by (simp add: level_def)
  next
    case 2 then show ?thesis using that [of 1] by (simp add: level_def)
  next
    case 3 then show ?thesis using that [of 2] by (simp add: level_def)
  next
    case 4 then show ?thesis using that [of 3] by (simp add: level_def)
  next
    case 5 then show ?thesis using that [of 4] by (simp add: level_def)
  next
    case 6 then show ?thesis using that [of 5] by (simp add: level_def)
  next
    case 7 then show ?thesis using that [of 6] by (simp add: level_def)
  next
    case 8 then show ?thesis using that [of 7] assms by (simp add: level_def)
  qed
qed

lemma code_parts:
  assumes "16 \<le> h" "h < (32 :: int)" "s \<le> 7" "c = 16 * int s + (h - 16)"
  shows "0 \<le> c" "c < 128" "c mod 16 = h - 16" "c div 16 = int s" "nat (c div 16) = s"
    "c < 16 \<longleftrightarrow> s = 0" "nat (c div 16 - 1) = s - 1"
proof -
  show "0 \<le> c" "c < 128" using assms by auto
  have q: "0 \<le> h - 16" "h - 16 < 16" using assms by auto
  show "c mod 16 = h - 16" unfolding assms(4) using q by (simp add: mod_16 assms(1,2))
  show d: "c div 16 = int s" unfolding assms(4) using q by (simp add: div_pos_pos_trivial)
  show "nat (c div 16) = s" "nat (c div 16 - 1) = s - 1" unfolding d by auto
  show "c < 16 \<longleftrightarrow> s = 0" using q assms(4) by auto
qed

lemma ulaw_quantises:
  assumes "is_s16 x"
  shows "ulaw_to_linear (linear_to_ulaw x) = (if x < 0 then 132 - level (131 - x) else level (132 + x) - 132)"
proof -
  define m where "m = (if x < 0 then 131 - x else 132 + x)"
  have m: "131 < m" "m < 32900" using assms by (auto simp: m_def is_s16_def)
  have enc: "linear_to_ulaw x = (let seg = top_bit (m OR 0xFF) - 7; msk = if x < 0 then 0x7F else 0xFF
      in if seg \<ge> 8 then u8 (0x7F XOR msk) else u8 (((seg * 2 ^ 4) OR (shr m (nat (seg + 3)) AND 0xF)) XOR msk))"
    by (simp add: linear_to_ulaw_def m_def Let_def)
  have "ulaw_to_linear (linear_to_ulaw x) = (if x < 0 then 132 - level m else level m - 132)"
  proof (cases "m < 32768")
    case False
    then have "top_bit (m OR 0xFF) = int 8 + 7" using m by (intro top_bit_segment) auto
    moreover have "level m = 32256" using False by (simp add: level_def)
    ultimately show ?thesis using ulaw_decode_code [of 127] xor_ones [of 127]
      unfolding enc by (simp add: Let_def u8_id)
  next
    case True
    then obtain s where s: "s \<le> 7" "2 ^ (s + 7) \<le> m" "m < 2 ^ (s + 8)"
      "level m = shr m (s + 3) * 2 ^ (s + 3) + 4 * 2 ^ s" using segment_cases [of m] m by auto
    define h where "h = shr m (s + 3)"
    define c where "c = 16 * int s + (h - 16)"
    note code = segment_code [OF s(2,3,1)]
    have c: "0 \<le> c" "c < 128" "c mod 16 = h - 16" "nat (c div 16) = s"
      using code_parts [OF _ _ s(1) c_def] code(2,3) by (simp_all add: h_def)
    have "top_bit (m OR 0xFF) = int s + 7" using s by (intro top_bit_segment) auto
    then have "linear_to_ulaw x = u8 (c XOR (if x < 0 then 0x7F else 0xFF))"
      using code(1) s(1) unfolding enc by (simp add: Let_def c_def h_def nat_add_distrib)
    then have "linear_to_ulaw x = (if x < 0 then 127 - c else 255 - c)"
      using c(1,2) xor_ones [of c] by (simp add: u8_id)
    moreover have "(c mod 16 * 8 + 132) * 2 ^ nat (c div 16) = level m"
      unfolding c(3,4) s(4) h_def [symmetric] by (simp add: power_add algebra_simps)
    ultimately show ?thesis using ulaw_decode_code [OF c(1,2)] by simp
  qed
  then show ?thesis by (simp add: m_def)
qed

lemma alaw_quantises:
  assumes "is_s16 x"
  shows "alaw_to_linear (linear_to_alaw x) = (if x < 0 then - alaw_level (- x - 1) else alaw_level x)"
proof -
  define m where "m = (if x < 0 then - x - 1 else x)"
  have m: "0 \<le> m" "m < 32768" using assms by (auto simp: m_def is_s16_def)
  have "(0x55 :: int) OR 0x80 = 213" by code_simp
  then have enc: "linear_to_alaw x = (let seg = top_bit (m OR 0xFF) - 7; msk = if x < 0 then 0x55 else 213
      in if seg \<ge> 8 then u8 (0x7F XOR msk)
         else u8 (((seg * 2 ^ 4) OR (shr m (if seg \<noteq> 0 then nat (seg + 3) else 4) AND 0x0F)) XOR msk))"
    using m by (simp add: linear_to_alaw_def m_def Let_def)
  have u8: "u8 (c XOR 85) = c XOR 85" "u8 (c XOR 213) = c XOR 213" if "0 \<le> c" "c < 128" for c
  proof -
    have "list_all (\<lambda>c. u8 (c XOR 85) = c XOR 85 \<and> u8 (c XOR 213) = c XOR 213) [0..127]" by code_simp
    then show "u8 (c XOR 85) = c XOR 85" "u8 (c XOR 213) = c XOR 213" using that by (auto simp: list_all_iff)
  qed
  have "alaw_to_linear (linear_to_alaw x) = (if x < 0 then - alaw_level m else alaw_level m)"
  proof (cases "m < 256")
    case True
    then have top: "top_bit (m OR 0xFF) = 7" using m by (intro top_bit_small) auto
    have q: "0 \<le> m div 16" "m div 16 < 16" using True m by auto
    then have "m div 16 AND 15 = m div 16"
      using take_bit_eq_mask [of 4 "m div 16"] by (simp add: take_bit_eq_mod mask_eq_exp_minus_1)
    then have "linear_to_alaw x = (m div 16) XOR (if x < 0 then 85 else 213)"
      using top q u8 [of "m div 16"] unfolding enc by (simp add: Let_def)
    then show ?thesis using alaw_decode_code [of "m div 16"] q True by (simp add: alaw_level_def)
  next
    case False
    then obtain s where s: "s \<le> 7" "2 ^ (s + 7) \<le> m" "m < 2 ^ (s + 8)"
      "level m = shr m (s + 3) * 2 ^ (s + 3) + 4 * 2 ^ s" using segment_cases [of m] m by auto
    have s0: "s \<noteq> 0" using False s(3) by (intro notI) simp
    define h where "h = shr m (s + 3)"
    define c where "c = 16 * int s + (h - 16)"
    note code = segment_code [OF s(2,3,1)]
    have c: "0 \<le> c" "c < 128" "c mod 16 = h - 16" "\<not> c < 16" "nat (c div 16 - 1) = s - 1"
      using code_parts [OF _ _ s(1) c_def] code(2,3) s0 by (simp_all add: h_def)
    have "top_bit (m OR 0xFF) = int s + 7" using s by (intro top_bit_segment) auto
    then have "linear_to_alaw x = c XOR (if x < 0 then 85 else 213)"
      using code(1) s(1) s0 u8 [OF c(1,2)] unfolding enc by (simp add: Let_def c_def h_def nat_add_distrib)
    moreover have "(c mod 16 * 16 + 264) * 2 ^ nat (c div 16 - 1) = level m"
      using s0 unfolding c(3,5) s(4) h_def [symmetric] by (cases s) (simp_all add: power_add algebra_simps)
    ultimately show ?thesis using alaw_decode_code [OF c(1,2)] c(4) False by (simp add: alaw_level_def)
  qed
  then show ?thesis by (simp add: m_def)
qed

lemma segment_form:
  assumes "128 \<le> m" "m < (32768 :: int)"
  obtains s where "s \<le> 7" "2 ^ (s + 7) \<le> m" "m < 2 ^ (s + 8)" "level m = shr m (s + 3) * 2 ^ (s + 3) + 4 * 2 ^ s"
    "\<bar>level m - m\<bar> \<le> 4 * 2 ^ s" "m - level m < 4 * 2 ^ s" "2 ^ (s + 7) \<le> level m" "level m \<le> 252 * 2 ^ s"
proof -
  obtain s where s: "s \<le> 7" "2 ^ (s + 7) \<le> m" "m < 2 ^ (s + 8)"
    "level m = shr m (s + 3) * 2 ^ (s + 3) + 4 * 2 ^ s" using segment_cases [OF assms] by blast
  define h A where "h = shr m (s + 3)" and "A = h * 2 ^ (s + 3)"
  have e: "(2::int) ^ (s + 3) = 8 * 2 ^ s" "(2::int) ^ (s + 7) = 128 * 2 ^ s" by (simp_all add: power_add)
  have h: "16 \<le> h" "h \<le> 31" using segment_code(2,3) [OF s(2,3,1)] by (simp_all add: h_def)
  have "16 * 2 ^ (s + 3) \<le> A" "A \<le> 31 * 2 ^ (s + 3)"
    unfolding A_def using h by (intro mult_right_mono; simp)+
  then have A: "128 * 2 ^ s \<le> A" "A \<le> 248 * 2 ^ s" unfolding e by simp_all
  have "m = A + m mod 2 ^ (s + 3)" unfolding A_def h_def by (rule div_mult_mod_eq [symmetric])
  moreover have "0 \<le> m mod 2 ^ (s + 3)" "m mod 2 ^ (s + 3) < 8 * 2 ^ s" unfolding e(1) [symmetric] by simp_all
  moreover have "level m = A + 4 * 2 ^ s" using s(4) by (simp add: A_def h_def)
  ultimately have "\<bar>level m - m\<bar> \<le> 4 * 2 ^ s" "m - level m < 4 * 2 ^ s" "2 ^ (s + 7) \<le> level m" "level m \<le> 252 * 2 ^ s"
    using A unfolding e by linarith+
  with s show ?thesis by (rule that)
qed

lemma level_top: "32768 \<le> m \<Longrightarrow> level m = 32256"
  by (simp add: level_def)

lemma segment_order:
  assumes "2 ^ (s + 7) \<le> m" "m \<le> m'" "m' < (2 :: int) ^ (s' + 8)"
  shows "s \<le> s'"
proof -
  have "(2::int) ^ (s + 7) < 2 ^ (s' + 8)" using assms by linarith
  then have "s + 7 < s' + 8" by (simp only: power_strict_increasing_iff one_less_numeral_iff semiring_norm)
  then show ?thesis by simp
qed

lemma level_mono:
  assumes "128 \<le> m" "m \<le> m'"
  shows "level m \<le> level m'"
proof (cases "m < 32768")
  case True
  obtain s where s: "s \<le> 7" "2 ^ (s + 7) \<le> m" "level m = shr m (s + 3) * 2 ^ (s + 3) + 4 * 2 ^ s" "level m \<le> 252 * 2 ^ s"
    using segment_form [OF assms(1) True] by blast
  show ?thesis
  proof (cases "m' < 32768")
    case m': True
    obtain s' where s': "m' < 2 ^ (s' + 8)" "level m' = shr m' (s' + 3) * 2 ^ (s' + 3) + 4 * 2 ^ s'" "2 ^ (s' + 7) \<le> level m'"
      using segment_form [of m'] m' assms by (metis order_trans)
    consider "s = s'" | "s + 1 \<le> s'" using segment_order [OF s(2) assms(2) s'(1)] by linarith
    then show ?thesis
    proof cases
      case 1
      have "shr m (s + 3) * 2 ^ (s + 3) \<le> shr m' (s + 3) * 2 ^ (s + 3)"
        using assms(2) by (intro mult_right_mono shr_mono) simp_all
      then show ?thesis using s(3) s'(2) 1 by simp
    next
      case 2
      then have "(2::int) ^ (s + 8) \<le> 2 ^ (s' + 7)" by (intro power_increasing) auto
      moreover have "(2::int) ^ (s + 8) = 256 * 2 ^ s" by (simp add: power_add)
      moreover have "(0::int) < 2 ^ s" by simp
      ultimately show ?thesis using s(4) s'(3) by linarith
    qed
  next
    case False
    have "(2::int) ^ s \<le> 2 ^ 7" using s(1) by (intro power_increasing) auto
    then show ?thesis using s(4) False level_top [of m'] by simp
  qed
qed (use assms level_top [of m] level_top [of m'] in auto)

lemma level_error:
  assumes "128 \<le> m" "m < 32900"
  shows "level m - m \<le> m div 32" "m - level m < m div 32"
proof -
  have "level m - m \<le> m div 32 \<and> m - level m < m div 32"
  proof (cases "m < 32768")
    case True
    obtain s where s: "2 ^ (s + 7) \<le> m" "\<bar>level m - m\<bar> \<le> 4 * 2 ^ s" "m - level m < 4 * 2 ^ s"
      using segment_form [OF assms(1) True] by blast
    have "4 * 2 ^ s * 32 \<le> m" using s(1) by (simp add: power_add)
    then have "4 * 2 ^ s \<le> m div 32" by (simp only: le_div_iff)
    then show ?thesis using s(2,3) unfolding abs_le_iff by (intro conjI; linarith)
  qed (use assms level_top [of m] in auto)
  then show "level m - m \<le> m div 32" "m - level m < m div 32" by blast+
qed

lemma alaw_level_error:
  assumes "0 \<le> m" "m < 32768"
  shows "alaw_level m - m \<le> max 8 (m div 32)" "m - alaw_level m < max 8 (m div 32)"
  using level_error [of m] assms by (auto simp: alaw_level_def max_def)

lemma less_div_32: "a < m div 32 \<Longrightarrow> 32 * a + 32 \<le> (m :: int)" "a \<le> m div 32 \<Longrightarrow> 32 * a \<le> m"
  by linarith+

lemma alaw_level_mono:
  assumes "0 \<le> m" "m \<le> m'"
  shows "alaw_level m \<le> alaw_level m'"
proof -
  have "m div 16 \<le> m' div 16" using assms by (intro zdiv_mono1) auto
  moreover have "256 \<le> level m'" if "256 \<le> m'" using level_mono [OF _ that] by (simp add: level_def)
  moreover have "m div 16 \<le> 15" if "m < 256" using that by (simp add: div_less_iff flip: zle_diff1_eq)
  ultimately show ?thesis using assms level_mono [of m m'] by (auto simp: alaw_level_def)
qed

text \<open>
  C29: The error of a sample that is coded and decoded is at most a thirty-second of the sample,
  biased for \<open>\<mu>\<close>-law, clipping of the largest samples included.
\<close>

theorem ulaw_error:
  assumes "is_s16 x"
  shows "32 * \<bar>ulaw_to_linear (linear_to_ulaw x) - x\<bar> \<le> \<bar>x\<bar> + 132"
proof (cases "x < 0")
  case True
  then show ?thesis
    using less_div_32 [of _ "131 - x"] level_error [of "131 - x"] assms
    unfolding ulaw_quantises [OF assms] is_s16_def by (simp add: abs_le_iff) (smt (verit))
next
  case False
  then show ?thesis
    using less_div_32 [of _ "132 + x"] level_error [of "132 + x"] assms
    unfolding ulaw_quantises [OF assms] is_s16_def by (simp add: abs_le_iff) (smt (verit))
qed

theorem ulaw_error_witness: "32 * \<bar>ulaw_to_linear (linear_to_ulaw (- 32768)) - (- 32768)\<bar> \<le> \<bar>- 32768\<bar> + 132"
  by (rule ulaw_error) (simp add: is_s16_def)

theorem alaw_error:
  assumes "is_s16 x"
  shows "\<bar>alaw_to_linear (linear_to_alaw x) - x\<bar> \<le> max 8 (\<bar>x\<bar> div 32)"
proof (cases "x < 0")
  case True
  have "(- x - 1) div 32 \<le> (- x) div 32" by (rule zdiv_mono1) simp_all
  then show ?thesis
    using True alaw_level_error [of "- x - 1"] assms
    unfolding alaw_quantises [OF assms] is_s16_def by (simp add: abs_le_iff) linarith
next
  case False
  then show ?thesis
    using alaw_level_error [of x] assms
    unfolding alaw_quantises [OF assms] is_s16_def by (simp add: abs_le_iff)
qed

theorem alaw_error_witness: "\<bar>alaw_to_linear (linear_to_alaw 32767) - 32767\<bar> \<le> max 8 (\<bar>32767\<bar> div 32)"
  by (rule alaw_error) (simp add: is_s16_def)

text \<open>C30: Coding keeps the order of samples.\<close>

theorem companding_monotone:
  assumes "is_s16 x" "is_s16 y" "x \<le> y"
  shows "ulaw_to_linear (linear_to_ulaw x) \<le> ulaw_to_linear (linear_to_ulaw y) \<and>
    alaw_to_linear (linear_to_alaw x) \<le> alaw_to_linear (linear_to_alaw y)"
proof -
  have "132 \<le> level m" if "132 \<le> m" for m using level_mono [of 132 m] that by (simp add: level_def)
  moreover have "0 \<le> alaw_level m" if "0 \<le> m" for m using alaw_level_mono [of 0 m] that by (simp add: alaw_level_def)
  ultimately have "132 - level (131 - x) \<le> level (132 + y) - 132" "- alaw_level (- x - 1) \<le> alaw_level y"
    if "x < 0" "\<not> y < 0"
    using that by (smt (verit))+
  moreover have "level (131 - y) \<le> level (131 - x)" "alaw_level (- y - 1) \<le> alaw_level (- x - 1)" if "y < 0"
    using that assms(3) by (auto intro: level_mono alaw_level_mono)
  moreover have "level (132 + x) \<le> level (132 + y)" "alaw_level x \<le> alaw_level y" if "\<not> x < 0"
    using that assms(3) by (auto intro: level_mono alaw_level_mono)
  ultimately show ?thesis using assms(3)
    unfolding ulaw_quantises [OF assms(1)] ulaw_quantises [OF assms(2)]
      alaw_quantises [OF assms(1)] alaw_quantises [OF assms(2)] by auto
qed

theorem companding_monotone_witness:
  "ulaw_to_linear (linear_to_ulaw (- 5)) \<le> ulaw_to_linear (linear_to_ulaw 3) \<and>
    alaw_to_linear (linear_to_alaw (- 5)) \<le> alaw_to_linear (linear_to_alaw 3)"
  by (rule companding_monotone) (simp_all add: is_s16_def)

text \<open>Codes are coded again as themselves, except for the negative zero of \<open>\<mu>\<close>-law.\<close>

theorem companding_codes:
  assumes "0 \<le> c" "c \<le> 255"
  shows "linear_to_alaw (alaw_to_linear c) = c \<and>
    linear_to_ulaw (ulaw_to_linear c) = (if c = 127 then 255 else c)"
proof -
  have "list_all (\<lambda>c. linear_to_alaw (alaw_to_linear c) = c \<and> linear_to_ulaw (ulaw_to_linear c) = (if c = 127 then 255 else c)) [0..255]"
    by code_simp
  then show ?thesis using assms by (simp add: list_all_iff)
qed

theorem companding_codes_witness:
  "linear_to_alaw (alaw_to_linear 42) = 42 \<and> linear_to_ulaw (ulaw_to_linear 42) = (if (42 :: int) = 127 then 255 else 42)"
  using companding_codes [of 42] by simp

section \<open>Transcoding\<close>

text \<open>
  The tables are documented to give the best match.  Transcoding keeps the order of the
  decoded samples, but 36 of the 256 \<open>\<mu>\<close>-law codes and 30 of the A-law codes have a closer
  neighbour in the other law.
\<close>

definition closest_alaw :: "int \<Rightarrow> bool" where
  "closest_alaw u \<longleftrightarrow> list_all (\<lambda>a. \<bar>alaw_to_linear (ulaw_to_alaw u) - ulaw_to_linear u\<bar> \<le> \<bar>alaw_to_linear a - ulaw_to_linear u\<bar>) [0..255]"

definition closest_ulaw :: "int \<Rightarrow> bool" where
  "closest_ulaw a \<longleftrightarrow> list_all (\<lambda>u. \<bar>ulaw_to_linear (alaw_to_ulaw a) - alaw_to_linear a\<bar> \<le> \<bar>ulaw_to_linear u - alaw_to_linear a\<bar>) [0..255]"

theorem transcoding_not_closest: "\<not> closest_alaw 32" "\<not> closest_ulaw 0"
  by code_simp+

section \<open>Buffers\<close>

text \<open>The code of sample \<open>i\<close> in an encoded buffer.\<close>

definition byte_of :: "int list \<Rightarrow> nat \<Rightarrow> int" where
  "byte_of e i = (if odd i then u8 (shr (e ! (i div 2)) 8) else u8 (e ! (i div 2)))"

lemma g711_encode_bytes:
  assumes "\<forall>x. 0 \<le> code x \<and> code x < 256"
  shows "\<lbrakk>n + k \<le> length speech; n + k \<le> 2 * length e; odd n \<Longrightarrow> 0 \<le> e ! (n div 2) \<and> e ! (n div 2) < 256\<rbrakk> \<Longrightarrow>
    \<exists>e'. g711_encode code speech n k e = Some e' \<and> length e' = length e \<and>
      (\<forall>i<n. byte_of e' i = byte_of e i) \<and> (\<forall>i\<in>{n..<n + k}. byte_of e' i = code (speech ! i))"
proof (induction k arbitrary: n e)
  case (Suc k)
  let ?t = "code (speech ! n)" and ?v = "e ! (n div 2)"
  define w where "w = (if odd n then s16 (?v OR ?t * 2 ^ 8) else ?t)"
  have n: "n < length speech" "n div 2 < length e" using Suc.prems(1,2) by linarith+
  have t: "0 \<le> ?t" "?t < 256" using assms by auto
  have or: "?v OR ?t * 2 ^ 8 = ?t * 256 + ?v" if "odd n"
    using or_add [of ?v 8 ?t] Suc.prems(3) [OF that] by (simp add: or.commute)
  have byte: "byte_of (e[n div 2 := w]) n = ?t" "i < n \<Longrightarrow> byte_of (e[n div 2 := w]) i = byte_of e i" for i
  proof -
    show "byte_of (e[n div 2 := w]) n = ?t"
      using n t or Suc.prems(3) by (auto simp: byte_of_def w_def u8_s16 u8_id)
    show "byte_of (e[n div 2 := w]) i = byte_of e i" if "i < n"
    proof (cases "i div 2 = n div 2")
      case True
      with that have "odd n" "even i" by presburger+
      then show ?thesis using n t or Suc.prems(3) True by (auto simp: byte_of_def w_def u8_s16 u8_add)
    qed (simp add: byte_of_def)
  qed
  have "odd (n + 1) \<Longrightarrow> 0 \<le> e[n div 2 := w] ! ((n + 1) div 2) \<and> e[n div 2 := w] ! ((n + 1) div 2) < 256"
    using n t by (auto simp: w_def)
  then obtain e' where e': "g711_encode code speech (n + 1) k (e[n div 2 := w]) = Some e'" "length e' = length e"
    "\<forall>i<n + 1. byte_of e' i = byte_of (e[n div 2 := w]) i" "\<forall>i\<in>{n + 1..<n + 1 + k}. byte_of e' i = code (speech ! i)"
    using Suc.IH [of "n + 1" "e[n div 2 := w]"] Suc.prems by auto
  have "g711_encode code speech n (Suc k) e = Some e'"
    using n e'(1) by (auto simp: Let_def word_at_def put_word_def w_def split: if_splits)
  then show ?case using e' byte by (auto simp: less_Suc_eq_le atLeastLessThan_iff le_eq_less_or_eq)
qed simp

lemma g711_decode_map:
  "\<lbrakk>n + k \<le> 2 * length e; n + k \<le> length d\<rbrakk> \<Longrightarrow>
    g711_decode linear e n k d = Some (take n d @ map (\<lambda>i. linear (byte_of e i)) [n..<n + k] @ drop (n + k) d)"
proof (induction k arbitrary: n d)
  case (Suc k)
  have n: "n div 2 < length e" "n < length d" using Suc.prems by linarith+
  have "u8 (u16 (if odd n then shr (e ! (n div 2)) 8 else e ! (n div 2) AND 0xFF)) = byte_of e n"
  proof -
    have "u8 (u16 x) = u8 x" for x by (simp add: u8_def u16_def mod_mod_cancel)
    moreover have "u8 (x AND 0xFF) = u8 x" for x
      using take_bit_eq_mask [of 8 x] by (simp add: u8_def take_bit_eq_mod mask_eq_exp_minus_1)
    ultimately show ?thesis by (simp add: byte_of_def)
  qed
  then have "g711_decode linear e n (Suc k) d = g711_decode linear e (n + 1) k (d[n := linear (byte_of e n)])"
    using n by (simp add: word_at_def put_word_def)
  also have "\<dots> = Some (take (n + 1) (d[n := linear (byte_of e n)]) @ map (\<lambda>i. linear (byte_of e i)) [n + 1..<n + 1 + k] @ drop (n + 1 + k) d)"
    using Suc.IH [of "n + 1" "d[n := linear (byte_of e n)]"] Suc.prems by simp
  also have "\<dots> = Some (take n d @ map (\<lambda>i. linear (byte_of e i)) [n..<n + Suc k] @ drop (n + Suc k) d)"
    using n by (simp add: take_Suc_conv_app_nth upt_conv_Cons del: upt_Suc)
  finally show ?case .
qed simp

lemma g711_encode_decode:
  assumes "\<forall>x. 0 \<le> code x \<and> code x < 256" "k \<le> length speech" "k \<le> 2 * length e" "k \<le> length d"
  shows "\<exists>e'. g711_encode code speech 0 k e = Some e' \<and> length e' = length e \<and>
    g711_decode linear e' 0 k d = Some (map (linear \<circ> code) (take k speech) @ drop k d)"
proof -
  obtain e' where e': "g711_encode code speech 0 k e = Some e'" "length e' = length e"
    "\<forall>i\<in>{0..<0 + k}. byte_of e' i = code (speech ! i)"
    using g711_encode_bytes [OF assms(1), of 0 k speech e] assms by auto
  then have "map (\<lambda>i. linear (byte_of e' i)) [0..<k] = map (linear \<circ> code) (take k speech)"
    using assms(2) by (intro nth_equalityI) auto
  then show ?thesis using e' g711_decode_map [of 0 k e' d linear] assms by auto
qed

lemma law_ranges: "\<forall>x. 0 \<le> linear_to_ulaw x \<and> linear_to_ulaw x < 256" "\<forall>x. 0 \<le> linear_to_alaw x \<and> linear_to_alaw x < 256"
  by (simp_all add: linear_to_ulaw_def linear_to_alaw_def Let_def u8_range)

text \<open>
  Coding a buffer and decoding it quantises every sample, whatever the buffers held, and
  touches nothing beyond the given length.
\<close>

theorem G711_buffers:
  assumes "0 \<le> len" "len \<le> int (length speech)" "len \<le> 2 * int (length e)" "len \<le> int (length d)"
  shows "\<exists>eu ea. WebRtcG711_EncodeU speech len e = Some (len, eu) \<and> WebRtcG711_EncodeA speech len e = Some (len, ea) \<and>
    WebRtcG711_DecodeU eu len d ty = Some (len, map (ulaw_to_linear \<circ> linear_to_ulaw) (take (nat len) speech) @ drop (nat len) d, 1) \<and>
    WebRtcG711_DecodeA ea len d ty = Some (len, map (alaw_to_linear \<circ> linear_to_alaw) (take (nat len) speech) @ drop (nat len) d, 1)"
proof -
  have "nat len \<le> length speech" "nat len \<le> 2 * length e" "nat len \<le> length d" using assms by linarith+
  from g711_encode_decode [OF law_ranges(1) this, of ulaw_to_linear] g711_encode_decode [OF law_ranges(2) this, of alaw_to_linear]
  show ?thesis using assms(1)
    by (auto simp: WebRtcG711_EncodeU_def WebRtcG711_EncodeA_def WebRtcG711_DecodeU_def WebRtcG711_DecodeA_def)
qed

theorem G711_buffers_witness:
  "\<exists>eu ea. WebRtcG711_EncodeU [100, -100, 32767] 3 [7, -1] = Some (3, eu) \<and> WebRtcG711_EncodeA [100, -100, 32767] 3 [7, -1] = Some (3, ea) \<and>
    WebRtcG711_DecodeU eu 3 [0, 0, 0, 9] 0 = Some (3, [104, - 96, 32124, 9], 1) \<and>
    WebRtcG711_DecodeA ea 3 [0, 0, 0, 9] 0 = Some (3, [104, - 104, 32256, 9], 1)"
proof -
  have "map (ulaw_to_linear \<circ> linear_to_ulaw) [100, -100, 32767] = [104, - 96, 32124]"
    "map (alaw_to_linear \<circ> linear_to_alaw) [100, -100, 32767] = [104, - 104, 32256]" by code_simp+
  then show ?thesis using G711_buffers [of 3 "[100, -100, 32767]" "[7, -1]" "[0, 0, 0, 9]" 0] by (simp add: eval_nat_numeral)
qed

end
