(* ===== verification/Pcm16b.thy ===== *)
theory Pcm16b
  imports Bits
begin

text \<open>
  The raw PCM codec (\<open>pcm16b.c\<close>) on a little-endian machine: samples are sent with the high
  byte first, as words with swapped bytes or as bytes.
\<close>

definition swap_encode :: "int16 \<Rightarrow> int16" where
  "swap_encode x = s16 (shr (u16 x) 8 OR (u16 x * 2 ^ 8 AND 0xFF00))"

definition swap_decode :: "int16 \<Rightarrow> int16" where
  "swap_decode x = s16 (shr (u16 x) 8 OR u16 (x AND 0xFF) * 2 ^ 8)"

fun pcm_words :: "(int \<Rightarrow> int) \<Rightarrow> int list \<Rightarrow> nat \<Rightarrow> nat \<Rightarrow> int list \<Rightarrow> int list option" where
  "pcm_words f src i 0 dst = Some dst"
| "pcm_words f src i (Suc k) dst = do {
     x \<leftarrow> word_at src i;
     dst \<leftarrow> put_word dst i (f x);
     pcm_words f src (i + 1) k dst }"

definition WebRtcPcm16b_EncodeW16 :: "int list \<Rightarrow> int16 \<Rightarrow> int list \<Rightarrow> (int16 \<times> int list) option" where
  "WebRtcPcm16b_EncodeW16 speechIn16b length_samples speechOut16b =
     map_option (Pair (s16 (length_samples * 2)))
       (pcm_words swap_encode speechIn16b 0 (nat length_samples) speechOut16b)"

definition WebRtcPcm16b_DecodeW16 :: "int list \<Rightarrow> int16 \<Rightarrow> int list \<Rightarrow> (int16 \<times> int list \<times> int16) option" where
  "WebRtcPcm16b_DecodeW16 speechIn16b length_bytes speechOut16b =
     (let samples = shr length_bytes 1
      in map_option (\<lambda>d. (shr length_bytes 1, d, 1))
           (pcm_words swap_decode speechIn16b 0 (nat samples) speechOut16b))"

fun pcm_bytes :: "int list \<Rightarrow> nat \<Rightarrow> nat \<Rightarrow> int list \<Rightarrow> int list option" where
  "pcm_bytes speech16b pos 0 speech8b = Some speech8b"
| "pcm_bytes speech16b pos (Suc k) speech8b = do {
     x \<leftarrow> word_at speech16b pos;
     let short1 = s16 (0xFF00 AND x);
     let short2 = s16 (0xFF AND x);
     let short1 = shr short1 8;
     speech8b \<leftarrow> put_word speech8b (pos * 2) (u8 short1);
     speech8b \<leftarrow> put_word speech8b (pos * 2 + 1) (u8 short2);
     pcm_bytes speech16b (pos + 1) k speech8b }"

definition WebRtcPcm16b_Encode :: "int list \<Rightarrow> int16 \<Rightarrow> int list \<Rightarrow> (int16 \<times> int list) option" where
  "WebRtcPcm16b_Encode speech16b len speech8b =
     (let samples = s16 (len * 2)
      in map_option (Pair samples) (pcm_bytes speech16b 0 (nat len) speech8b))"

fun pcm_samples :: "int list \<Rightarrow> nat \<Rightarrow> nat \<Rightarrow> int list \<Rightarrow> int list option" where
  "pcm_samples speech8b pos 0 speech16b = Some speech16b"
| "pcm_samples speech8b pos (Suc k) speech16b = do {
     b1 \<leftarrow> word_at speech8b (pos * 2);
     b2 \<leftarrow> word_at speech8b (pos * 2 + 1);
     let shortval = s16 b1;
     let shortval = s16 (shortval * 2 ^ 8 AND 0xFF00);
     let shortval = s16 (shortval OR (b2 AND 0xFF));
     speech16b \<leftarrow> put_word speech16b pos shortval;
     pcm_samples speech8b (pos + 1) k speech16b }"

definition WebRtcPcm16b_Decode :: "int list \<Rightarrow> int16 \<Rightarrow> int list \<Rightarrow> (int16 \<times> int list) option" where
  "WebRtcPcm16b_Decode speech8b len speech16b =
     (let samples = shr len 1
      in map_option (Pair samples) (pcm_samples speech8b 0 (nat samples) speech16b))"

section \<open>Words and bytes\<close>

text \<open>The two bytes of a sample, as an unsigned number.\<close>

lemma sample_parts:
  obtains h l where "0 \<le> h" "h < 256" "0 \<le> l" "l < 256" "u16 x = h * 256 + l"
proof -
  have "0 \<le> u16 x" "u16 x < 65536" by (auto simp: u16_def)
  moreover have "u16 x = u16 x div 256 * 256 + u16 x mod 256" by simp
  ultimately show ?thesis by (intro that [of "u16 x div 256" "u16 x mod 256"]) auto
qed

lemma part_masks:
  assumes "0 \<le> h" "h < 256" "0 \<le> l" "l < 256" "u16 x = h * 256 + l"
  shows "x AND 0xFF = l" "x AND 0xFF00 = h * 256"
proof -
  have "x mod 256 = u16 x mod 256" by (simp add: u16_def mod_mod_cancel)
  also have "\<dots> = l" using assms by simp
  finally show "x AND 0xFF = l" by (simp add: and_low)
  have "(h * 256 + l) div 256 = h" using assms by simp
  then show "x AND 0xFF00 = h * 256" by (simp add: and_high assms(5))
qed

lemma swap_value:
  assumes "0 \<le> h" "h < 256" "0 \<le> l" "l < 256" "u16 x = h * 256 + l"
  shows "swap_encode x = s16 (l * 256 + h)" "swap_decode x = s16 (l * 256 + h)"
proof -
  have d: "(h * 256 + l) div 256 = h" using assms by simp
  have "(h * 256 + l) * 256 = l * 256 + h * 65536" by simp
  then have "u16 ((h * 256 + l) * 256) = l * 256 mod 65536" unfolding u16_def by (simp only: mod_mult_self1)
  then have "u16 ((h * 256 + l) * 256) = l * 256 + 0" using assms by simp
  then have hi: "(h * 256 + l) * 256 AND 0xFF00 = l * 256"
    using part_masks(2) [of l 0] assms by simp
  show "swap_encode x = s16 (l * 256 + h)"
    using or_add [of h 8 l] assms d hi by (simp add: swap_encode_def or.commute)
  show "swap_decode x = s16 (l * 256 + h)"
    using or_add [of h 8 l] assms d part_masks(1) [OF assms] by (simp add: swap_decode_def or.commute u16_def)
qed

lemma swap_roundtrip: "swap_decode (swap_encode x) = s16 x" "swap_encode (swap_decode x) = s16 x"
proof -
  obtain h l where x: "0 \<le> h" "h < 256" "0 \<le> l" "l < 256" "u16 x = h * 256 + l" by (rule sample_parts)
  have "u16 (s16 (l * 256 + h)) = l * 256 + h" unfolding u16_s16 using x by (simp add: u16_def)
  then have "swap_encode (s16 (l * 256 + h)) = s16 (u16 x)" "swap_decode (s16 (l * 256 + h)) = s16 (u16 x)"
    using swap_value [of l h "s16 (l * 256 + h)"] x by simp_all
  then show "swap_decode (swap_encode x) = s16 x" "swap_encode (swap_decode x) = s16 x"
    unfolding swap_value [OF x] s16_u16 by simp_all
qed

lemma pcm_words_map:
  "\<lbrakk>i + k \<le> length src; i + k \<le> length dst\<rbrakk> \<Longrightarrow>
    pcm_words f src i k dst = Some (take i dst @ map f (take k (drop i src)) @ drop (i + k) dst)"
proof (induction k arbitrary: i dst)
  case (Suc k)
  have i: "i < length src" "i < length dst" using Suc.prems by linarith+
  then have "pcm_words f src i (Suc k) dst = pcm_words f src (i + 1) k (dst[i := f (src ! i)])"
    by (simp add: word_at_def put_word_def)
  also have "\<dots> = Some (take (i + 1) (dst[i := f (src ! i)]) @ map f (take k (drop (i + 1) src)) @ drop (i + 1 + k) dst)"
    using Suc.IH [of "i + 1" "dst[i := f (src ! i)]"] Suc.prems by simp
  also have "\<dots> = Some (take i dst @ map f (take (Suc k) (drop i src)) @ drop (i + Suc k) dst)"
    using i by (simp add: take_Suc_conv_app_nth flip: Cons_nth_drop_Suc)
  finally show ?case .
qed simp

text \<open>The bytes of a sample, the high byte first.\<close>

definition be_bytes :: "int \<Rightarrow> int list" where
  "be_bytes x = [u8 (shr x 8), u8 x]"

definition be_stream :: "int list \<Rightarrow> int list" where
  "be_stream xs = concat (map be_bytes xs)"

lemma length_be_stream [simp]: "length (be_stream xs) = 2 * length xs"
  by (induction xs) (simp_all add: be_stream_def be_bytes_def)

lemma pcm_bytes_stream:
  "\<lbrakk>pos + k \<le> length src; 2 * (pos + k) \<le> length dst\<rbrakk> \<Longrightarrow>
    pcm_bytes src pos k dst = Some (take (2 * pos) dst @ be_stream (take k (drop pos src)) @ drop (2 * (pos + k)) dst)"
proof (induction k arbitrary: pos dst)
  case (Suc k)
  let ?x = "src ! pos"
  have p: "pos < length src" "pos * 2 < length dst" "pos * 2 + 1 < length dst" using Suc.prems by simp_all
  have hi: "u8 (s16 (0xFF00 AND ?x) div 256) = u8 (?x div 256)"
    unfolding u8_s16 and.commute [of "0xFF00"] and_high by (simp add: u16_div_256 u8_def)
  have lo: "u8 (s16 (0xFF AND ?x)) = u8 ?x"
    unfolding u8_s16 and.commute [of "0xFF"] and_low by (simp add: u8_def)
  have "pcm_bytes src pos (Suc k) dst = pcm_bytes src (pos + 1) k (dst[pos * 2 := u8 (shr ?x 8), pos * 2 + 1 := u8 ?x])"
    using p hi lo by (simp add: word_at_def put_word_def Let_def)
  also have "\<dots> = Some (take (2 * (pos + 1)) (dst[pos * 2 := u8 (shr ?x 8), pos * 2 + 1 := u8 ?x]) @
      be_stream (take k (drop (pos + 1) src)) @ drop (2 * (pos + 1 + k)) dst)"
    using Suc.IH [of "pos + 1" "dst[pos * 2 := u8 (shr ?x 8), pos * 2 + 1 := u8 ?x]"] Suc.prems by simp
  also have "take (2 * (pos + 1)) (dst[pos * 2 := u8 (shr ?x 8), pos * 2 + 1 := u8 ?x]) = take (2 * pos) dst @ be_bytes ?x"
    using p by (simp add: be_bytes_def take_Suc_conv_app_nth mult.commute)
  finally show ?case
    using p by (simp add: be_stream_def flip: Cons_nth_drop_Suc)
qed (simp add: be_stream_def)


lemma u8_parts: "u8 (x div 256) = h \<and> u8 x = l"
  if "0 \<le> h" "h < 256" "0 \<le> l" "l < 256" "u16 x = h * 256 + l"
proof -
  have "u16 x div 256 = h" "u16 x mod 256 = l" using that by simp_all
  then show ?thesis by (simp add: u16_div_256) (simp add: u8_def u16_def mod_mod_cancel)
qed

lemma bytes_sample: "s16 (s16 (s16 (u8 (x div 256)) * 2 ^ 8 AND 0xFF00) OR (u8 x AND 0xFF)) = s16 x"
proof -
  obtain h l where x: "0 \<le> h" "h < 256" "0 \<le> l" "l < 256" "u16 x = h * 256 + l" by (rule sample_parts)
  have h: "s16 h = h" "h * 256 AND 0xFF00 = h * 256" and l: "l AND 0xFF = l"
    using x part_masks(2) [of h 0 "h * 256"] part_masks(1) [of 0 l l] by (simp_all add: u16_def)
  obtain k where k: "s16 (h * 256) = (h + k * 256) * 256" using s16_form [of "h * 256"] by (auto simp: algebra_simps)
  then have "s16 (h * 256) OR l = s16 (h * 256) + l" using or_add [of l 8 "h + k * 256"] x by simp
  then have "s16 (s16 (h * 256) OR l) = s16 (h * 256 + l)" by (simp add: i16.conv_add_left)
  also have "\<dots> = s16 x" using s16_u16 [of x] x(5) by simp
  finally show ?thesis using u8_parts [OF x] h l by simp
qed

lemma swap_bytes: "[u8 (swap_encode x), u8 (swap_encode x div 256)] = be_bytes x"
proof -
  obtain h l where x: "0 \<le> h" "h < 256" "0 \<le> l" "l < 256" "u16 x = h * 256 + l" by (rule sample_parts)
  have "u8 (l * 256 + h) = h" "u8 ((l * 256 + h) div 256) = l" using x by (simp_all add: u8_def)
  then show ?thesis using u8_parts [OF x] unfolding be_bytes_def swap_value [OF x] u8_s16 by simp
qed

lemma pcm_samples_stream:
  assumes "take (2 * length xs) (drop (2 * pos) src) = be_stream xs"
  shows "pos + length xs \<le> length dst \<Longrightarrow>
    pcm_samples src pos (length xs) dst = Some (take pos dst @ map s16 xs @ drop (pos + length xs) dst)"
  using assms
proof (induction xs arbitrary: pos dst)
  case (Cons x xs)
  have len: "2 * pos + 1 < length src" using Cons.prems(2) by (auto simp: be_stream_def be_bytes_def dest!: arg_cong [where f = length])
  have "drop (2 * pos) src = src ! (2 * pos) # src ! (2 * pos + 1) # drop (2 * (pos + 1)) src"
    using len by (simp flip: Cons_nth_drop_Suc)
  then have b: "src ! (pos * 2) = u8 (x div 256)" "src ! (pos * 2 + 1) = u8 x"
    and rest: "take (2 * length xs) (drop (2 * (pos + 1)) src) = be_stream xs"
    using Cons.prems(2) by (simp_all add: be_stream_def be_bytes_def mult.commute)
  have val: "s16 (s16 (s16 (u8 (x div 256)) * 2 ^ 8 AND 0xFF00) OR (u8 x AND 0xFF)) = s16 x"
    by (rule bytes_sample)
  have "pcm_samples src pos (length (x # xs)) dst = pcm_samples src (pos + 1) (length xs) (dst[pos := s16 x])"
    using len Cons.prems(1) b val by (simp add: word_at_def put_word_def Let_def)
  also have "\<dots> = Some (take (pos + 1) (dst[pos := s16 x]) @ map s16 xs @ drop (pos + 1 + length xs) dst)"
    using Cons.IH [OF _ rest, of "dst[pos := s16 x]"] Cons.prems(1) by simp
  finally show ?case using Cons.prems(1) by (simp add: take_Suc_conv_app_nth)
qed simp

text \<open>
  C31: The word codec and the byte codec are inverse on buffers, and the words hold the bytes of
  the byte codec (the low byte of a word first in memory).
\<close>

theorem Pcm16b_roundtrip:
  assumes "0 \<le> n" "n < 16384" "n \<le> int (length speech)" "\<forall>x\<in>set speech. is_s16 x"
    and "n \<le> int (length w)" "2 * n \<le> int (length b)" "n \<le> int (length d)"
  shows "\<exists>w' b'. WebRtcPcm16b_EncodeW16 speech n w = Some (2 * n, w') \<and> WebRtcPcm16b_Encode speech n b = Some (2 * n, b') \<and>
    WebRtcPcm16b_DecodeW16 w' (2 * n) d = Some (n, take (nat n) speech @ drop (nat n) d, 1) \<and>
    WebRtcPcm16b_Decode b' (2 * n) d = Some (n, take (nat n) speech @ drop (nat n) d) \<and>
    concat (map (\<lambda>x. [u8 x, u8 (shr x 8)]) (take (nat n) w')) = take (2 * nat n) b'"
proof -
  have n: "nat n \<le> length speech" "nat n \<le> length w" "2 * nat n \<le> length b" "nat n \<le> length d" using assms by linarith+
  let ?xs = "take (nat n) speech"
  let ?w = "map swap_encode ?xs @ drop (nat n) w" and ?b = "be_stream ?xs @ drop (2 * nat n) b"
  have id: "map s16 ?xs = ?xs" using assms(4) by (intro map_idI) (auto simp: is_s16_def dest: in_set_takeD)
  then have swap: "map (swap_decode \<circ> swap_encode) ?xs = ?xs" by (simp add: comp_def swap_roundtrip)
  have "WebRtcPcm16b_EncodeW16 speech n w = Some (2 * n, ?w)" "WebRtcPcm16b_Encode speech n b = Some (2 * n, ?b)"
    using assms(1,2) n pcm_words_map [of 0 "nat n" speech w] pcm_bytes_stream [of 0 "nat n" speech b]
    by (simp_all add: WebRtcPcm16b_EncodeW16_def WebRtcPcm16b_Encode_def mult.commute)
  moreover have "WebRtcPcm16b_DecodeW16 ?w (2 * n) d = Some (n, ?xs @ drop (nat n) d, 1)"
    using assms(1) n pcm_words_map [of 0 "nat n" ?w d swap_decode] swap
    by (simp add: WebRtcPcm16b_DecodeW16_def)
  moreover have "WebRtcPcm16b_Decode ?b (2 * n) d = Some (n, ?xs @ drop (nat n) d)"
    using assms(1) n pcm_samples_stream [of ?xs 0 ?b d] id
    by (simp add: WebRtcPcm16b_Decode_def)
  moreover have "concat (map (\<lambda>x. [u8 x, u8 (shr x 8)]) (take (nat n) ?w)) = take (2 * nat n) ?b"
  proof -
    have "length (be_stream ?xs) = 2 * nat n" using n by simp
    then have "take (2 * nat n) ?b = be_stream ?xs" by simp
    then show ?thesis using n swap_bytes by (simp add: comp_def be_stream_def)
  qed
  ultimately show ?thesis by blast
qed

theorem Pcm16b_roundtrip_witness:
  "\<exists>w' b'. WebRtcPcm16b_EncodeW16 [258, - 2] 2 [0, 0, 7] = Some (4, w') \<and> WebRtcPcm16b_Encode [258, - 2] 2 [0, 0, 0, 0] = Some (4, b') \<and>
    WebRtcPcm16b_DecodeW16 w' 4 [5, 5, 5] = Some (2, [258, - 2, 5], 1) \<and>
    WebRtcPcm16b_Decode b' 4 [5, 5, 5] = Some (2, [258, - 2, 5]) \<and>
    concat (map (\<lambda>x. [u8 x, u8 (shr x 8)]) (take 2 w')) = take 4 b'"
  using Pcm16b_roundtrip [of 2 "[258, - 2]" "[0, 0, 7]" "[0, 0, 0, 0]" "[5, 5, 5]"] by (simp add: is_s16_def)

text \<open>From 16384 samples on the number of bytes does not fit the result of the encoders.\<close>

theorem Pcm16b_length_overflow:
  assumes "16384 \<le> n" "n < 32768" "n \<le> int (length speech)" "n \<le> int (length w)"
  shows "\<exists>w'. WebRtcPcm16b_EncodeW16 speech n w = Some (2 * n - 65536, w')"
proof -
  have "s16 (n * 2) = 2 * n - 65536"
    using i16.conv_eqI [of "n * 2" "2 * n - 65536"] i16.conv_id [of "2 * n - 65536"] assms(1,2) by simp
  then show ?thesis using pcm_words_map [of 0 "nat n" speech w swap_encode] assms
    by (simp add: WebRtcPcm16b_EncodeW16_def nat_le_iff)
qed

theorem Pcm16b_length_overflow_witness:
  "\<exists>w'. WebRtcPcm16b_EncodeW16 (replicate 20000 0) 20000 (replicate 20000 1) = Some (- 25536, w')"
  using Pcm16b_length_overflow [of 20000 "replicate 20000 0" "replicate 20000 1"] by simp

end
