(* ===== verification/IlbcPack.thy ===== *)
theory IlbcPack
  imports Bits
begin

text \<open>
  The bitstream of the iLBC codec (\<open>pack_bits.c\<close>, \<open>unpack_bits.c\<close>): the parameters of a frame
  are spread over 19 (20 ms) or 25 (30 ms) words in three classes of sensitivity to bit errors.
  The arrays of the structure have fixed sizes (\<open>ilbc_shape\<close>).
\<close>

record iLBC_bits =
  lsf :: "int list"
  cb_index :: "int list"
  gain_index :: "int list"
  idxForMax :: int16
  state_first :: int16
  idxVec :: "int list"
  firstbits :: int16
  startIdx :: int16

section \<open>Packing\<close>

definition pack_word1 :: "iLBC_bits \<Rightarrow> int" where
  "pack_word1 e =
     u16 ((push_bit 10 (u16 (lsf e ! 0))) OR
         (push_bit 3 (lsf e ! 1)) OR
         (drop_bit 4 ((lsf e ! 2) AND 0x70)))"

definition pack_word2 :: "iLBC_bits \<Rightarrow> int" where
  "pack_word2 e = u16 (push_bit 12 ((u16 (lsf e ! 2)) AND 0xF))"

definition pack_class1_20 :: "iLBC_bits \<Rightarrow> int list" where
  "pack_class1_20 e =
     [u16 ((pack_word2 e) OR
         (push_bit 10 (startIdx e)) OR
         (push_bit 9 (state_first e)) OR
         (push_bit 3 (idxForMax e)) OR
         (drop_bit 4 ((cb_index e ! 0) AND 0x70))),
      u16 ((push_bit 12 ((cb_index e ! 0) AND 0xE)) OR
         (push_bit 8 ((gain_index e ! 0) AND 0x18)) OR
         (push_bit 7 ((gain_index e ! 1) AND 0x8)) OR
         (push_bit 2 ((cb_index e ! 3) AND 0xFE)) OR
         (drop_bit 2 ((gain_index e ! 3) AND 0x10)) OR
         (drop_bit 2 ((gain_index e ! 4) AND 0x8)) OR
         (drop_bit 4 ((gain_index e ! 6) AND 0x10)))]"

definition pack_class1_30 :: "iLBC_bits \<Rightarrow> int list" where
  "pack_class1_30 e =
     [u16 ((pack_word2 e) OR
         (push_bit 6 (lsf e ! 3)) OR
         (drop_bit 1 ((lsf e ! 4) AND 0x7E))),
      u16 ((push_bit 15 ((u16 (lsf e ! 4)) AND 0x1)) OR
         (push_bit 8 (lsf e ! 5)) OR
         (push_bit 5 (startIdx e)) OR
         (push_bit 4 (state_first e)) OR
         (drop_bit 2 ((idxForMax e) AND 0x3C))),
      u16 ((push_bit 14 ((u16 (idxForMax e)) AND 0x3)) OR
         (push_bit 7 ((cb_index e ! 0) AND 0x78)) OR
         (push_bit 5 ((gain_index e ! 0) AND 0x10)) OR
         (push_bit 5 ((gain_index e ! 1) AND 0x8)) OR
         ((cb_index e ! 3) AND 0xFC) OR
         (drop_bit 3 ((gain_index e ! 3) AND 0x10)) OR
         (drop_bit 3 ((gain_index e ! 4) AND 0x8)))]"

text \<open>Class 2 and class 3 bits of a run of state samples, the first sample in the top bits.\<close>

definition class2_word :: "int list \<Rightarrow> int" where
  "class2_word xs =
     fold (\<lambda>(x, i) w. w OR push_bit i (drop_bit 2 (u16 (x AND 0x4)))) (zip xs (rev [16 - length xs..<16])) 0"

definition class3_word :: "int list \<Rightarrow> int" where
  "class3_word xs =
     fold (\<lambda>(x, i) w. w OR push_bit i (u16 (x AND 0x3))) (zip xs [14, 12, 10, 8, 6, 4, 2, 0]) 0"

definition samples :: "iLBC_bits \<Rightarrow> nat \<Rightarrow> nat \<Rightarrow> int list" where
  "samples e off n = take n (drop off (idxVec e))"

definition pack_class2 :: "iLBC_bits \<Rightarrow> int list" where
  "pack_class2 e = map (\<lambda>k. class2_word (samples e (16 * k) 16)) [0..<3]"

definition pack_tail2_20 :: "iLBC_bits \<Rightarrow> int list" where
  "pack_tail2_20 e =
     [u16 (class2_word (samples e 48 9) OR
         (push_bit 4 ((gain_index e ! 1) AND 0x4)) OR
         (push_bit 2 ((gain_index e ! 3) AND 0xC)) OR
         (push_bit 1 ((gain_index e ! 4) AND 0x4)) OR
         (drop_bit 1 ((gain_index e ! 6) AND 0x8)) OR
         (drop_bit 2 ((gain_index e ! 7) AND 0xC)))]"

definition pack_tail2_30 :: "iLBC_bits \<Rightarrow> int list" where
  "pack_tail2_30 e =
     [u16 (class2_word (samples e 48 10) OR
         (push_bit 3 ((cb_index e ! 0) AND 0x6)) OR
         ((gain_index e ! 0) AND 0x8) OR
         ((gain_index e ! 1) AND 0x4) OR
         ((cb_index e ! 3) AND 0x2) OR
         (drop_bit 7 ((cb_index e ! 6) AND 0x80))),
      u16 ((push_bit 9 ((u16 (cb_index e ! 6)) AND 0x7E)) OR
         (push_bit 2 ((cb_index e ! 9) AND 0xFE)) OR
         (drop_bit 5 ((cb_index e ! 12) AND 0xE0))),
      u16 ((push_bit 11 ((u16 (cb_index e ! 12)) AND 0x1E)) OR
         (push_bit 8 ((gain_index e ! 3) AND 0xC)) OR
         (push_bit 7 ((gain_index e ! 4) AND 0x6)) OR
         (push_bit 3 ((gain_index e ! 6) AND 0x18)) OR
         (push_bit 2 ((gain_index e ! 7) AND 0xC)) OR
         (drop_bit 1 ((gain_index e ! 9) AND 0x10)) OR
         (drop_bit 1 ((gain_index e ! 10) AND 0x8)) OR
         (drop_bit 3 ((gain_index e ! 12) AND 0x10)) OR
         (drop_bit 3 ((gain_index e ! 13) AND 0x8)))]"

definition pack_class3 :: "iLBC_bits \<Rightarrow> int list" where
  "pack_class3 e = map (\<lambda>k. class3_word (samples e (8 * k) 8)) [0..<7]"

definition pack_tail3_20 :: "iLBC_bits \<Rightarrow> int list" where
  "pack_tail3_20 e =
     [u16 ((push_bit 14 (u16 ((idxVec e ! 56) AND 0x3))) OR
         (push_bit 13 ((cb_index e ! 0) AND 1)) OR
         (push_bit 6 (cb_index e ! 1)) OR
         (drop_bit 1 ((cb_index e ! 2) AND 0x7E))),
      u16 ((push_bit 15 (u16 ((cb_index e ! 2) AND 0x1))) OR
         (push_bit 12 ((gain_index e ! 0) AND 0x7)) OR
         (push_bit 10 ((gain_index e ! 1) AND 0x3)) OR
         (push_bit 7 (gain_index e ! 2)) OR
         (push_bit 6 ((cb_index e ! 3) AND 0x1)) OR
         (drop_bit 1 ((cb_index e ! 4) AND 0x7E))),
      u16 ((push_bit 15 (u16 ((cb_index e ! 4) AND 0x1))) OR
         (push_bit 8 (cb_index e ! 5)) OR
         (cb_index e ! 6)),
      u16 ((push_bit 8 (u16 (cb_index e ! 7))) OR
         (cb_index e ! 8)),
      u16 ((push_bit 14 (u16 ((gain_index e ! 3) AND 0x3))) OR
         (push_bit 12 ((gain_index e ! 4) AND 0x3)) OR
         (push_bit 9 (gain_index e ! 5)) OR
         (push_bit 6 ((gain_index e ! 6) AND 0x7)) OR
         (push_bit 4 ((gain_index e ! 7) AND 0x3)) OR
         (push_bit 1 (gain_index e ! 8)))]"

definition pack_tail3_30 :: "iLBC_bits \<Rightarrow> int list" where
  "pack_tail3_30 e =
     [u16 ((push_bit 14 (u16 ((idxVec e ! 56) AND 0x3))) OR
         (push_bit 12 ((idxVec e ! 57) AND 0x3)) OR
         (push_bit 11 ((cb_index e ! 0) AND 1)) OR
         (push_bit 4 (cb_index e ! 1)) OR
         (drop_bit 3 ((cb_index e ! 2) AND 0x78))),
      u16 ((push_bit 13 ((u16 (cb_index e ! 2)) AND 0x7)) OR
         (push_bit 10 ((gain_index e ! 0) AND 0x7)) OR
         (push_bit 8 ((gain_index e ! 1) AND 0x3)) OR
         (push_bit 5 ((gain_index e ! 2) AND 0x7)) OR
         (push_bit 4 ((cb_index e ! 3) AND 0x1)) OR
         (drop_bit 3 ((cb_index e ! 4) AND 0x78))),
      u16 ((push_bit 13 ((u16 (cb_index e ! 4)) AND 0x7)) OR
         (push_bit 6 (cb_index e ! 5)) OR
         (push_bit 5 ((cb_index e ! 6) AND 0x1)) OR
         (drop_bit 3 ((cb_index e ! 7) AND 0xF8))),
      u16 ((push_bit 13 ((u16 (cb_index e ! 7)) AND 0x7)) OR
         (push_bit 5 (cb_index e ! 8)) OR
         (push_bit 4 ((cb_index e ! 9) AND 0x1)) OR
         (drop_bit 4 ((cb_index e ! 10) AND 0xF0))),
      u16 ((push_bit 12 ((u16 (cb_index e ! 10)) AND 0xF)) OR
         (push_bit 4 (cb_index e ! 11)) OR
         (push_bit 3 ((cb_index e ! 12) AND 0x1)) OR
         (drop_bit 5 ((cb_index e ! 13) AND 0xE0))),
      u16 ((push_bit 11 ((u16 (cb_index e ! 13)) AND 0x1F)) OR
         (push_bit 3 (cb_index e ! 14)) OR
         (push_bit 1 ((gain_index e ! 3) AND 0x3)) OR
         ((gain_index e ! 4) AND 0x1)),
      u16 ((push_bit 13 (u16 (gain_index e ! 5))) OR
         (push_bit 10 ((gain_index e ! 6) AND 0x7)) OR
         (push_bit 8 ((gain_index e ! 7) AND 0x3)) OR
         (push_bit 5 (gain_index e ! 8)) OR
         (push_bit 1 ((gain_index e ! 9) AND 0xF)) OR
         (drop_bit 2 ((gain_index e ! 10) AND 0x4))),
      u16 ((push_bit 14 ((u16 (gain_index e ! 10)) AND 0x3)) OR
         (push_bit 11 (gain_index e ! 11)) OR
         (push_bit 7 ((gain_index e ! 12) AND 0xF)) OR
         (push_bit 4 ((gain_index e ! 13) AND 0x7)) OR
         (push_bit 1 (gain_index e ! 14)))]"

definition WebRtcIlbcfix_PackBits :: "iLBC_bits \<Rightarrow> int \<Rightarrow> int list" where
  "WebRtcIlbcfix_PackBits e mode =
     pack_word1 e # (if mode = 20 then pack_class1_20 e else pack_class1_30 e) @ pack_class2 e @
     (if mode = 20 then pack_tail2_20 e else pack_tail2_30 e) @ pack_class3 e @
     (if mode = 20 then pack_tail3_20 e else pack_tail3_30 e)"

section \<open>Unpacking\<close>

text \<open>
  Every value is masked to at most eight bits, so that the conversion to \<open>int16_t\<close> is exact.
  A name \<open>w\<close> with a number is the word of the bitstream with that index.
\<close>

definition set_lsf :: "nat \<Rightarrow> int \<Rightarrow> iLBC_bits \<Rightarrow> iLBC_bits" where
  "set_lsf i v e = e\<lparr>lsf := (lsf e)[i := v]\<rparr>"

definition or_lsf :: "nat \<Rightarrow> int \<Rightarrow> iLBC_bits \<Rightarrow> iLBC_bits" where
  "or_lsf i v e = e\<lparr>lsf := (lsf e)[i := lsf e ! i OR v]\<rparr>"

definition set_cb :: "nat \<Rightarrow> int \<Rightarrow> iLBC_bits \<Rightarrow> iLBC_bits" where
  "set_cb i v e = e\<lparr>cb_index := (cb_index e)[i := v]\<rparr>"

definition or_cb :: "nat \<Rightarrow> int \<Rightarrow> iLBC_bits \<Rightarrow> iLBC_bits" where
  "or_cb i v e = e\<lparr>cb_index := (cb_index e)[i := cb_index e ! i OR v]\<rparr>"

definition set_gain :: "nat \<Rightarrow> int \<Rightarrow> iLBC_bits \<Rightarrow> iLBC_bits" where
  "set_gain i v e = e\<lparr>gain_index := (gain_index e)[i := v]\<rparr>"

definition or_gain :: "nat \<Rightarrow> int \<Rightarrow> iLBC_bits \<Rightarrow> iLBC_bits" where
  "or_gain i v e = e\<lparr>gain_index := (gain_index e)[i := gain_index e ! i OR v]\<rparr>"

definition set_idx :: "nat \<Rightarrow> int list \<Rightarrow> iLBC_bits \<Rightarrow> iLBC_bits" where
  "set_idx off vs e = e\<lparr>idxVec := blit (idxVec e) off vs\<rparr>"

definition or_idx :: "nat \<Rightarrow> int list \<Rightarrow> iLBC_bits \<Rightarrow> iLBC_bits" where
  "or_idx off vs e = e\<lparr>idxVec := blit (idxVec e) off (map2 (OR) (samples e off (length vs)) vs)\<rparr>"

definition class2_samples :: "nat \<Rightarrow> int \<Rightarrow> int list" where
  "class2_samples n w = map (\<lambda>i. push_bit 2 (drop_bit i w) AND 0x4) (rev [16 - n..<16])"

definition class3_samples :: "int \<Rightarrow> int list" where
  "class3_samples w = map (\<lambda>i. drop_bit i w AND 0x3) [14, 12, 10, 8, 6, 4, 2, 0]"

definition unpack_lsf :: "int list \<Rightarrow> iLBC_bits \<Rightarrow> iLBC_bits" where
  "unpack_lsf bs e =
     (let w0 = bs ! 0; w1 = bs ! 1;
          e = set_lsf 0 (drop_bit 10 w0) e;
          e = set_lsf 1 ((drop_bit 3 w0) AND 0x7F) e;
          e = set_lsf 2 (push_bit 4 (w0 AND 0x7)) e;
          e = or_lsf 2 ((drop_bit 12 w1) AND 0xF) e
      in e)"

definition unpack_class1_20 :: "int list \<Rightarrow> iLBC_bits \<Rightarrow> iLBC_bits" where
  "unpack_class1_20 bs e =
     (let w1 = bs ! 1; w2 = bs ! 2;
          e = e\<lparr>startIdx := (drop_bit 10 w1) AND 0x3\<rparr>;
          e = e\<lparr>state_first := (drop_bit 9 w1) AND 0x1\<rparr>;
          e = e\<lparr>idxForMax := (drop_bit 3 w1) AND 0x3F\<rparr>;
          e = set_cb 0 (push_bit 4 (w1 AND 0x7)) e;
          e = or_cb 0 ((drop_bit 12 w2) AND 0xE) e;
          e = set_gain 0 ((drop_bit 8 w2) AND 0x18) e;
          e = set_gain 1 ((drop_bit 7 w2) AND 0x8) e;
          e = set_cb 3 ((drop_bit 2 w2) AND 0xFE) e;
          e = set_gain 3 ((push_bit 2 w2) AND 0x10) e;
          e = set_gain 4 ((push_bit 2 w2) AND 0x8) e;
          e = set_gain 6 ((push_bit 4 w2) AND 0x10) e
      in e)"

definition unpack_class1_30 :: "int list \<Rightarrow> iLBC_bits \<Rightarrow> iLBC_bits" where
  "unpack_class1_30 bs e =
     (let w1 = bs ! 1; w2 = bs ! 2; w3 = bs ! 3;
          e = set_lsf 3 ((drop_bit 6 w1) AND 0x3F) e;
          e = set_lsf 4 ((push_bit 1 w1) AND 0x7E) e;
          e = or_lsf 4 ((drop_bit 15 w2) AND 0x1) e;
          e = set_lsf 5 ((drop_bit 8 w2) AND 0x7F) e;
          e = e\<lparr>startIdx := (drop_bit 5 w2) AND 0x7\<rparr>;
          e = e\<lparr>state_first := (drop_bit 4 w2) AND 0x1\<rparr>;
          e = e\<lparr>idxForMax := (push_bit 2 w2) AND 0x3C\<rparr>;
          e = e\<lparr>idxForMax := idxForMax e OR ((drop_bit 14 w3) AND 0x3)\<rparr>;
          e = set_cb 0 ((drop_bit 7 w3) AND 0x78) e;
          e = set_gain 0 ((drop_bit 5 w3) AND 0x10) e;
          e = set_gain 1 ((drop_bit 5 w3) AND 0x8) e;
          e = set_cb 3 (w3 AND 0xFC) e;
          e = set_gain 3 ((push_bit 3 w3) AND 0x10) e;
          e = set_gain 4 ((push_bit 3 w3) AND 0x8) e
      in e)"

definition unpack_class2 :: "int list \<Rightarrow> nat \<Rightarrow> iLBC_bits \<Rightarrow> iLBC_bits" where
  "unpack_class2 bs k e = set_idx 0 (concat (map (\<lambda>j. class2_samples 16 (bs ! (k + j))) [0..<3])) e"

definition unpack_tail2_20 :: "int list \<Rightarrow> iLBC_bits \<Rightarrow> iLBC_bits" where
  "unpack_tail2_20 bs e =
     (let w6 = bs ! 6;
          e = set_idx 48 (class2_samples 9 w6) e;
          e = or_gain 1 ((drop_bit 4 w6) AND 0x4) e;
          e = or_gain 3 ((drop_bit 2 w6) AND 0xC) e;
          e = or_gain 4 ((drop_bit 1 w6) AND 0x4) e;
          e = or_gain 6 ((push_bit 1 w6) AND 0x8) e;
          e = set_gain 7 ((push_bit 2 w6) AND 0xC) e
      in e)"

definition unpack_tail2_30 :: "int list \<Rightarrow> iLBC_bits \<Rightarrow> iLBC_bits" where
  "unpack_tail2_30 bs e =
     (let w7 = bs ! 7; w8 = bs ! 8; w9 = bs ! 9;
          e = set_idx 48 (class2_samples 10 w7) e;
          e = or_cb 0 ((drop_bit 3 w7) AND 0x6) e;
          e = or_gain 0 (w7 AND 0x8) e;
          e = or_gain 1 (w7 AND 0x4) e;
          e = or_cb 3 (w7 AND 0x2) e;
          e = set_cb 6 ((push_bit 7 w7) AND 0x80) e;
          e = or_cb 6 ((drop_bit 9 w8) AND 0x7E) e;
          e = set_cb 9 ((drop_bit 2 w8) AND 0xFE) e;
          e = set_cb 12 ((push_bit 5 w8) AND 0xE0) e;
          e = or_cb 12 ((drop_bit 11 w9) AND 0x1E) e;
          e = or_gain 3 ((drop_bit 8 w9) AND 0xC) e;
          e = or_gain 4 ((drop_bit 7 w9) AND 0x6) e;
          e = set_gain 6 ((drop_bit 3 w9) AND 0x18) e;
          e = set_gain 7 ((drop_bit 2 w9) AND 0xC) e;
          e = set_gain 9 ((push_bit 1 w9) AND 0x10) e;
          e = set_gain 10 ((push_bit 1 w9) AND 0x8) e;
          e = set_gain 12 ((push_bit 3 w9) AND 0x10) e;
          e = set_gain 13 ((push_bit 3 w9) AND 0x8) e
      in e)"

definition unpack_class3 :: "int list \<Rightarrow> nat \<Rightarrow> iLBC_bits \<Rightarrow> iLBC_bits" where
  "unpack_class3 bs k e = or_idx 0 (concat (map (\<lambda>j. class3_samples (bs ! (k + j))) [0..<7])) e"

definition unpack_tail3_20 :: "int list \<Rightarrow> iLBC_bits \<Rightarrow> iLBC_bits" where
  "unpack_tail3_20 bs e =
     (let w14 = bs ! 14; w15 = bs ! 15; w16 = bs ! 16; w17 = bs ! 17; w18 = bs ! 18;
          e = or_idx 56 [((drop_bit 14 w14) AND 0x3)] e;
          e = or_cb 0 ((drop_bit 13 w14) AND 0x1) e;
          e = set_cb 1 ((drop_bit 6 w14) AND 0x7F) e;
          e = set_cb 2 ((push_bit 1 w14) AND 0x7E) e;
          e = or_cb 2 ((drop_bit 15 w15) AND 0x1) e;
          e = or_gain 0 ((drop_bit 12 w15) AND 0x7) e;
          e = or_gain 1 ((drop_bit 10 w15) AND 0x3) e;
          e = set_gain 2 ((drop_bit 7 w15) AND 0x7) e;
          e = or_cb 3 ((drop_bit 6 w15) AND 0x1) e;
          e = set_cb 4 ((push_bit 1 w15) AND 0x7E) e;
          e = or_cb 4 ((drop_bit 15 w16) AND 0x1) e;
          e = set_cb 5 ((drop_bit 8 w16) AND 0x7F) e;
          e = set_cb 6 (w16 AND 0xFF) e;
          e = set_cb 7 (drop_bit 8 w17) e;
          e = set_cb 8 (w17 AND 0xFF) e;
          e = or_gain 3 ((drop_bit 14 w18) AND 0x3) e;
          e = or_gain 4 ((drop_bit 12 w18) AND 0x3) e;
          e = set_gain 5 ((drop_bit 9 w18) AND 0x7) e;
          e = or_gain 6 ((drop_bit 6 w18) AND 0x7) e;
          e = or_gain 7 ((drop_bit 4 w18) AND 0x3) e;
          e = set_gain 8 ((drop_bit 1 w18) AND 0x7) e
      in e)"

definition unpack_tail3_30 :: "int list \<Rightarrow> iLBC_bits \<Rightarrow> iLBC_bits" where
  "unpack_tail3_30 bs e =
     (let w17 = bs ! 17; w18 = bs ! 18; w19 = bs ! 19; w20 = bs ! 20; w21 = bs ! 21; w22 = bs ! 22; w23 = bs ! 23; w24 = bs ! 24;
          e = or_idx 56 [((drop_bit 14 w17) AND 0x3)] e;
          e = or_idx 57 [((drop_bit 12 w17) AND 0x3)] e;
          e = or_cb 0 ((drop_bit 11 w17) AND 1) e;
          e = set_cb 1 ((drop_bit 4 w17) AND 0x7F) e;
          e = set_cb 2 ((push_bit 3 w17) AND 0x78) e;
          e = or_cb 2 ((drop_bit 13 w18) AND 0x7) e;
          e = or_gain 0 ((drop_bit 10 w18) AND 0x7) e;
          e = or_gain 1 ((drop_bit 8 w18) AND 0x3) e;
          e = set_gain 2 ((drop_bit 5 w18) AND 0x7) e;
          e = or_cb 3 ((drop_bit 4 w18) AND 0x1) e;
          e = set_cb 4 ((push_bit 3 w18) AND 0x78) e;
          e = or_cb 4 ((drop_bit 13 w19) AND 0x7) e;
          e = set_cb 5 ((drop_bit 6 w19) AND 0x7F) e;
          e = or_cb 6 ((drop_bit 5 w19) AND 0x1) e;
          e = set_cb 7 ((push_bit 3 w19) AND 0xF8) e;
          e = or_cb 7 ((drop_bit 13 w20) AND 0x7) e;
          e = set_cb 8 ((drop_bit 5 w20) AND 0xFF) e;
          e = or_cb 9 ((drop_bit 4 w20) AND 0x1) e;
          e = set_cb 10 ((push_bit 4 w20) AND 0xF0) e;
          e = or_cb 10 ((drop_bit 12 w21) AND 0xF) e;
          e = set_cb 11 ((drop_bit 4 w21) AND 0xFF) e;
          e = or_cb 12 ((drop_bit 3 w21) AND 0x1) e;
          e = set_cb 13 ((push_bit 5 w21) AND 0xE0) e;
          e = or_cb 13 ((drop_bit 11 w22) AND 0x1F) e;
          e = set_cb 14 ((drop_bit 3 w22) AND 0xFF) e;
          e = or_gain 3 ((drop_bit 1 w22) AND 0x3) e;
          e = or_gain 4 (w22 AND 0x1) e;
          e = set_gain 5 ((drop_bit 13 w23) AND 0x7) e;
          e = or_gain 6 ((drop_bit 10 w23) AND 0x7) e;
          e = or_gain 7 ((drop_bit 8 w23) AND 0x3) e;
          e = set_gain 8 ((drop_bit 5 w23) AND 0x7) e;
          e = or_gain 9 ((drop_bit 1 w23) AND 0xF) e;
          e = or_gain 10 ((push_bit 2 w23) AND 0x4) e;
          e = or_gain 10 ((drop_bit 14 w24) AND 0x3) e;
          e = set_gain 11 ((drop_bit 11 w24) AND 0x7) e;
          e = or_gain 12 ((drop_bit 7 w24) AND 0xF) e;
          e = or_gain 13 ((drop_bit 4 w24) AND 0x7) e;
          e = set_gain 14 ((drop_bit 1 w24) AND 0x7) e
      in e)"

text \<open>The number of words a frame has; the result tells whether the frame is empty.\<close>

definition no_of_words :: "int \<Rightarrow> nat" where
  "no_of_words mode = (if mode = 20 then 19 else 25)"

definition WebRtcIlbcfix_UnpackBits :: "int list \<Rightarrow> iLBC_bits \<Rightarrow> int \<Rightarrow> (int16 \<times> iLBC_bits) option" where
  "WebRtcIlbcfix_UnpackBits bs e mode =
     (if length bs < no_of_words mode then None
      else let e = unpack_lsf bs e;
               e = (if mode = 20 then unpack_class1_20 bs e else unpack_class1_30 bs e);
               e = unpack_class2 bs (if mode = 20 then 3 else 4) e;
               e = (if mode = 20 then unpack_tail2_20 bs e else unpack_tail2_30 bs e);
               e = unpack_class3 bs (if mode = 20 then 7 else 10) e;
               e = (if mode = 20 then unpack_tail3_20 bs e else unpack_tail3_30 bs e)
           in Some (if bs ! (no_of_words mode - 1) AND 0x1 = 1 then 1 else 0, e))"

end
