(* ===== verification/IlbcRoundTrip.thy ===== *)
theory IlbcRoundTrip
  imports IlbcPack
begin

text \<open>
  Packing the parameters of an iLBC frame and unpacking the words gives the parameters back.
  Values are compared bit by bit: \<open>fits k v\<close> says that \<open>v\<close> has \<open>k\<close> bits, each field of a word
  is an \<open>OR\<close> of shifted parts, and \<open>bit_simps\<close> finds every bit of a part in its place.
\<close>

section \<open>Bits of bounded values\<close>

definition fits :: "nat \<Rightarrow> int \<Rightarrow> bool" where
  "fits k v \<longleftrightarrow> 0 \<le> v \<and> v < 2 ^ k"

lemma fits_bit: "fits k v \<Longrightarrow> k \<le> n \<Longrightarrow> \<not> bit v n"
  using bit_below [of v k n] by (auto simp: fits_def)

lemma fits_iff: "fits k v \<longleftrightarrow> 0 \<le> v \<and> (\<forall>n\<ge>k. \<not> bit v n)"
proof
  assume v: "0 \<le> v \<and> (\<forall>n\<ge>k. \<not> bit v n)"
  then have "take_bit k v = v" by (intro bit_eqI) (meson bit_take_bit_iff not_le)
  then show "fits k v" using v by (metis fits_def take_bit_int_less_exp)
qed (auto simp: fits_bit fits_def)

lemma fits_or: "fits k a \<Longrightarrow> fits k b \<Longrightarrow> fits k (a OR b)"
  by (auto simp: fits_iff bit_simps)

lemma fits_and: "fits k b \<Longrightarrow> fits k (a AND b)"
  by (auto simp: fits_iff bit_simps)

lemma fits_drop: "fits (k + j) a \<Longrightarrow> fits k (drop_bit j a)"
  by (auto simp: fits_iff bit_simps)

lemma bit_u16: "bit (u16 x) n \<longleftrightarrow> n < 16 \<and> bit x n"
  using bit_take_bit_iff [of 16 x n] by (simp add: u16_def take_bit_eq_mod)

lemma bit_mult_2: "bit (x * 2) n \<longleftrightarrow> 0 < n \<and> bit (x :: int) (n - 1)"
  using bit_push_bit_iff_int [of 1 x n] by (auto simp: push_bit_eq_mult)

lemma fits_push: "fits (k - j) a \<Longrightarrow> j \<le> k \<Longrightarrow> fits k (push_bit j a)"
  by (auto simp: fits_iff bit_simps)

lemma fits_drop_u16: "16 \<le> k + j \<Longrightarrow> fits k (drop_bit j (u16 a))"
  by (rule fits_drop) (auto simp: fits_iff bit_simps bit_u16, simp add: u16_def)

lemma fits_u16: "fits 16 (u16 x)"
  by (auto simp: fits_def u16_def)

lemma fits_eqI:
  assumes "fits k a" "fits k b" "list_all (\<lambda>n. bit a n = bit b n) [0..<k]"
  shows "a = b"
proof (rule bit_eqI)
  fix n
  show "bit a n = bit b n" using assms fits_bit [of k a n] fits_bit [of k b n]
    by (cases "n < k") (auto simp: list_all_iff)
qed

lemma fits8_eqI:
  assumes "fits 8 a" "fits 8 b" "bit a 0 = bit b 0 \<and> bit a 1 = bit b 1 \<and> bit a 2 = bit b 2 \<and> bit a 3 = bit b 3 \<and> bit a 4 = bit b 4 \<and> bit a 5 = bit b 5 \<and> bit a 6 = bit b 6 \<and> bit a 7 = bit b 7"
  shows "a = b"
proof (rule fits_eqI [OF assms(1,2)])
  have "[0..<8] = [0, 1, 2, 3, 4, 5, 6, 7]" by code_simp
  then show "list_all (\<lambda>n. bit a n = bit b n) [0..<8]" using assms(3) by simp
qed

lemma fits16_eqI:
  assumes "fits 16 a" "fits 16 b" "bit a 0 = bit b 0 \<and> bit a 1 = bit b 1 \<and> bit a 2 = bit b 2 \<and> bit a 3 = bit b 3 \<and> bit a 4 = bit b 4 \<and> bit a 5 = bit b 5 \<and> bit a 6 = bit b 6 \<and> bit a 7 = bit b 7"
    "bit a 8 = bit b 8 \<and> bit a 9 = bit b 9 \<and> bit a 10 = bit b 10 \<and> bit a 11 = bit b 11 \<and> bit a 12 = bit b 12 \<and> bit a 13 = bit b 13 \<and> bit a 14 = bit b 14 \<and> bit a 15 = bit b 15"
  shows "a = b"
proof (rule fits_eqI [OF assms(1,2)])
  have "[0..<16] = [0, 1, 2, 3, 4, 5, 6, 7, 8, 9, 10, 11, 12, 13, 14, 15]" by code_simp
  then show "list_all (\<lambda>n. bit a n = bit b n) [0..<16]" using assms(3,4) by simp
qed

lemma fits_mono: "fits k v \<Longrightarrow> k \<le> k' \<Longrightarrow> fits k' v"
  by (auto simp: fits_iff)

section \<open>State samples\<close>

lemma bit_fold_or:
  "bit (fold (\<lambda>(x, i) w. w OR f i x) ps (w :: int)) n \<longleftrightarrow> bit w n \<or> (\<exists>(x, i)\<in>set ps. bit (f i x) n)"
  by (induction ps arbitrary: w) (auto simp: bit_simps)

lemma bit_4: "bit (4 :: int) n \<longleftrightarrow> n = 2"
  using bit_exp_iff [where 'a = int, of 2 n] by auto

lemma class2_bit:
  assumes "length xs \<le> 16"
  shows "bit (class2_word xs) m \<longleftrightarrow> m < 16 \<and> 16 - length xs \<le> m \<and> bit (xs ! (15 - m)) 2"
proof -
  have one: "bit (push_bit i (drop_bit 2 (u16 (x AND 0x4)))) m \<longleftrightarrow> m = i \<and> bit x 2" for i x
    by (auto simp: bit_simps bit_u16 bit_4 numeral_2_eq_2)
  have "(x, i) \<in> set (zip xs (rev [16 - length xs..<16])) \<longleftrightarrow> (\<exists>j<length xs. x = xs ! j \<and> i = 15 - j)" for x i
    using assms by (auto simp: in_set_zip rev_nth)
  then have "bit (class2_word xs) m \<longleftrightarrow> (\<exists>j<length xs. m = 15 - j \<and> bit (xs ! j) 2)"
    unfolding class2_word_def bit_fold_or by (auto simp: one split_beta) force
  also have "\<dots> \<longleftrightarrow> m < 16 \<and> 16 - length xs \<le> m \<and> bit (xs ! (15 - m)) 2"
  proof
    assume "\<exists>j<length xs. m = 15 - j \<and> bit (xs ! j) 2"
    then obtain j where j: "j < length xs" "m = 15 - j" "bit (xs ! j) 2" by blast
    moreover from j assms have "15 - m = j" by simp
    ultimately show "m < 16 \<and> 16 - length xs \<le> m \<and> bit (xs ! (15 - m)) 2" using assms by auto
  next
    assume "m < 16 \<and> 16 - length xs \<le> m \<and> bit (xs ! (15 - m)) 2"
    then show "\<exists>j<length xs. m = 15 - j \<and> bit (xs ! j) 2"
      using assms by (intro exI [of _ "15 - m"]) auto
  qed
  finally show ?thesis .
qed


lemma class2_samples_eq:
  assumes "length xs \<le> 16" "\<And>m. 16 - length xs \<le> m \<Longrightarrow> m < 16 \<Longrightarrow> bit w m = bit (xs ! (15 - m)) 2"
  shows "class2_samples (length xs) w = map (\<lambda>x. x AND 4) xs"
proof (rule nth_equalityI)
  fix j assume "j < length (class2_samples (length xs) w)"
  then have j: "j < length xs" using assms(1) by (simp add: class2_samples_def)
  then have m: "16 - length xs \<le> 15 - j" "15 - j < 16" "15 - (15 - j) = j" using assms(1) by auto
  have "push_bit 2 (drop_bit (15 - j) w) AND 4 = xs ! j AND 4"
    using assms(2) [OF m(1,2)] unfolding m(3)
    by (intro bit_eqI) (auto simp: bit_simps bit_4)
  then show "class2_samples (length xs) w ! j = map (\<lambda>x. x AND 4) xs ! j"
    using j assms(1) by (simp add: class2_samples_def rev_nth)
qed (use assms(1) in \<open>simp add: class2_samples_def\<close>)

lemma length_8:
  assumes "length xs = 8"
  obtains a b c d e f g h where "xs = [a, b, c, d, e, f, g, h]"
  using assms by (auto simp: length_Suc_conv numeral_eq_Suc)

lemma class3_samples_word:
  assumes "length xs = 8"
  shows "class3_samples (class3_word xs) = map (\<lambda>x. x AND 3) xs"
proof -
  obtain a b c d e f g h where xs: "xs = [a, b, c, d, e, f, g, h]" using assms by (rule length_8)
  have fits: "fits 8 (x AND 3)" for x by (rule fits_and) (simp add: fits_def)
  have 3: "bit (3 :: int) n \<longleftrightarrow> n < 2" for n
    using bit_mask_iff [where 'a = int, of 2 n] by (simp add: mask_eq_exp_minus_1)
  show ?thesis unfolding xs
    by (simp add: class3_samples_def class3_word_def, intro conjI;
        rule fits8_eqI [OF fits fits]; simp add: bit_simps bit_u16 3)
qed

lemma split_sample:
  assumes "fits 3 x"
  shows "x AND 4 OR x AND 3 = x"
proof -
  have "fits 8 x" by (rule fits_mono [OF assms]) simp
  moreover have "fits 8 (x AND 4 OR x AND 3)" by (intro fits_or fits_and) (simp_all add: fits_def)
  ultimately show ?thesis
    by (intro fits8_eqI) (simp_all add: bit_simps fits_bit [OF assms])
qed


section \<open>Parameters\<close>

text \<open>The sizes of the arrays of the structure, and the parameters each mode transmits.\<close>

definition ilbc_shape :: "iLBC_bits \<Rightarrow> bool" where
  "ilbc_shape e \<longleftrightarrow> length (lsf e) = 6 \<and> length (cb_index e) = 15 \<and> length (gain_index e) = 15 \<and> length (idxVec e) = 58"

definition params :: "int \<Rightarrow> iLBC_bits \<Rightarrow> int list" where
  "params mode e =
     (if mode = 20
      then take 3 (lsf e) @ take 9 (cb_index e) @ take 9 (gain_index e) @ [idxForMax e, state_first e, startIdx e] @ take 57 (idxVec e)
      else lsf e @ cb_index e @ gain_index e @ [idxForMax e, state_first e, startIdx e] @ idxVec e)"

definition widths :: "int \<Rightarrow> nat list" where
  "widths mode =
     (if mode = 20
      then [6, 7, 7] @ [7, 7, 7, 8, 7, 7, 8, 8, 8] @ [5, 4, 3, 5, 4, 3, 5, 4, 3] @ [6, 1, 2] @ replicate 57 3
      else [6, 7, 7, 6, 7, 7] @ [7, 7, 7, 8, 7, 7, 8, 8, 8, 8, 8, 8, 8, 8, 8] @ [5, 4, 3, 5, 4, 3, 5, 4, 3, 5, 4, 3, 5, 4, 3] @
        [6, 1, 3] @ replicate 58 3)"

definition in_range :: "int \<Rightarrow> iLBC_bits \<Rightarrow> bool" where
  "in_range mode e \<longleftrightarrow> list_all2 fits (widths mode) (params mode e)"

lemma length_6:
  assumes "length xs = 6"
  obtains a b c d e f where "xs = [a, b, c, d, e, f]"
  using assms by (auto simp: length_Suc_conv numeral_eq_Suc)

lemma length_15:
  assumes "length xs = 15"
  obtains a b c d e f g h i j k l m n p where "xs = [a, b, c, d, e, f, g, h, i, j, k, l, m, n, p]"
  using assms by (auto simp: length_Suc_conv numeral_eq_Suc)

lemma ilbc_explicit:
  assumes "ilbc_shape e"
  obtains a0 a1 a2 a3 a4 a5 b0 b1 b2 b3 b4 b5 b6 b7 b8 b9 b10 b11 b12 b13 b14
    c0 c1 c2 c3 c4 c5 c6 c7 c8 c9 c10 c11 c12 c13 c14 im sf iv fb si
  where "e = \<lparr>lsf = [a0, a1, a2, a3, a4, a5], cb_index = [b0, b1, b2, b3, b4, b5, b6, b7, b8, b9, b10, b11, b12, b13, b14],
    gain_index = [c0, c1, c2, c3, c4, c5, c6, c7, c8, c9, c10, c11, c12, c13, c14],
    idxForMax = im, state_first = sf, idxVec = iv, firstbits = fb, startIdx = si\<rparr>" "length iv = 58"
proof (cases e)
  case (fields l c g im sf iv fb si)
  then have len: "length l = 6" "length c = 15" "length g = 15" "length iv = 58" using assms by (simp_all add: ilbc_shape_def)
  from len(1) obtain a0 a1 a2 a3 a4 a5 where l: "l = [a0, a1, a2, a3, a4, a5]" by (rule length_6)
  from len(2) obtain b0 b1 b2 b3 b4 b5 b6 b7 b8 b9 b10 b11 b12 b13 b14 where c: "c = [b0, b1, b2, b3, b4, b5, b6, b7, b8, b9, b10, b11, b12, b13, b14]"
    by (rule length_15)
  from len(3) obtain c0 c1 c2 c3 c4 c5 c6 c7 c8 c9 c10 c11 c12 c13 c14 where g: "g = [c0, c1, c2, c3, c4, c5, c6, c7, c8, c9, c10, c11, c12, c13, c14]"
    by (rule length_15)
  show ?thesis by (rule that [OF fields [unfolded l c g] len(4)])
qed

definition unpack_rest :: "int list \<Rightarrow> iLBC_bits \<Rightarrow> int \<Rightarrow> iLBC_bits" where
  "unpack_rest bs e mode = (let e = unpack_lsf bs e;
               e = (if mode = 20 then unpack_class1_20 bs e else unpack_class1_30 bs e);
               e = unpack_class2 bs (if mode = 20 then 3 else 4) e;
               e = (if mode = 20 then unpack_tail2_20 bs e else unpack_tail2_30 bs e);
               e = unpack_class3 bs (if mode = 20 then 7 else 10) e
           in (if mode = 20 then unpack_tail3_20 bs e else unpack_tail3_30 bs e))"

lemmas setters = set_lsf_def or_lsf_def set_cb_def or_cb_def set_gain_def or_gain_def set_idx_def or_idx_def

text \<open>The setters on a record with known members, so that a chain of them is computed from the inside.\<close>

lemma setter_simps:
  "set_lsf i x \<lparr>lsf = l, cb_index = c, gain_index = g, idxForMax = m, state_first = f, idxVec = v, firstbits = b, startIdx = s\<rparr> =
    \<lparr>lsf = l[i := x], cb_index = c, gain_index = g, idxForMax = m, state_first = f, idxVec = v, firstbits = b, startIdx = s\<rparr>"
  "or_lsf i x \<lparr>lsf = l, cb_index = c, gain_index = g, idxForMax = m, state_first = f, idxVec = v, firstbits = b, startIdx = s\<rparr> =
    \<lparr>lsf = l[i := l ! i OR x], cb_index = c, gain_index = g, idxForMax = m, state_first = f, idxVec = v, firstbits = b, startIdx = s\<rparr>"
  "set_cb i x \<lparr>lsf = l, cb_index = c, gain_index = g, idxForMax = m, state_first = f, idxVec = v, firstbits = b, startIdx = s\<rparr> =
    \<lparr>lsf = l, cb_index = c[i := x], gain_index = g, idxForMax = m, state_first = f, idxVec = v, firstbits = b, startIdx = s\<rparr>"
  "or_cb i x \<lparr>lsf = l, cb_index = c, gain_index = g, idxForMax = m, state_first = f, idxVec = v, firstbits = b, startIdx = s\<rparr> =
    \<lparr>lsf = l, cb_index = c[i := c ! i OR x], gain_index = g, idxForMax = m, state_first = f, idxVec = v, firstbits = b, startIdx = s\<rparr>"
  "set_gain i x \<lparr>lsf = l, cb_index = c, gain_index = g, idxForMax = m, state_first = f, idxVec = v, firstbits = b, startIdx = s\<rparr> =
    \<lparr>lsf = l, cb_index = c, gain_index = g[i := x], idxForMax = m, state_first = f, idxVec = v, firstbits = b, startIdx = s\<rparr>"
  "or_gain i x \<lparr>lsf = l, cb_index = c, gain_index = g, idxForMax = m, state_first = f, idxVec = v, firstbits = b, startIdx = s\<rparr> =
    \<lparr>lsf = l, cb_index = c, gain_index = g[i := g ! i OR x], idxForMax = m, state_first = f, idxVec = v, firstbits = b, startIdx = s\<rparr>"
  "set_idx i xs \<lparr>lsf = l, cb_index = c, gain_index = g, idxForMax = m, state_first = f, idxVec = v, firstbits = b, startIdx = s\<rparr> =
    \<lparr>lsf = l, cb_index = c, gain_index = g, idxForMax = m, state_first = f, idxVec = blit v i xs, firstbits = b, startIdx = s\<rparr>"
  "or_idx i xs \<lparr>lsf = l, cb_index = c, gain_index = g, idxForMax = m, state_first = f, idxVec = v, firstbits = b, startIdx = s\<rparr> =
    \<lparr>lsf = l, cb_index = c, gain_index = g, idxForMax = m, state_first = f, idxVec = blit v i (map2 (OR) (take (length xs) (drop i v)) xs), firstbits = b, startIdx = s\<rparr>"
  by (simp_all add: setters samples_def)

lemma unpack_scalar_20:
  assumes "ilbc_shape e0" "ilbc_shape e" "in_range 20 e" "bs = WebRtcIlbcfix_PackBits e 20"
  shows "take 3 (lsf (unpack_rest bs e0 20)) = take 3 (lsf e)"
    "take 9 (cb_index (unpack_rest bs e0 20)) = take 9 (cb_index e)"
    "take 9 (gain_index (unpack_rest bs e0 20)) = take 9 (gain_index e)"
    "idxForMax (unpack_rest bs e0 20) = idxForMax e" "state_first (unpack_rest bs e0 20) = state_first e"
    "startIdx (unpack_rest bs e0 20) = startIdx e"
    "drop_bit 14 (bs ! 14) AND 3 = idxVec e ! 56 AND 3"
proof -
  obtain a0 a1 a2 a3 a4 a5 b0 b1 b2 b3 b4 b5 b6 b7 b8 b9 b10 b11 b12 b13 b14
    c0 c1 c2 c3 c4 c5 c6 c7 c8 c9 c10 c11 c12 c13 c14 im sf iv fb si
    where e: "e = \<lparr>lsf = [a0, a1, a2, a3, a4, a5], cb_index = [b0, b1, b2, b3, b4, b5, b6, b7, b8, b9, b10, b11, b12, b13, b14],
    gain_index = [c0, c1, c2, c3, c4, c5, c6, c7, c8, c9, c10, c11, c12, c13, c14],
    idxForMax = im, state_first = sf, idxVec = iv, firstbits = fb, startIdx = si\<rparr>" "length iv = 58"
    using assms(2) by (rule ilbc_explicit)
  have fits: "fits 6 a0" "fits 7 a1" "fits 7 a2" "fits 7 b0" "fits 7 b1" "fits 7 b2" "fits 8 b3" "fits 7 b4" "fits 7 b5"
    "fits 8 b6" "fits 8 b7" "fits 8 b8" "fits 5 c0" "fits 4 c1" "fits 3 c2" "fits 5 c3" "fits 4 c4" "fits 3 c5" "fits 5 c6"
    "fits 4 c7" "fits 3 c8" "fits 6 im" "fits 1 sf" "fits 2 si"
    using assms(3) by (simp_all add: in_range_def params_def widths_def e)
  note f8 = fits [THEN fits_mono [where k' = 8], simplified]
  obtain a0' a1' a2' a3' a4' a5' b0' b1' b2' b3' b4' b5' b6' b7' b8' b9' b10' b11' b12' b13' b14'
    c0' c1' c2' c3' c4' c5' c6' c7' c8' c9' c10' c11' c12' c13' c14' im' sf' iv' fb' si'
    where e0: "e0 = \<lparr>lsf = [a0', a1', a2', a3', a4', a5'], cb_index = [b0', b1', b2', b3', b4', b5', b6', b7', b8', b9', b10', b11', b12', b13', b14'],
    gain_index = [c0', c1', c2', c3', c4', c5', c6', c7', c8', c9', c10', c11', c12', c13', c14'],
    idxForMax = im', state_first = sf', idxVec = iv', firstbits = fb', startIdx = si'\<rparr>" "length iv' = 58"
    using assms(1) by (rule ilbc_explicit)
  have bs: "bs = pack_word1 e # pack_class1_20 e @ pack_class2 e @ pack_tail2_20 e @ pack_class3 e @ pack_tail3_20 e"
    using assms(4) by (simp add: WebRtcIlbcfix_PackBits_def)
  have lens: "length (pack_class2 e) = 3" "length (pack_class3 e) = 7" by (simp_all add: pack_class2_def pack_class3_def)
  note unp = unpack_rest_def unpack_lsf_def unpack_class1_20_def unpack_class2_def unpack_tail2_20_def unpack_class3_def unpack_tail3_20_def Let_def setter_simps
  note pck = pack_word1_def pack_class1_20_def pack_word2_def pack_tail2_20_def pack_tail3_20_def
  note bits = fits [THEN fits_bit]
  have c2: "bit (class2_word (samples e 48 9)) m \<longleftrightarrow> m < 16 \<and> 7 \<le> m \<and> bit (samples e 48 9 ! (15 - m)) 2" for m
    using class2_bit [of "samples e 48 9" m] e by (simp add: samples_def)
  note c2' = c2 [unfolded e(1)]
  have "take 3 (lsf (unpack_rest bs e0 20)) = take 3 (lsf e) \<and> take 9 (cb_index (unpack_rest bs e0 20)) = take 9 (cb_index e) \<and>
    take 9 (gain_index (unpack_rest bs e0 20)) = take 9 (gain_index e) \<and> idxForMax (unpack_rest bs e0 20) = idxForMax e \<and>
    state_first (unpack_rest bs e0 20) = state_first e \<and> startIdx (unpack_rest bs e0 20) = startIdx e \<and>
    drop_bit 14 (bs ! 14) AND 3 = idxVec e ! 56 AND 3"
    apply (simp add: unp e0)
    apply (simp add: bs lens nth_append pck)
    apply (simp add: e(1))
    apply (intro conjI; rule fits8_eqI)
    apply (rule f8 | (intro fits_or fits_and fits_push fits_drop_u16; simp add: fits_def; fail) | (simp add: bit_simps bit_u16 bit_mult_2 bits c2'; (simp add: numeral_2_eq_2 numeral_3_eq_3; fail)?; fail))+
    done
  then show "take 3 (lsf (unpack_rest bs e0 20)) = take 3 (lsf e)"
    "take 9 (cb_index (unpack_rest bs e0 20)) = take 9 (cb_index e)"
    "take 9 (gain_index (unpack_rest bs e0 20)) = take 9 (gain_index e)"
    "idxForMax (unpack_rest bs e0 20) = idxForMax e" "state_first (unpack_rest bs e0 20) = state_first e"
    "startIdx (unpack_rest bs e0 20) = startIdx e"
    "drop_bit 14 (bs ! 14) AND 3 = idxVec e ! 56 AND 3" by blast+
qed

lemma unpack_scalar_30:
  assumes "ilbc_shape e0" "ilbc_shape e" "in_range mode e" "mode \<noteq> 20" "bs = WebRtcIlbcfix_PackBits e mode"
  shows "(lsf (unpack_rest bs e0 mode)) = (lsf e)"
    "(cb_index (unpack_rest bs e0 mode)) = (cb_index e)"
    "(gain_index (unpack_rest bs e0 mode)) = (gain_index e)"
    "idxForMax (unpack_rest bs e0 mode) = idxForMax e" "state_first (unpack_rest bs e0 mode) = state_first e"
    "startIdx (unpack_rest bs e0 mode) = startIdx e"
    "drop_bit 14 (bs ! 17) AND 3 = idxVec e ! 56 AND 3" "drop_bit 12 (bs ! 17) AND 3 = idxVec e ! 57 AND 3"
proof -
  obtain a0 a1 a2 a3 a4 a5 b0 b1 b2 b3 b4 b5 b6 b7 b8 b9 b10 b11 b12 b13 b14
    c0 c1 c2 c3 c4 c5 c6 c7 c8 c9 c10 c11 c12 c13 c14 im sf iv fb si
    where e: "e = \<lparr>lsf = [a0, a1, a2, a3, a4, a5], cb_index = [b0, b1, b2, b3, b4, b5, b6, b7, b8, b9, b10, b11, b12, b13, b14],
    gain_index = [c0, c1, c2, c3, c4, c5, c6, c7, c8, c9, c10, c11, c12, c13, c14],
    idxForMax = im, state_first = sf, idxVec = iv, firstbits = fb, startIdx = si\<rparr>" "length iv = 58"
    using assms(2) by (rule ilbc_explicit)
  have fits: "fits 6 a0" "fits 7 a1" "fits 7 a2" "fits 6 a3" "fits 7 a4" "fits 7 a5" "fits 7 b0" "fits 7 b1" "fits 7 b2" "fits 8 b3" "fits 7 b4" "fits 7 b5"
    "fits 8 b6" "fits 8 b7" "fits 8 b8" "fits 8 b9" "fits 8 b10" "fits 8 b11" "fits 8 b12" "fits 8 b13" "fits 8 b14" "fits 5 c0" "fits 4 c1" "fits 3 c2"
    "fits 5 c3" "fits 4 c4" "fits 3 c5" "fits 5 c6" "fits 4 c7" "fits 3 c8" "fits 5 c9" "fits 4 c10" "fits 3 c11" "fits 5 c12" "fits 4 c13" "fits 3 c14" "fits 6 im" "fits 1 sf" "fits 3 si"
    using assms(3,4) by (simp_all add: in_range_def params_def widths_def e)
  note f8 = fits [THEN fits_mono [where k' = 8], simplified]
  obtain a0' a1' a2' a3' a4' a5' b0' b1' b2' b3' b4' b5' b6' b7' b8' b9' b10' b11' b12' b13' b14'
    c0' c1' c2' c3' c4' c5' c6' c7' c8' c9' c10' c11' c12' c13' c14' im' sf' iv' fb' si'
    where e0: "e0 = \<lparr>lsf = [a0', a1', a2', a3', a4', a5'], cb_index = [b0', b1', b2', b3', b4', b5', b6', b7', b8', b9', b10', b11', b12', b13', b14'],
    gain_index = [c0', c1', c2', c3', c4', c5', c6', c7', c8', c9', c10', c11', c12', c13', c14'],
    idxForMax = im', state_first = sf', idxVec = iv', firstbits = fb', startIdx = si'\<rparr>" "length iv' = 58"
    using assms(1) by (rule ilbc_explicit)
  have bs: "bs = pack_word1 e # pack_class1_30 e @ pack_class2 e @ pack_tail2_30 e @ pack_class3 e @ pack_tail3_30 e"
    using assms(4,5) by (simp add: WebRtcIlbcfix_PackBits_def)
  have lens: "length (pack_class2 e) = 3" "length (pack_class3 e) = 7" by (simp_all add: pack_class2_def pack_class3_def)
  note unp = unpack_rest_def unpack_lsf_def unpack_class1_30_def unpack_class2_def unpack_tail2_30_def unpack_class3_def unpack_tail3_30_def Let_def setter_simps
  note pck = pack_word1_def pack_class1_30_def pack_word2_def pack_tail2_30_def pack_tail3_30_def
  note bits = fits [THEN fits_bit]
  have c2: "bit (class2_word (samples e 48 10)) m \<longleftrightarrow> m < 16 \<and> 6 \<le> m \<and> bit (samples e 48 10 ! (15 - m)) 2" for m
    using class2_bit [of "samples e 48 10" m] e by (simp add: samples_def)
  note c2' = c2 [unfolded e(1)]
  have "(lsf (unpack_rest bs e0 mode)) = (lsf e) \<and> (cb_index (unpack_rest bs e0 mode)) = (cb_index e) \<and>
    (gain_index (unpack_rest bs e0 mode)) = (gain_index e) \<and> idxForMax (unpack_rest bs e0 mode) = idxForMax e \<and>
    state_first (unpack_rest bs e0 mode) = state_first e \<and> startIdx (unpack_rest bs e0 mode) = startIdx e \<and>
    drop_bit 14 (bs ! 17) AND 3 = idxVec e ! 56 AND 3 \<and> drop_bit 12 (bs ! 17) AND 3 = idxVec e ! 57 AND 3"
    apply (simp add: unp e0 assms(4))
    apply (simp add: bs lens nth_append pck)
    apply (simp add: e(1))
    apply (intro conjI; rule fits8_eqI)
    apply (rule f8 | (intro fits_or fits_and fits_push fits_drop_u16; simp add: fits_def; fail) | (simp add: bit_simps bit_u16 bit_mult_2 bits c2'; (simp add: numeral_2_eq_2 numeral_3_eq_3; fail)?; fail))+
    done
  then show "(lsf (unpack_rest bs e0 mode)) = (lsf e)"
    "(cb_index (unpack_rest bs e0 mode)) = (cb_index e)"
    "(gain_index (unpack_rest bs e0 mode)) = (gain_index e)"
    "idxForMax (unpack_rest bs e0 mode) = idxForMax e" "state_first (unpack_rest bs e0 mode) = state_first e"
    "startIdx (unpack_rest bs e0 mode) = startIdx e"
    "drop_bit 14 (bs ! 17) AND 3 = idxVec e ! 56 AND 3" "drop_bit 12 (bs ! 17) AND 3 = idxVec e ! 57 AND 3" by blast+
qed

lemma bit_3: "bit (3 :: int) n \<longleftrightarrow> n < 2"
  using bit_mask_iff [where 'a = int, of 2 n] by (simp add: mask_eq_exp_minus_1)

lemma length_samples [simp]: "off + n \<le> length (idxVec e) \<Longrightarrow> length (samples e off n) = n"
  by (simp add: samples_def)

lemma samples_append:
  "samples e off m @ samples e (off + m) n = samples e off (m + n)"
  by (simp add: samples_def take_add add.commute)

lemma class2_round:
  assumes "length xs = n" "n \<le> 16" "\<And>m. m < 16 \<Longrightarrow> 16 - n \<le> m \<Longrightarrow> \<not> bit v m"
  shows "class2_samples n (u16 (class2_word xs OR v)) = map (\<lambda>x. x AND 4) xs"
  using assms class2_samples_eq [of xs "u16 (class2_word xs OR v)"] by (simp add: bit_simps bit_u16 class2_bit)

lemma class2_round_16: "length xs = 16 \<Longrightarrow> class2_samples 16 (class2_word xs) = map (\<lambda>x. x AND 4) xs"
  using class2_samples_eq [of xs "class2_word xs"] by (simp add: class2_bit)

text \<open>Unpacking the words of class 2 and 3 of packed samples.\<close>

lemma class2_words:
  assumes "length (idxVec e) = 58" "\<And>j. j < 3 \<Longrightarrow> bs ! (k + j) = pack_class2 e ! j"
  shows "concat (map (\<lambda>j. class2_samples 16 (bs ! (k + j))) [0..<3]) = map (\<lambda>x. x AND 4) (samples e 0 48)"
proof -
  have "map (\<lambda>j. class2_samples 16 (bs ! (k + j))) [0..<3] = map (\<lambda>j. map (\<lambda>x. x AND 4) (samples e (16 * j) 16)) [0..<3]"
    using assms by (auto simp: pack_class2_def class2_round_16)
  also have "\<dots> = map (map (\<lambda>x. x AND 4)) [samples e 0 16, samples e 16 16, samples e 32 16]" by (simp add: upt_rec)
  finally have "concat (map (\<lambda>j. class2_samples 16 (bs ! (k + j))) [0..<3]) =
      map (\<lambda>x. x AND 4) (samples e 0 16 @ samples e 16 16 @ samples e 32 16)" by simp
  moreover have "samples e 0 48 = samples e 0 16 @ samples e 16 16 @ samples e 32 16"
    using samples_append [of e 0 16 32] samples_append [of e 16 16 16] by simp
  ultimately show ?thesis by simp
qed

lemma class3_words:
  assumes "length (idxVec e) = 58" "\<And>j. j < 7 \<Longrightarrow> bs ! (k + j) = pack_class3 e ! j"
  shows "concat (map (\<lambda>j. class3_samples (bs ! (k + j))) [0..<7]) = map (\<lambda>x. x AND 3) (samples e 0 56)"
proof -
  have "map (\<lambda>j. class3_samples (bs ! (k + j))) [0..<7] = map (\<lambda>j. map (\<lambda>x. x AND 3) (samples e (8 * j) 8)) [0..<7]"
    using assms by (auto simp: pack_class3_def class3_samples_word)
  also have "\<dots> = map (map (\<lambda>x. x AND 3)) [samples e 0 8, samples e 8 8, samples e 16 8, samples e 24 8, samples e 32 8, samples e 40 8, samples e 48 8]"
    by (simp add: upt_rec)
  finally have "concat (map (\<lambda>j. class3_samples (bs ! (k + j))) [0..<7]) =
      map (\<lambda>x. x AND 3) (samples e 0 8 @ samples e 8 8 @ samples e 16 8 @ samples e 24 8 @ samples e 32 8 @ samples e 40 8 @ samples e 48 8)" by simp
  moreover have "samples e 0 56 = samples e 0 8 @ samples e 8 8 @ samples e 16 8 @ samples e 24 8 @ samples e 32 8 @ samples e 40 8 @ samples e 48 8"
    using samples_append [of e 0 8 48] samples_append [of e 8 8 40] samples_append [of e 16 8 32]
      samples_append [of e 24 8 24] samples_append [of e 32 8 16] samples_append [of e 40 8 8] by simp
  ultimately show ?thesis by simp
qed

lemma or_samples:
  assumes "\<forall>x\<in>set xs. fits 3 x"
  shows "map2 (OR) (map (\<lambda>x. x AND 4) xs) (map (\<lambda>x. x AND 3) xs) = xs"
  using assms by (induction xs) (simp_all add: split_sample)

text \<open>The sequence of updates of \<open>idxVec\<close>.\<close>

definition idx_updates :: "int list \<Rightarrow> int list \<Rightarrow> int list \<Rightarrow> int list \<Rightarrow> int list \<Rightarrow> int list" where
  "idx_updates iv c2 t2 c3 t3 =
     (let iv = blit (blit iv 0 c2) 48 t2;
          iv = blit iv 0 (map2 (OR) (take 56 iv) c3)
      in blit iv 56 (map2 (OR) (take (length t3) (drop 56 iv)) t3))"

lemma idx_updates_eq:
  assumes "length iv = 58" "length xs = n" "n \<le> 58" "56 \<le> n" "\<forall>x\<in>set xs. fits 3 x"
  shows "idx_updates iv (map (\<lambda>x. x AND 4) (take 48 xs)) (map (\<lambda>x. x AND 4) (drop 48 xs))
     (map (\<lambda>x. x AND 3) (take 56 xs)) (map (\<lambda>x. x AND 3) (drop 56 xs)) = xs @ drop n iv"
proof -
  let ?a = "map (\<lambda>x. x AND 4)" and ?b = "map (\<lambda>x. x AND 3)"
  have 1: "blit (blit iv 0 (?a (take 48 xs))) 48 (?a (drop 48 xs)) = ?a xs @ drop n iv"
  proof -
    have "?a (take 48 xs) @ ?a (drop 48 xs) = ?a xs" by (simp flip: map_append)
    then show ?thesis using assms by (simp add: blit_def min_def)
  qed
  have "?a xs = ?a (take 56 xs) @ ?a (drop 56 xs)" by (simp flip: map_append)
  moreover have f: "\<forall>x\<in>set (take 56 xs). fits 3 x" "\<forall>x\<in>set (drop 56 xs). fits 3 x"
    using assms(5) by (auto dest: in_set_takeD in_set_dropD)
  ultimately have 2: "blit (?a xs @ drop n iv) 0 (map2 (OR) (take 56 (?a xs @ drop n iv)) (?b (take 56 xs))) =
      take 56 xs @ ?a (drop 56 xs) @ drop n iv"
    using assms or_samples [OF f(1)] by (simp add: blit_def)
  show ?thesis unfolding idx_updates_def Let_def 1 2
    using assms or_samples [OF f(2)] by (simp add: blit_def min_def)
qed


text \<open>What each stage does to the samples.\<close>

lemma idx_stages:
  "idxVec (unpack_lsf bs e) = idxVec e" "idxVec (unpack_class1_20 bs e) = idxVec e" "idxVec (unpack_class1_30 bs e) = idxVec e"
  "idxVec (unpack_class2 bs k e) = blit (idxVec e) 0 (concat (map (\<lambda>j. class2_samples 16 (bs ! (k + j))) [0..<3]))"
  "idxVec (unpack_tail2_20 bs e) = blit (idxVec e) 48 (class2_samples 9 (bs ! 6))"
  "idxVec (unpack_tail2_30 bs e) = blit (idxVec e) 48 (class2_samples 10 (bs ! 7))"
  "idxVec (unpack_tail3_20 bs e) = blit (idxVec e) 56 (map2 (OR) (take 1 (drop 56 (idxVec e))) [drop_bit 14 (bs ! 14) AND 3])"
  by (simp_all add: unpack_lsf_def unpack_class1_20_def unpack_class1_30_def unpack_class2_def unpack_tail2_20_def
    unpack_tail2_30_def unpack_tail3_20_def Let_def setters samples_def del: concat.simps map_map list.map)

lemma length_2:
  assumes "length xs = 2"
  obtains x y where "xs = [x, y]"
  using assms by (auto simp: length_Suc_conv numeral_eq_Suc)

lemma or_idx_two:
  assumes "length iv = 58"
  shows "blit (blit iv 56 (map2 (OR) (take 1 (drop 56 iv)) [a])) 57 (map2 (OR) (take 1 (drop 57 (blit iv 56 (map2 (OR) (take 1 (drop 56 iv)) [a])))) [b]) =
    blit iv 56 (map2 (OR) (take 2 (drop 56 iv)) [a, b])"
proof -
  have "length (drop 56 iv) = 2" using assms by simp
  then obtain x y where xy: "drop 56 iv = [x, y]" by (rule length_2)
  define p where "p = take 56 iv"
  have p: "length p = 56" "iv = p @ [x, y]" using assms xy append_take_drop_id [of 56 iv] by (simp_all add: p_def)
  show ?thesis unfolding p(2) blit_def using p(1) by simp
qed

lemma idx_stage_30:
  assumes "length (idxVec e) = 58"
  shows "idxVec (unpack_tail3_30 bs e) =
    blit (idxVec e) 56 (map2 (OR) (take 2 (drop 56 (idxVec e))) [drop_bit 14 (bs ! 17) AND 3, drop_bit 12 (bs ! 17) AND 3])"
  using or_idx_two [OF assms, of "drop_bit 14 (bs ! 17) AND 3" "drop_bit 12 (bs ! 17) AND 3"]
  by (simp add: unpack_tail3_30_def Let_def setters samples_def)

lemma idx_stage_class3:
  "idxVec (unpack_class3 bs k e) = blit (idxVec e) 0 (map2 (OR) (take 56 (idxVec e)) (concat (map (\<lambda>j. class3_samples (bs ! (k + j))) [0..<7])))"
proof -
  have "length (concat (map (\<lambda>j. class3_samples (bs ! (k + j))) [0..<7])) = 56"
    by (simp add: length_concat class3_samples_def comp_def sum_list_triv)
  then show ?thesis by (simp add: unpack_class3_def or_idx_def samples_def)
qed

lemma unpack_idx:
  assumes "length (idxVec e0) = 58"
  shows "idxVec (unpack_rest bs e0 mode) = (if mode = 20
     then idx_updates (idxVec e0) (concat (map (\<lambda>j. class2_samples 16 (bs ! (3 + j))) [0..<3]))
       (class2_samples 9 (bs ! 6)) (concat (map (\<lambda>j. class3_samples (bs ! (7 + j))) [0..<7])) [drop_bit 14 (bs ! 14) AND 3]
     else idx_updates (idxVec e0) (concat (map (\<lambda>j. class2_samples 16 (bs ! (4 + j))) [0..<3]))
       (class2_samples 10 (bs ! 7)) (concat (map (\<lambda>j. class3_samples (bs ! (10 + j))) [0..<7]))
       [drop_bit 14 (bs ! 17) AND 3, drop_bit 12 (bs ! 17) AND 3])"
proof -
  have len2: "length (concat (map (\<lambda>j. class2_samples 16 (bs ! (k + j))) [0..<3])) = 48" for k
    by (simp add: length_concat class2_samples_def comp_def sum_list_triv)
  have len3: "length (concat (map (\<lambda>j. class3_samples (bs ! (k + j))) [0..<7])) = 56" for k
    by (simp add: length_concat class3_samples_def comp_def sum_list_triv)
  show ?thesis
  proof (cases "mode = 20")
    case True
    let ?e = "unpack_class3 bs 7 (unpack_tail2_20 bs (unpack_class2 bs 3 (unpack_class1_20 bs (unpack_lsf bs e0))))"
    have "idxVec (unpack_rest bs e0 mode) = idxVec (unpack_tail3_20 bs ?e)"
      using True by (simp only: unpack_rest_def Let_def if_True simp_thms)
    also have "\<dots> = blit (idxVec ?e) 56 (map2 (OR) (take (length [drop_bit 14 (bs ! 14) AND 3]) (drop 56 (idxVec ?e))) [drop_bit 14 (bs ! 14) AND 3])"
      by (simp only: idx_stages) simp
    finally show ?thesis using True unfolding idx_updates_def Let_def
      by (simp only: if_True simp_thms idx_stages idx_stage_class3)
  next
    case False
    let ?e = "unpack_class3 bs 10 (unpack_tail2_30 bs (unpack_class2 bs 4 (unpack_class1_30 bs (unpack_lsf bs e0))))"
    have "length (class2_samples 10 (bs ! 7)) = 10" by (simp add: class2_samples_def)
    then have "length (idxVec ?e) = 58" using assms len2 len3 by (simp only: idx_stages idx_stage_class3) (simp add: len2 len3 del: length_concat)
    from idx_stage_30 [OF this, of bs]
    have "idxVec (unpack_tail3_30 bs ?e) = blit (idxVec ?e) 56 (map2 (OR) (take (length [drop_bit 14 (bs ! 17) AND 3, drop_bit 12 (bs ! 17) AND 3])
        (drop 56 (idxVec ?e))) [drop_bit 14 (bs ! 17) AND 3, drop_bit 12 (bs ! 17) AND 3])" by (simp add: numeral_2_eq_2)
    moreover have "idxVec (unpack_rest bs e0 mode) = idxVec (unpack_tail3_30 bs ?e)"
      using False by (simp only: unpack_rest_def Let_def if_False simp_thms)
    ultimately show ?thesis using False unfolding idx_updates_def Let_def
      by (simp only: if_False simp_thms idx_stages idx_stage_class3)
  qed
qed


lemma class2_round_fits:
  assumes "length xs = n" "n \<le> 16" "fits (16 - n) v"
  shows "class2_samples n (u16 (class2_word xs OR v)) = map (\<lambda>x. x AND 4) xs"
  by (rule class2_round [OF assms(1,2)]) (use fits_bit [OF assms(3)] in blast)

lemma PackBits_parts_20:
  assumes "bs = WebRtcIlbcfix_PackBits e 20"
  shows "length bs = 19" "\<And>j. j < 3 \<Longrightarrow> bs ! (3 + j) = pack_class2 e ! j" "bs ! 6 = hd (pack_tail2_20 e)"
    "\<And>j. j < 7 \<Longrightarrow> bs ! (7 + j) = pack_class3 e ! j" "bs ! 18 = last (pack_tail3_20 e)"
proof -
  have lens: "length (pack_class1_20 e) = 2" "length (pack_class2 e) = 3" "length (pack_tail2_20 e) = 1"
    "length (pack_class3 e) = 7" "length (pack_tail3_20 e) = 5"
    by (simp_all add: pack_class1_20_def pack_class2_def pack_tail2_20_def pack_class3_def pack_tail3_20_def)
  have bs: "bs = pack_word1 e # pack_class1_20 e @ pack_class2 e @ pack_tail2_20 e @ pack_class3 e @ pack_tail3_20 e"
    using assms by (simp add: WebRtcIlbcfix_PackBits_def)
  show "length bs = 19" "\<And>j. j < 3 \<Longrightarrow> bs ! (3 + j) = pack_class2 e ! j" "\<And>j. j < 7 \<Longrightarrow> bs ! (7 + j) = pack_class3 e ! j"
    by (simp_all add: bs lens nth_append)
  show "bs ! 6 = hd (pack_tail2_20 e)" "bs ! 18 = last (pack_tail3_20 e)"
    by (simp_all add: bs lens nth_append) (simp_all add: pack_tail2_20_def pack_tail3_20_def)
qed

lemma PackBits_parts_30:
  assumes "bs = WebRtcIlbcfix_PackBits e mode" "mode \<noteq> 20"
  shows "length bs = 25" "\<And>j. j < 3 \<Longrightarrow> bs ! (4 + j) = pack_class2 e ! j" "bs ! 7 = hd (pack_tail2_30 e)"
    "\<And>j. j < 7 \<Longrightarrow> bs ! (10 + j) = pack_class3 e ! j" "bs ! 24 = last (pack_tail3_30 e)"
proof -
  have lens: "length (pack_class1_30 e) = 3" "length (pack_class2 e) = 3" "length (pack_tail2_30 e) = 3"
    "length (pack_class3 e) = 7" "length (pack_tail3_30 e) = 8"
    by (simp_all add: pack_class1_30_def pack_class2_def pack_tail2_30_def pack_class3_def pack_tail3_30_def)
  have bs: "bs = pack_word1 e # pack_class1_30 e @ pack_class2 e @ pack_tail2_30 e @ pack_class3 e @ pack_tail3_30 e"
    using assms by (simp add: WebRtcIlbcfix_PackBits_def)
  show "length bs = 25" "\<And>j. j < 3 \<Longrightarrow> bs ! (4 + j) = pack_class2 e ! j" "\<And>j. j < 7 \<Longrightarrow> bs ! (10 + j) = pack_class3 e ! j"
    by (simp_all add: bs lens nth_append)
  show "bs ! 7 = hd (pack_tail2_30 e)" "bs ! 24 = last (pack_tail3_30 e)"
    by (simp_all add: bs lens nth_append) (simp_all add: pack_tail2_30_def pack_tail3_30_def)
qed

lemma samples_fit:
  assumes "in_range mode e" "ilbc_shape e"
  shows "\<forall>x\<in>set (take (if mode = 20 then 57 else 58) (idxVec e)). fits 3 x"
proof -
  have drop3: "list_all2 fits (replicate k 3) xs \<Longrightarrow> \<forall>x\<in>set xs. fits 3 x" for k xs
    by (auto simp: list_all2_conv_all_nth in_set_conv_nth)
  show ?thesis
  proof (cases "mode = 20")
    case True
    let ?p = "take 3 (lsf e) @ take 9 (cb_index e) @ take 9 (gain_index e) @ [idxForMax e, state_first e, startIdx e]"
    have "drop 24 (params mode e) = take 57 (idxVec e)" using assms(2) True by (simp add: params_def ilbc_shape_def)
    moreover have "drop 24 (widths mode) = replicate 57 3" using True by (simp add: widths_def)
    ultimately show ?thesis using list_all2_dropI [of fits "widths mode" "params mode e" 24] assms(1) drop3 True
      by (simp add: in_range_def)
  next
    case False
    have "drop 39 (params mode e) = idxVec e" using assms(2) False by (simp add: params_def ilbc_shape_def)
    moreover have "drop 39 (widths mode) = replicate 58 3" using False by (simp add: widths_def)
    ultimately show ?thesis using list_all2_dropI [of fits "widths mode" "params mode e" 39] assms drop3 False
      by (simp add: in_range_def ilbc_shape_def)
  qed
qed

section \<open>The round trip\<close>

lemma unpacked_samples:
  assumes "ilbc_shape e0" "ilbc_shape e" "in_range mode e" "bs = WebRtcIlbcfix_PackBits e mode"
  shows "idxVec (unpack_rest bs e0 mode) =
    take (if mode = 20 then 57 else 58) (idxVec e) @ drop (if mode = 20 then 57 else 58) (idxVec e0)"
proof -
  have len: "length (idxVec e) = 58" "length (idxVec e0) = 58" using assms(1,2) by (simp_all add: ilbc_shape_def)
  note fit = samples_fit [OF assms(3,2)]
  show ?thesis
  proof (cases "mode = 20")
    case True
    let ?xs = "take 57 (idxVec e)"
    note parts = PackBits_parts_20 [OF assms(4) [unfolded True]]
    have t2: "class2_samples 9 (bs ! 6) = map (\<lambda>x. x AND 4) (samples e 48 9)"
      unfolding parts(3) pack_tail2_20_def list.sel
      by (rule class2_round_fits) (simp_all add: len, (intro fits_or fits_push fits_drop fits_and; simp add: fits_def))
    have split: "samples e 0 48 = take 48 ?xs" "samples e 48 9 = drop 48 ?xs" "samples e 0 56 = take 56 ?xs" "[idxVec e ! 56] = drop 56 ?xs"
      using len by (simp_all add: samples_def take_drop min_def take_Suc_conv_app_nth [of 56, simplified])
    have t3: "[drop_bit 14 (bs ! 14) AND 3] = map (\<lambda>x. x AND 3) (drop 56 ?xs)"
      unfolding split(4) [symmetric] using unpack_scalar_20(7) [OF assms(1,2) assms(3,4) [unfolded True]] by simp
    show ?thesis
      using unpack_idx [OF len(2), of bs mode] True class2_words [OF len(1) parts(2)] class3_words [OF len(1) parts(4)] t2 t3 split
        idx_updates_eq [OF len(2), of ?xs 57] fit len by simp
  next
    case False
    note parts = PackBits_parts_30 [OF assms(4) False]
    have t2: "class2_samples 10 (bs ! 7) = map (\<lambda>x. x AND 4) (samples e 48 10)"
      unfolding parts(3) pack_tail2_30_def list.sel
      by (rule class2_round_fits) (simp_all add: len, (intro fits_or fits_push fits_drop fits_and; simp add: fits_def))
    have split: "samples e 0 48 = take 48 (idxVec e)" "samples e 48 10 = drop 48 (idxVec e)" "samples e 0 56 = take 56 (idxVec e)"
      "[idxVec e ! 56, idxVec e ! 57] = drop 56 (idxVec e)"
      using len by (simp_all add: samples_def flip: Cons_nth_drop_Suc)
    have t3: "[drop_bit 14 (bs ! 17) AND 3, drop_bit 12 (bs ! 17) AND 3] = map (\<lambda>x. x AND 3) (drop 56 (idxVec e))"
      unfolding split(4) [symmetric] using unpack_scalar_30(7,8) [OF assms(1-3) False assms(4)] by simp
    show ?thesis
      using unpack_idx [OF len(2), of bs mode] False class2_words [OF len(1) parts(2)] class3_words [OF len(1) parts(4)] t2 t3 split
        idx_updates_eq [OF len(2), of "idxVec e" 58] fit len by simp
  qed
qed

lemma even_and_1: "\<not> bit x 0 \<Longrightarrow> x AND 1 = (0 :: int)"
  by (simp add: and_one_eq bit_0)

lemma last_words_even: "last (pack_tail3_20 e) AND 1 = 0" "last (pack_tail3_30 e) AND 1 = 0"
  by (rule even_and_1; simp add: pack_tail3_20_def pack_tail3_30_def bit_u16 bit_simps bit_mult_2)+

text \<open>
  C21: A frame whose parameters fit their fields is packed into 19 or 25 words, and unpacking them
  gives the parameters back, whatever the structure held before; the frame is not empty.
\<close>

theorem Ilbc_roundtrip:
  assumes "ilbc_shape e" "ilbc_shape e0" "in_range mode e"
  shows "length (WebRtcIlbcfix_PackBits e mode) = no_of_words mode \<and>
    (\<exists>e'. WebRtcIlbcfix_UnpackBits (WebRtcIlbcfix_PackBits e mode) e0 mode = Some (0, e') \<and> params mode e' = params mode e)"
proof -
  define bs where "bs = WebRtcIlbcfix_PackBits e mode"
  let ?e = "unpack_rest bs e0 mode"
  have "length bs = no_of_words mode \<and> bs ! (no_of_words mode - 1) AND 1 = 0"
    using PackBits_parts_20(1,5) [of bs e] PackBits_parts_30(1,5) [of bs e mode] last_words_even [of e]
    by (cases "mode = 20") (auto simp: bs_def no_of_words_def)
  then have "length bs = no_of_words mode" "WebRtcIlbcfix_UnpackBits bs e0 mode = Some (0, ?e)"
    by (simp_all add: WebRtcIlbcfix_UnpackBits_def unpack_rest_def Let_def)
  moreover have "params mode ?e = params mode e"
  proof (cases "mode = 20")
    case True
    then show ?thesis
      using unpacked_samples [OF assms(2,1,3) bs_def] unpack_scalar_20 [OF assms(2,1) assms(3) [unfolded True] bs_def [unfolded True]] assms(1)
      by (simp add: params_def ilbc_shape_def)
  next
    case False
    then show ?thesis
      using unpacked_samples [OF assms(2,1,3) bs_def] unpack_scalar_30 [OF assms(2,1,3) False bs_def] assms(1,2)
      by (simp add: params_def ilbc_shape_def)
  qed
  ultimately show ?thesis unfolding bs_def by blast
qed

theorem Ilbc_roundtrip_witness:
  "\<exists>e'. WebRtcIlbcfix_UnpackBits (WebRtcIlbcfix_PackBits
      \<lparr>lsf = [63, 100, 127, 1, 2, 3], cb_index = [127, 1, 2, 255, 5, 6, 7, 8, 9, 10, 11, 12, 13, 14, 15],
       gain_index = [31, 15, 7, 1, 2, 3, 4, 5, 6, 7, 0, 1, 2, 3, 4], idxForMax = 63, state_first = 1,
       idxVec = replicate 58 5, firstbits = 0, startIdx = 3\<rparr> 20)
      \<lparr>lsf = replicate 6 0, cb_index = replicate 15 0, gain_index = replicate 15 0, idxForMax = 0, state_first = 0,
       idxVec = replicate 58 0, firstbits = 0, startIdx = 0\<rparr> 20 = Some (0, e') \<and>
    params 20 e' = [63, 100, 127] @ [127, 1, 2, 255, 5, 6, 7, 8, 9] @ [31, 15, 7, 1, 2, 3, 4, 5, 6] @ [63, 1, 3] @ replicate 57 5"
proof -
  let ?e = "\<lparr>lsf = [63, 100, 127, 1, 2, 3], cb_index = [127, 1, 2, 255, 5, 6, 7, 8, 9, 10, 11, 12, 13, 14, 15],
       gain_index = [31, 15, 7, 1, 2, 3, 4, 5, 6, 7, 0, 1, 2, 3, 4], idxForMax = 63, state_first = 1,
       idxVec = replicate 58 5, firstbits = 0, startIdx = 3\<rparr>"
  let ?old = "\<lparr>lsf = replicate 6 0, cb_index = replicate 15 0, gain_index = replicate 15 0, idxForMax = 0, state_first = 0,
       idxVec = replicate 58 0, firstbits = 0, startIdx = 0\<rparr>"
  have "list_all2 fits (replicate 57 3) (replicate 57 5)" by (simp add: list_all2_conv_all_nth fits_def)
  then have "in_range 20 ?e" by (simp add: in_range_def widths_def params_def fits_def)
  moreover have "ilbc_shape ?e" "ilbc_shape ?old" by (simp_all add: ilbc_shape_def)
  moreover have "params 20 ?e = [63, 100, 127] @ [127, 1, 2, 255, 5, 6, 7, 8, 9] @ [31, 15, 7, 1, 2, 3, 4, 5, 6] @ [63, 1, 3] @ replicate 57 5"
    by (simp add: params_def)
  ultimately show ?thesis using Ilbc_roundtrip [of ?e ?old 20] by metis
qed

end
