(* ===== verification/G722.thy ===== *)
theory G722
  imports Bits
begin

text \<open>
  The sub-band ADPCM codec G.722 (\<open>codecs/g722/g722_enc_dec.h\<close>, \<open>g722_encode.c\<close>,
  \<open>g722_decode.c\<close>, \<open>g722_interface.c\<close>): a quadrature mirror filter splits the signal into two
  bands, each band is predicted by an adaptive filter with two poles and six zeros, and the
  prediction errors are quantised with an adaptive step.  The variables of the code are of
  type \<open>int\<close>; all values stay in the range of that type, because every state variable is
  saturated to 16 bits (\<open>G722Sync\<close>).
\<close>

section \<open>State\<close>

record g722_band =
  band_s :: int
  band_sp :: int
  band_sz :: int
  band_r :: "int list"
  band_a :: "int list"
  band_ap :: "int list"
  band_p :: "int list"
  band_d :: "int list"
  band_b :: "int list"
  band_bp :: "int list"
  band_sg :: "int list"
  band_nb :: int
  band_det :: int

text \<open>The structures of encoder and decoder have the same members.\<close>

record G722EncoderState =
  itu_test_mode :: int
  packed :: int
  eight_k :: int
  bits_per_sample :: int
  qmf_x :: "int list"
  band0 :: g722_band
  band1 :: g722_band
  in_buffer :: uint32
  in_bits :: int
  out_buffer :: uint32
  out_bits :: int

type_synonym G722DecoderState = G722EncoderState

text \<open>The state after \<open>memset\<close>.\<close>

definition zero_band :: g722_band where
  "zero_band = \<lparr>band_s = 0, band_sp = 0, band_sz = 0, band_r = replicate 3 0, band_a = replicate 3 0,
     band_ap = replicate 3 0, band_p = replicate 3 0, band_d = replicate 7 0, band_b = replicate 7 0,
     band_bp = replicate 7 0, band_sg = replicate 7 0, band_nb = 0, band_det = 0\<rparr>"

definition zero_state :: G722EncoderState where
  "zero_state = \<lparr>itu_test_mode = 0, packed = 0, eight_k = 0, bits_per_sample = 0, qmf_x = replicate 24 0,
     band0 = zero_band, band1 = zero_band, in_buffer = 0, in_bits = 0, out_buffer = 0, out_bits = 0\<rparr>"

text \<open>
  Initialisation.  \<open>s\<close> is the pointer of the caller (None is NULL), \<open>fresh\<close> tells whether
  \<open>malloc\<close> succeeds; the memory is cleared in any case.
\<close>

definition G722_SAMPLE_RATE_8000 :: int where
  "G722_SAMPLE_RATE_8000 = 1"

definition G722_PACKED :: int where
  "G722_PACKED = 2"

definition WebRtc_g722_encode_init :: "G722EncoderState option \<Rightarrow> bool \<Rightarrow> int \<Rightarrow> int \<Rightarrow> G722EncoderState option" where
  "WebRtc_g722_encode_init s fresh rate options =
     (if s = None \<and> \<not> fresh then None
      else
        let s = zero_state;
            s = s\<lparr>bits_per_sample := (if rate = 48000 then 6 else if rate = 56000 then 7 else 8)\<rparr>;
            s = (if options AND G722_SAMPLE_RATE_8000 \<noteq> 0 then s\<lparr>eight_k := 1\<rparr> else s);
            s = (if options AND G722_PACKED \<noteq> 0 \<and> bits_per_sample s \<noteq> 8 then s\<lparr>packed := 1\<rparr> else s\<lparr>packed := 0\<rparr>);
            s = s\<lparr>band0 := (band0 s)\<lparr>band_det := 32\<rparr>, band1 := (band1 s)\<lparr>band_det := 8\<rparr>\<rparr>
        in Some s)"

definition WebRtc_g722_decode_init :: "G722DecoderState option \<Rightarrow> bool \<Rightarrow> int \<Rightarrow> int \<Rightarrow> G722DecoderState option" where
  "WebRtc_g722_decode_init s fresh rate options =
     (if s = None \<and> \<not> fresh then None
      else
        let s = zero_state;
            s = s\<lparr>bits_per_sample := (if rate = 48000 then 6 else if rate = 56000 then 7 else 8)\<rparr>;
            s = (if options AND G722_SAMPLE_RATE_8000 \<noteq> 0 then s\<lparr>eight_k := 1\<rparr> else s);
            s = (if options AND G722_PACKED \<noteq> 0 \<and> bits_per_sample s \<noteq> 8 then s\<lparr>packed := 1\<rparr> else s\<lparr>packed := 0\<rparr>);
            s = s\<lparr>band0 := (band0 s)\<lparr>band_det := 32\<rparr>, band1 := (band1 s)\<lparr>band_det := 8\<rparr>\<rparr>
        in Some s)"

section \<open>Block 4: the predictor\<close>

definition saturate :: "int \<Rightarrow> int" where
  "saturate amp = (if amp = s16 amp then s16 amp else if amp > 32767 then 32767 else - 32768)"

text \<open>RECONS and PARREC: the reconstructed signals.\<close>

definition recons :: "int \<Rightarrow> g722_band \<Rightarrow> g722_band" where
  "recons d s = s\<lparr>band_d := (band_d s)[0 := d],
     band_r := (band_r s)[0 := saturate (band_s s + d)],
     band_p := (band_p s)[0 := saturate (band_sz s + d)]\<rparr>"

text \<open>UPPOL2: the second pole coefficient; the two files add its three terms in a different order.\<close>

definition uppol2 :: "g722_band \<Rightarrow> g722_band" where
  "uppol2 s =
     (let sg = map (\<lambda>i. shr (band_p s ! i) 15) [0..<3] @ drop 3 (band_sg s);
          wd1 = saturate (band_a s ! 1 * 2 ^ 2);
          wd2 = (if sg ! 0 = sg ! 1 then - wd1 else wd1);
          wd2 = (if wd2 > 32767 then 32767 else wd2);
          wd3 = shr wd2 7 + (if sg ! 0 = sg ! 2 then 128 else - 128);
          wd3 = wd3 + shr (band_a s ! 2 * 32512) 15;
          wd3 = (if wd3 > 12288 then 12288 else if wd3 < - 12288 then - 12288 else wd3)
      in s\<lparr>band_sg := sg, band_ap := (band_ap s)[2 := wd3]\<rparr>)"

definition dec_uppol2 :: "g722_band \<Rightarrow> g722_band" where
  "dec_uppol2 s =
     (let sg = map (\<lambda>i. shr (band_p s ! i) 15) [0..<3] @ drop 3 (band_sg s);
          wd1 = saturate (band_a s ! 1 * 2 ^ 2);
          wd2 = (if sg ! 0 = sg ! 1 then - wd1 else wd1);
          wd2 = (if wd2 > 32767 then 32767 else wd2);
          wd3 = (if sg ! 0 = sg ! 2 then 128 else - 128);
          wd3 = wd3 + shr wd2 7;
          wd3 = wd3 + shr (band_a s ! 2 * 32512) 15;
          wd3 = (if wd3 > 12288 then 12288 else if wd3 < - 12288 then - 12288 else wd3)
      in s\<lparr>band_sg := sg, band_ap := (band_ap s)[2 := wd3]\<rparr>)"

text \<open>UPPOL1: the first pole coefficient, limited by the second.\<close>

definition uppol1 :: "g722_band \<Rightarrow> g722_band" where
  "uppol1 s =
     (let sg = (band_sg s)[0 := shr (band_p s ! 0) 15, 1 := shr (band_p s ! 1) 15];
          wd1 = (if sg ! 0 = sg ! 1 then 192 else - 192);
          wd2 = shr (band_a s ! 1 * 32640) 15;
          ap1 = saturate (wd1 + wd2);
          wd3 = saturate (15360 - band_ap s ! 2);
          ap1 = (if ap1 > wd3 then wd3 else if ap1 < - wd3 then - wd3 else ap1)
      in s\<lparr>band_sg := sg, band_ap := (band_ap s)[1 := ap1]\<rparr>)"

text \<open>UPZERO: the six zero coefficients.\<close>

definition upzero :: "int \<Rightarrow> g722_band \<Rightarrow> g722_band" where
  "upzero d s =
     (let wd1 = (if d = 0 then 0 else 128);
          sg0 = shr d 15;
          sg = sg0 # map (\<lambda>i. shr (band_d s ! i) 15) [1..<7];
          bp = band_bp s ! 0 # map (\<lambda>i.
            (let wd2 = (if sg ! i = sg0 then wd1 else - wd1);
                 wd3 = shr (band_b s ! i * 32640) 15
             in saturate (wd2 + wd3))) [1..<7]
      in s\<lparr>band_sg := sg, band_bp := bp\<rparr>)"

text \<open>DELAYA: the signals move one place up, the new coefficients become current.\<close>

definition delaya :: "g722_band \<Rightarrow> g722_band" where
  "delaya s = s\<lparr>
     band_d := band_d s ! 0 # take 6 (band_d s),
     band_b := band_b s ! 0 # map (\<lambda>i. band_bp s ! i) [1..<7],
     band_r := band_r s ! 0 # take 2 (band_r s),
     band_p := band_p s ! 0 # take 2 (band_p s),
     band_a := band_a s ! 0 # map (\<lambda>i. band_ap s ! i) [1..<3]\<rparr>"

text \<open>FILTEP, FILTEZ and PREDIC: the outputs of the two filters and their sum, the prediction.\<close>

definition filtep :: "g722_band \<Rightarrow> g722_band" where
  "filtep s =
     (let wd1 = saturate (band_r s ! 1 + band_r s ! 1);
          wd1 = shr (band_a s ! 1 * wd1) 15;
          wd2 = saturate (band_r s ! 2 + band_r s ! 2);
          wd2 = shr (band_a s ! 2 * wd2) 15
      in s\<lparr>band_sp := saturate (wd1 + wd2)\<rparr>)"

definition filtez :: "g722_band \<Rightarrow> g722_band" where
  "filtez s =
     (let sz = foldl (\<lambda>sz i. sz + shr (band_b s ! i * saturate (band_d s ! i + band_d s ! i)) 15)
            0 [6, 5, 4, 3, 2, 1]
      in s\<lparr>band_sz := saturate sz\<rparr>)"

definition predic :: "g722_band \<Rightarrow> g722_band" where
  "predic s = s\<lparr>band_s := saturate (band_sp s + band_sz s)\<rparr>"

definition block4 :: "int \<Rightarrow> g722_band \<Rightarrow> g722_band" where
  "block4 d s = predic (filtez (filtep (delaya (upzero d (uppol1 (uppol2 (recons d s)))))))"

definition dec_block4 :: "int \<Rightarrow> g722_band \<Rightarrow> g722_band" where
  "dec_block4 d s = predic (filtez (filtep (delaya (upzero d (uppol1 (dec_uppol2 (recons d s)))))))"

section \<open>Tables\<close>

definition q6 :: "int list" where
  "q6 = [0, 35, 72, 110, 150, 190, 233, 276,
     323, 370, 422, 473, 530, 587, 650, 714,
     786, 858, 940, 1023, 1121, 1219, 1339, 1458,
     1612, 1765, 1980, 2195, 2557, 2919, 0, 0]"

definition iln :: "int list" where
  "iln = [0, 63, 62, 31, 30, 29, 28, 27, 26, 25, 24, 23, 22, 21, 20, 19,
     18, 17, 16, 15, 14, 13, 12, 11, 10, 9, 8, 7, 6, 5, 4, 0]"

definition ilp :: "int list" where
  "ilp = [0, 61, 60, 59, 58, 57, 56, 55, 54, 53, 52, 51, 50, 49, 48, 47,
     46, 45, 44, 43, 42, 41, 40, 39, 38, 37, 36, 35, 34, 33, 32, 0]"

definition wl :: "int list" where
  "wl = [-60, -30, 58, 172, 334, 538, 1198, 3042]"

definition rl42 :: "nat list" where
  "rl42 = [0, 7, 6, 5, 4, 3, 2, 1, 7, 6, 5, 4, 3, 2, 1, 0]"

definition ilb :: "int list" where
  "ilb = [2048, 2093, 2139, 2186, 2233, 2282, 2332, 2383, 2435, 2489, 2543, 2599, 2656, 2714,
     2774, 2834, 2896, 2960, 3025, 3091, 3158, 3228, 3298, 3371, 3444, 3520, 3597, 3676,
     3756, 3838, 3922, 4008]"

definition qm4 :: "int list" where
  "qm4 = [0, -20456, -12896, -8968, -6288, -4240, -2584, -1200,
     20456, 12896, 8968, 6288, 4240, 2584, 1200, 0]"

definition qm2 :: "int list" where
  "qm2 = [-7408, -1616, 7408, 1616]"

definition g722_qmf_coeffs :: "int list" where
  "g722_qmf_coeffs = [3, -11, 12, 32, -210, 951, 3876, -805, 362, -156, 53, -11]"

definition ihn :: "int list" where "ihn = [0, 1, 0]"

definition ihp :: "int list" where "ihp = [0, 3, 2]"

definition wh :: "int list" where "wh = [0, -214, 798]"

definition rh2 :: "nat list" where "rh2 = [2, 1, 2, 1]"

definition qm5 :: "int list" where
  "qm5 = [-280, -280, -23352, -17560, -14120, -11664, -9752, -8184,
     -6864, -5712, -4696, -3784, -2960, -2208, -1520, -880,
     23352, 17560, 14120, 11664, 9752, 8184, 6864, 5712,
     4696, 3784, 2960, 2208, 1520, 880, 280, -280]"

definition qm6 :: "int list" where
  "qm6 = [-136, -136, -136, -136, -24808, -21904, -19008, -16704,
     -14984, -13512, -12280, -11192, -10232, -9360, -8576, -7856,
     -7192, -6576, -6000, -5456, -4944, -4464, -4008, -3576,
     -3168, -2776, -2400, -2032, -1688, -1360, -1040, -728,
     24808, 21904, 19008, 16704, 14984, 13512, 12280, 11192,
     10232, 9360, 8576, 7856, 7192, 6576, 6000, 5456,
     4944, 4464, 4008, 3576, 3168, 2776, 2400, 2032,
     1688, 1360, 1040, 728, 432, 136, -432, -136]"

section \<open>The encoder\<close>

text \<open>
  The input of one round: the two bands from one sample in test mode, the low band from one
  sample at 8 kHz, otherwise both bands from two samples through the transmit filter.
  Reading outside of \<open>amp\<close> is None.  \<open>xhigh\<close> keeps its value from the round before when the
  round does not set it.
\<close>

definition shift_x :: "int list \<Rightarrow> int \<Rightarrow> int \<Rightarrow> int list" where
  "shift_x x u v = take 22 (drop 2 x) @ [u, v]"

definition sum_odd :: "int list \<Rightarrow> int" where
  "sum_odd x = (\<Sum>i\<leftarrow>[0..<12]. x ! (2 * i) * g722_qmf_coeffs ! i)"

definition sum_even :: "int list \<Rightarrow> int" where
  "sum_even x = (\<Sum>i\<leftarrow>[0..<12]. x ! (2 * i + 1) * g722_qmf_coeffs ! (11 - i))"

definition enc_input ::
    "G722EncoderState \<Rightarrow> int16 list \<Rightarrow> int \<Rightarrow> nat \<Rightarrow> (G722EncoderState \<times> int \<times> int \<times> nat) option" where
  "enc_input s amp xhigh j =
     (if itu_test_mode s \<noteq> 0
      then do { v \<leftarrow> word_at amp j; Some (s, shr v 1, shr v 1, j + 1) }
      else if eight_k s \<noteq> 0
      then do { v \<leftarrow> word_at amp j; Some (s, shr v 1, xhigh, j + 1) }
      else do {
        u \<leftarrow> word_at amp j;
        v \<leftarrow> word_at amp (j + 1);
        let x = shift_x (qmf_x s) u v;
            sumodd = sum_odd x;
            sumeven = sum_even x;
            s = s\<lparr>qmf_x := x\<rparr>
        in Some (s, shr (sumeven + sumodd) 14, shr (sumeven - sumodd) 14, j + 2) })"

text \<open>QUANTL: the first level above the magnitude of the prediction error, at most 30.\<close>

function quantl_search :: "int \<Rightarrow> int \<Rightarrow> nat \<Rightarrow> nat" where
  "quantl_search wd det i =
     (if i < 30 then (if wd < shr (q6 ! i * det) 12 then i else quantl_search wd det (i + 1)) else i)"
  by pat_completeness auto
termination by (relation "measure (\<lambda>(wd, det, i). 30 - i)") auto

declare quantl_search.simps [simp del]

definition quantl :: "int \<Rightarrow> int \<Rightarrow> int" where
  "quantl det el =
     (let wd = (if el \<ge> 0 then el else - (el + 1));
          i = quantl_search wd det 1
      in if el < 0 then iln ! i else ilp ! i)"

text \<open>LOGSCL, SCALEL and their counterparts of the high band: the adaptation of the step.\<close>

definition logscl :: "int \<Rightarrow> int \<Rightarrow> int" where
  "logscl nb ril =
     (let il4 = rl42 ! nat ril;
          nb = shr (nb * 127) 7 + wl ! il4
      in if nb < 0 then 0 else if nb > 18432 then 18432 else nb)"

definition scale_step :: "int \<Rightarrow> int \<Rightarrow> int" where
  "scale_step ex nb =
     (let wd1 = nat (shr nb 6 AND 31);
          wd2 = ex - shr nb 11;
          wd3 = (if wd2 < 0 then ilb ! wd1 * 2 ^ nat (- wd2) else shr (ilb ! wd1) (nat wd2))
      in wd3 * 2 ^ 2)"

definition logsch :: "int \<Rightarrow> int \<Rightarrow> int" where
  "logsch nb ihigh =
     (let ih2 = rh2 ! nat ihigh;
          nb = shr (nb * 127) 7 + wh ! ih2
      in if nb < 0 then 0 else if nb > 22528 then 22528 else nb)"

text \<open>One round in the low band and in the high band; the result is the code.\<close>

definition enc_low :: "int \<Rightarrow> g722_band \<Rightarrow> int \<times> g722_band" where
  "enc_low xlow s =
     (let el = saturate (xlow - band_s s);
          ilow = quantl (band_det s) el;
          ril = shr ilow 2;
          dlow = shr (band_det s * qm4 ! nat ril) 15;
          nb = logscl (band_nb s) ril;
          s = s\<lparr>band_nb := nb, band_det := scale_step 8 nb\<rparr>
      in (ilow, block4 dlow s))"

definition quanth :: "int \<Rightarrow> int \<Rightarrow> int" where
  "quanth det eh =
     (let wd = (if eh \<ge> 0 then eh else - (eh + 1));
          wd1 = shr (564 * det) 12;
          mih = (if wd \<ge> wd1 then 2 else 1 :: nat)
      in if eh < 0 then ihn ! mih else ihp ! mih)"

definition enc_high :: "int \<Rightarrow> g722_band \<Rightarrow> int \<times> g722_band" where
  "enc_high xhigh s =
     (let eh = saturate (xhigh - band_s s);
          ihigh = quanth (band_det s) eh;
          dhigh = shr (band_det s * qm2 ! nat ihigh) 15;
          nb = logsch (band_nb s) ihigh;
          s = s\<lparr>band_nb := nb, band_det := scale_step 10 nb\<rparr>
      in (ihigh, block4 dhigh s))"

text \<open>The code of one round from both bands; at 8 kHz the high band is left alone.\<close>

definition enc_code :: "int \<Rightarrow> int \<Rightarrow> G722EncoderState \<Rightarrow> int \<times> G722EncoderState" where
  "enc_code xlow xhigh s =
     (let (ilow, low) = enc_low xlow (band0 s);
          s = s\<lparr>band0 := low\<rparr>
      in if eight_k s \<noteq> 0 then (shr (0xC0 OR ilow) (nat (8 - bits_per_sample s)), s)
         else
           let (ihigh, high) = enc_high xhigh (band1 s);
               s = s\<lparr>band1 := high\<rparr>
           in (shr ((ihigh * 2 ^ 6) OR ilow) (nat (8 - bits_per_sample s)), s))"

text \<open>The bytes that leave in one round: none or one.\<close>

definition enc_output :: "int \<Rightarrow> G722EncoderState \<Rightarrow> int list \<times> G722EncoderState" where
  "enc_output code s =
     (if packed s \<noteq> 0
      then
        let s = s\<lparr>out_buffer := out_buffer s OR u32 (code * 2 ^ nat (out_bits s))\<rparr>;
            s = s\<lparr>out_bits := out_bits s + bits_per_sample s\<rparr>
        in if out_bits s \<ge> 8
           then ([u8 (out_buffer s AND 0xFF)], s\<lparr>out_bits := out_bits s - 8, out_buffer := shr (out_buffer s) 8\<rparr>)
           else ([], s)
      else ([u8 code], s))"

text \<open>The loop; the result is the new state and the bytes written to \<open>g722_data\<close>.\<close>

function enc_loop :: "G722EncoderState \<Rightarrow> int16 list \<Rightarrow> int \<Rightarrow> int \<Rightarrow> nat \<Rightarrow> (G722EncoderState \<times> int list) option" where
  "enc_loop s amp len xhigh j =
     (if int j < len
      then (case enc_input s amp xhigh j of
              None \<Rightarrow> None
            | Some (s, xlow, xhigh, j) \<Rightarrow>
                (case enc_code xlow xhigh s of
                   (code, s) \<Rightarrow>
                     (case enc_output code s of
                        (bytes, s) \<Rightarrow>
                          (case enc_loop s amp len xhigh j of
                             None \<Rightarrow> None
                           | Some (s, rest) \<Rightarrow> Some (s, bytes @ rest)))))
      else Some (s, []))"
  by pat_completeness auto

termination enc_loop
  by (relation "measure (\<lambda>(s, amp, len, xhigh, j). nat len - j)")
    (auto simp: enc_input_def Let_def split: if_splits Option.bind_splits)

declare enc_loop.simps [simp del]

definition WebRtc_g722_encode :: "G722EncoderState \<Rightarrow> int16 list \<Rightarrow> int \<Rightarrow> (int \<times> G722EncoderState \<times> int list) option" where
  "WebRtc_g722_encode s amp len =
     do { (s, bytes) \<leftarrow> enc_loop s amp len 0 0; Some (int (length bytes), s, bytes) }"

section \<open>The decoder\<close>

text \<open>
  The input of one round.  A packed stream is read when fewer bits are left than a code has;
  the bits of a byte go above those that are left.
\<close>

definition dec_input :: "G722DecoderState \<Rightarrow> int list \<Rightarrow> nat \<Rightarrow> (int \<times> G722DecoderState \<times> nat) option" where
  "dec_input s g722_data j =
     (if packed s \<noteq> 0
      then do {
        (s, j) \<leftarrow> (if in_bits s < bits_per_sample s
                   then do {
                     v \<leftarrow> word_at g722_data j;
                     Some (s\<lparr>in_buffer := in_buffer s OR u32 (v * 2 ^ nat (in_bits s)), in_bits := in_bits s + 8\<rparr>, j + 1) }
                   else Some (s, j));
        Some (in_buffer s AND (2 ^ nat (bits_per_sample s) - 1),
              s\<lparr>in_buffer := shr (in_buffer s) (nat (bits_per_sample s)), in_bits := in_bits s - bits_per_sample s\<rparr>, j) }
      else do {
        v \<leftarrow> word_at g722_data j;
        Some (v, s, j + 1) })"

text \<open>The parts of a code: index and value for the low band, index for the high band.\<close>

definition dec_split :: "int \<Rightarrow> int \<Rightarrow> int \<times> int \<times> int" where
  "dec_split bits code =
     (if bits = 7 then
        (let wd1 = code AND 0x1F in (shr wd1 1, qm5 ! nat wd1, shr code 5 AND 0x03))
      else if bits = 6 then
        (let wd1 = code AND 0x0F in (wd1, qm4 ! nat wd1, shr code 4 AND 0x03))
      else
        (let wd1 = code AND 0x3F in (shr wd1 2, qm6 ! nat wd1, shr code 6 AND 0x03)))"

definition limit :: "int \<Rightarrow> int" where
  "limit r = (if r > 16383 then 16383 else if r < - 16384 then - 16384 else r)"

definition dec_low :: "int \<Rightarrow> int \<Rightarrow> g722_band \<Rightarrow> int \<times> g722_band" where
  "dec_low wd1 wd2 s =
     (let rlow = limit (band_s s + shr (band_det s * wd2) 15);
          dlowt = shr (band_det s * qm4 ! nat wd1) 15;
          nb = logscl (band_nb s) wd1;
          s = s\<lparr>band_nb := nb, band_det := scale_step 8 nb\<rparr>
      in (rlow, dec_block4 dlowt s))"

definition dec_high :: "int \<Rightarrow> g722_band \<Rightarrow> int \<times> g722_band" where
  "dec_high ihigh s =
     (let dhigh = shr (band_det s * qm2 ! nat ihigh) 15;
          rhigh = limit (dhigh + band_s s);
          nb = logsch (band_nb s) ihigh;
          s = s\<lparr>band_nb := nb, band_det := scale_step 10 nb\<rparr>
      in (rhigh, dec_block4 dhigh s))"

text \<open>Both bands from a code; \<open>rhigh\<close> keeps its value at 8 kHz.\<close>

definition dec_bands :: "int \<Rightarrow> int \<Rightarrow> G722DecoderState \<Rightarrow> int \<times> int \<times> G722DecoderState" where
  "dec_bands code rhigh s =
     (let (wd1, wd2, ihigh) = dec_split (bits_per_sample s) code;
          (rlow, low) = dec_low wd1 wd2 (band0 s);
          s = s\<lparr>band0 := low\<rparr>
      in if eight_k s = 0
         then (let (rhigh, high) = dec_high ihigh (band1 s) in (rlow, rhigh, s\<lparr>band1 := high\<rparr>))
         else (rlow, rhigh, s))"

text \<open>The samples that leave in one round.\<close>

definition dec_output :: "int \<Rightarrow> int \<Rightarrow> G722DecoderState \<Rightarrow> int16 list \<times> G722DecoderState" where
  "dec_output rlow rhigh s =
     (if itu_test_mode s \<noteq> 0 then ([s16 (rlow * 2), s16 (rhigh * 2)], s)
      else if eight_k s \<noteq> 0 then ([s16 (rlow * 2)], s)
      else
        let x = shift_x (qmf_x s) (rlow + rhigh) (rlow - rhigh);
            xout2 = sum_odd x;
            xout1 = sum_even x
        in ([saturate (shr xout1 11), saturate (shr xout2 11)], s\<lparr>qmf_x := x\<rparr>))"

text \<open>The loop; it need not end for a state without bits per sample.\<close>

partial_function (option) dec_loop ::
    "G722DecoderState \<Rightarrow> int list \<Rightarrow> int \<Rightarrow> int \<Rightarrow> nat \<Rightarrow> (G722DecoderState \<times> int16 list) option" where
  "dec_loop s g722_data len rhigh j =
     (if int j < len
      then Option.bind (dec_input s g722_data j) (\<lambda>(code, s, j).
        (case dec_bands code rhigh s of
           (rlow, rhigh, s) \<Rightarrow>
             (case dec_output rlow rhigh s of
                (samples, s) \<Rightarrow>
                  Option.bind (dec_loop s g722_data len rhigh j) (\<lambda>(s, rest). Some (s, samples @ rest)))))
      else Some (s, []))"

definition WebRtc_g722_decode :: "G722DecoderState \<Rightarrow> int list \<Rightarrow> int \<Rightarrow> (int \<times> G722DecoderState \<times> int16 list) option" where
  "WebRtc_g722_decode s g722_data len =
     do { (s, amp) \<leftarrow> dec_loop s g722_data len 0 0; Some (int (length amp), s, amp) }"

section \<open>The interface\<close>

text \<open>
  \<open>mem\<close> is what \<open>malloc\<close> returns, with any contents; the results are the return value and the
  instance of the caller.  \<open>EncoderInit\<close> and \<open>DecoderInit\<close> get a copy of the caller's pointer: when it is
  NULL, the state that they allocate is lost, although they report success.  Both choose 64 kbit/s
  and the packed option.
\<close>

definition WebRtcG722_CreateEncoder :: "G722EncoderState option \<Rightarrow> int \<times> G722EncoderState option" where
  "WebRtcG722_CreateEncoder mem = (if mem \<noteq> None then (0, mem) else (- 1, None))"

definition WebRtcG722_EncoderInit :: "G722EncoderState option \<Rightarrow> bool \<Rightarrow> int \<times> G722EncoderState option" where
  "WebRtcG722_EncoderInit inst fresh =
     (let G722enc_inst = WebRtc_g722_encode_init inst fresh 64000 2;
          inst = (if inst = None then None else G722enc_inst)
      in if G722enc_inst = None then (- 1, inst) else (0, inst))"

definition WebRtcG722_Encode :: "G722EncoderState \<Rightarrow> int16 list \<Rightarrow> int16 \<Rightarrow> (int16 \<times> G722EncoderState \<times> int list) option" where
  "WebRtcG722_Encode inst speechIn len =
     do { (n, inst, encoded) \<leftarrow> WebRtc_g722_encode inst speechIn len; Some (s16 n, inst, encoded) }"

definition WebRtcG722_CreateDecoder :: "G722DecoderState option \<Rightarrow> int \<times> G722DecoderState option" where
  "WebRtcG722_CreateDecoder mem = (if mem \<noteq> None then (0, mem) else (- 1, None))"

definition WebRtcG722_DecoderInit :: "G722DecoderState option \<Rightarrow> bool \<Rightarrow> int \<times> G722DecoderState option" where
  "WebRtcG722_DecoderInit inst fresh =
     (let G722dec_inst = WebRtc_g722_decode_init inst fresh 64000 2;
          inst = (if inst = None then None else G722dec_inst)
      in if G722dec_inst = None then (- 1, inst) else (0, inst))"

text \<open>The second component is the speech type, which is always \<open>G722_WEBRTC_SPEECH\<close>.\<close>

definition G722_WEBRTC_SPEECH :: int where
  "G722_WEBRTC_SPEECH = 1"

definition WebRtcG722_Decode ::
    "G722DecoderState \<Rightarrow> int list \<Rightarrow> int16 \<Rightarrow> (int16 \<times> int \<times> G722DecoderState \<times> int16 list) option" where
  "WebRtcG722_Decode inst encoded len =
     do { (n, inst, decoded) \<leftarrow> WebRtc_g722_decode inst encoded len;
          Some (s16 n, G722_WEBRTC_SPEECH, inst, decoded) }"

end
