(* ===== verification/G722Sync.thy ===== *)
theory G722Sync
  imports G722
begin

text \<open>
  Encoder and decoder of G.722 together: the invariant of a band, the ranges of codes and
  samples, and the agreement of the two sides.
\<close>

section \<open>Ranges\<close>

lemma saturate_eq: "saturate x = max (- 32768) (min 32767 x)"
proof -
  have "x = s16 x \<longleftrightarrow> is_s16 x" using is_s16_s16 [of x] by (metis is_s16_def s16_id)
  then show ?thesis by (auto simp: saturate_def is_s16_def)
qed

lemma saturate_s16 [simp]: "is_s16 (saturate x)"
  by (auto simp: saturate_eq is_s16_def)

lemma saturate_id: "is_s16 x \<Longrightarrow> saturate x = x"
  by (auto simp: saturate_eq is_s16_def)

lemma s16_in_range: "is_s16 x \<Longrightarrow> - 32768 \<le> x" "is_s16 x \<Longrightarrow> x \<le> 32767"
  by (simp_all add: is_s16_def)

lemma quantl_search_range: "i \<le> 30 \<Longrightarrow> i \<le> quantl_search wd det i \<and> quantl_search wd det i \<le> 30"
proof (induction wd det i rule: quantl_search.induct)
  case (1 wd det i)
  then show ?case by (subst (1 2) quantl_search.simps) force
qed

lemma low_codes: "list_all (\<lambda>i. 4 \<le> iln ! i \<and> iln ! i \<le> 63 \<and> 4 \<le> ilp ! i \<and> ilp ! i \<le> 63) [1..<31]"
  by code_simp

lemma quantl_range: "4 \<le> quantl det el \<and> quantl det el \<le> 63"
proof -
  let ?i = "quantl_search (if el \<ge> 0 then el else - (el + 1)) det 1"
  have "?i \<in> set [1..<31]" using quantl_search_range [of 1 "if el \<ge> 0 then el else - (el + 1)" det] by simp
  then show ?thesis using low_codes unfolding quantl_def Let_def list_all_iff by (auto simp del: set_upt)
qed

lemma quanth_range: "0 \<le> quanth det eh \<and> quanth det eh \<le> 3"
  by (simp add: quanth_def ihn_def ihp_def Let_def numeral_2_eq_2)

lemma logscl_range: "0 \<le> logscl nb ril \<and> logscl nb ril \<le> 18432"
  by (simp add: logscl_def Let_def)

lemma logsch_range: "0 \<le> logsch nb ihigh \<and> logsch nb ihigh \<le> 22528"
  by (simp add: logsch_def Let_def)

text \<open>The step as a function of the upper bits of its logarithm.\<close>

definition step_of :: "int \<Rightarrow> int \<Rightarrow> int" where
  "step_of ex k =
     (let wd2 = ex - k div 32
      in (if wd2 < 0 then ilb ! nat (k mod 32) * 2 ^ nat (- wd2) else ilb ! nat (k mod 32) div 2 ^ nat wd2) * 4)"

lemma scale_step_eq: "scale_step ex nb = step_of ex (nb div 64)"
proof -
  have "(nb div 64) AND 31 = nb div 64 mod 32"
    using take_bit_eq_mask [of 5 "nb div 64"] by (simp add: take_bit_eq_mod mask_eq_exp_minus_1)
  moreover have "nb div 2048 = nb div 64 div 32" by (simp add: zdiv_zmult2_eq [symmetric])
  ultimately show ?thesis by (simp add: scale_step_def step_of_def Let_def)
qed

lemma step_tables:
  "list_all (\<lambda>k. 32 \<le> step_of 8 k \<and> step_of 8 k \<le> 16384) [0..288]"
  "list_all (\<lambda>k. 8 \<le> step_of 10 k \<and> step_of 10 k \<le> 16384) [0..352]"
  by code_simp+

lemma scale_step_range:
  "0 \<le> nb \<Longrightarrow> nb \<le> 18432 \<Longrightarrow> 32 \<le> scale_step 8 nb \<and> scale_step 8 nb \<le> 16384"
  "0 \<le> nb \<Longrightarrow> nb \<le> 22528 \<Longrightarrow> 8 \<le> scale_step 10 nb \<and> scale_step 10 nb \<le> 16384"
proof -
  assume "0 \<le> nb" "nb \<le> 18432"
  then have "0 \<le> nb div 64" "nb div 64 \<le> 288" by auto
  then show "32 \<le> scale_step 8 nb \<and> scale_step 8 nb \<le> 16384"
    unfolding scale_step_eq using step_tables(1) by (simp add: list_all_iff)
next
  assume "0 \<le> nb" "nb \<le> 22528"
  then have "0 \<le> nb div 64" "nb div 64 \<le> 352" by auto
  then show "8 \<le> scale_step 10 nb \<and> scale_step 10 nb \<le> 16384"
    unfolding scale_step_eq using step_tables(2) by (simp add: list_all_iff)
qed

lemma quantiser_values:
  "list_all (\<lambda>v. \<bar>v\<bar> \<le> 20456) qm4" "list_all (\<lambda>v. \<bar>v\<bar> \<le> 7408) qm2"
  "list_all (\<lambda>v. \<bar>v\<bar> \<le> 23352) qm5" "list_all (\<lambda>v. \<bar>v\<bar> \<le> 24808) qm6"
  by code_simp+

text \<open>A scaled difference: step times table value.\<close>

lemma difference_range:
  assumes "0 \<le> det" "det \<le> 16384" "\<bar>v\<bar> \<le> (24808 :: int)"
  shows "\<bar>shr (det * v) 15\<bar> \<le> 12404" "is_s32 (det * v)"
proof -
  have "\<bar>det * v\<bar> \<le> 16384 * 24808" using abs_mult_le [of det 16384 v 24808] assms by simp
  then show "\<bar>shr (det * v) 15\<bar> \<le> 12404" "is_s32 (det * v)" by (auto simp: is_s32_def)
qed

section \<open>The invariant of a band\<close>

text \<open>
  The signals and the coefficients fit 16 bits, and the poles of the predictor stay inside of
  the triangle of stability: \<open>|a2| \<le> 0.75\<close> and \<open>|a1| \<le> 15/16 - a2\<close>, in units of \<open>2^14\<close>.
\<close>

definition poles_ok :: "int list \<Rightarrow> bool" where
  "poles_ok a \<longleftrightarrow> length a = 3 \<and> \<bar>a ! 2\<bar> \<le> 12288 \<and> \<bar>a ! 1\<bar> \<le> 15360 - a ! 2"

definition vec_ok :: "nat \<Rightarrow> int list \<Rightarrow> bool" where
  "vec_ok n v \<longleftrightarrow> length v = n \<and> list_all is_s16 v"

definition band_ok :: "int \<Rightarrow> int \<Rightarrow> g722_band \<Rightarrow> bool" where
  "band_ok lo hi s \<longleftrightarrow>
     is_s16 (band_s s) \<and> is_s16 (band_sp s) \<and> is_s16 (band_sz s) \<and>
     vec_ok 3 (band_r s) \<and> poles_ok (band_a s) \<and> poles_ok (band_ap s) \<and> vec_ok 3 (band_p s) \<and>
     vec_ok 7 (band_d s) \<and> vec_ok 7 (band_b s) \<and> vec_ok 7 (band_bp s) \<and> length (band_sg s) = 7 \<and>
     0 \<le> band_nb s \<and> band_nb s \<le> hi \<and> lo \<le> band_det s \<and> band_det s \<le> 16384"

lemma vec_ok_nth: "vec_ok n v \<Longrightarrow> i < n \<Longrightarrow> is_s16 (v ! i)"
  by (simp add: vec_ok_def list_all_length)

lemma vec_ok_update: "vec_ok n v \<Longrightarrow> is_s16 x \<Longrightarrow> vec_ok n (v[i := x])"
  by (simp add: vec_ok_def list_all_update)

lemma recons_ok: "band_ok lo hi s \<Longrightarrow> is_s16 d \<Longrightarrow> band_ok lo hi (recons d s)"
  by (simp add: recons_def band_ok_def vec_ok_update)

lemma clamp_abs: "0 \<le> k \<Longrightarrow> \<bar>if k < x then k else if x < - k then - k else x\<bar> \<le> (k :: int)"
  by auto

lemma uppol2_ok:
  assumes "band_ok lo hi s"
  shows "\<exists>sg ap2. uppol2 s = s\<lparr>band_sg := sg, band_ap := (band_ap s)[2 := ap2]\<rparr> \<and> length sg = 7 \<and> \<bar>ap2\<bar> \<le> 12288"
proof -
  have l: "length (band_sg s) = 7" using assms by (simp add: band_ok_def)
  show ?thesis unfolding uppol2_def Let_def by (intro exI conjI) (rule refl, simp add: l, rule clamp_abs, simp)
qed

lemma uppol1_ok:
  assumes "length (band_sg s) = 7" "length (band_ap s) = 3" "\<bar>band_ap s ! 2\<bar> \<le> 12288"
  shows "\<exists>sg ap. uppol1 s = s\<lparr>band_sg := sg, band_ap := ap\<rparr> \<and> length sg = 7 \<and> poles_ok ap"
proof -
  have "saturate (15360 - band_ap s ! 2) = 15360 - band_ap s ! 2"
    by (rule saturate_id) (use assms in \<open>auto simp: is_s16_def\<close>)
  then show ?thesis
    using assms unfolding uppol1_def Let_def poles_ok_def
    by (intro exI conjI) (rule refl, simp, simp, simp, simp only: nth_list_update_eq nth_list_update_neq, rule clamp_abs, linarith)
qed

lemma dec_uppol2_eq: "dec_uppol2 s = uppol2 s"
  unfolding dec_uppol2_def uppol2_def Let_def by (simp only: add.commute)

lemma dec_block4_eq: "dec_block4 = block4"
  by (intro ext) (simp add: dec_block4_def block4_def dec_uppol2_eq)

lemma poles_step:
  assumes "band_ok lo hi s"
  shows "band_ok lo hi (uppol1 (uppol2 s))"
proof -
  obtain sg ap2 where u: "uppol2 s = s\<lparr>band_sg := sg, band_ap := (band_ap s)[2 := ap2]\<rparr>" "length sg = 7" "\<bar>ap2\<bar> \<le> 12288"
    using uppol2_ok [OF assms] by blast
  have l: "length (band_ap s) = 3" using assms by (simp add: band_ok_def poles_ok_def)
  obtain sg' ap where "uppol1 (uppol2 s) = (uppol2 s)\<lparr>band_sg := sg', band_ap := ap\<rparr>" "length sg' = 7" "poles_ok ap"
    using uppol1_ok [of "uppol2 s"] u l by auto
  then show ?thesis using u assms by (simp add: band_ok_def)
qed

lemma upzero_ok: "band_ok lo hi s \<Longrightarrow> band_ok lo hi (upzero d s)"
  unfolding upzero_def Let_def band_ok_def vec_ok_def by (simp add: list_all_iff)

lemma length_3: "length v = 3 \<Longrightarrow> \<exists>x y z. v = [x, y, z]"
  by (auto simp: length_Suc_conv eval_nat_numeral)

lemma length_7: "length v = 7 \<Longrightarrow> \<exists>a b c d e f g. v = [a, b, c, d, e, f, g]"
  by (auto simp: length_Suc_conv eval_nat_numeral)

lemma vec_ok_delay: "vec_ok (Suc n) v \<Longrightarrow> vec_ok (Suc n) (v ! 0 # take n v)"
  by (auto simp: vec_ok_def list_all_length nth_Cons split: nat.split)

lemma delaya_ok:
  assumes "band_ok lo hi s"
  shows "band_ok lo hi (delaya s)"
proof -
  have "vec_ok 7 (band_d s ! 0 # take 6 (band_d s))" "vec_ok 3 (band_r s ! 0 # take 2 (band_r s))"
      "vec_ok 3 (band_p s ! 0 # take 2 (band_p s))"
    using assms vec_ok_delay [of 6 "band_d s"] vec_ok_delay [of 2 "band_r s"] vec_ok_delay [of 2 "band_p s"]
    by (simp_all add: band_ok_def)
  moreover have "vec_ok 7 (band_b s ! 0 # map (\<lambda>i. band_bp s ! i) [1..<7])"
    using assms by (auto simp: band_ok_def vec_ok_def list_all_length nth_Cons split: nat.split)
  moreover have "poles_ok (band_a s ! 0 # map (\<lambda>i. band_ap s ! i) [1..<3])"
    using assms by (auto simp: band_ok_def poles_ok_def upt_rec numeral_2_eq_2 numeral_3_eq_3)
  ultimately show ?thesis using assms by (simp add: band_ok_def delaya_def)
qed

lemma filters_ok: "band_ok lo hi s \<Longrightarrow> band_ok lo hi (predic (filtez (filtep s)))"
  by (simp add: band_ok_def predic_def filtez_def filtep_def Let_def)

lemma block4_ok: "band_ok lo hi s \<Longrightarrow> is_s16 d \<Longrightarrow> band_ok lo hi (block4 d s)"
  unfolding block4_def by (intro filters_ok delaya_ok upzero_ok poles_step recons_ok)

section \<open>Codes\<close>

text \<open>The code of a round from the codes of the bands.\<close>

lemma code_or:
  fixes h l :: int
  assumes "0 \<le> l" "l \<le> 63"
  shows "h * 2 ^ 6 OR l = h * 64 + l" "0xC0 OR l = 3 * 64 + l"
  using or_add [of l 6 h] or_add [of l 6 3] assms by simp_all

lemma code_range:
  assumes "0 \<le> h" "h \<le> 3" "0 \<le> l" "l \<le> 63" "b \<in> {6, 7, 8}"
  shows "0 \<le> shr (h * 64 + l) (nat (8 - b))" "shr (h * 64 + l) (nat (8 - b)) < 2 ^ nat b"
proof -
  have "h * 64 + l < 256" using assms by linarith
  then show "0 \<le> shr (h * 64 + l) (nat (8 - b))" "shr (h * 64 + l) (nat (8 - b)) < 2 ^ nat b"
    using assms by auto
qed

lemma low_bits:
  "x AND 0x3F = x mod (64 :: int)" "x AND 0x1F = x mod (32 :: int)" "x AND 0x0F = x mod (16 :: int)" "x AND 0x03 = x mod (4 :: int)"
  using take_bit_eq_mask [of 6 x] take_bit_eq_mask [of 5 x] take_bit_eq_mask [of 4 x] take_bit_eq_mask [of 2 x]
  by (simp_all add: take_bit_eq_mod mask_eq_exp_minus_1)

lemma digit:
  assumes "0 \<le> x" "x < (k :: int)"
  shows "(h * k + x) mod k = x" "(h * k + x) div k = h"
  using assms by simp_all

lemma band_code_parts:
  assumes "0 \<le> h" "h \<le> 3" "0 \<le> l" "l \<le> (63 :: int)"
  shows "(h * 64 + l) mod 64 = l" "(h * 64 + l) div 64 mod 4 = h"
    "(h * 64 + l) div 2 mod 32 div 2 = l div 4" "(h * 64 + l) div 2 div 32 mod 4 = h"
    "(h * 64 + l) div 4 mod 16 = l div 4" "(h * 64 + l) div 4 div 16 mod 4 = h"
proof -
  have d: "(h * 64 + l) div 64 = h" and m: "(h * 64 + l) mod 64 = l"
    using assms div_mult_self3 [of 64 h l] by simp_all
  have 2: "(h * 64 + l) div 2 = h * 32 + l div 2" and 4: "(h * 64 + l) div 4 = h * 16 + l div 4"
    using div_mult_self3 [of 2 "h * 32" l] div_mult_self3 [of 4 "h * 16" l] by simp_all
  have r: "0 \<le> l div 2" "l div 2 < 32" "0 \<le> l div 4" "l div 4 < 16" "l div 2 div 2 = l div 4"
    using assms(3,4) by (simp_all add: zdiv_zmult2_eq [symmetric])
  have h: "h mod 4 = h" using assms(1,2) by simp
  show "(h * 64 + l) mod 64 = l" "(h * 64 + l) div 64 mod 4 = h" by (simp_all only: d m h)
  show "(h * 64 + l) div 2 mod 32 div 2 = l div 4" "(h * 64 + l) div 2 div 32 mod 4 = h"
    unfolding 2 by (simp_all only: digit [OF r(1,2)] r(5) h)
  show "(h * 64 + l) div 4 mod 16 = l div 4" "(h * 64 + l) div 4 div 16 mod 4 = h"
    unfolding 4 by (simp_all only: digit [OF r(3,4)] h)
qed

lemma dec_split_code:
  assumes "0 \<le> h" "h \<le> 3" "0 \<le> l" "l \<le> 63" "b \<in> {6, 7, 8}"
  shows "\<exists>v. dec_split b (shr (h * 64 + l) (nat (8 - b))) = (l div 4, v, h)"
proof -
  note p = band_code_parts [OF assms(1-4)]
  consider "b = 8" | "b = 7" | "b = 6" using assms(5) by blast
  then show ?thesis
  proof cases
    case 1
    have "(h * 64 + l) div 64 AND 3 = h" using p(2) by (simp only: low_bits)
    then show ?thesis using p(1) 1 by (simp add: dec_split_def Let_def low_bits(1))
  next
    case 2
    have "(h * 64 + l) div 2 div 32 AND 3 = h" using p(4) by (simp only: low_bits)
    then show ?thesis using p(3) 2 by (simp add: dec_split_def Let_def low_bits(2))
  next
    case 3
    have "(h * 64 + l) div 4 div 16 AND 3 = h" using p(6) by (simp only: low_bits)
    then show ?thesis using p(5) 3 by (simp add: dec_split_def Let_def low_bits(3))
  qed
qed

section \<open>One round\<close>

lemma enc_low_range: "enc_low x s = (l, s') \<Longrightarrow> 4 \<le> l \<and> l \<le> 63"
  using quantl_range by (auto simp: enc_low_def Let_def)

lemma enc_high_range: "enc_high x s = (h, s') \<Longrightarrow> 0 \<le> h \<and> h \<le> 3"
  using quanth_range by (auto simp: enc_high_def Let_def)

lemma dec_low_enc: "enc_low x s = (l, s') \<Longrightarrow> snd (dec_low (l div 4) v s) = s'"
  by (auto simp: enc_low_def dec_low_def Let_def dec_block4_eq)

lemma dec_high_enc: "enc_high x s = (h, s') \<Longrightarrow> snd (dec_high h s) = s'"
  by (auto simp: enc_high_def dec_high_def Let_def dec_block4_eq)

text \<open>Encoder and decoder agree when their bands and the format of their codes do.\<close>

definition in_step :: "G722EncoderState \<Rightarrow> G722DecoderState \<Rightarrow> bool" where
  "in_step s t \<longleftrightarrow> band0 t = band0 s \<and> band1 t = band1 s \<and> (eight_k t = 0 \<longleftrightarrow> eight_k s = 0) \<and>
     bits_per_sample t = bits_per_sample s"

text \<open>The code of a round and the bands that encoder and decoder reach with it.\<close>

lemma keep_band1: "s\<lparr>band0 := low, band1 := band1 s\<rparr> = s\<lparr>band0 := low\<rparr>"
  by (cases s) simp

lemma enc_code_cases:
  assumes "enc_code xlow xhigh s = (code, s')" "bits_per_sample s \<in> {6, 7, 8}"
  obtains h l low high where "code = shr (h * 64 + l) (nat (8 - bits_per_sample s))"
    "0 \<le> h" "h \<le> 3" "4 \<le> l" "l \<le> 63" "enc_low xlow (band0 s) = (l, low)"
    "if eight_k s = 0 then enc_high xhigh (band1 s) = (h, high) else high = band1 s"
    "s' = s\<lparr>band0 := low, band1 := high\<rparr>"
proof -
  obtain l low where low: "enc_low xlow (band0 s) = (l, low)" by fastforce
  obtain h high where high: "enc_high xhigh (band1 s) = (h, high)" by fastforce
  have l: "4 \<le> l" "l \<le> 63" "0 \<le> l" using enc_low_range [OF low] by auto
  have h: "0 \<le> h" "h \<le> 3" using enc_high_range [OF high] by auto
  show thesis
  proof (cases "eight_k s = 0")
    case True
    then have "code = shr (h * 64 + l) (nat (8 - bits_per_sample s))" "s' = s\<lparr>band0 := low, band1 := high\<rparr>"
      using assms(1) low high code_or(1) [OF l(3,2), of h] by (simp_all add: enc_code_def)
    then show thesis using that [of h l low high] h l low high True by simp
  next
    case False
    then have "code = shr (3 * 64 + l) (nat (8 - bits_per_sample s))" "s' = s\<lparr>band0 := low, band1 := band1 s\<rparr>"
      using assms(1) low code_or(2) [OF l(3,2)] unfolding keep_band1 by (simp_all add: enc_code_def)
    then show thesis using that [of 3 l low "band1 s"] l low False by simp
  qed
qed

lemma enc_code_range:
  assumes "enc_code xlow xhigh s = (code, s')" "bits_per_sample s \<in> {6, 7, 8}"
  shows "0 \<le> code" "code < 2 ^ nat (bits_per_sample s)" "code < 256"
proof -
  obtain h l low high where "code = shr (h * 64 + l) (nat (8 - bits_per_sample s))" "0 \<le> h" "h \<le> 3" "4 \<le> l" "l \<le> 63"
    using enc_code_cases [OF assms] by metis
  then show "0 \<le> code" "code < 2 ^ nat (bits_per_sample s)"
    using code_range [of h l "bits_per_sample s"] assms(2) by auto
  then show "code < 256" using assms(2) by auto
qed

lemma dec_bands_code:
  assumes "enc_code xlow xhigh s = (code, s')" "bits_per_sample s \<in> {6, 7, 8}" "in_step s t"
  obtains rlow rhigh' t' where "dec_bands code rhigh t = (rlow, rhigh', t')"
    "t' = t\<lparr>band0 := band0 s', band1 := band1 s'\<rparr>" "in_step s' t'"
proof -
  obtain h l low high where c: "code = shr (h * 64 + l) (nat (8 - bits_per_sample s))"
      and r: "0 \<le> h" "h \<le> 3" "4 \<le> l" "l \<le> 63" and low: "enc_low xlow (band0 s) = (l, low)"
      and high: "if eight_k s = 0 then enc_high xhigh (band1 s) = (h, high) else high = band1 s"
      and s': "s' = s\<lparr>band0 := low, band1 := high\<rparr>"
    by (rule enc_code_cases [OF assms(1,2)])
  obtain v where v: "dec_split (bits_per_sample s) code = (l div 4, v, h)"
    using dec_split_code [of h l "bits_per_sample s"] r assms(2) unfolding c by auto
  have t: "band0 t = band0 s" "band1 t = band1 s" "bits_per_sample t = bits_per_sample s" "eight_k t = 0 \<longleftrightarrow> eight_k s = 0"
    using assms(3) by (simp_all add: in_step_def)
  obtain rlow where d: "dec_low (l div 4) v (band0 t) = (rlow, low)"
    using dec_low_enc [OF low, of v] unfolding t by (metis prod.collapse)
  show thesis
  proof (cases "eight_k s = 0")
    case True
    then have "enc_high xhigh (band1 s) = (h, high)" using high by simp
    then obtain rh where "dec_high h (band1 t) = (rh, high)"
      using dec_high_enc [of xhigh "band1 s"] unfolding t by (metis prod.collapse)
    then have "dec_bands code rhigh t = (rlow, rh, t\<lparr>band0 := low, band1 := high\<rparr>)"
      using v d True t by (simp add: dec_bands_def)
    then show thesis using that s' t by (simp add: in_step_def)
  next
    case False
    then have "dec_bands code rhigh t = (rlow, rhigh, t\<lparr>band0 := low, band1 := high\<rparr>)"
      using v d high t by (simp add: dec_bands_def)
    then show thesis using that s' t by (simp add: in_step_def)
  qed
qed

section \<open>The loops\<close>

text \<open>What the input and the output of a round leave alone.\<close>

definition same_coder :: "G722EncoderState \<Rightarrow> G722EncoderState \<Rightarrow> bool" where
  "same_coder s s' \<longleftrightarrow> band0 s' = band0 s \<and> band1 s' = band1 s \<and> eight_k s' = eight_k s \<and>
     bits_per_sample s' = bits_per_sample s \<and> packed s' = packed s \<and> itu_test_mode s' = itu_test_mode s"

lemma enc_input_same: "enc_input s amp xhigh j = Some (s', xlow, xhigh', j') \<Longrightarrow> same_coder s s'"
  by (auto simp: enc_input_def same_coder_def Let_def split: if_splits Option.bind_splits)

lemma enc_output_same: "enc_output code s = (bytes, s') \<Longrightarrow> same_coder s s'"
  by (auto simp: enc_output_def same_coder_def Let_def split: if_splits)

lemma dec_output_same: "dec_output rlow rhigh t = (samples, t') \<Longrightarrow> same_coder t t'"
  by (auto simp: dec_output_def same_coder_def Let_def split: if_splits)

text \<open>The samples that a code stands for.\<close>

definition per_code :: "G722DecoderState \<Rightarrow> nat" where
  "per_code t = (if itu_test_mode t = 0 \<and> eight_k t \<noteq> 0 then 1 else 2)"

lemma dec_output_length: "length (fst (dec_output rlow rhigh t)) = per_code t"
  by (simp add: dec_output_def per_code_def Let_def)

lemma same_coder_in_step: "same_coder s s' \<Longrightarrow> in_step s' t \<longleftrightarrow> in_step s t" "same_coder t t' \<Longrightarrow> in_step s t' \<longleftrightarrow> in_step s t"
  by (auto simp: same_coder_def in_step_def)

lemma enc_code_format: "enc_code xlow xhigh s = (code, s') \<Longrightarrow>
  bits_per_sample s' = bits_per_sample s \<and> packed s' = packed s \<and> eight_k s' = eight_k s \<and> itu_test_mode s' = itu_test_mode s"
  by (auto simp: enc_code_def Let_def split: if_splits prod.splits)

text \<open>One round of the decoder on a byte of an unpacked stream.\<close>

lemma dec_round:
  assumes "packed t = 0" "dec_bands code rhigh t = (rlow, rhigh', t1)" "dec_output rlow rhigh' t1 = (samples, t2)"
    and "dec_loop t2 (pre @ code # rest) len rhigh' (length pre + 1) = Some (t3, out)" "int (length pre) < len"
  shows "dec_loop t (pre @ code # rest) len rhigh (length pre) = Some (t3, samples @ out)"
  using assms by (subst dec_loop.simps) (simp add: dec_input_def word_at_def)

lemma enc_dec_loop:
  assumes "enc_loop s amp len xhigh j = Some (s', bytes)" "packed s = 0" "bits_per_sample s \<in> {6, 7, 8}"
    and "packed t = 0" "in_step s t"
  shows "\<exists>t' out. dec_loop t (pre @ bytes) (int (length (pre @ bytes))) rhigh (length pre) = Some (t', out) \<and>
    in_step s' t' \<and> length out = per_code t * length bytes"
  using assms
proof (induction s amp len xhigh j arbitrary: t pre rhigh s' bytes rule: enc_loop.induct)
  case (1 s amp len xhigh j)
  show ?case
  proof (cases "int j < len")
    case False
    then have "s' = s" "bytes = []" using "1.prems"(1) by (simp_all add: enc_loop.simps)
    then show ?thesis using "1.prems"(5) by (simp add: dec_loop.simps)
  next
    case True
    obtain s1 xlow xhigh1 j1 where i: "enc_input s amp xhigh j = Some (s1, xlow, xhigh1, j1)"
      using "1.prems"(1) True by (auto simp: enc_loop.simps [of s] split: option.splits)
    obtain code s2 where c: "enc_code xlow xhigh1 s1 = (code, s2)" by fastforce
    obtain out1 s3 where o: "enc_output code s2 = (out1, s3)" by fastforce
    obtain rest where l: "enc_loop s3 amp len xhigh1 j1 = Some (s', rest)" and b: "bytes = out1 @ rest"
      using "1.prems"(1) True i c o by (auto simp: enc_loop.simps [of s] split: option.splits)
    note same = enc_input_same [OF i] enc_output_same [OF o] enc_code_format [OF c]
    have s1: "bits_per_sample s1 \<in> {6, 7, 8}" "in_step s1 t"
      using "1.prems"(3,5) same_coder_in_step(1) [OF same(1)] same(1) by (simp_all add: same_coder_def)
    obtain rlow rhigh' t1 where d: "dec_bands code rhigh t = (rlow, rhigh', t1)"
        and t1: "t1 = t\<lparr>band0 := band0 s2, band1 := band1 s2\<rparr>" "in_step s2 t1"
      by (rule dec_bands_code [OF c s1])
    obtain samples t2 where e: "dec_output rlow rhigh' t1 = (samples, t2)" by fastforce
    note t2 = dec_output_same [OF e]
    have p: "packed s3 = 0" "bits_per_sample s3 \<in> {6, 7, 8}" "packed t2 = 0" "in_step s3 t2" "per_code t2 = per_code t"
      using same "1.prems"(2-4) t1 t2 same_coder_in_step(1) [OF same(2)] same_coder_in_step(2) [OF t2]
      by (auto simp: same_coder_def per_code_def)
    have out1: "out1 = [code]"
      using o same "1.prems"(2) enc_code_range [OF c s1(1)] by (auto simp: enc_output_def same_coder_def u8_id)
    obtain t' out where r: "dec_loop t2 ((pre @ [code]) @ rest) (int (length ((pre @ [code]) @ rest))) rhigh' (length (pre @ [code])) = Some (t', out)"
        "in_step s' t'" "length out = per_code t2 * length rest"
      using "1.IH" [OF True i refl refl refl c [symmetric] o [symmetric] l p(1-4), of "pre @ [code]" rhigh'] p(5) by blast
    have "dec_loop t (pre @ code # rest) (int (length (pre @ code # rest))) rhigh (length pre) = Some (t', samples @ out)"
      by (rule dec_round [OF "1.prems"(4) d e]) (use r in simp_all)
    moreover have "length samples = per_code t"
      using dec_output_length [of rlow rhigh' t1] e t1 by (simp add: per_code_def)
    ultimately show ?thesis using r p b out1 by simp
  qed
qed

section \<open>The state of a coder\<close>

text \<open>
  The invariant: both bands, the filter memory and the partial bytes of a packed stream.
\<close>

definition coder_ok :: "G722EncoderState \<Rightarrow> bool" where
  "coder_ok s \<longleftrightarrow> band_ok 32 18432 (band0 s) \<and> band_ok 8 22528 (band1 s) \<and> vec_ok 24 (qmf_x s) \<and>
     bits_per_sample s \<in> {6, 7, 8} \<and> (packed s \<noteq> 0 \<longrightarrow> bits_per_sample s \<noteq> 8) \<and>
     0 \<le> out_bits s \<and> out_bits s < 8 \<and> 0 \<le> out_buffer s \<and> out_buffer s < 2 ^ nat (out_bits s) \<and>
     0 \<le> in_bits s \<and> in_bits s < 8 \<and> 0 \<le> in_buffer s \<and> in_buffer s < 2 ^ nat (in_bits s)"

lemma zero_band_ok: "lo \<le> det \<Longrightarrow> det \<le> 16384 \<Longrightarrow> 0 \<le> hi \<Longrightarrow> band_ok lo hi (zero_band\<lparr>band_det := det\<rparr>)"
  by (simp add: band_ok_def zero_band_def vec_ok_def poles_ok_def is_s16_def numeral_3_eq_3 numeral_2_eq_2 eval_nat_numeral)

lemma encode_init_ok: "WebRtc_g722_encode_init s fresh rate options = Some s' \<Longrightarrow> coder_ok s'"
proof -
  assume a: "WebRtc_g722_encode_init s fresh rate options = Some s'"
  define bits :: int where "bits = (if rate = 48000 then 6 else if rate = 56000 then 7 else 8)"
  define wide :: int where "wide = (if options AND G722_SAMPLE_RATE_8000 \<noteq> 0 then 1 else 0)"
  define pack :: int where "pack = (if options AND G722_PACKED \<noteq> 0 \<and> bits \<noteq> 8 then 1 else 0)"
  have "s' = zero_state\<lparr>bits_per_sample := bits, eight_k := wide, packed := pack,
      band0 := zero_band\<lparr>band_det := 32\<rparr>, band1 := zero_band\<lparr>band_det := 8\<rparr>\<rparr>"
    using a unfolding WebRtc_g722_encode_init_def Let_def bits_def [symmetric]
    by (auto simp: wide_def pack_def zero_state_def split: if_splits)
  moreover have "bits \<in> {6, 7, 8}" "pack \<noteq> 0 \<longrightarrow> bits \<noteq> 8" by (simp_all add: bits_def pack_def)
  moreover have "vec_ok 24 (replicate 24 0)" by (simp add: vec_ok_def is_s16_def list_all_iff)
  ultimately show ?thesis
    using zero_band_ok [of 32 32 18432] zero_band_ok [of 8 8 22528] by (simp add: coder_ok_def zero_state_def)
qed

lemma decode_init_eq: "WebRtc_g722_decode_init = WebRtc_g722_encode_init"
  by (intro ext) (simp only: WebRtc_g722_decode_init_def WebRtc_g722_encode_init_def)

text \<open>The table entries that the codes select.\<close>

lemma table_entries:
  "0 \<le> l \<Longrightarrow> l \<le> 63 \<Longrightarrow> \<bar>qm4 ! nat (l div 4)\<bar> \<le> 24808"
  "0 \<le> h \<Longrightarrow> h \<le> 3 \<Longrightarrow> \<bar>qm2 ! nat h\<bar> \<le> 24808"
proof -
  assume l: "0 \<le> l" "l \<le> 63"
  have "length qm4 = 16" by (simp add: qm4_def)
  then have "qm4 ! nat (l div 4) \<in> set qm4" using l by (intro nth_mem) linarith
  then have "\<bar>qm4 ! nat (l div 4)\<bar> \<le> 20456" using quantiser_values(1) unfolding list_all_iff by blast
  then show "\<bar>qm4 ! nat (l div 4)\<bar> \<le> 24808" by linarith
next
  assume h: "0 \<le> h" "h \<le> 3"
  have "length qm2 = 4" by (simp add: qm2_def)
  then have "qm2 ! nat h \<in> set qm2" using h by (intro nth_mem) linarith
  then have "\<bar>qm2 ! nat h\<bar> \<le> 7408" using quantiser_values(2) unfolding list_all_iff by blast
  then show "\<bar>qm2 ! nat h\<bar> \<le> 24808" by linarith
qed

lemma band_step_ok:
  assumes "band_ok lo hi s" "0 \<le> lo" "\<bar>v\<bar> \<le> 24808" "0 \<le> nb" "nb \<le> hi" "lo \<le> det" "det \<le> 16384"
  shows "band_ok lo hi (block4 (shr (band_det s * v) 15) (s\<lparr>band_nb := nb, band_det := det\<rparr>))"
proof (rule block4_ok)
  show "band_ok lo hi (s\<lparr>band_nb := nb, band_det := det\<rparr>)" using assms by (simp add: band_ok_def)
  have "0 \<le> band_det s" "band_det s \<le> 16384" using assms(1,2) by (auto simp: band_ok_def)
  then show "is_s16 (shr (band_det s * v) 15)"
    using difference_range(1) [of "band_det s" v] assms(3) unfolding is_s16_def abs_le_iff by linarith
qed

lemma enc_low_ok: "band_ok 32 18432 s \<Longrightarrow> band_ok 32 18432 (snd (enc_low x s))"
  using quantl_range [of "band_det s" "saturate (x - band_s s)"]
  unfolding enc_low_def Let_def snd_conv
  by (intro band_step_ok) (simp_all add: table_entries logscl_range scale_step_range)

lemma enc_high_ok: "band_ok 8 22528 s \<Longrightarrow> band_ok 8 22528 (snd (enc_high x s))"
  using quanth_range [of "band_det s" "saturate (x - band_s s)"]
  unfolding enc_high_def Let_def snd_conv
  by (intro band_step_ok) (simp_all add: table_entries logsch_range scale_step_range)

lemma dec_low_ok:
  "band_ok 32 18432 s \<Longrightarrow> 0 \<le> i \<Longrightarrow> i \<le> 15 \<Longrightarrow> band_ok 32 18432 (snd (dec_low i v s))"
  using table_entries(1) [of "i * 4"]
  unfolding dec_low_def Let_def snd_conv dec_block4_eq
  by (intro band_step_ok) (simp_all add: logscl_range scale_step_range)

lemma dec_high_ok:
  "band_ok 8 22528 s \<Longrightarrow> 0 \<le> h \<Longrightarrow> h \<le> 3 \<Longrightarrow> band_ok 8 22528 (snd (dec_high h s))"
  unfolding dec_high_def Let_def snd_conv dec_block4_eq
  by (intro band_step_ok) (simp_all add: table_entries logsch_range scale_step_range)

text \<open>Every code selects entries of the tables.\<close>

lemma dec_split_range:
  assumes "dec_split b code = (i, v, h)"
  shows "0 \<le> i \<and> i \<le> 15 \<and> 0 \<le> h \<and> h \<le> 3"
proof -
  have 4: "0 \<le> x mod 4" "x mod 4 \<le> 3" for x :: int by simp_all
  have "0 \<le> code mod 32" "code mod 32 < 32" "0 \<le> code mod 64" "code mod 64 < 64" by simp_all
  then have m: "0 \<le> code mod 32 div 2" "code mod 32 div 2 \<le> 15" "0 \<le> code mod 64 div 4" "code mod 64 div 4 \<le> 15"
    by linarith+
  have n: "0 \<le> code mod 16" "code mod 16 \<le> 15" by simp_all
  consider "b = 7" | "b = 6" | "b \<noteq> 7" "b \<noteq> 6" by blast
  then show ?thesis
  proof cases
    case 1
    then have "i = code mod 32 div 2" "h = code div 32 mod 4" using assms by (simp_all add: dec_split_def Let_def low_bits)
    then show ?thesis by (simp only: m 4 simp_thms)
  next
    case 2
    then have "i = code mod 16" "h = code div 16 mod 4" using assms by (simp_all add: dec_split_def Let_def low_bits)
    then show ?thesis by (simp only: n 4 simp_thms)
  next
    case 3
    then have "i = code mod 64 div 4" "h = code div 64 mod 4" using assms by (simp_all add: dec_split_def Let_def low_bits)
    then show ?thesis by (simp only: m 4 simp_thms)
  qed
qed

lemma coder_ok_bands:
  "coder_ok s \<Longrightarrow> band_ok 32 18432 low \<Longrightarrow> band_ok 8 22528 high \<Longrightarrow> coder_ok (s\<lparr>band0 := low, band1 := high\<rparr>)"
  by (simp add: coder_ok_def)

lemma coder_ok_parts: "coder_ok s \<Longrightarrow> band_ok 32 18432 (band0 s) \<and> band_ok 8 22528 (band1 s) \<and> bits_per_sample s \<in> {6, 7, 8}"
  by (simp add: coder_ok_def)

lemma enc_code_ok:
  assumes "coder_ok s" "enc_code xlow xhigh s = (code, s')"
  shows "coder_ok s'"
proof -
  note ok = coder_ok_parts [OF assms(1)]
  obtain h l low high where low: "enc_low xlow (band0 s) = (l, low)"
      and high: "if eight_k s = 0 then enc_high xhigh (band1 s) = (h, high) else high = band1 s"
      and s': "s' = s\<lparr>band0 := low, band1 := high\<rparr>"
    using enc_code_cases [OF assms(2)] ok by metis
  have "band_ok 32 18432 low" using enc_low_ok [of "band0 s" xlow] ok low by simp
  moreover have "band_ok 8 22528 high" using enc_high_ok [of "band1 s" xhigh] ok high by (simp split: if_splits)
  ultimately show ?thesis unfolding s' by (intro coder_ok_bands assms(1))
qed

lemma dec_bands_ok:
  assumes "coder_ok t" "dec_bands code rhigh t = (rlow, rhigh', t')"
  shows "coder_ok t'"
proof -
  note ok = coder_ok_parts [OF assms(1)]
  obtain i v h where s: "dec_split (bits_per_sample t) code = (i, v, h)" by (rule prod_cases3)
  note r = dec_split_range [OF s]
  obtain rl low where low: "dec_low i v (band0 t) = (rl, low)" by fastforce
  obtain rh high where high: "dec_high h (band1 t) = (rh, high)" by fastforce
  have "t' = (if eight_k t = 0 then t\<lparr>band0 := low, band1 := high\<rparr> else t\<lparr>band0 := low, band1 := band1 t\<rparr>)"
    using assms(2) s low high unfolding dec_bands_def keep_band1 by (cases "eight_k t = 0") simp_all
  moreover have "band_ok 32 18432 low" using dec_low_ok [of "band0 t" i v] ok r low by simp
  moreover have "band_ok 8 22528 high" using dec_high_ok [of "band1 t" h] ok r high by simp
  ultimately show "coder_ok t'" using ok coder_ok_bands [OF assms(1), of low high] coder_ok_bands [OF assms(1), of low "band1 t"]
    by (simp split: if_splits)
qed

section \<open>Safety\<close>

text \<open>The samples that one round of the encoder consumes.\<close>

definition per_round :: "G722EncoderState \<Rightarrow> nat" where
  "per_round s = (if itu_test_mode s = 0 \<and> eight_k s = 0 then 2 else 1)"

lemma shift_x_ok: "vec_ok 24 x \<Longrightarrow> is_s16 u \<Longrightarrow> is_s16 v \<Longrightarrow> vec_ok 24 (shift_x x u v)"
  by (auto simp: vec_ok_def shift_x_def list_all_iff dest: in_set_takeD in_set_dropD)

lemma enc_input_ok:
  assumes "coder_ok s" "list_all is_s16 amp" "j + per_round s \<le> length amp"
  shows "\<exists>s' xlow xhigh'. enc_input s amp xhigh j = Some (s', xlow, xhigh', j + per_round s) \<and> coder_ok s'"
proof (cases "per_round s = 2")
  case True
  then have m: "itu_test_mode s = 0" "eight_k s = 0" by (simp_all add: per_round_def split: if_splits)
  have j: "j < length amp" "j + 1 < length amp" using assms(3) True by auto
  then have "is_s16 (amp ! j)" "is_s16 (amp ! (j + 1))" using assms(2) by (simp_all add: list_all_length)
  then have "vec_ok 24 (shift_x (qmf_x s) (amp ! j) (amp ! (j + 1)))"
    using assms(1) by (intro shift_x_ok) (simp_all add: coder_ok_def)
  then have "coder_ok (s\<lparr>qmf_x := shift_x (qmf_x s) (amp ! j) (amp ! (j + 1))\<rparr>)"
    using assms(1) by (simp add: coder_ok_def)
  then show ?thesis using m j True by (simp add: enc_input_def word_at_def Let_def)
next
  case False
  then have "per_round s = 1" by (simp add: per_round_def split: if_splits)
  then show ?thesis using assms(1,3) by (auto simp: enc_input_def word_at_def per_round_def split: if_splits)
qed

text \<open>Packing in terms of arithmetic: the new bits go above those that wait in the buffer.\<close>

lemma pack_step:
  assumes "coder_ok s" "packed s \<noteq> 0" "0 \<le> code" "code < 2 ^ nat (bits_per_sample s)"
  defines "B \<equiv> out_buffer s + code * 2 ^ nat (out_bits s)" and "n \<equiv> out_bits s + bits_per_sample s"
  shows "enc_output code s =
      (if n \<ge> 8 then ([B mod 256], s\<lparr>out_bits := n - 8, out_buffer := B div 256\<rparr>)
       else ([], s\<lparr>out_bits := n, out_buffer := B\<rparr>))"
    and "0 \<le> B" "B < 2 ^ nat n" "n < 16"
proof -
  have r: "0 \<le> out_bits s" "out_bits s < 8" "0 \<le> out_buffer s" "out_buffer s < 2 ^ nat (out_bits s)"
      "bits_per_sample s \<in> {6, 7}"
    using assms(1,2) by (auto simp: coder_ok_def)
  show n: "n < 16" using r by (auto simp: n_def)
  have e: "nat n = nat (out_bits s) + nat (bits_per_sample s)" using r by (auto simp: n_def nat_add_distrib)
  show B0: "0 \<le> B" using r assms(3) by (simp add: B_def)
  have "B < (code + 1) * 2 ^ nat (out_bits s)" using r(4) by (simp add: B_def algebra_simps)
  also have "\<dots> \<le> 2 ^ nat (bits_per_sample s) * 2 ^ nat (out_bits s)" using assms(4) by (intro mult_right_mono) simp_all
  finally show B1: "B < 2 ^ nat n" by (simp add: e power_add mult.commute)
  have "(2 :: int) ^ nat n \<le> 2 ^ 16" using n by (intro power_increasing) simp_all
  then have B2: "B < 65536" using B1 by simp
  have "0 \<le> code * 2 ^ nat (out_bits s)" "code * 2 ^ nat (out_bits s) \<le> 4294967295"
    using B2 r(3) assms(3) by (simp_all add: B_def)
  then have "u32 (code * 2 ^ nat (out_bits s)) = code * 2 ^ nat (out_bits s)" by (rule u32_id)
  then have o: "out_buffer s OR u32 (code * 2 ^ nat (out_bits s)) = B"
    using or_add [of "out_buffer s" "nat (out_bits s)" code] r(3,4) by (simp add: B_def or.commute add.commute)
  have "u8 (B AND 0xFF) = B mod 256" using B0 by (simp add: and_low_byte u8_def)
  then show "enc_output code s =
      (if n \<ge> 8 then ([B mod 256], s\<lparr>out_bits := n - 8, out_buffer := B div 256\<rparr>)
       else ([], s\<lparr>out_bits := n, out_buffer := B\<rparr>))"
    using assms(2) o by (simp add: enc_output_def Let_def n_def)
qed

lemma enc_output_ok:
  assumes "coder_ok s" "0 \<le> code" "code < 2 ^ nat (bits_per_sample s)" "enc_output code s = (bytes, s')"
  shows "coder_ok s'" "\<forall>b\<in>set bytes. 0 \<le> b \<and> b < 256"
proof -
  have "coder_ok s' \<and> (\<forall>b\<in>set bytes. 0 \<le> b \<and> b < 256)"
  proof (cases "packed s = 0")
    case True
    then have "s' = s" "bytes = [u8 code]" using assms(4) by (simp_all add: enc_output_def)
    then show ?thesis using assms(1) u8_range by simp
  next
    case False
    define B where "B = out_buffer s + code * 2 ^ nat (out_bits s)"
    define n where "n = out_bits s + bits_per_sample s"
    note p = pack_step [OF assms(1) False assms(2,3), folded B_def n_def]
    have n0: "0 \<le> n" using assms(1) by (auto simp: coder_ok_def n_def)
    show ?thesis
    proof (cases "8 \<le> n")
      case True
      have "nat n = nat (n - 8) + 8" using True by simp
      then have "B < 2 ^ nat (n - 8) * 256" using p(3) by (simp add: power_add)
      then have "B div 256 < 2 ^ nat (n - 8)" by (simp add: div_less_iff)
      then show ?thesis using True p assms(1,4) by (auto simp: coder_ok_def pos_imp_zdiv_nonneg_iff)
    next
      case False
      then show ?thesis using p n0 assms(1,4) by (auto simp: coder_ok_def)
    qed
  qed
  then show "coder_ok s'" "\<forall>b\<in>set bytes. 0 \<le> b \<and> b < 256" by simp_all
qed

lemma same_coder_round: "same_coder s s' \<Longrightarrow> per_round s' = per_round s"
  by (simp add: same_coder_def per_round_def)

lemma enc_loop_ok:
  assumes "coder_ok s" "list_all is_s16 amp" "int j \<le> len" "len \<le> int (length amp)" "per_round s dvd nat len - j"
  shows "\<exists>s' bytes. enc_loop s amp len xhigh j = Some (s', bytes) \<and> coder_ok s' \<and>
    (\<forall>b\<in>set bytes. 0 \<le> b \<and> b < 256) \<and>
    (packed s = 0 \<longrightarrow> length bytes * per_round s = nat len - j)"
  using assms
proof (induction s amp len xhigh j rule: enc_loop.induct)
  case (1 s amp len xhigh j)
  show ?case
  proof (cases "int j < len")
    case False
    then show ?thesis using "1.prems" by (simp add: enc_loop.simps)
  next
    case True
    have "0 < nat len - j" using True by simp
    then have pr: "per_round s \<le> nat len - j" using "1.prems"(5) by (rule dvd_imp_le [rotated])
    then have le: "j + per_round s \<le> length amp" using "1.prems"(4) True by linarith
    obtain s1 xlow xhigh1 where i: "enc_input s amp xhigh j = Some (s1, xlow, xhigh1, j + per_round s)" "coder_ok s1"
      using enc_input_ok [OF "1.prems"(1,2) le, of xhigh] by blast
    obtain code s2 where c: "enc_code xlow xhigh1 s1 = (code, s2)" by fastforce
    obtain out1 s3 where o: "enc_output code s2 = (out1, s3)" by fastforce
    have b1: "bits_per_sample s1 \<in> {6, 7, 8}" using i(2) by (simp add: coder_ok_def)
    note f = enc_code_format [OF c] and r = enc_code_range [OF c b1]
    have ok2: "coder_ok s2" by (rule enc_code_ok [OF i(2) c])
    have ok3: "coder_ok s3" "\<forall>b\<in>set out1. 0 \<le> b \<and> b < 256"
      using enc_output_ok [OF ok2 r(1) _ o] r(2) f by simp_all
    have s3: "per_round s3 = per_round s" "packed s3 = packed s"
      using same_coder_round [OF enc_output_same [OF o]] same_coder_round [OF enc_input_same [OF i(1)]] f
        enc_output_same [OF o] enc_input_same [OF i(1)]
      by (auto simp: same_coder_def per_round_def)
    have "int (j + per_round s) \<le> len" "per_round s3 dvd nat len - (j + per_round s)"
      using pr True "1.prems"(5) s3 dvd_minus_self [of "per_round s" "nat len - j"] by (auto simp: algebra_simps)
    then obtain s' rest where l: "enc_loop s3 amp len xhigh1 (j + per_round s) = Some (s', rest)" "coder_ok s'"
        "\<forall>b\<in>set rest. 0 \<le> b \<and> b < 256" "packed s = 0 \<longrightarrow> length rest * per_round s = nat len - (j + per_round s)"
      using "1.IH" [OF True i(1) refl refl refl c [symmetric] o [symmetric] ok3(1) "1.prems"(2) _ "1.prems"(4)] s3 by auto
    have "length out1 = 1" if "packed s = 0"
      using o that f enc_input_same [OF i(1)] by (auto simp: enc_output_def same_coder_def)
    moreover have "enc_loop s amp len xhigh j = Some (s', out1 @ rest)"
      using True i(1) c o l(1) by (subst enc_loop.simps) simp
    ultimately show ?thesis using l ok3(2) pr by auto
  qed
qed

text \<open>Unpacking in terms of arithmetic.\<close>

lemma unpack_step:
  assumes "coder_ok t" "packed t \<noteq> 0" "j < length data" "0 \<le> data ! j" "data ! j < 256"
  defines "rd \<equiv> in_bits t < bits_per_sample t"
  defines "B \<equiv> (if rd then in_buffer t + data ! j * 2 ^ nat (in_bits t) else in_buffer t)"
    and "n \<equiv> (if rd then in_bits t + 8 else in_bits t)"
  shows "dec_input t data j =
      Some (B mod 2 ^ nat (bits_per_sample t),
        t\<lparr>in_buffer := B div 2 ^ nat (bits_per_sample t), in_bits := n - bits_per_sample t\<rparr>,
        if rd then j + 1 else j)"
    and "0 \<le> B" "B < 2 ^ nat n" "bits_per_sample t \<le> n" "n - bits_per_sample t < 8"
proof -
  have r: "0 \<le> in_bits t" "in_bits t < 8" "0 \<le> in_buffer t" "in_buffer t < 2 ^ nat (in_bits t)"
      "bits_per_sample t \<in> {6, 7}"
    using assms(1,2) by (auto simp: coder_ok_def)
  show "bits_per_sample t \<le> n" "n - bits_per_sample t < 8" using r by (auto simp: n_def rd_def)
  show B0: "0 \<le> B" using r assms(4) by (simp add: B_def)
  show B1: "B < 2 ^ nat n"
  proof (cases rd)
    case True
    have "B < (data ! j + 1) * 2 ^ nat (in_bits t)" using r(4) True by (simp add: B_def algebra_simps)
    also have "\<dots> \<le> 256 * 2 ^ nat (in_bits t)" using assms(5) by (intro mult_right_mono) simp_all
    also have "\<dots> = 2 ^ nat n" using r(1) True by (simp add: n_def nat_add_distrib power_add)
    finally show ?thesis .
  next
    case False
    then show ?thesis using r by (simp add: B_def n_def)
  qed
  have m: "x AND (2 ^ k - 1) = x mod 2 ^ k" for x :: int and k
    using take_bit_eq_mask [of k x] by (simp add: take_bit_eq_mod mask_eq_exp_minus_1)
  have o: "in_buffer t OR u32 (data ! j * 2 ^ nat (in_bits t)) = B" if rd
  proof -
    have "(2 :: int) ^ nat (in_bits t) \<le> 2 ^ 8" using r by (intro power_increasing) simp_all
    then have "data ! j * 2 ^ nat (in_bits t) \<le> 256 * 2 ^ 8" using assms(4,5) by (intro mult_mono) simp_all
    then have "u32 (data ! j * 2 ^ nat (in_bits t)) = data ! j * 2 ^ nat (in_bits t)" using assms(4) by simp
    then show ?thesis
      using that or_add [of "in_buffer t" "nat (in_bits t)" "data ! j"] r(3,4) by (simp add: B_def or.commute add.commute)
  qed
  show "dec_input t data j =
      Some (B mod 2 ^ nat (bits_per_sample t),
        t\<lparr>in_buffer := B div 2 ^ nat (bits_per_sample t), in_bits := n - bits_per_sample t\<rparr>,
        if rd then j + 1 else j)"
  proof (cases rd)
    case True
    then show ?thesis using assms(2,3) o m by (simp add: dec_input_def word_at_def n_def rd_def)
  next
    case False
    then have "B = in_buffer t" by (simp add: B_def)
    then show ?thesis using False assms(2) m by (simp add: dec_input_def n_def rd_def)
  qed
qed

text \<open>One round of input: it keeps the invariant and comes closer to the end.\<close>

lemma dec_input_ok:
  assumes "coder_ok t" "j < length data" "0 \<le> data ! j" "data ! j < 256"
  shows "\<exists>code t' j'. dec_input t data j = Some (code, t', j') \<and> coder_ok t' \<and> same_coder t t' \<and>
    (packed t = 0 \<longrightarrow> j' = j + 1) \<and> (j' = j + 1 \<or> j' = j \<and> in_bits t' < in_bits t)"
proof (cases "packed t = 0")
  case True
  then show ?thesis using assms by (simp add: dec_input_def word_at_def same_coder_def)
next
  case False
  have b: "bits_per_sample t \<in> {6, 7}" using assms(1) False by (auto simp: coder_ok_def)
  define rd where "rd \<longleftrightarrow> in_bits t < bits_per_sample t"
  define B where "B = (if rd then in_buffer t + data ! j * 2 ^ nat (in_bits t) else in_buffer t)"
  define n where "n = (if rd then in_bits t + 8 else in_bits t)"
  note u = unpack_step [OF assms(1) False assms(2-4), folded rd_def, folded B_def n_def]
  have "nat n = nat (n - bits_per_sample t) + nat (bits_per_sample t)" using u(4) b by auto
  then have "B < 2 ^ nat (n - bits_per_sample t) * 2 ^ nat (bits_per_sample t)" using u(3) by (simp add: power_add)
  then have "B div 2 ^ nat (bits_per_sample t) < 2 ^ nat (n - bits_per_sample t)" by (simp add: div_less_iff)
  moreover have "0 \<le> B div 2 ^ nat (bits_per_sample t)" using u(2) by (simp add: pos_imp_zdiv_nonneg_iff)
  ultimately have "coder_ok (t\<lparr>in_buffer := B div 2 ^ nat (bits_per_sample t), in_bits := n - bits_per_sample t\<rparr>)"
    using assms(1) u(4,5) by (simp add: coder_ok_def)
  then show ?thesis using u(1) False b by (auto simp: same_coder_def n_def)
qed

lemma limit_range: "- 16384 \<le> limit r \<and> limit r \<le> 16383"
  by (simp add: limit_def)

text \<open>The outputs of the two bands stay below 15 bits, so that their sum and difference fit 16.\<close>

definition half_ok :: "int \<Rightarrow> bool" where
  "half_ok r \<longleftrightarrow> - 16384 \<le> r \<and> r \<le> 16383"

lemma dec_bands_half:
  assumes "dec_bands code rhigh t = (rlow, rhigh', t')" "half_ok rhigh"
  shows "half_ok rlow" "half_ok rhigh'"
  using assms limit_range
  by (auto simp: dec_bands_def dec_low_def dec_high_def Let_def half_ok_def split: prod.splits if_splits)

lemma dec_bands_format: "dec_bands code rhigh t = (rlow, rhigh', t') \<Longrightarrow>
  packed t' = packed t \<and> eight_k t' = eight_k t \<and> itu_test_mode t' = itu_test_mode t \<and>
  bits_per_sample t' = bits_per_sample t \<and> in_bits t' = in_bits t"
  by (auto simp: dec_bands_def Let_def split: if_splits prod.splits)

lemma dec_output_ok:
  assumes "coder_ok t" "half_ok rlow" "half_ok rhigh" "dec_output rlow rhigh t = (out, t')"
  shows "coder_ok t'" "list_all is_s16 out"
proof -
  have "is_s16 (rlow + rhigh)" "is_s16 (rlow - rhigh)" using assms(2,3) by (auto simp: half_ok_def is_s16_def)
  then have "vec_ok 24 (shift_x (qmf_x t) (rlow + rhigh) (rlow - rhigh))"
    using assms(1) by (intro shift_x_ok) (simp_all add: coder_ok_def)
  then have "coder_ok (t\<lparr>qmf_x := shift_x (qmf_x t) (rlow + rhigh) (rlow - rhigh)\<rparr>)"
    using assms(1) by (simp add: coder_ok_def)
  then show "coder_ok t'" using assms(1,4) by (auto simp: dec_output_def Let_def split: if_splits)
  show "list_all is_s16 out" using assms(4) by (auto simp: dec_output_def Let_def split: if_splits)
qed

lemma dec_loop_ok:
  assumes "coder_ok t" "half_ok rhigh" "\<forall>b\<in>set data. 0 \<le> b \<and> b < 256" "len \<le> int (length data)" "int j \<le> len"
  shows "\<exists>t' out. dec_loop t data len rhigh j = Some (t', out) \<and> coder_ok t' \<and> list_all is_s16 out \<and>
    packed t' = packed t \<and> eight_k t' = eight_k t \<and> itu_test_mode t' = itu_test_mode t \<and>
    (packed t = 0 \<longrightarrow> length out = per_code t * (nat len - j))"
  using assms
proof (induction "16 * (nat len - j) + nat (in_bits t)" arbitrary: t j rhigh rule: less_induct)
  case less
  show ?case
  proof (cases "int j < len")
    case False
    then show ?thesis using less.prems by (simp add: dec_loop.simps)
  next
    case True
    then have j: "j < length data" using less.prems(4) by linarith
    obtain code t1 j1 where i: "dec_input t data j = Some (code, t1, j1)" "coder_ok t1" "same_coder t t1"
        "packed t = 0 \<longrightarrow> j1 = j + 1" "j1 = j + 1 \<or> j1 = j \<and> in_bits t1 < in_bits t"
      using dec_input_ok [OF less.prems(1) j] less.prems(3) j by (meson nth_mem)
    obtain rlow rhigh' t2 where d: "dec_bands code rhigh t1 = (rlow, rhigh', t2)" by (rule prod_cases3)
    obtain samples t3 where o: "dec_output rlow rhigh' t2 = (samples, t3)" by fastforce
    note h = dec_bands_half [OF d less.prems(2)] and ok2 = dec_bands_ok [OF i(2) d] and f = dec_bands_format [OF d]
    note ok3 = dec_output_ok [OF ok2 h o] and same = dec_output_same [OF o]
    have b3: "in_bits t3 = in_bits t1" using o f by (auto simp: dec_output_def Let_def split: if_splits)
    have pc: "per_code t3 = per_code t" "per_code t2 = per_code t" "packed t3 = packed t"
        "eight_k t3 = eight_k t" "itu_test_mode t3 = itu_test_mode t"
      using same f i(3) by (simp_all add: same_coder_def per_code_def)
    have "in_bits t3 < 8" "0 \<le> in_bits t3" using ok3(1) by (simp_all add: coder_ok_def)
    moreover have "0 \<le> in_bits t" using less.prems(1) by (simp add: coder_ok_def)
    ultimately have m: "16 * (nat len - j1) + nat (in_bits t3) < 16 * (nat len - j) + nat (in_bits t)"
      using i(5) b3 True by auto
    have "int j1 \<le> len" using i(5) True by auto
    then obtain t' out where l: "dec_loop t3 data len rhigh' j1 = Some (t', out)" "coder_ok t'" "list_all is_s16 out"
        "packed t' = packed t3 \<and> eight_k t' = eight_k t3 \<and> itu_test_mode t' = itu_test_mode t3"
        "packed t3 = 0 \<longrightarrow> length out = per_code t3 * (nat len - j1)"
      using less.hyps [OF m ok3(1) h(2) less.prems(3,4)] by blast
    have "dec_loop t data len rhigh j = Some (t', samples @ out)"
      using True i(1) d o l(1) by (subst dec_loop.simps) simp
    moreover have "length samples = per_code t" using dec_output_length [of rlow rhigh' t2] o pc by simp
    moreover have "packed t = 0 \<longrightarrow> nat len - j = Suc (nat len - j1)" using i(4) True by auto
    ultimately show ?thesis using l ok3(2) pc by auto
  qed
qed

section \<open>Streams\<close>

text \<open>
  C8: The decoder follows the encoder.  If the bands of the two agree and the stream is not
  packed, then decoding the bytes of any call of the encoder succeeds, gives the samples of
  that many rounds, and the predictors, steps and histories of both bands agree again, at each of the
  three rates.
\<close>

theorem G722_synchrony:
  assumes "WebRtc_g722_encode s amp len = Some (n, s', bytes)" "packed s = 0" "bits_per_sample s \<in> {6, 7, 8}"
    and "packed t = 0" "in_step s t"
  shows "\<exists>t' out. WebRtc_g722_decode t bytes n = Some (int (per_code t) * n, t', out) \<and> in_step s' t'"
proof -
  have l: "enc_loop s amp len 0 0 = Some (s', bytes)" "n = int (length bytes)"
    using assms(1) by (auto simp: WebRtc_g722_encode_def split: Option.bind_splits)
  then show ?thesis
    using enc_dec_loop [OF l(1) assms(2-5), of "[]" 0] by (auto simp: WebRtc_g722_decode_def)
qed

text \<open>
  Sessions through the interface: every frame is encoded and its bytes are decoded at once.
\<close>

fun G722_session ::
    "G722EncoderState \<Rightarrow> G722DecoderState \<Rightarrow> int16 list list \<Rightarrow>
     (G722EncoderState \<times> G722DecoderState \<times> int16 list list) option" where
  "G722_session enc dec [] = Some (enc, dec, [])"
| "G722_session enc dec (frame # frames) = do {
     (n, enc, encoded) \<leftarrow> WebRtcG722_Encode enc frame (int (length frame));
     (m, speechType, dec, decoded) \<leftarrow> WebRtcG722_Decode dec encoded n;
     (enc, dec, rest) \<leftarrow> G722_session enc dec frames;
     Some (enc, dec, decoded # rest) }"

definition frame_ok :: "int16 list \<Rightarrow> bool" where
  "frame_ok f \<longleftrightarrow> list_all is_s16 f \<and> even (length f) \<and> length f \<le> 32766"

text \<open>The instances of the interface: not packed, both bands, no test mode.\<close>

definition wideband :: "G722EncoderState \<Rightarrow> bool" where
  "wideband s \<longleftrightarrow> packed s = 0 \<and> eight_k s = 0 \<and> itu_test_mode s = 0"

lemma enc_loop_format: "enc_loop s amp len xhigh j = Some (s', bytes) \<Longrightarrow>
  packed s' = packed s \<and> bits_per_sample s' = bits_per_sample s \<and> eight_k s' = eight_k s \<and> itu_test_mode s' = itu_test_mode s"
proof (induction s amp len xhigh j arbitrary: s' bytes rule: enc_loop.induct)
  case (1 s amp len xhigh j)
  show ?case
  proof (cases "int j < len")
    case True
    obtain s1 xlow xhigh1 j1 where i: "enc_input s amp xhigh j = Some (s1, xlow, xhigh1, j1)"
      using "1.prems" True by (auto simp: enc_loop.simps [of s] split: option.splits)
    obtain code s2 where c: "enc_code xlow xhigh1 s1 = (code, s2)" by fastforce
    obtain out1 s3 where o: "enc_output code s2 = (out1, s3)" by fastforce
    obtain rest where l: "enc_loop s3 amp len xhigh1 j1 = Some (s', rest)"
      using "1.prems" True i c o by (auto simp: enc_loop.simps [of s] split: option.splits)
    show ?thesis
      using "1.IH" [OF True i refl refl refl c [symmetric] o [symmetric] l] enc_input_same [OF i]
        enc_output_same [OF o] enc_code_format [OF c] by (simp add: same_coder_def)
  qed (use 1 in \<open>simp add: enc_loop.simps\<close>)
qed

lemma session_frame:
  assumes "coder_ok s" "wideband s" "coder_ok t" "wideband t" "in_step s t" "frame_ok f"
  shows "\<exists>n s' bytes t' out.
    WebRtcG722_Encode s f (int (length f)) = Some (n, s', bytes) \<and>
    WebRtcG722_Decode t bytes n = Some (int (length f), 1, t', out) \<and> length out = length f \<and> list_all is_s16 out \<and>
    coder_ok s' \<and> wideband s' \<and> coder_ok t' \<and> wideband t' \<and> in_step s' t'"
proof -
  have f: "list_all is_s16 f" "even (length f)" "length f \<le> 32766" using assms(6) by (simp_all add: frame_ok_def)
  have r: "per_round s = 2" "per_code t = 2" "packed s = 0" "packed t = 0"
    using assms(2,4) by (simp_all add: wideband_def per_round_def per_code_def)
  obtain s' bytes where e: "enc_loop s f (int (length f)) 0 0 = Some (s', bytes)" "coder_ok s'"
      "\<forall>b\<in>set bytes. 0 \<le> b \<and> b < 256" "length bytes * 2 = length f"
    using enc_loop_ok [OF assms(1) f(1), of 0 "int (length f)" 0] f(2) r by auto
  have s': "wideband s'" using enc_loop_format [OF e(1)] assms(2) by (simp add: wideband_def)
  obtain t' out where d: "dec_loop t bytes (int (length bytes)) 0 0 = Some (t', out)" "coder_ok t'" "list_all is_s16 out"
      "wideband t'" "length out = length f"
    using dec_loop_ok [OF assms(3) _ e(3), of 0 "int (length bytes)" 0] assms(4) r e(4)
    by (auto simp: half_ok_def wideband_def mult.commute)
  have "in_step s' t'"
    using enc_dec_loop [OF e(1) r(3) _ r(4) assms(5), of "[]" 0] assms(1) d(1) by (auto simp: coder_ok_def)
  moreover have "WebRtcG722_Encode s f (int (length f)) = Some (int (length bytes), s', bytes)"
    using e f(3) by (simp add: WebRtcG722_Encode_def WebRtc_g722_encode_def)
  moreover have "WebRtcG722_Decode t bytes (int (length bytes)) = Some (int (length f), 1, t', out)"
    using d f(3) by (simp add: WebRtcG722_Decode_def WebRtc_g722_decode_def G722_WEBRTC_SPEECH_def)
  ultimately show ?thesis using e(2) s' d by blast
qed

lemma session_ok:
  assumes "coder_ok s" "wideband s" "coder_ok t" "wideband t" "in_step s t" "\<forall>f\<in>set frames. frame_ok f"
  shows "\<exists>s' t' outs. G722_session s t frames = Some (s', t', outs) \<and> coder_ok s' \<and> coder_ok t' \<and> in_step s' t' \<and>
    map length outs = map length frames \<and> (\<forall>out\<in>set outs. list_all is_s16 out)"
  using assms
proof (induction frames arbitrary: s t)
  case (Cons f frames)
  obtain n s1 bytes t1 out where 1: "WebRtcG722_Encode s f (int (length f)) = Some (n, s1, bytes)"
      "WebRtcG722_Decode t bytes n = Some (int (length f), 1, t1, out)" "length out = length f" "list_all is_s16 out"
      "coder_ok s1" "wideband s1" "coder_ok t1" "wideband t1" "in_step s1 t1"
    using session_frame [OF Cons.prems(1-5), of f] Cons.prems(6) by auto
  obtain s' t' outs where "G722_session s1 t1 frames = Some (s', t', outs)" "coder_ok s'" "coder_ok t'" "in_step s' t'"
      "map length outs = map length frames" "\<forall>out\<in>set outs. list_all is_s16 out"
    using Cons.IH [OF 1(5-9)] Cons.prems(6) by auto
  then show ?case using 1 by simp
qed simp

text \<open>The state after initialisation at 64 kbit/s does not depend on the state before.\<close>

definition g722_start :: G722EncoderState where
  "g722_start = the (WebRtc_g722_encode_init None True 64000 2)"

lemma encode_init_start: "s \<noteq> None \<or> fresh \<Longrightarrow> WebRtc_g722_encode_init s fresh 64000 2 = Some g722_start"
  by (auto simp: g722_start_def WebRtc_g722_encode_init_def Let_def)

lemma g722_start_eq: "WebRtc_g722_encode_init None True 64000 2 = Some g722_start"
  by (simp add: encode_init_start)

lemma g722_start_fields: "packed g722_start = 0" "eight_k g722_start = 0" "itu_test_mode g722_start = 0" "bits_per_sample g722_start = 8"
  by (simp_all add: g722_start_def WebRtc_g722_encode_init_def Let_def zero_state_def G722_SAMPLE_RATE_8000_def)

text \<open>
  C7: Sessions of any length succeed.  After \<open>CreateEncoder\<close> and \<open>CreateDecoder\<close>, if their \<open>malloc\<close>
  succeeds, whatever the memory holds, \<open>EncoderInit\<close> and \<open>DecoderInit\<close> succeed, and every sequence
  of frames of an even number of samples, at most 32766, is coded and decoded without an access
  outside of a buffer.  Each frame gives as many samples as it had, the states keep their
  invariant (signals of 16 bits, stable poles, steps between the smallest and the largest), and
  at the end the decoder is in step with the encoder.
\<close>

theorem G722_session_in_step:
  assumes "\<forall>f\<in>set frames. frame_ok f"
  shows "\<exists>p q enc dec enc' dec' outs.
    WebRtcG722_CreateEncoder (Some mem) = (0, p) \<and> WebRtcG722_EncoderInit p fresh = (0, Some enc) \<and>
    WebRtcG722_CreateDecoder (Some mem') = (0, q) \<and> WebRtcG722_DecoderInit q fresh' = (0, Some dec) \<and>
    G722_session enc dec frames = Some (enc', dec', outs) \<and>
    coder_ok enc' \<and> coder_ok dec' \<and> in_step enc' dec' \<and>
    map length outs = map length frames \<and> (\<forall>out\<in>set outs. list_all is_s16 out)"
proof -
  have i: "WebRtcG722_CreateEncoder (Some mem) = (0, Some mem)" "WebRtcG722_EncoderInit (Some mem) fresh = (0, Some g722_start)"
      "WebRtcG722_CreateDecoder (Some mem') = (0, Some mem')" "WebRtcG722_DecoderInit (Some mem') fresh' = (0, Some g722_start)"
    using encode_init_start [of "Some mem" fresh] encode_init_start [of "Some mem'" fresh']
    by (simp_all add: WebRtcG722_CreateEncoder_def WebRtcG722_CreateDecoder_def WebRtcG722_EncoderInit_def
        WebRtcG722_DecoderInit_def decode_init_eq)
  have "coder_ok g722_start" "wideband g722_start" "in_step g722_start g722_start"
    using encode_init_ok [OF g722_start_eq] g722_start_fields by (simp_all add: wideband_def in_step_def)
  from session_ok [OF this(1,2,1,2,3) assms] i show ?thesis by blast
qed

text \<open>A NULL instance stays NULL, and the functions return 0.\<close>

lemma init_null_lost: "WebRtcG722_EncoderInit None True = (0, None) \<and> WebRtcG722_DecoderInit None True = (0, None)"
  by (simp add: WebRtcG722_EncoderInit_def WebRtcG722_DecoderInit_def decode_init_eq g722_start_eq)

text \<open>
  C22: The decoder is safe on every stream.  On any bytes, packed or not, at any rate, a decoder in a
  valid state stops, reads inside of the stream only, returns samples of 16 bits and keeps
  its invariant.
\<close>

theorem G722_decode_total:
  assumes "coder_ok t" "\<forall>b\<in>set data. 0 \<le> b \<and> b < 256" "0 \<le> len" "len \<le> int (length data)"
  shows "\<exists>n t' out. WebRtc_g722_decode t data len = Some (n, t', out) \<and> coder_ok t' \<and> list_all is_s16 out \<and>
    n = int (length out)"
proof -
  obtain t' out where "dec_loop t data len 0 0 = Some (t', out)" "coder_ok t'" "list_all is_s16 out"
    using dec_loop_ok [OF assms(1) _ assms(2,4), of 0 0] assms(3) by (auto simp: half_ok_def)
  then show ?thesis by (simp add: WebRtc_g722_decode_def)
qed

lemma enc_loop_odd:
  "\<lbrakk>per_round s = 2; odd (length amp - j); j \<le> length amp\<rbrakk> \<Longrightarrow> enc_loop s amp (int (length amp)) xhigh j = None"
proof (induction s amp "int (length amp)" xhigh j rule: enc_loop.induct)
  case (1 s amp xhigh j)
  have m: "itu_test_mode s = 0" "eight_k s = 0" using "1.prems"(1) by (simp_all add: per_round_def split: if_splits)
  have True: "int j < int (length amp)" using "1.prems"(2,3) by (cases "j = length amp") auto
  show ?case
  proof (cases "j + 1 < length amp")
    case False
    then have "enc_input s amp xhigh j = None" using m True by (simp add: enc_input_def word_at_def)
    then show ?thesis using True by (subst enc_loop.simps) simp
  next
    case in2: True
    obtain s1 xlow xhigh1 where i: "enc_input s amp xhigh j = Some (s1, xlow, xhigh1, j + 2)"
      using in2 m by (simp add: enc_input_def word_at_def Let_def)
    obtain code s2 where c: "enc_code xlow xhigh1 s1 = (code, s2)" by fastforce
    obtain out1 s3 where o: "enc_output code s2 = (out1, s3)" by fastforce
    have "per_round s3 = 2"
      using enc_output_same [OF o] enc_input_same [OF i] enc_code_format [OF c] "1.prems"(1)
      by (simp add: same_coder_def per_round_def)
    moreover have "odd (length amp - (j + 2))" using "1.prems"(2) in2 by (simp add: even_diff_nat)
    ultimately have "enc_loop s3 amp (int (length amp)) xhigh1 (j + 2) = None"
      using "1.hyps" [OF True i refl refl refl c [symmetric] o [symmetric]] in2 by simp
    then show ?thesis using True i c o by (subst enc_loop.simps) simp
  qed
qed

text \<open>
  C40: With an odd number of samples the encoder reads one sample beyond the end of the
  frame: two samples are taken in every round as long as one is left.
\<close>

theorem G722_odd_frame:
  assumes "per_round s = 2" "odd (length amp)"
  shows "WebRtc_g722_encode s amp (int (length amp)) = None"
  using enc_loop_odd [of s amp 0 0] assms by (simp add: WebRtc_g722_encode_def)

section \<open>The quantiser of the low band\<close>

text \<open>The level that the search returns: the first one above the magnitude.\<close>

lemma quantl_search_level:
  "i \<le> 30 \<Longrightarrow> (\<forall>k\<in>{1..<i}. shr (q6 ! k * det) 12 \<le> wd) \<Longrightarrow> 1 \<le> i \<Longrightarrow>
    (let m = quantl_search wd det i in 1 \<le> m \<and> m \<le> 30 \<and> (m < 30 \<longrightarrow> wd < shr (q6 ! m * det) 12) \<and>
      (\<forall>k\<in>{1..<m}. shr (q6 ! k * det) 12 \<le> wd))"
proof (induction wd det i rule: quantl_search.induct)
  case (1 wd det i)
  show ?case
  proof (cases "i < 30 \<and> shr (q6 ! i * det) 12 \<le> wd")
    case True
    then have "\<forall>k\<in>{1..<i + 1}. shr (q6 ! k * det) 12 \<le> wd" using "1.prems"(2) by (auto simp: less_Suc_eq)
    then show ?thesis using "1.IH" True by (subst quantl_search.simps) simp
  next
    case False
    then have "quantl_search wd det i = i" by (subst quantl_search.simps) auto
    then show ?thesis using "1.prems" False by (auto simp: Let_def not_le)
  qed
qed

text \<open>Levels, codes and values fit together: the value of a code is the middle of its interval.\<close>

lemma quantiser_table:
  "list_all (\<lambda>i. q6 ! (i - 1) < q6 ! i \<and> q6 ! i - q6 ! (i - 1) \<le> 362 \<and>
     \<bar>qm6 ! nat (ilp ! i) - 4 * (q6 ! (i - 1) + q6 ! i)\<bar> \<le> 4 \<and> qm6 ! nat (iln ! i) = - (qm6 ! nat (ilp ! i)))
   [1..<30]"
  by code_simp

lemma interval_middle:
  fixes a b r det wd :: int
  assumes "0 < det" "a * det div 4096 \<le> wd" "wd < b * det div 4096" "a < b" "b - a \<le> 362" "\<bar>r - 4 * (a + b)\<bar> \<le> 4"
  shows "4096 * \<bar>wd - det * r div 32768\<bar> \<le> 182 * det + 8192" "4096 * \<bar>(- wd - 1) - det * (- r) div 32768\<bar> \<le> 182 * det + 8192"
proof -
  define X Y R where "X = a * det" and "Y = b * det" and "R = det * r"
  have "\<bar>(r - 4 * (a + b)) * det\<bar> \<le> 4 * det" using assms(1,6) by (simp add: abs_mult)
  then have R: "R - 4 * (X + Y) \<le> 4 * det" "4 * (X + Y) - R \<le> 4 * det"
    by (auto simp: X_def Y_def R_def algebra_simps abs_le_iff)
  have "(b - a) * det \<le> 362 * det" "a * det \<le> b * det" using assms(1,4,5) by (simp_all add: mult_right_mono)
  then have XY: "Y - X \<le> 362 * det" "X \<le> Y" by (simp_all add: X_def Y_def algebra_simps)
  have wd: "X < 4096 * (wd + 1)" "4096 * (wd + 1) \<le> Y"
    using assms(2,3) div_less_iff [of 4096 X "wd + 1"] le_div_iff [of 4096 "wd + 1" Y]
    unfolding X_def [symmetric] Y_def [symmetric] by (simp_all add: algebra_simps)
  define Q Q' where "Q = R div 32768" and "Q' = (- R) div 32768"
  have Q: "32768 * Q \<le> R" "R < 32768 * Q + 32768" "32768 * Q' \<le> - R" "- R < 32768 * Q' + 32768"
    unfolding Q_def Q'_def by linarith+
  have "4096 * (wd - Q) \<le> 182 * det + 8192" using R XY wd Q assms(1) by (simp add: algebra_simps)
  moreover have "- (4096 * (wd - Q)) \<le> 182 * det + 8192" using R XY wd Q assms(1) by (simp add: algebra_simps)
  ultimately have "4096 * \<bar>wd - Q\<bar> \<le> 182 * det + 8192" by (simp add: abs_if)
  then show "4096 * \<bar>wd - det * r div 32768\<bar> \<le> 182 * det + 8192" by (simp add: Q_def R_def)
  have "4096 * (- wd - 1 - Q') \<le> 182 * det + 8192" using R XY wd Q assms(1) by (simp add: algebra_simps)
  moreover have "- (4096 * (- wd - 1 - Q')) \<le> 182 * det + 8192" using R XY wd Q assms(1) by (simp add: algebra_simps)
  ultimately have "4096 * \<bar>- wd - 1 - Q'\<bar> \<le> 182 * det + 8192" by (simp add: abs_if)
  then show "4096 * \<bar>(- wd - 1) - det * (- r) div 32768\<bar> \<le> 182 * det + 8192" by (simp add: Q'_def R_def)
qed

lemma quantl_error:
  assumes "0 < det" "\<bar>el\<bar> < shr (2919 * det) 12"
  shows "4096 * \<bar>el - det * qm6 ! nat (quantl det el) div 32768\<bar> \<le> 182 * det + 8192"
proof -
  define wd where "wd = (if el \<ge> 0 then el else - (el + 1))"
  define i where "i = quantl_search wd det 1"
  have q: "q6 ! 29 = 2919" "q6 ! 0 = 0" by (simp_all add: q6_def)
  have "0 \<le> wd" "wd \<le> \<bar>el\<bar>" by (auto simp: wd_def)
  then have wd: "0 \<le> wd" "wd < shr (q6 ! 29 * det) 12" using assms(2) unfolding q by linarith+
  have e1: "\<forall>k\<in>{1..<1 :: nat}. shr (q6 ! k * det) 12 \<le> wd" by simp
  have m: "1 \<le> i" "i \<le> 30" "i < 30 \<longrightarrow> wd < shr (q6 ! i * det) 12" "\<forall>k\<in>{1..<i}. shr (q6 ! k * det) 12 \<le> wd"
    using quantl_search_level [OF one_le_numeral e1 order_refl, unfolded Let_def, folded i_def] by blast+
  have "i \<noteq> 30"
  proof
    assume "i = 30"
    then have "29 \<in> {1..<i}" by simp
    from bspec [OF m(4) this] have "shr (q6 ! 29 * det) 12 \<le> wd" .
    then show False using wd(2) by (simp only: not_less [symmetric] simp_thms)
  qed
  then have i: "i < 30" "i \<in> set [1..<30]" using m(1,2) by simp_all
  have low: "shr (q6 ! (i - 1) * det) 12 \<le> wd"
  proof (cases "i = 1")
    case True
    then show ?thesis using wd(1) by (simp add: q(2))
  next
    case False
    then have "i - 1 \<in> {1..<i}" using m(1) by simp
    from bspec [OF m(4) this] show ?thesis .
  qed
  have t: "q6 ! (i - 1) < q6 ! i" "q6 ! i - q6 ! (i - 1) \<le> 362"
      "\<bar>qm6 ! nat (ilp ! i) - 4 * (q6 ! (i - 1) + q6 ! i)\<bar> \<le> 4" "qm6 ! nat (iln ! i) = - (qm6 ! nat (ilp ! i))"
    using bspec [OF quantiser_table [unfolded list_all_iff] i(2)] by blast+
  have top: "wd < q6 ! i * det div 4096" using m(3) i(1) by simp
  have low: "q6 ! (i - 1) * det div 4096 \<le> wd" using low by simp
  note e = interval_middle [OF assms(1) _ _ t(1-3), of wd]
  show ?thesis
  proof (cases "0 \<le> el")
    case True
    then have "quantl det el = ilp ! i" "wd = el" by (simp_all add: quantl_def Let_def i_def wd_def)
    then show ?thesis using e(1) [OF low top] by (simp only:)
  next
    case False
    then have "quantl det el = iln ! i" "el = - wd - 1" by (simp_all add: quantl_def Let_def i_def wd_def)
    then show ?thesis using e(2) [OF low top] by (simp only: t(4))
  qed
qed

text \<open>
  C23: The error of the low band at 64 kbit/s, in any valid state of the band and for any sample
  of 15 bits, the range of the decoder.  As long as the prediction error is inside of the range of the
  quantiser, the sample that the decoder reconstructs differs from the one
  of the encoder by at most 182/4096 of the step plus 2: the first part is half of the
  widest interval of the quantiser, the second covers the roundings.
\<close>

theorem G722_low_band_error:
  assumes "band_ok 32 18432 s" "\<bar>x - band_s s\<bar> < shr (2919 * band_det s) 12" "half_ok x"
  shows "4096 * \<bar>fst (dec_low i (qm6 ! nat (fst (enc_low x s))) s) - x\<bar> \<le> 182 * band_det s + 8192"
proof -
  define v where "v = shr (band_det s * qm6 ! nat (quantl (band_det s) (x - band_s s))) 15"
  have det: "0 < band_det s" "band_det s \<le> 16384" using assms(1) by (simp_all add: band_ok_def)
  then have "is_s16 (x - band_s s)" using assms(2) by (simp add: is_s16_def) linarith
  have "fst (dec_low i (qm6 ! nat (fst (enc_low x s))) s) = limit (band_s s + v)"
    using saturate_id [OF \<open>is_s16 (x - band_s s)\<close>] by (simp add: dec_low_def enc_low_def Let_def v_def)
  then have "4096 * \<bar>fst (dec_low i (qm6 ! nat (fst (enc_low x s))) s) - x\<bar> \<le> 4096 * \<bar>(x - band_s s) - v\<bar>"
    using assms(3) by (auto simp: limit_def half_ok_def)
  also have "\<dots> \<le> 182 * band_det s + 8192" using quantl_error [OF det(1) assms(2)] by (simp add: v_def)
  finally show ?thesis .
qed

text \<open>Witnesses.\<close>

theorem G722_low_band_error_witness:
  "4096 * \<bar>fst (dec_low 15 (qm6 ! nat (fst (enc_low 9 (zero_band\<lparr>band_det := 32\<rparr>)))) (zero_band\<lparr>band_det := 32\<rparr>)) - 9\<bar>
    \<le> 182 * band_det (zero_band\<lparr>band_det := 32\<rparr>) + 8192"
  by (rule G722_low_band_error) (simp_all add: zero_band_ok, simp_all add: zero_band_def half_ok_def)

theorem G722_odd_frame_witness: "WebRtc_g722_encode zero_state [5, 6, 7] 3 = None"
  using G722_odd_frame [of zero_state "[5, 6, 7]"] by (simp add: per_round_def zero_state_def)

theorem G722_decode_total_witness:
  "\<exists>n t' out. WebRtc_g722_decode g722_start [0, 255, 17] 3 = Some (n, t', out) \<and> coder_ok t' \<and> list_all is_s16 out \<and>
    n = int (length out)"
  by (rule G722_decode_total) (simp_all add: encode_init_ok [OF g722_start_eq])

theorem G722_session_in_step_witness:
  "\<exists>p q enc dec enc' dec' outs.
    WebRtcG722_CreateEncoder (Some (zero_state\<lparr>packed := 5\<rparr>)) = (0, p) \<and> WebRtcG722_EncoderInit p False = (0, Some enc) \<and>
    WebRtcG722_CreateDecoder (Some zero_state) = (0, q) \<and> WebRtcG722_DecoderInit q False = (0, Some dec) \<and>
    G722_session enc dec [[100, -200], [], [32767, -32768, 5, 6]] = Some (enc', dec', outs) \<and>
    coder_ok enc' \<and> coder_ok dec' \<and> in_step enc' dec' \<and>
    map length outs = map length [[100, -200], [], [32767, -32768, 5, 6 :: int]] \<and> (\<forall>out\<in>set outs. list_all is_s16 out)"
  by (rule G722_session_in_step) (simp_all add: frame_ok_def is_s16_def)

theorem G722_synchrony_witness:
  "\<exists>n s' bytes t' out. WebRtc_g722_encode g722_start [100, -200] 2 = Some (n, s', bytes) \<and>
    WebRtc_g722_decode g722_start bytes n = Some (int (per_code g722_start) * n, t', out) \<and> in_step s' t'"
proof -
  have f: "per_round g722_start = 2" "packed g722_start = 0" "bits_per_sample g722_start \<in> {6, 7, 8}"
    by (simp_all add: g722_start_def WebRtc_g722_encode_init_def Let_def zero_state_def per_round_def
        G722_SAMPLE_RATE_8000_def)
  obtain s' bytes where "enc_loop g722_start [100, -200] 2 0 0 = Some (s', bytes)"
    using enc_loop_ok [OF encode_init_ok [OF g722_start_eq], of "[100, -200]" 0 2 0] f by (auto simp: is_s16_def)
  then have "WebRtc_g722_encode g722_start [100, -200] 2 = Some (int (length bytes), s', bytes)"
    by (simp add: WebRtc_g722_encode_def)
  then show ?thesis using G722_synchrony [OF _ f(2,3,2)] by (fastforce simp: in_step_def)
qed

end
