(* ===== verification/G722Packed.thy ===== *)
theory G722Packed
  imports G722Sync
begin

text \<open>
  The packed streams of G.722 at 56 and 48 kbit/s: codes of 7 or 6 bits cross the boundaries of
  bytes.  A packed stream is decoded as the stream of the same codes that is not packed,
  but for the codes that wait in the buffers of decoder and encoder at the end of a call.
\<close>

section \<open>Digits\<close>







section \<open>The same coder without packing\<close>

definition plain :: "G722EncoderState \<Rightarrow> G722EncoderState" where
  "plain s = s\<lparr>packed := 0, in_buffer := 0, in_bits := 0, out_buffer := 0, out_bits := 0\<rparr>"

lemma plain_simps [simp]:
  "band0 (plain s) = band0 s" "band1 (plain s) = band1 s" "qmf_x (plain s) = qmf_x s" "eight_k (plain s) = eight_k s"
  "bits_per_sample (plain s) = bits_per_sample s" "itu_test_mode (plain s) = itu_test_mode s" "packed (plain s) = 0"
  by (simp_all add: plain_def)






section \<open>The encoder\<close>






section \<open>The decoder\<close>





section \<open>Packed streams\<close>











end
