(* ===== verification/Spec2Isabelle.thy ===== *)
theory Spec2Isabelle
  imports SplVector WebRtcVad RingBuffer ByteRing FramesQueue WavIO IsacSpecTrip G711 Pcm16b IlbcRoundTrip G722Packed
begin

text \<open>
  \<^bold>\<open>The program.\<close>  The repository collects audio signal processing code: a port of the audio
  processing modules of WebRTC (\<open>src/WebRtc_AMP_Port/webrtc\<close>), buffer management and WAV
  file routines of its own (\<open>src/common\<close>), and demonstration programs around them.  This
  development models the fixed-point C code that makes decisions about audio and the C code
  that moves audio between components:

  \<^item> \<^bold>\<open>Signal processing library\<close> (\<open>common_audio/signal_processing\<close>).  \<open>SplArith\<close>: saturation,
    normalisation, division, energy, square roots.  \<open>SplVector\<close>: searches, copies, scaling,
    dot products, correlation, random numbers.  \<open>SplResample\<close>: by-two and fractional
    resampling filters and the 48 kHz conversions.
  \<^item> \<^bold>\<open>Voice activity detector\<close> (\<open>common_audio/vad\<close>).  \<open>VadInst\<close>: the structure \<open>VadInstT\<close>,
    initialisation and modes (\<open>vad_core.c\<close>).  \<open>VadSp\<close>: downsampling and minimum tracking
    (\<open>vad_sp.c\<close>).  \<open>VadGmm\<close>: the Gaussian (\<open>vad_gmm.c\<close>).  \<open>VadFilterbank\<close>: band energies
    (\<open>vad_filterbank.c\<close>).  \<open>VadCore\<close>: likelihood-ratio decision, model update, hangover and
    the entry points per sampling rate (\<open>vad_core.c\<close>).  \<open>WebRtcVad\<close>: the interface and the
    detector as a state machine (\<open>webrtc_vad.c\<close>).
  \<^item> \<^bold>\<open>Buffers.\<close>  \<open>ByteMem\<close>: blocks of memory with checked accesses, a heap of blocks, the
    contracts \<open>fifo\<close> and \<open>exact_fifo\<close> of a queue.  \<open>RingBuffer\<close>: \<open>common_audio/ring_buffer.c\<close>.  \<open>ByteRing\<close>:
    \<open>common/BufferManager/ring_buf.c\<close>.  \<open>FramesQueue\<close>: \<open>common/BufferManager/frames_queue.c\<close>.
  \<^item> \<^bold>\<open>WAV files.\<close>  \<open>WavIO\<close>: \<open>common/wav_parser/wav_io.c\<close>.
  \<^item> \<^bold>\<open>Speech codecs\<close> (\<open>modules/audio_coding/codecs\<close>).  \<open>Bits\<close>: bytes and 16-bit words of
    a bitstream.  \<open>G711\<close>: u-law, A-law and the buffer functions (\<open>g711.h\<close>, \<open>g711.c\<close>,
    \<open>g711_interface.c\<close>).  \<open>Pcm16b\<close>: \<open>pcm16b.c\<close>.  \<open>IsacArith\<close>: the range coder of fixed-point
    iSAC (\<open>arith_routines.c\<close>, \<open>arith_routines_hist.c\<close>); \<open>IsacLossless\<close> and
    \<open>IsacRoundTrip\<close>: encoder and decoders against each other.  \<open>IsacLogist\<close>: its logistic
    coder (\<open>arith_routines_logist.c\<close>); \<open>IsacLogistic\<close>: clipping, search and round trip.
    \<open>SplLpc\<close>: reflection coefficients (\<open>auto_corr_to_refl_coef.c\<close>, \<open>refl_coef_to_lpc.c\<close>);
    \<open>IsacSpectrum\<close>: the spectrum of iSAC with its dither, envelope and gain
    (\<open>entropy_coding.c\<close>, \<open>spectrum_ar_model_tables.c\<close>); \<open>IsacSpecTrip\<close>: its round trip.  \<open>IlbcPack\<close>: the bitstream of
    iLBC (\<open>pack_bits.c\<close>, \<open>unpack_bits.c\<close>); \<open>IlbcRoundTrip\<close>: its round trip.  \<open>G722\<close>: the
    sub-band ADPCM codec (\<open>g722_encode.c\<close>, \<open>g722_decode.c\<close>, \<open>g722_interface.c\<close>); \<open>G722Sync\<close>:
    invariant and agreement of encoder and decoder; \<open>G722Packed\<close>: packed streams.

  A client reads a WAV file, queues its frames and feeds them to the detector:
  \<open>WebRtcVad_Process\<close> checks rate and length, resamples to 8 kHz with \<open>SplResample\<close>
  (48 kHz) or \<open>WebRtcVad_Downsampling\<close> (32 and 16 kHz), \<open>WebRtcVad_CalculateFeatures\<close>
  splits the frame into six bands and takes logarithmic energies with \<open>WebRtcSpl_Energy\<close>,
  and \<open>GmmProbability\<close> decides and adapts the Gaussian mixtures of noise and speech, whose
  means are pulled to the minima that \<open>WebRtcVad_FindMinimum\<close> keeps.

  \<^bold>\<open>Correspondence.\<close>  Definitions carry the names of the C functions.  A structure is a record
  with the member names of the code, an array a list, a machine integer an \<^typ>\<open>int\<close> with a
  conversion (\<open>s16\<close>, \<open>s32\<close>, \<open>u16\<close>, \<open>u32\<close> of \<open>Prelude\<close>) at every store, cast and operation
  that may leave its width, \<open>size_t\<close> a \<^typ>\<open>nat\<close> with reductions modulo 2^64, a pointer
  that may be NULL an option.  Output parameters and in-place updates are results.  Long C
  functions are compositions of one definition per part of their body, in the order of the
  code.  In the theories of buffers and files an access outside of a block is None, so
  that "the result is \<open>Some\<close>" is memory safety.  The results of \<open>malloc\<close> are arguments.

  \<^bold>\<open>What the lemmas show.\<close>
  \<^item> Arithmetic: each scalar routine equals its mathematical meaning on the range where the
    code uses it, and where it does not (an energy with -32768, a denominator above 2^30)
    the deviation is a theorem.
  \<^item> Filters: block-by-block processing equals processing the whole signal (locale
    \<open>block_filter\<close>), accumulators do not overflow (locale \<open>filter_section\<close>), overlapping
    scratch memory and in-place operation do not matter.
  \<^item> Detector: the invariant \<open>vad_inv\<close> (array lengths, sorted minima, ranges of counters,
    energies and standard deviations) holds in every state a client can reach, every call
    answers as documented, the decision is the likelihood-ratio test, the hangover decays.
  \<^item> Buffers: simulation of the ring buffer by a tape, the law of a queue for every sequence
    of calls (locale \<open>fifo\<close>, interpreted for the ring buffer), the frame queue as a bounded queue
    (locale \<open>exact_fifo\<close>) with what is left of it when \<open>malloc\<close> fails, the
    exact behaviour of the byte ring with its defect at the end of the block.
  \<^item> WAV: the identifier search, safe header parsing, round trips of headers and samples.
  \<^item> Codecs: u-law and A-law invert on every code and err by at most half a step, both are
    monotone; PCM and the iLBC parameters survive packing and unpacking; both iSAC decoders
    (one step at a time, bisection) return the symbols that were encoded, by one proof over
    the contract \<open>symbol_decoder\<close>, as long as the stream did not overflow.  The logistic coder
    finds exactly the samples whose neighbours on the way can be told apart, and spends \<open>b\<close> bits on
    a sample of probability \<open>2^-b\<close>; the relation \<open>in_step\<close> of two streams composes the
    coders to the round trip of a whole spectrum.  In G.722 the decoder
    reaches the bands of the encoder after every call, the poles of the predictors stay
    stable, and packed streams lose nothing: the codes that a call does not deliver stay in flight
    (\<open>in_flight\<close>) until the next one.

  \<^bold>\<open>Bounds and termination.\<close>  Every loop is a structural recursion over a list or a counter
  taken from the code (the 16 entries of the minimum window, 31 quotient bits, 16 root bits),
  or a function with a measure (the identifier search); no fuel is used.  The loops of the
  logistic coder that need not end are partial functions, and None is not returning.  Positions and
  counts of the ring buffer are below 2^30, so that its \<open>int\<close> computations are exact.

  \<^bold>\<open>Not modelled.\<close>  Floating-point code (the AEC, float noise suppression, high-pass filter,
  block-thresholding denoiser: HOL has no IEEE arithmetic among the imported theories), C++
  modules, the fixed-point modules besides (AECM, AGC, noise suppression \<open>nsx\<close>, delay
  estimator, comfort noise, the analysis and synthesis of iLBC and iSAC, the coders of the
  pitch, LPC and bandwidth parameters of iSAC, further SPL routines), assembly, NEON and MIPS variants of routines whose C version is modelled, vendored
  libraries (FFTW, soxr, jansson, kiss_fft), printing, and the deallocation functions that
  are single calls of \<open>free\<close>.  Mutexes have no effect on the sequence of calls of a thread.
\<close>

end
